(* ===== verification/Prelude.thy ===== *)
theory Prelude
  imports Main "HOL-Library.Sublist" "HOL-Library.Char_ord" "HOL-Library.List_Lexorder"
begin

text \<open>
  Shared vocabulary of the development.

  Go strings and byte slices are byte sequences. A byte is HOL's \<open>char\<close> (exactly the
  256 values of a Go \<open>byte\<close>), so a Go string or \<open>[]byte\<close> is a \<open>char list\<close> and a
  literal is written \<open>''abc''\<close>. Comparison of bytes and of strings is the order of
  \<open>Char_ord\<close> and \<open>List_Lexorder\<close>, which is Go's.

  The theory holds the helpers of Go's \<open>strings\<close> and \<open>bytes\<close> packages that
  several components call, ASCII case folding, and generic list facts. The collection
  \<open>go_defs\<close> holds the definitions that may be unfolded freely.
\<close>

type_synonym byte = char
type_synonym bytes = "char list"

named_theorems go_defs "definitions of small Go helpers, safe to unfold"

section \<open>Bytes and ASCII case folding\<close>

definition ascii_lower :: "byte \<Rightarrow> byte" where
  "ascii_lower b =
     (if CHR ''A'' \<le> b \<and> b \<le> CHR ''Z'' then char_of (of_char b + 32 :: nat) else b)"

lemma byte_upper_range: "CHR ''A'' \<le> b \<and> b \<le> CHR ''Z'' \<longleftrightarrow> 65 \<le> (of_char b :: nat) \<and> (of_char b :: nat) \<le> 90"
  by (simp add: less_eq_char_def)

lemma ascii_lower_idem [simp]: "ascii_lower (ascii_lower b) = ascii_lower b"
proof (cases "CHR ''A'' \<le> b \<and> b \<le> CHR ''Z''")
  case True
  then have r: "65 \<le> (of_char b :: nat)" "(of_char b :: nat) \<le> 90"
    by (simp_all add: byte_upper_range)
  then have "of_char (ascii_lower b) = (of_char b + 32 :: nat)"
    using True by (simp add: ascii_lower_def)
  with r have "\<not> (CHR ''A'' \<le> ascii_lower b \<and> ascii_lower b \<le> CHR ''Z'')"
    unfolding byte_upper_range by simp
  then show ?thesis unfolding ascii_lower_def [of "ascii_lower b"] by (rule if_not_P)
next
  case False
  then have "ascii_lower b = b" unfolding ascii_lower_def by (rule if_not_P)
  then show ?thesis by simp
qed

definition all_bytes :: "byte list" where
  "all_bytes = map char_of [0..<256::nat]"

lemma set_all_bytes [simp]: "set all_bytes = UNIV"
proof -
  have "b \<in> set all_bytes" for b :: char
    unfolding all_bytes_def set_map
    by (rule image_eqI [of _ _ "of_char b"]) (simp_all add: nat_of_char_less_256)
  then show ?thesis by blast
qed

lemma distinct_all_bytes [simp]: "distinct all_bytes"
  unfolding all_bytes_def distinct_map using inj_on_char_of_nat by simp

section \<open>Go's string helpers\<close>

text \<open>\<open>strings.HasPrefix\<close>, \<open>strings.HasSuffix\<close> and \<open>strings.Contains\<close>.\<close>

definition hasPrefix :: "bytes \<Rightarrow> bytes \<Rightarrow> bool" where
  "hasPrefix s p \<longleftrightarrow> take (length p) s = p"

definition hasSuffix :: "bytes \<Rightarrow> bytes \<Rightarrow> bool" where
  "hasSuffix s p \<longleftrightarrow> length p \<le> length s \<and> drop (length s - length p) s = p"

definition contains :: "bytes \<Rightarrow> bytes \<Rightarrow> bool" where
  "contains s p \<longleftrightarrow> sublist p s"

lemma hasPrefix_prefix: "hasPrefix s p \<longleftrightarrow> prefix p s"
  unfolding hasPrefix_def prefix_def by (metis append_eq_conv_conj append_take_drop_id)

lemma hasSuffix_suffix: "hasSuffix s p \<longleftrightarrow> suffix p s"
proof
  assume "hasSuffix s p"
  then show "suffix p s" by (metis hasSuffix_def suffix_drop)
next
  assume "suffix p s"
  then obtain q where "s = q @ p" by (auto simp: suffix_def)
  then show "hasSuffix s p" by (simp add: hasSuffix_def)
qed

text \<open>\<open>bytes.Index\<close>: the offset of the first occurrence of \<open>p\<close>, \<open>None\<close> for -1.\<close>

fun goIndex :: "bytes \<Rightarrow> bytes \<Rightarrow> nat option" where
  "goIndex [] p = (if p = [] then Some 0 else None)"
| "goIndex (c # s) p =
     (if take (length p) (c # s) = p then Some 0 else map_option Suc (goIndex s p))"

text \<open>An occurrence of \<open>p\<close> in \<open>s\<close> at offset \<open>i\<close>.\<close>

definition occurs_at :: "bytes \<Rightarrow> bytes \<Rightarrow> nat \<Rightarrow> bool" where
  "occurs_at p s i \<longleftrightarrow> i + length p \<le> length s \<and> take (length p) (drop i s) = p"

lemma occurs_at_0: "occurs_at p s 0 \<longleftrightarrow> take (length p) s = p"
  by (auto simp: occurs_at_def) (metis length_take min.cobounded1)

lemma occurs_at_Suc: "occurs_at p (c # s) (Suc i) \<longleftrightarrow> occurs_at p s i"
  by (simp add: occurs_at_def)

lemma occurs_at_contains: "(\<exists>i. occurs_at p s i) \<longleftrightarrow> contains s p"
proof
  assume "\<exists>i. occurs_at p s i"
  then obtain i where "take (length p) (drop i s) = p" by (auto simp: occurs_at_def)
  then have "s = take i s @ p @ drop (length p) (drop i s)"
    by (metis append_take_drop_id)
  then show "contains s p" unfolding contains_def sublist_def by blast
next
  assume "contains s p"
  then obtain u v where s: "s = u @ p @ v" by (auto simp: contains_def sublist_def)
  then have "occurs_at p s (length u)" by (simp add: occurs_at_def)
  then show "\<exists>i. occurs_at p s i" ..
qed

lemma goIndex_Some:
  "goIndex s p = Some i \<longleftrightarrow> occurs_at p s i \<and> (\<forall>j<i. \<not> occurs_at p s j)"
proof (induction s p arbitrary: i rule: goIndex.induct)
  case (1 p)
  then show ?case by (auto simp: occurs_at_def)
next
  case (2 c s p)
  show ?case
  proof (cases "take (length p) (c # s) = p")
    case True
    then have "occurs_at p (c # s) 0" by (simp add: occurs_at_0)
    then show ?thesis using True by (cases i) auto
  next
    case False
    then have no: "\<not> occurs_at p (c # s) 0" by (simp add: occurs_at_0)
    show ?thesis
    proof (cases i)
      case 0
      with False no show ?thesis by auto
    next
      case (Suc k)
      with False no 2 [of k] show ?thesis
        by (auto simp: occurs_at_Suc less_Suc_eq_0_disj)
    qed
  qed
qed

lemma goIndex_None: "goIndex s p = None \<longleftrightarrow> (\<forall>i. \<not> occurs_at p s i)"
proof (induction s p rule: goIndex.induct)
  case (1 p)
  then show ?case by (auto simp: occurs_at_def)
next
  case (2 c s p)
  show ?case
  proof (cases "take (length p) (c # s) = p")
    case True
    then show ?thesis using occurs_at_0 by auto
  next
    case False
    then have no: "\<not> occurs_at p (c # s) 0" by (simp add: occurs_at_0)
    have "(\<forall>i. \<not> occurs_at p (c # s) i) \<longleftrightarrow> (\<forall>i. \<not> occurs_at p s i)"
      using no by (metis not0_implies_Suc occurs_at_Suc)
    with False 2 show ?thesis by simp
  qed
qed

lemma occurs_at_single: "occurs_at [c] s i \<longleftrightarrow> i < length s \<and> s ! i = c"
proof (cases "i < length s")
  case True
  then have "take 1 (drop i s) = [s ! i]" by (metis Cons_nth_drop_Suc One_nat_def take0 take_Suc_Cons)
  with True show ?thesis by (auto simp: occurs_at_def)
qed (simp add: occurs_at_def)

lemma goIndex_single_None: "goIndex s [c] = None \<longleftrightarrow> c \<notin> set s"
  by (auto simp: goIndex_None occurs_at_single in_set_conv_nth)

lemma goIndex_single_Some:
  "goIndex s [c] = Some k \<longleftrightarrow> k < length s \<and> s ! k = c \<and> c \<notin> set (take k s)"
  by (auto simp: goIndex_Some occurs_at_single in_set_conv_nth)

section \<open>Option and list facts shared by the components\<close>

lemma list_all2_right: "list_all2 P xs ys \<Longrightarrow> y \<in> set ys \<Longrightarrow> \<exists>x\<in>set xs. P x y"
  by (induction xs ys rule: list_all2_induct) auto

lemma foldl_invariant:
  assumes "I a" and "\<And>a x. x \<in> set xs \<Longrightarrow> I a \<Longrightarrow> I (f a x)"
  shows "I (foldl f a xs)"
  using assms by (induction xs arbitrary: a) auto

lemma suffix_tl_iff: "w \<noteq> [] \<Longrightarrow> suffix q (tl w) \<longleftrightarrow> suffix q w \<and> q \<noteq> w"
  by (cases w) (auto simp: suffix_Cons dest: suffix_length_le)

lemma sorted_map_const: "(\<And>x. x \<in> set xs \<Longrightarrow> f x = k) \<Longrightarrow> sorted (map f xs)"
  by (induction xs) auto

lemma find_map_same: "(\<And>x. P (f x) = P x) \<Longrightarrow> find P (map f xs) = map_option f (find P xs)"
  by (induction xs) auto

lemma find_SomeD: "find P xs = Some x \<Longrightarrow> P x \<and> x \<in> set xs"
  by (auto simp: find_Some_iff in_set_conv_nth)

section \<open>Sequencing computations that may fail\<close>

definition andThen :: "'e + 'a \<Rightarrow> ('a \<Rightarrow> 'e + 'b) \<Rightarrow> 'e + 'b" where
  "andThen r f = (case r of Inl e \<Rightarrow> Inl e | Inr x \<Rightarrow> f x)"

lemma andThen_simps [simp]: "andThen (Inl e) f = Inl e" "andThen (Inr x) f = f x"
  by (simp_all add: andThen_def)

lemma andThen_Inr [simp]: "andThen r f = Inr y \<longleftrightarrow> (\<exists>x. r = Inr x \<and> f x = Inr y)"
  by (cases r) simp_all

lemma andThen_Inl: "andThen r f = Inl e \<longleftrightarrow> r = Inl e \<or> (\<exists>x. r = Inr x \<and> f x = Inl e)"
  by (cases r) simp_all

lemma andThen_cong [fundef_cong]:
  "r = r' \<Longrightarrow> (\<And>x. r' = Inr x \<Longrightarrow> f x = g x) \<Longrightarrow> andThen r f = andThen r' g"
  by (cases r') simp_all

end
