(* ===== verification/PhpLexer.thy ===== *)
theory PhpLexer
  imports Prelude
begin

text \<open>
  The PHP lexer of the agent (\<open>agent/phplex.go\<close>): the code view, in which comments and
  the contents of string literals are blanked to spaces, the spans of both, the view with only
  the comments blanked that the YARA engine is given, and the chains of literals joined by dots.

  Offsets are natural numbers into the source. The inner loops of \<open>lexPHP\<close> look at the
  rest of the source and return how many bytes they pass over.
\<close>

section \<open>Views\<close>

record span =
  sp_start :: nat
  sp_end :: nat

record phpView =
  v_code :: bytes
  v_strs :: "span list"
  v_comments :: "span list"
  v_hasOpenTag :: bool
  v_hasBacktick :: bool
  v_heredocs :: nat

abbreviation mkSpan :: "nat \<Rightarrow> nat \<Rightarrow> span" where
  "mkSpan s e \<equiv> \<lparr>sp_start = s, sp_end = e\<rparr>"

abbreviation newline :: byte where "newline \<equiv> CHR 0x0A"
abbreviation space :: byte where "space \<equiv> CHR '' ''"

text \<open>\<open>blank\<close>: the bytes from \<open>f\<close> up to \<open>t\<close>, newlines kept.\<close>

definition blankByte :: "byte \<Rightarrow> byte" where
  "blankByte b = (if b \<noteq> newline then space else b)"

definition blankRange :: "(byte \<Rightarrow> byte) \<Rightarrow> nat \<Rightarrow> nat \<Rightarrow> bytes \<Rightarrow> bytes" where
  "blankRange bl f t code = take f code @ map bl (take (t - f) (drop f code)) @ drop (max f t) code"

definition blank :: "nat \<Rightarrow> nat \<Rightarrow> phpView \<Rightarrow> phpView" where
  "blank f t v = v\<lparr>v_code := blankRange blankByte f t (v_code v)\<rparr>"

definition addStr :: "nat \<Rightarrow> nat \<Rightarrow> phpView \<Rightarrow> phpView" where
  "addStr s e v = blank s e (v\<lparr>v_strs := v_strs v @ [mkSpan s e]\<rparr>)"

definition addComment :: "nat \<Rightarrow> nat \<Rightarrow> phpView \<Rightarrow> phpView" where
  "addComment s e v = blank s e (v\<lparr>v_comments := v_comments v @ [mkSpan s e]\<rparr>)"

section \<open>Inner loops\<close>

definition byteAt :: "bytes \<Rightarrow> nat \<Rightarrow> byte \<Rightarrow> bool" where
  "byteAt src i c \<longleftrightarrow> i < length src \<and> src ! i = c"

definition isIdentByte :: "byte \<Rightarrow> bool" where
  "isIdentByte c \<longleftrightarrow> c = CHR ''_'' \<or> (CHR ''a'' \<le> c \<and> c \<le> CHR ''z'') \<or>
     (CHR ''A'' \<le> c \<and> c \<le> CHR ''Z'') \<or> (CHR ''0'' \<le> c \<and> c \<le> CHR ''9'')"

text \<open>A line comment ends before a newline or a close tag.\<close>

fun lineCommentLen :: "bytes \<Rightarrow> nat" where
  "lineCommentLen [] = 0"
| "lineCommentLen (c # r) =
     (if c = newline then 0
      else if c = CHR ''?'' \<and> byteAt r 0 (CHR ''>'') then 0
      else Suc (lineCommentLen r))"

text \<open>The rest of a block comment after its opening, the closing included.\<close>

fun blockCommentLen :: "bytes \<Rightarrow> nat" where
  "blockCommentLen (a # b # r) =
     (if a = CHR ''*'' \<and> b = CHR ''/'' then 2 else Suc (blockCommentLen (b # r)))"
| "blockCommentLen r = length r"

text \<open>The content of a literal quoted by \<open>q\<close>, a backslash passing over two bytes.\<close>

fun quotedLen :: "byte \<Rightarrow> bytes \<Rightarrow> nat" where
  "quotedLen q (c # d # r) =
     (if c = CHR 0x5C then 2 + quotedLen q r
      else if c = q then 0
      else Suc (quotedLen q (d # r)))"
| "quotedLen q [c] = (if c = q then 0 else 1)"
| "quotedLen q [] = 0"

definition countWhile :: "(byte \<Rightarrow> bool) \<Rightarrow> bytes \<Rightarrow> nat" where
  "countWhile P r = length (takeWhile P r)"

definition isBlankByte :: "byte \<Rightarrow> bool" where
  "isBlankByte c \<longleftrightarrow> c = space \<or> c = CHR 0x09"

text \<open>The terminating label of a heredoc.\<close>

function heredocLoop :: "bytes \<Rightarrow> bytes \<Rightarrow> nat \<Rightarrow> nat" where
  "heredocLoop src label i =
     (if i < length src then
        (case goIndex (drop i src) [newline] of
           None \<Rightarrow> length src
         | Some nl \<Rightarrow>
             (let lineStart = i + nl + 1;
                  j = lineStart + countWhile isBlankByte (drop lineStart src);
                  after = j + length label
              in if hasPrefix (drop j src) label \<and>
                    (after \<ge> length src \<or> \<not> isIdentByte (src ! after))
                 then after
                 else heredocLoop src label lineStart))
      else length src)"
  by pat_completeness auto
termination by (relation "measure (\<lambda>(src, label, i). length src - i)") auto

definition findHeredocEnd :: "bytes \<Rightarrow> nat \<Rightarrow> bytes \<Rightarrow> nat" where
  "findHeredocEnd src f label = (if label = [] then length src else heredocLoop src label f)"

declare heredocLoop.simps [simp del]

text \<open>The body of a heredoc whose \<open><<<\<close> stands at \<open>i\<close>: where it starts and ends.\<close>

definition heredocSpan :: "bytes \<Rightarrow> nat \<Rightarrow> span" where
  "heredocSpan src i =
     (let j0 = i + 3 + countWhile isBlankByte (drop (i + 3) src);
          quote = (if byteAt src j0 (CHR 0x27) then Some (CHR 0x27)
                   else if byteAt src j0 (CHR 0x22) then Some (CHR 0x22) else None);
          idStart = (if quote = None then j0 else Suc j0);
          j1 = idStart + countWhile isIdentByte (drop idStart src);
          label = take (j1 - idStart) (drop idStart src);
          j2 = (case quote of Some q \<Rightarrow> if byteAt src j1 q then Suc j1 else j1 | None \<Rightarrow> j1);
          bodyStart = j2 + countWhile (\<lambda>c. c \<noteq> newline) (drop j2 src)
      in mkSpan bodyStart (findHeredocEnd src bodyStart label))"

section \<open>The lexer\<close>

text \<open>The length of an opening tag.\<close>

definition openTagLen :: "bytes \<Rightarrow> nat" where
  "openTagLen r = (if hasPrefix r ''<?php'' then 5 else if hasPrefix r ''<?='' then 3 else 2)"

text \<open>
  One step inside PHP at offset \<open>i\<close>: the new offset, whether the lexer is still inside PHP,
  and the view.
\<close>

definition lexStep :: "bytes \<Rightarrow> nat \<Rightarrow> phpView \<Rightarrow> nat \<times> bool \<times> phpView" where
  "lexStep src i v =
     (let c = src ! i
      in if c = CHR ''?'' \<and> byteAt src (i + 1) (CHR ''>'') then (i + 2, False, v)
         else if c = CHR ''/'' \<and> byteAt src (i + 1) (CHR ''/'') \<or>
                 c = CHR ''#'' \<and> \<not> byteAt src (i + 1) (CHR ''['') then
           (let e = i + lineCommentLen (drop i src) in (e, True, addComment i e v))
         else if c = CHR ''/'' \<and> byteAt src (i + 1) (CHR ''*'') then
           (let e = i + 2 + blockCommentLen (drop (i + 2) src) in (e, True, addComment i e v))
         else if c = CHR 0x27 then
           (let e = i + 1 + quotedLen (CHR 0x27) (drop (i + 1) src) in (e + 1, True, addStr (i + 1) e v))
         else if c = CHR 0x22 then
           (let e = i + 1 + quotedLen (CHR 0x22) (drop (i + 1) src) in (e + 1, True, addStr (i + 1) e v))
         else if c = CHR 0x60 then
           (let e = i + 1 + countWhile (\<lambda>b. b \<noteq> CHR 0x60) (drop (i + 1) src)
            in (e + 1, True, addStr (i + 1) e (v\<lparr>v_hasBacktick := True\<rparr>)))
         else if hasPrefix (drop i src) ''<<<'' then
           (let sp = heredocSpan src i
            in (sp_end sp, True,
                addStr (sp_start sp) (sp_end sp) (v\<lparr>v_heredocs := v_heredocs v + 1\<rparr>)))
         else (i + 1, True, v))"

lemma countWhile_le: "countWhile P r \<le> length r"
  by (simp add: countWhile_def length_takeWhile_le)

lemma goIndex_less: "goIndex s [c] = Some k \<Longrightarrow> k < length s"
  by (simp add: goIndex_single_Some)

lemma hasPrefix_length: "hasPrefix s p \<Longrightarrow> length p \<le> length s"
  by (metis hasPrefix_prefix prefix_length_le)

lemma heredocLoop_bounds: "i \<le> length src \<Longrightarrow> i \<le> heredocLoop src label i \<and> heredocLoop src label i \<le> length src"
proof (induction src label i rule: heredocLoop.induct)
  case (1 src label i)
  show ?case
  proof (cases "i < length src")
    case True
    show ?thesis
    proof (cases "goIndex (drop i src) [newline]")
      case None
      with True show ?thesis by (subst (1 2) heredocLoop.simps) simp
    next
      case (Some nl)
      define ls where "ls = i + nl + 1"
      define j where "j = ls + countWhile isBlankByte (drop ls src)"
      have ls: "ls \<le> length src" using goIndex_less [OF Some] True by (simp add: ls_def)
      have j: "j \<le> length src" using countWhile_le [of isBlankByte "drop ls src"] ls by (simp add: j_def)
      have step: "heredocLoop src label i =
          (if hasPrefix (drop j src) label \<and> (j + length label \<ge> length src \<or> \<not> isIdentByte (src ! (j + length label)))
           then j + length label else heredocLoop src label ls)"
        unfolding ls_def j_def heredocLoop.simps [of src label i] using True Some
        by (simp only: if_True option.case Let_def)
      have IH: "\<not> (hasPrefix (drop j src) label \<and>
          (j + length label \<ge> length src \<or> \<not> isIdentByte (src ! (j + length label)))) \<Longrightarrow>
          ls \<le> heredocLoop src label ls \<and> heredocLoop src label ls \<le> length src"
        using 1(1) [OF True Some] ls by (simp add: ls_def j_def Let_def)
      show ?thesis
      proof (cases "hasPrefix (drop j src) label \<and>
          (j + length label \<ge> length src \<or> \<not> isIdentByte (src ! (j + length label)))")
        case yes: True
        have "j + length label \<le> length src"
          using yes hasPrefix_length [of "drop j src" label] j by simp
        with yes step show ?thesis by (simp add: j_def ls_def)
      next
        case False
        with step IH show ?thesis by (simp add: ls_def)
      qed
    qed
  next
    case False
    with 1 show ?thesis by (subst (1 2) heredocLoop.simps) simp
  qed
qed

lemma findHeredocEnd_bounds:
  "i \<le> length src \<Longrightarrow> i \<le> findHeredocEnd src i label \<and> findHeredocEnd src i label \<le> length src"
  using heredocLoop_bounds by (simp add: findHeredocEnd_def)

lemma countWhile_drop_le: "k \<le> length src \<Longrightarrow> k + countWhile P (drop k src) \<le> length src"
  using countWhile_le [of P "drop k src"] by simp

lemma heredocSpan_bounds:
  assumes "hasPrefix (drop i src) ''<<<''" "i < length src"
  shows "i + 3 \<le> sp_start (heredocSpan src i) \<and>
     sp_start (heredocSpan src i) \<le> sp_end (heredocSpan src i) \<and>
     sp_end (heredocSpan src i) \<le> length src"
proof -
  have i3: "i + 3 \<le> length src" using hasPrefix_length [OF assms(1)] assms(2) by simp
  define j0 where "j0 = i + 3 + countWhile isBlankByte (drop (i + 3) src)"
  have j0: "i + 3 \<le> j0" "j0 \<le> length src"
    using countWhile_drop_le [OF i3] by (simp_all add: j0_def)
  define quote where "quote = (if byteAt src j0 (CHR 0x27) then Some (CHR 0x27 :: byte)
      else if byteAt src j0 (CHR 0x22) then Some (CHR 0x22) else None)"
  define idStart where "idStart = (if quote = None then j0 else Suc j0)"
  have ids: "i + 3 \<le> idStart" "idStart \<le> length src"
    using j0 by (auto simp: idStart_def quote_def byteAt_def)
  define j1 where "j1 = idStart + countWhile isIdentByte (drop idStart src)"
  have j1: "i + 3 \<le> j1" "j1 \<le> length src"
    using ids countWhile_drop_le [OF ids(2)] by (simp_all add: j1_def)
  define j2 where "j2 = (case quote of Some q \<Rightarrow> if byteAt src j1 q then Suc j1 else j1 | None \<Rightarrow> j1)"
  have j2: "i + 3 \<le> j2" "j2 \<le> length src"
    using j1 by (auto simp: j2_def byteAt_def split: option.split)
  define b where "b = j2 + countWhile (\<lambda>c. c \<noteq> newline) (drop j2 src)"
  have b: "i + 3 \<le> b" "b \<le> length src"
    using j2 countWhile_drop_le [OF j2(2)] by (simp_all add: b_def)
  have "heredocSpan src i = mkSpan b (findHeredocEnd src b (take (j1 - idStart) (drop idStart src)))"
    by (simp add: heredocSpan_def Let_def j0_def quote_def idStart_def j1_def j2_def b_def)
  with b findHeredocEnd_bounds [OF b(2)] show ?thesis by simp
qed

lemma lineCommentLen_le: "lineCommentLen r \<le> length r"
  by (induction r) auto

lemma blockCommentLen_le: "blockCommentLen r \<le> length r"
  by (induction r rule: blockCommentLen.induct) auto

lemma quotedLen_le: "quotedLen q r \<le> length r"
  by (induction q r rule: quotedLen.induct) auto

lemma lexStep_progress:
  assumes "i < length src" "lexStep src i v = (i', p, v')"
  shows "i < i'"
proof -
  have first: "drop i src = src ! i # drop (Suc i) src" using assms(1) by (rule Cons_nth_drop_Suc [symmetric])
  have comment: "0 < lineCommentLen (drop i src)" if "src ! i = CHR ''/'' \<or> src ! i = CHR ''#''"
    using that unfolding first by auto
  have doc: "i < sp_end (heredocSpan src i)" if "hasPrefix (drop i src) ''<<<''"
    using heredocSpan_bounds [OF that assms(1)] by linarith
  show ?thesis
    using assms(2) comment doc unfolding lexStep_def Let_def by (auto split: if_splits)
qed

lemma lexStep_decreases:
  "i < length src \<Longrightarrow> (case lexStep src i v of (i', p, v') \<Rightarrow> length src - i') < length src - i"
  using lexStep_progress [of i src v] by (auto split: prod.split)

function lexLoop :: "bytes \<Rightarrow> nat \<Rightarrow> bool \<Rightarrow> phpView \<Rightarrow> phpView" where
  "lexLoop src i inPHP v =
     (if i < length src then
        if \<not> inPHP then
          (case goIndex (drop i src) ''<?'' of
             None \<Rightarrow> blank i (length src) v
           | Some nx \<Rightarrow>
               lexLoop src (i + nx + openTagLen (drop (i + nx) src)) True
                 ((blank i (i + nx) v)\<lparr>v_hasOpenTag := True\<rparr>))
        else
          (case lexStep src i v of (i', p, v') \<Rightarrow> lexLoop src i' p v')
      else v)"
  by pat_completeness auto
termination
  by (relation "measure (\<lambda>(src, i, inPHP, v). length src - i)")
    (auto simp: openTagLen_def lexStep_decreases)

declare lexLoop.simps [simp del]

text \<open>The code buffer the caller may supply is overwritten with the source first.\<close>

definition lexPHP :: "bytes \<Rightarrow> phpView" where
  "lexPHP src = lexLoop src 0 False
     \<lparr>v_code = src, v_strs = [], v_comments = [], v_hasOpenTag = False, v_hasBacktick = False,
      v_heredocs = 0\<rparr>"

section \<open>What the agent takes from a view\<close>

definition stringValueStep :: "bytes \<Rightarrow> int \<Rightarrow> int \<Rightarrow> span \<Rightarrow> bytes list \<Rightarrow> bytes list" where
  "stringValueStep src maxCount maxLen s out =
     (if sp_end s \<le> sp_start s \<or> sp_start s \<ge> length src then out
      else
        (let e = min (sp_end s) (length src);
             n = (if int (e - sp_start s) > maxLen then nat maxLen else e - sp_start s)
         in out @ [take n (drop (sp_start s) src)]))"

fun stringValuesLoop :: "bytes \<Rightarrow> int \<Rightarrow> int \<Rightarrow> span list \<Rightarrow> bytes list \<Rightarrow> bytes list" where
  "stringValuesLoop src maxCount maxLen [] out = out"
| "stringValuesLoop src maxCount maxLen (s # ss) out =
     (if int (length out) \<ge> maxCount then out
      else stringValuesLoop src maxCount maxLen ss (stringValueStep src maxCount maxLen s out))"

definition stringValues :: "phpView \<Rightarrow> bytes \<Rightarrow> int \<Rightarrow> int \<Rightarrow> bytes list" where
  "stringValues v src maxCount maxLen = stringValuesLoop src maxCount maxLen (v_strs v) []"

text \<open>\<open>withoutComments\<close> keeps carriage returns as well as newlines.\<close>

definition blankComment :: "byte \<Rightarrow> byte" where
  "blankComment b = (if b \<noteq> newline \<and> b \<noteq> CHR 0x0D then space else b)"

definition withoutComments :: "phpView \<Rightarrow> bytes \<Rightarrow> bytes" where
  "withoutComments v src =
     (if v_comments v = [] then src
      else foldl (\<lambda>buf c. blankRange blankComment (sp_start c) (min (sp_end c) (length buf)) buf)
             src (v_comments v))"

subsection \<open>Chains of literals joined by dots\<close>

fun concatGapLoop :: "bool \<Rightarrow> bytes \<Rightarrow> bool" where
  "concatGapLoop sawDot [] = sawDot"
| "concatGapLoop sawDot (c # gap) =
     (if c = CHR ''.'' then \<not> sawDot \<and> concatGapLoop True gap
      else c \<in> {CHR 0x27, CHR 0x22, CHR '' '', CHR 0x09, CHR 0x0D, CHR 0x0A} \<and> concatGapLoop sawDot gap)"

definition isConcatGap :: "bytes \<Rightarrow> bool" where
  "isConcatGap gap = concatGapLoop False gap"

definition slice :: "nat \<Rightarrow> nat \<Rightarrow> bytes \<Rightarrow> bytes" where
  "slice s e src = take (e - s) (drop s src)"

text \<open>The spans after \<open>prev\<close> that continue its chain, and the rest.\<close>

fun chainTail :: "bytes \<Rightarrow> span \<Rightarrow> span list \<Rightarrow> span list \<times> span list" where
  "chainTail src prev [] = ([], [])"
| "chainTail src prev (s # ss) =
     (if sp_start s \<le> sp_end prev \<or> sp_start s > length src \<or>
         \<not> isConcatGap (slice (sp_end prev) (sp_start s) src)
      then ([], s # ss)
      else (case chainTail src s ss of (chain, rest) \<Rightarrow> (s # chain, rest)))"

fun chainValue :: "bytes \<Rightarrow> span list \<Rightarrow> bytes \<Rightarrow> bytes" where
  "chainValue src [] buf = buf"
| "chainValue src (s # ss) buf =
     (let e = min (sp_end s) (length src);
          buf' = (if sp_start s < e then buf @ slice (sp_start s) e src else buf)
      in if length buf' > 512 then buf' else chainValue src ss buf')"

record concatChain =
  cc_value :: bytes
  cc_at :: nat
  cc_parts :: nat

lemma chainTail_length: "chainTail src prev ss = (chain, rest) \<Longrightarrow> length chain + length rest = length ss"
  by (induction src prev ss arbitrary: chain rule: chainTail.induct) (auto split: if_splits prod.splits)

function chainLoop :: "bytes \<Rightarrow> int \<Rightarrow> span list \<Rightarrow> concatChain list \<Rightarrow> concatChain list" where
  "chainLoop src maxChains [] out = out"
| "chainLoop src maxChains (s # ss) out =
     (if int (length out) < maxChains then
        (case chainTail src s ss of (chain, rest) \<Rightarrow>
           chainLoop src maxChains rest
             (if length (s # chain) \<ge> 2
              then out @ [\<lparr>cc_value = chainValue src (s # chain) [], cc_at = sp_start s,
                           cc_parts = length (s # chain)\<rparr>]
              else out))
      else out)"
  by pat_completeness auto
termination
  by (relation "measure (\<lambda>(src, m, ss, out). length ss)") (auto dest!: chainTail_length [OF sym])

definition concatChains :: "phpView \<Rightarrow> bytes \<Rightarrow> int \<Rightarrow> concatChain list" where
  "concatChains v src maxChains = chainLoop src maxChains (v_strs v) []"

section \<open>Blanking\<close>

lemma length_blankRange [simp]: "f \<le> t \<Longrightarrow> t \<le> length code \<Longrightarrow> length (blankRange bl f t code) = length code"
  by (simp add: blankRange_def max_def)

lemma nth_blankRange:
  assumes "f \<le> t" "t \<le> length code" "k < length code"
  shows "blankRange bl f t code ! k = (if f \<le> k \<and> k < t then bl (code ! k) else code ! k)"
  using assms by (auto simp: blankRange_def nth_append max_def)

lemma blankByte_idem [simp]: "blankByte (blankByte b) = blankByte b"
  by (simp add: blankByte_def)

definition spanOk :: "bytes \<Rightarrow> bytes \<Rightarrow> nat \<Rightarrow> span \<Rightarrow> bool" where
  "spanOk src code i s \<longleftrightarrow> sp_start s \<le> sp_end s \<and> sp_end s \<le> i \<and> sp_end s \<le> length src \<and>
     (\<forall>k. sp_start s \<le> k \<and> k < sp_end s \<longrightarrow> code ! k = blankByte (src ! k))"

definition before :: "span \<Rightarrow> span \<Rightarrow> bool" where
  "before a b \<longleftrightarrow> sp_end a \<le> sp_start b"

text \<open>The view when the lexer has reached offset \<open>i\<close>.\<close>

definition lexInv :: "bytes \<Rightarrow> nat \<Rightarrow> phpView \<Rightarrow> bool" where
  "lexInv src i v \<longleftrightarrow>
     length (v_code v) = length src \<and>
     (\<forall>k<length src. v_code v ! k = src ! k \<or> v_code v ! k = blankByte (src ! k)) \<and>
     (\<forall>k<length src. i \<le> k \<longrightarrow> v_code v ! k = src ! k) \<and>
     (\<forall>s\<in>set (v_strs v) \<union> set (v_comments v). spanOk src (v_code v) i s) \<and>
     sorted_wrt before (v_strs v) \<and> sorted_wrt before (v_comments v) \<and>
     (\<forall>s\<in>set (v_strs v). \<forall>c\<in>set (v_comments v). before s c \<or> before c s)"

lemma spanOk_mono: "spanOk src code i s \<Longrightarrow> i \<le> i' \<Longrightarrow> spanOk src code i' s"
  by (simp add: spanOk_def)

lemma lexInv_mono: "lexInv src i v \<Longrightarrow> i \<le> i' \<Longrightarrow> lexInv src i' v"
  unfolding lexInv_def by (auto intro: spanOk_mono)

lemma spanOk_blank:
  assumes "spanOk src code i s" "f \<le> t" "t \<le> length src" "length code = length src"
    "\<forall>k<length src. code ! k = src ! k \<or> code ! k = blankByte (src ! k)"
  shows "spanOk src (blankRange blankByte f t code) i s"
  using assms by (auto simp: spanOk_def nth_blankRange)

lemma lexInv_blank:
  assumes "lexInv src i v" "i \<le> f" "f \<le> t" "t \<le> length src" "t \<le> i'"
  shows "lexInv src i' (blank f t v)"
proof -
  have inv: "length (v_code v) = length src"
    "\<forall>k<length src. v_code v ! k = src ! k \<or> v_code v ! k = blankByte (src ! k)"
    "\<forall>k<length src. i \<le> k \<longrightarrow> v_code v ! k = src ! k"
    "\<forall>s\<in>set (v_strs v) \<union> set (v_comments v). spanOk src (v_code v) i s"
    using assms(1) by (auto simp: lexInv_def)
  have "\<forall>s\<in>set (v_strs v) \<union> set (v_comments v). spanOk src (blankRange blankByte f t (v_code v)) i' s"
    using spanOk_blank [OF _ assms(3,4) inv(1,2)] inv(4) assms(2,3,5) spanOk_mono
    by (meson le_trans)
  with assms inv show ?thesis by (auto simp: lexInv_def blank_def nth_blankRange)
qed

lemma spanOk_new:
  assumes "lexInv src i v" "i \<le> f" "f \<le> t" "t \<le> length src"
  shows "spanOk src (blankRange blankByte f t (v_code v)) t (mkSpan f t)"
  using assms by (auto simp: spanOk_def lexInv_def nth_blankRange)

lemma before_new: "spanOk src code i s \<Longrightarrow> i \<le> f \<Longrightarrow> before s (mkSpan f t)"
  by (simp add: spanOk_def before_def)

lemma lexInv_addStr:
  assumes "lexInv src i v" "i \<le> f" "f \<le> t" "t \<le> length src" "t \<le> i'"
  shows "lexInv src i' (addStr f t v)"
proof -
  have b: "lexInv src i' (blank f t v)" by (rule lexInv_blank [OF assms])
  have new: "spanOk src (blankRange blankByte f t (v_code v)) i' (mkSpan f t)"
    using spanOk_new [OF assms(1-4)] assms(5) spanOk_mono by blast
  have old: "\<forall>s\<in>set (v_strs v) \<union> set (v_comments v). before s (mkSpan f t)"
    using assms(1,2) before_new unfolding lexInv_def by blast
  from b new old show ?thesis
    by (auto simp: lexInv_def addStr_def blank_def sorted_wrt_append)
qed

lemma lexInv_addComment:
  assumes "lexInv src i v" "i \<le> f" "f \<le> t" "t \<le> length src" "t \<le> i'"
  shows "lexInv src i' (addComment f t v)"
proof -
  have b: "lexInv src i' (blank f t v)" by (rule lexInv_blank [OF assms])
  have new: "spanOk src (blankRange blankByte f t (v_code v)) i' (mkSpan f t)"
    using spanOk_new [OF assms(1-4)] assms(5) spanOk_mono by blast
  have old: "\<forall>s\<in>set (v_strs v) \<union> set (v_comments v). before s (mkSpan f t)"
    using assms(1,2) before_new unfolding lexInv_def by blast
  from b new old show ?thesis
    by (auto simp: lexInv_def addComment_def blank_def sorted_wrt_append)
qed

lemma lexInv_flags [simp]:
  "lexInv src i (v\<lparr>v_hasOpenTag := b\<rparr>) \<longleftrightarrow> lexInv src i v"
  "lexInv src i (v\<lparr>v_hasBacktick := b\<rparr>) \<longleftrightarrow> lexInv src i v"
  "lexInv src i (v\<lparr>v_heredocs := n\<rparr>) \<longleftrightarrow> lexInv src i v"
  by (simp_all add: lexInv_def)

lemma lexStep_inv:
  assumes "lexInv src i v" "i < length src" "lexStep src i v = (i', p, v')"
  shows "lexInv src i' v'"
proof -
  have line: "i + lineCommentLen (drop i src) \<le> length src"
    using lineCommentLen_le [of "drop i src"] assms(2) by simp
  have doc: "i + 2 + blockCommentLen (drop (i + 2) src) \<le> length src" if "byteAt src (i + 1) c" for c
    using blockCommentLen_le [of "drop (i + 2) src"] that
    unfolding byteAt_def length_drop by linarith
  have quoted: "i + 1 + quotedLen q (drop (i + 1) src) \<le> length src" for q
    using quotedLen_le [of q "drop (i + 1) src"] assms(2) by simp
  have tick: "i + 1 + countWhile P (drop (i + 1) src) \<le> length src" for P
    using countWhile_drop_le [of "i + 1" src P] assms(2) by simp
  have b: "lexInv src i (v\<lparr>v_hasBacktick := True\<rparr>)" "lexInv src i (v\<lparr>v_heredocs := v_heredocs v + 1\<rparr>)"
    using assms(1) by simp_all
  have close: "lexInv src (i + 2) v" "lexInv src (i + 1) v" by (rule lexInv_mono [OF assms(1)], simp)+
  have here: "i \<le> sp_start (heredocSpan src i)" "sp_start (heredocSpan src i) \<le> sp_end (heredocSpan src i)"
    "sp_end (heredocSpan src i) \<le> length src" if "hasPrefix (drop i src) ''<<<''"
    using heredocSpan_bounds [OF that assms(2)] by auto
  note facts = close
    lexInv_addComment [OF assms(1) le_refl le_add1 line le_refl]
    lexInv_addStr [OF assms(1) le_add1 le_add1 quoted le_add1, of "CHR 0x27" 1]
    lexInv_addStr [OF assms(1) le_add1 le_add1 quoted le_add1, of "CHR 0x22" 1]
    lexInv_addStr [OF b(1) le_add1 le_add1 tick le_add1, of "\<lambda>b. b \<noteq> CHR 0x60" 1]
  have star: "lexInv src (i + 2 + blockCommentLen (drop (i + 2) src))
      (addComment i (i + 2 + blockCommentLen (drop (i + 2) src)) v)" if "byteAt src (i + 1) (CHR ''*'')"
    by (rule lexInv_addComment [OF assms(1) le_refl _ doc [OF that] le_refl]) simp
  have heredoc: "lexInv src (sp_end (heredocSpan src i))
      (addStr (sp_start (heredocSpan src i)) (sp_end (heredocSpan src i)) (v\<lparr>v_heredocs := v_heredocs v + 1\<rparr>))"
    if "hasPrefix (drop i src) ''<<<''"
    by (rule lexInv_addStr [OF b(2) here [OF that] le_refl])
  show ?thesis
    using assms(3) facts star heredoc unfolding lexStep_def Let_def
    by (simp only: prod.inject split: if_split_asm) auto
qed

lemma goIndex_le: "goIndex s p = Some k \<Longrightarrow> k + length p \<le> length s"
  by (simp add: goIndex_Some occurs_at_def)

lemma lexLoop_inv: "lexInv src i v \<Longrightarrow> \<exists>e. lexInv src e (lexLoop src i inPHP v)"
proof (induction src i inPHP v rule: lexLoop.induct)
  case (1 src i inPHP v)
  show ?case
  proof (cases "i < length src \<and> inPHP")
    case True
    obtain i' p v' where s: "lexStep src i v = (i', p, v')" by (metis prod_cases3)
    have "lexLoop src i inPHP v = lexLoop src i' p v'"
      using True s by (subst lexLoop.simps) simp
    moreover have "lexInv src i' v'" using lexStep_inv [OF 1(3) _ s] True by blast
    ultimately show ?thesis using 1(2) True s by simp
  next
    case False
    show ?thesis
    proof (cases "i < length src")
      case inside: True
      show ?thesis
      proof (cases "goIndex (drop i src) ''<?''")
        case None
        have "lexInv src (length src) (blank i (length src) v)"
          using lexInv_blank [OF 1(3), of i "length src" "length src"] inside by simp
        then show ?thesis using None inside False by (subst lexLoop.simps) auto
      next
        case (Some nx)
        have nx: "i + nx + 2 \<le> length src" using goIndex_le [OF Some] inside by simp
        let ?v = "(blank i (i + nx) v)\<lparr>v_hasOpenTag := True\<rparr>"
        let ?i = "i + nx + openTagLen (drop (i + nx) src)"
        have "lexInv src ?i ?v"
          using lexInv_blank [OF 1(3), of i "i + nx" ?i] nx by simp
        moreover have "lexLoop src i inPHP v = lexLoop src ?i True ?v"
          using Some inside False by (subst lexLoop.simps) simp
        ultimately show ?thesis using 1(1) [of nx] Some inside False by simp
      qed
    next
      case False
      then have "lexLoop src i inPHP v = v" by (subst lexLoop.simps) simp
      with 1(3) show ?thesis by auto
    qed
  qed
qed

lemma lexPHP_inv: "\<exists>e. lexInv src e (lexPHP src)"
  unfolding lexPHP_def by (rule lexLoop_inv [of src 0]) (simp add: lexInv_def)

text \<open>The view with only the comments blanked.\<close>

definition inSpan :: "nat \<Rightarrow> span \<Rightarrow> bool" where
  "inSpan k s \<longleftrightarrow> sp_start s \<le> k \<and> k < sp_end s"

lemma blankComment_idem [simp]: "blankComment (blankComment b) = blankComment b"
  by (simp add: blankComment_def)

lemma foldl_blankComment:
  assumes "\<forall>c\<in>set cs. sp_start c \<le> sp_end c \<and> sp_end c \<le> length buf"
  shows "length (foldl (\<lambda>buf c. blankRange blankComment (sp_start c) (min (sp_end c) (length buf)) buf) buf cs)
           = length buf \<and>
     (\<forall>k<length buf. foldl (\<lambda>buf c. blankRange blankComment (sp_start c) (min (sp_end c) (length buf)) buf) buf cs ! k
           = (if \<exists>c\<in>set cs. inSpan k c then blankComment (buf ! k) else buf ! k))"
  using assms
proof (induction cs arbitrary: buf)
  case (Cons c cs)
  let ?b = "blankRange blankComment (sp_start c) (min (sp_end c) (length buf)) buf"
  have m: "min (sp_end c) (length buf) = sp_end c" using Cons.prems by simp
  have len: "length ?b = length buf" using Cons.prems by (simp add: m)
  have "\<forall>c\<in>set cs. sp_start c \<le> sp_end c \<and> sp_end c \<le> length ?b" using Cons.prems len by simp
  note IH = Cons.IH [OF this]
  have "?b ! k = (if inSpan k c then blankComment (buf ! k) else buf ! k)" if "k < length buf" for k
    using that Cons.prems by (simp add: m nth_blankRange inSpan_def)
  with IH len show ?case by simp
qed simp

lemma lexPHP_comment_spans:
  "c \<in> set (v_comments (lexPHP src)) \<Longrightarrow> sp_start c \<le> sp_end c \<and> sp_end c \<le> length src"
  using lexPHP_inv [of src] by (auto simp: lexInv_def spanOk_def)

lemma withoutComments_nth:
  "length (withoutComments (lexPHP src) src) = length src"
  "k < length src \<Longrightarrow> withoutComments (lexPHP src) src ! k =
     (if \<exists>c\<in>set (v_comments (lexPHP src)). inSpan k c then blankComment (src ! k) else src ! k)"
  using foldl_blankComment [of "v_comments (lexPHP src)" src] lexPHP_comment_spans [of _ src]
  by (simp_all add: withoutComments_def)

section \<open>Properties\<close>

text \<open>
  C9. The code view of \<open>lexPHP\<close> has the length of the source, and every newline of the source
  stands where it stood, so line numbers and distances read from the view are those of the
  file: every other byte is kept or is a space. The spans of string literals and of comments
  lie inside the source, in order, never overlap one another, and everything inside a span is
  blank in the code view (newlines apart).
\<close>

theorem lexPHP_views:
  "length (v_code (lexPHP src)) = length src \<and>
   (\<forall>k<length src. v_code (lexPHP src) ! k = src ! k \<or> v_code (lexPHP src) ! k = CHR '' '') \<and>
   (\<forall>k<length src. v_code (lexPHP src) ! k = newline \<longleftrightarrow> src ! k = newline) \<and>
   (\<forall>s\<in>set (v_strs (lexPHP src)) \<union> set (v_comments (lexPHP src)).
      sp_start s \<le> sp_end s \<and> sp_end s \<le> length src \<and>
      (\<forall>k. inSpan k s \<longrightarrow> v_code (lexPHP src) ! k = (if src ! k = newline then newline else CHR '' ''))) \<and>
   sorted_wrt before (v_strs (lexPHP src)) \<and> sorted_wrt before (v_comments (lexPHP src)) \<and>
   (\<forall>s\<in>set (v_strs (lexPHP src)). \<forall>c\<in>set (v_comments (lexPHP src)). \<not> (\<exists>k. inSpan k s \<and> inSpan k c))"
proof -
  obtain e where e: "lexInv src e (lexPHP src)" using lexPHP_inv by blast
  then have code: "\<forall>k<length src. v_code (lexPHP src) ! k = src ! k \<or>
      v_code (lexPHP src) ! k = blankByte (src ! k)"
    by (simp add: lexInv_def)
  have strs: "\<forall>s\<in>set (v_strs (lexPHP src)). \<forall>c\<in>set (v_comments (lexPHP src)). before s c \<or> before c s"
    using e by (simp add: lexInv_def)
  have "\<not> (inSpan k s \<and> inSpan k c)"
    if "s \<in> set (v_strs (lexPHP src))" "c \<in> set (v_comments (lexPHP src))" for s c k
    using strs that by (fastforce simp: before_def inSpan_def)
  moreover have "\<forall>s\<in>set (v_strs (lexPHP src)) \<union> set (v_comments (lexPHP src)).
      sp_start s \<le> sp_end s \<and> sp_end s \<le> length src \<and>
      (\<forall>k. inSpan k s \<longrightarrow> v_code (lexPHP src) ! k = (if src ! k = newline then newline else CHR '' ''))"
    using e by (simp add: lexInv_def spanOk_def inSpan_def blankByte_def)
  moreover have "v_code (lexPHP src) ! k = src ! k \<or> v_code (lexPHP src) ! k = CHR '' ''"
    "v_code (lexPHP src) ! k = newline \<longleftrightarrow> src ! k = newline" if "k < length src" for k
    using code [rule_format, OF that] by (auto simp: blankByte_def split: if_splits)
  ultimately show ?thesis using e by (simp add: lexInv_def)
qed

lemma lexPHP_views_witness:
  "length (v_code (lexPHP ''<?php #c%$a=eval;'')) = 17 \<and>
   v_comments (lexPHP ''<?php #c%$a=eval;'') = [mkSpan 6 17] \<and>
   v_code (lexPHP ''<?php #c%$a=eval;'') ! 9 = CHR '' ''"
proof -
  let ?s = "''<?php #c%$a=eval;''"
  have c: "v_comments (lexPHP ?s) = [mkSpan 6 17]" by code_simp
  have "length (v_code (lexPHP ?s)) = length ?s" using lexPHP_views [of ?s] by blast
  moreover have "mkSpan 6 17 \<in> set (v_strs (lexPHP ?s)) \<union> set (v_comments (lexPHP ?s))" by (simp add: c)
  then have "inSpan 9 (mkSpan 6 17) \<longrightarrow>
      v_code (lexPHP ?s) ! 9 = (if ?s ! 9 = newline then newline else CHR '' '')"
    using lexPHP_views [of ?s] by blast
  ultimately show ?thesis using c by (simp add: inSpan_def)
qed

text \<open>
  What the YARA engine is given of a PHP file: \<open>withoutComments\<close> has the length of the
  source, blanks every byte of every comment except the ends of lines, and changes no other
  byte. In particular the content of every string literal, which is the evidence the rules
  match, is as in the file.
\<close>

theorem withoutComments_exact:
  "length (withoutComments (lexPHP src) src) = length src \<and>
   (\<forall>k<length src. withoutComments (lexPHP src) src ! k =
      (if (\<exists>c\<in>set (v_comments (lexPHP src)). inSpan k c) \<and> src ! k \<noteq> newline \<and> src ! k \<noteq> CHR 0x0D
       then CHR '' '' else src ! k)) \<and>
   (\<forall>s\<in>set (v_strs (lexPHP src)).
      slice (sp_start s) (sp_end s) (withoutComments (lexPHP src) src) = slice (sp_start s) (sp_end s) src)"
proof -
  obtain e where e: "lexInv src e (lexPHP src)" using lexPHP_inv by blast
  have nth: "withoutComments (lexPHP src) src ! k =
      (if (\<exists>c\<in>set (v_comments (lexPHP src)). inSpan k c) \<and> src ! k \<noteq> newline \<and> src ! k \<noteq> CHR 0x0D
       then CHR '' '' else src ! k)" if "k < length src" for k
    using withoutComments_nth(2) [OF that] by (auto simp: blankComment_def)
  have "slice (sp_start s) (sp_end s) (withoutComments (lexPHP src) src) = slice (sp_start s) (sp_end s) src"
    if s: "s \<in> set (v_strs (lexPHP src))" for s
  proof (rule nth_equalityI)
    show "length (slice (sp_start s) (sp_end s) (withoutComments (lexPHP src) src)) =
        length (slice (sp_start s) (sp_end s) src)"
      by (simp add: slice_def withoutComments_nth)
  next
    fix k assume k: "k < length (slice (sp_start s) (sp_end s) (withoutComments (lexPHP src) src))"
    then have k': "sp_start s + k < length src" "sp_start s + k < sp_end s"
      by (auto simp: slice_def withoutComments_nth)
    have "before s c \<or> before c s" if "c \<in> set (v_comments (lexPHP src))" for c
      using e s that by (simp add: lexInv_def)
    then have "\<not> (\<exists>c\<in>set (v_comments (lexPHP src)). inSpan (sp_start s + k) c)"
      using k' by (fastforce simp: before_def inSpan_def)
    then have "withoutComments (lexPHP src) src ! (sp_start s + k) = src ! (sp_start s + k)"
      using withoutComments_nth(2) [OF k'(1)] by simp
    then show "slice (sp_start s) (sp_end s) (withoutComments (lexPHP src) src) ! k =
        slice (sp_start s) (sp_end s) src ! k"
      using k k' by (simp add: slice_def withoutComments_nth)
  qed
  with nth show ?thesis by (simp add: withoutComments_nth)
qed

lemma withoutComments_exact_witness:
  "withoutComments (lexPHP ''<?php #c'') ''<?php #c'' ! 6 = CHR '' '' \<and>
   withoutComments (lexPHP ''<?php #c'') ''<?php #c'' ! 2 = CHR ''p''"
proof -
  let ?s = "''<?php #c''"
  have c: "v_comments (lexPHP ?s) = [mkSpan 6 8]" by code_simp
  have all: "\<forall>k<length ?s. withoutComments (lexPHP ?s) ?s ! k =
      (if (\<exists>c\<in>set (v_comments (lexPHP ?s)). inSpan k c) \<and> ?s ! k \<noteq> newline \<and> ?s ! k \<noteq> CHR 0x0D
       then CHR '' '' else ?s ! k)"
    using withoutComments_exact [of ?s] by blast
  show ?thesis
    using all [rule_format, of 6] all [rule_format, of 2] unfolding c by (simp add: inSpan_def)
qed

end
