(* ===== verification/GoStd.thy ===== *)
theory GoStd
  imports Prelude
begin

text \<open>
  The parts of Go's standard library the engines call, as functions on byte strings:
  fixed-width integers written as \<open>int\<close> with the wrap-around explicit, \<open>strconv\<close>
  number parsing, \<open>strings.TrimSpace\<close>, UTF-8 decoding and \<open>strings.ToLower\<close>, and
  \<open>sort.Ints\<close>. Unicode's case table is a parameter (\<open>ulow\<close>, the lower case of a rune
  above ASCII); everything else is computed.
\<close>

section \<open>Fixed-width integers\<close>

text \<open>\<open>wrap64 x\<close>: the value of an \<open>int64\<close> (or of \<open>int\<close> on the supported 64-bit
  targets) after an operation with mathematical result \<open>x\<close>.\<close>

definition wrap64 :: "int \<Rightarrow> int" where
  "wrap64 x = (x + 2 ^ 63) mod 2 ^ 64 - 2 ^ 63"

definition int64_range :: "int \<Rightarrow> bool" where
  "int64_range x \<longleftrightarrow> - (2 ^ 63) \<le> x \<and> x < 2 ^ 63"

lemma wrap64_range: "int64_range (wrap64 x)"
proof -
  have "0 \<le> (x + 2 ^ 63) mod 2 ^ 64" "(x + 2 ^ 63) mod 2 ^ 64 < 2 ^ 64" by simp_all
  then show ?thesis unfolding int64_range_def wrap64_def by simp
qed

lemma wrap64_id [simp]: "int64_range x \<Longrightarrow> wrap64 x = x"
  by (simp add: int64_range_def wrap64_def)

section \<open>Characters and numbers\<close>

definition isDigitByte :: "byte \<Rightarrow> bool" where
  "isDigitByte c \<longleftrightarrow> CHR ''0'' \<le> c \<and> c \<le> CHR ''9''"

definition digitVal :: "byte \<Rightarrow> nat option" where
  "digitVal c = (if isDigitByte c then Some (of_char c - 48) else None)"

definition hexVal :: "byte \<Rightarrow> nat option" where
  "hexVal c =
     (if isDigitByte c then Some (of_char c - 48)
      else if CHR ''a'' \<le> c \<and> c \<le> CHR ''f'' then Some (of_char c - 87)
      else if CHR ''A'' \<le> c \<and> c \<le> CHR ''F'' then Some (of_char c - 55)
      else None)"

text \<open>Digits of a base, most significant first; \<open>None\<close> at the first other byte.\<close>

fun parseDigits :: "(byte \<Rightarrow> nat option) \<Rightarrow> nat \<Rightarrow> nat \<Rightarrow> bytes \<Rightarrow> nat option" where
  "parseDigits dv base acc [] = Some acc"
| "parseDigits dv base acc (c # cs) =
     (case dv c of None \<Rightarrow> None | Some d \<Rightarrow> parseDigits dv base (acc * base + d) cs)"

text \<open>\<open>strconv.ParseUint(s, 16, bits)\<close> and \<open>strconv.ParseInt(s, 10, 64)\<close> (= \<open>Atoi\<close>);
  \<open>None\<close> is the error.\<close>

definition parseUintHex :: "bytes \<Rightarrow> nat \<Rightarrow> nat option" where
  "parseUintHex s bits =
     (if s = [] then None
      else case parseDigits hexVal 16 0 s of
             None \<Rightarrow> None
           | Some n \<Rightarrow> if n < 2 ^ bits then Some n else None)"

definition parseInt10 :: "bytes \<Rightarrow> int option" where
  "parseInt10 s =
     (let neg = (case s of c # _ \<Rightarrow> c = CHR ''-'' | [] \<Rightarrow> False);
          ds = (case s of c # cs \<Rightarrow> if c = CHR ''-'' \<or> c = CHR ''+'' then cs else s | [] \<Rightarrow> [])
      in if ds = [] then None
         else case parseDigits digitVal 10 0 ds of
                None \<Rightarrow> None
              | Some n \<Rightarrow>
                  let v = (if neg then - int n else int n)
                  in if int64_range v then Some v else None)"

lemma parseInt10_range: "parseInt10 s = Some v \<Longrightarrow> int64_range v"
  by (auto simp: parseInt10_def Let_def split: option.splits if_splits)

text \<open>Without a leading minus sign the result is not negative.\<close>

lemma parseInt10_nonneg:
  assumes "CHR ''-'' \<notin> set s" and "parseInt10 s = Some v"
  shows "0 \<le> v"
proof (cases s)
  case Nil
  with assms show ?thesis by (simp add: parseInt10_def)
next
  case (Cons c cs)
  with assms have "c \<noteq> CHR ''-''" by auto
  with assms(2) Cons show ?thesis
    by (auto simp: parseInt10_def Let_def split: option.splits if_splits)
qed

section \<open>UTF-8\<close>

definition inRange :: "nat \<Rightarrow> nat \<Rightarrow> byte \<Rightarrow> bool" where
  "inRange lo hi c \<longleftrightarrow> lo \<le> of_char c \<and> of_char c \<le> hi"

definition runeError :: nat where "runeError = 0xFFFD"

text \<open>\<open>utf8.DecodeRune\<close> of a non-empty string: the rune and how many bytes it takes;
  an invalid sequence is \<open>RuneError\<close> of width 1.\<close>

definition decodeRune :: "bytes \<Rightarrow> nat \<times> nat" where
  "decodeRune s =
     (let b = (\<lambda>i. if i < length s then (of_char (s ! i) :: nat) else 0);
          cont = (\<lambda>i lo hi. i < length s \<and> inRange lo hi (s ! i));
          b0 = b 0
      in if b0 < 0x80 then (b0, 1)
         else if 0xC2 \<le> b0 \<and> b0 \<le> 0xDF then
           (if cont 1 0x80 0xBF then ((b0 - 0xC0) * 64 + (b 1 - 0x80), 2) else (runeError, 1))
         else if 0xE0 \<le> b0 \<and> b0 \<le> 0xEF then
           (if cont 1 (if b0 = 0xE0 then 0xA0 else 0x80) (if b0 = 0xED then 0x9F else 0xBF) \<and>
               cont 2 0x80 0xBF
            then ((b0 - 0xE0) * 4096 + (b 1 - 0x80) * 64 + (b 2 - 0x80), 3)
            else (runeError, 1))
         else if 0xF0 \<le> b0 \<and> b0 \<le> 0xF4 then
           (if cont 1 (if b0 = 0xF0 then 0x90 else 0x80) (if b0 = 0xF4 then 0x8F else 0xBF) \<and>
               cont 2 0x80 0xBF \<and> cont 3 0x80 0xBF
            then ((b0 - 0xF0) * 262144 + (b 1 - 0x80) * 4096 + (b 2 - 0x80) * 64 + (b 3 - 0x80), 4)
            else (runeError, 1))
         else (runeError, 1))"

lemma decodeRune_width: "0 < snd (decodeRune s)"
  by (simp add: decodeRune_def Let_def)

function runes :: "bytes \<Rightarrow> nat list" where
  "runes s = (if s = [] then [] else fst (decodeRune s) # runes (drop (snd (decodeRune s)) s))"
  by pat_completeness auto
termination
  using decodeRune_width by (relation "measure length") auto

declare runes.simps [simp del]

text \<open>The runes of a string with the bytes they stand for.\<close>

function chunks :: "bytes \<Rightarrow> (nat \<times> bytes) list" where
  "chunks s =
     (if s = [] then []
      else (fst (decodeRune s), take (snd (decodeRune s)) s) # chunks (drop (snd (decodeRune s)) s))"
  by pat_completeness auto
termination
  using decodeRune_width by (relation "measure length") auto

declare chunks.simps [simp del]

lemma concat_chunks: "concat (map snd (chunks s)) = s"
proof (induction s rule: chunks.induct)
  case (1 s)
  then show ?case by (subst chunks.simps) simp
qed

text \<open>\<open>utf8.AppendRune\<close>.\<close>

definition encodeRune :: "nat \<Rightarrow> bytes" where
  "encodeRune r =
     (if r < 0x80 then [char_of r]
      else if r < 0x800 then [char_of (0xC0 + r div 64), char_of (0x80 + r mod 64)]
      else if 0x10FFFF < r \<or> (0xD800 \<le> r \<and> r \<le> 0xDFFF) then map char_of [0xEF, 0xBF, 0xBD :: nat]
      else if r < 0x10000 then
        [char_of (0xE0 + r div 4096), char_of (0x80 + r div 64 mod 64), char_of (0x80 + r mod 64)]
      else
        [char_of (0xF0 + r div 262144), char_of (0x80 + r div 4096 mod 64),
         char_of (0x80 + r div 64 mod 64), char_of (0x80 + r mod 64)])"

definition isASCII :: "bytes \<Rightarrow> bool" where
  "isASCII s \<longleftrightarrow> list_all (\<lambda>c. (of_char c :: nat) < 128) s"

section \<open>Trimming and validity\<close>

text \<open>\<open>unicode.IsSpace\<close>, and \<open>strings.TrimSpace\<close> (\<open>bytes.TrimSpace\<close>): bytewise on ASCII,
  otherwise rune by rune.\<close>

definition isSpaceByte :: "byte \<Rightarrow> bool" where
  "isSpaceByte c \<longleftrightarrow> of_char c = (32::nat) \<or> (9 \<le> (of_char c :: nat) \<and> of_char c \<le> (13::nat))"

definition isSpaceRune :: "nat \<Rightarrow> bool" where
  "isSpaceRune r \<longleftrightarrow> r = 32 \<or> (9 \<le> r \<and> r \<le> 13) \<or> r = 0x85 \<or> r = 0xA0 \<or> r = 0x1680 \<or>
     (0x2000 \<le> r \<and> r \<le> 0x200A) \<or> r = 0x2028 \<or> r = 0x2029 \<or> r = 0x202F \<or> r = 0x205F \<or> r = 0x3000"

definition trimBoth :: "('a \<Rightarrow> bool) \<Rightarrow> 'a list \<Rightarrow> 'a list" where
  "trimBoth P xs = rev (dropWhile P (rev (dropWhile P xs)))"

definition trimSpace :: "bytes \<Rightarrow> bytes" where
  "trimSpace s =
     (if isASCII s then trimBoth isSpaceByte s
      else concat (map snd (trimBoth (isSpaceRune \<circ> fst) (chunks s))))"

lemma set_trimBoth: "set (trimBoth P xs) \<subseteq> set xs"
  by (auto simp: trimBoth_def dest!: set_dropWhileD)

lemma set_trimSpace: "set (trimSpace s) \<subseteq> set s"
proof -
  have "set (concat (map snd (trimBoth P (chunks s)))) \<subseteq> set (concat (map snd (chunks s)))" for P
    using set_trimBoth [of P "chunks s"] by auto
  then show ?thesis using set_trimBoth [of isSpaceByte s] by (simp add: trimSpace_def concat_chunks)
qed

text \<open>\<open>strings.ToValidUTF8(s, "")\<close>: the invalid bytes, those decoded with width 1 to the error rune,
  are dropped.\<close>

definition toValidUTF8 :: "bytes \<Rightarrow> bytes" where
  "toValidUTF8 s = concat (map snd (filter (\<lambda>(r, b). \<not> (r = runeError \<and> length b = 1)) (chunks s)))"

section \<open>Case mapping\<close>

text \<open>\<open>unicode.ToLower\<close> of one rune, and \<open>strings.ToLower\<close>: bytewise on ASCII,
  otherwise rune by rune, which turns every invalid byte into U+FFFD.\<close>

definition lowerRune :: "(nat \<Rightarrow> nat) \<Rightarrow> nat \<Rightarrow> nat" where
  "lowerRune ulow r =
     (if r < 128 then (if 65 \<le> r \<and> r \<le> 90 then r + 32 else r) else ulow r)"

definition goToLower :: "(nat \<Rightarrow> nat) \<Rightarrow> bytes \<Rightarrow> bytes" where
  "goToLower ulow s =
     (if isASCII s then map ascii_lower s
      else concat (map (encodeRune \<circ> lowerRune ulow) (runes s)))"

lemma goToLower_ASCII: "isASCII s \<Longrightarrow> goToLower ulow s = map ascii_lower s"
  by (simp add: goToLower_def)

lemma goToLower_Nil [simp]: "goToLower ulow [] = []"
  by (simp add: goToLower_def isASCII_def)

section \<open>Sorting\<close>

text \<open>\<open>sort.Ints\<close> and \<open>sort.Strings\<close>: equal keys are indistinguishable, so both are the
  library's \<open>sort\<close>. \<open>strings.Join\<close>.\<close>

fun goJoin :: "bytes list \<Rightarrow> bytes \<Rightarrow> bytes" where
  "goJoin [] sep = []"
| "goJoin [x] sep = x"
| "goJoin (x # xs) sep = x @ sep @ goJoin xs sep"

text \<open>\<open>strings.Split\<close> at a single byte: never empty.\<close>

fun goSplit :: "byte \<Rightarrow> bytes \<Rightarrow> bytes list" where
  "goSplit c [] = [[]]"
| "goSplit c (x # xs) =
     (if x = c then [] # goSplit c xs
      else (case goSplit c xs of [] \<Rightarrow> [[x]] | p # ps \<Rightarrow> (x # p) # ps))"

lemma goSplit_not_Nil [simp]: "goSplit c s \<noteq> []"
  by (induction s) (auto split: list.split)

text \<open>\<open>strings.TrimPrefix\<close>, \<open>strings.ReplaceAll\<close> of one byte by another.\<close>

definition trimPrefix :: "bytes \<Rightarrow> bytes \<Rightarrow> bytes" where
  "trimPrefix s p = (if hasPrefix s p then drop (length p) s else s)"

definition replaceByte :: "byte \<Rightarrow> byte \<Rightarrow> bytes \<Rightarrow> bytes" where
  "replaceByte a b s = map (\<lambda>c. if c = a then b else c) s"

section \<open>Formatting\<close>

text \<open>\<open>strconv.Itoa\<close> and \<open>%d\<close>.\<close>

fun showNat :: "nat \<Rightarrow> bytes" where
  "showNat n =
     (if n < 10 then [char_of (48 + n)] else showNat (n div 10) @ [char_of (48 + n mod 10)])"

declare showNat.simps [simp del]

lemma digit_char: "d < 10 \<Longrightarrow> digitVal (char_of (48 + d :: nat)) = Some d"
proof -
  assume "d < 10"
  then have "d \<in> {0, 1, 2, 3, 4, 5, 6, 7, 8, 9}" by auto
  then show ?thesis by (elim insertE) (simp_all add: digitVal_def isDigitByte_def; code_simp)+
qed

lemma showNat_digits: "list_all isDigitByte (showNat n) \<and> showNat n \<noteq> []"
proof (induction n rule: showNat.induct)
  case (1 n)
  have d: "isDigitByte (char_of (48 + d :: nat))" if "d < 10" for d
    using digit_char [OF that] by (simp add: digitVal_def split: if_splits)
  show ?case
  proof (cases "n < 10")
    case True
    then show ?thesis using d by (simp add: showNat.simps [of n])
  next
    case False
    then show ?thesis using 1 d [of "n mod 10"] by (simp add: showNat.simps [of n])
  qed
qed

lemma parseDigits_append:
  "parseDigits dv b acc (xs @ ys) =
     (case parseDigits dv b acc xs of None \<Rightarrow> None | Some a \<Rightarrow> parseDigits dv b a ys)"
  by (induction xs arbitrary: acc) (auto split: option.split)

lemma parseDigits_showNat: "parseDigits digitVal 10 0 (showNat n) = Some n"
proof (induction n rule: showNat.induct)
  case (1 n)
  show ?case
  proof (cases "n < 10")
    case True
    then show ?thesis by (simp add: showNat.simps [of n] digit_char)
  next
    case False
    then show ?thesis
      using 1 by (simp add: showNat.simps [of n] parseDigits_append digit_char)
  qed
qed

lemma parseInt10_showNat: "int n < 2 ^ 63 \<Longrightarrow> parseInt10 (showNat n) = Some (int n)"
proof -
  assume n: "int n < 2 ^ 63"
  obtain c cs where s: "showNat n = c # cs" using showNat_digits by (cases "showNat n") auto
  have "\<not> isDigitByte (CHR ''-'')" "\<not> isDigitByte (CHR ''+'')" by code_simp+
  then have c: "c \<noteq> CHR ''-''" "c \<noteq> CHR ''+''"
    using showNat_digits [of n] s by auto
  show ?thesis
    using parseDigits_showNat [of n] s c n by (simp add: parseInt10_def int64_range_def)
qed

lemma length_showNat: "0 < k \<Longrightarrow> n < 10 ^ k \<Longrightarrow> length (showNat n) \<le> k"
proof (induction k arbitrary: n)
  case (Suc k)
  show ?case
  proof (cases "n < 10")
    case False
    then have k: "0 < k" using Suc.prems by (cases k) auto
    moreover have "n div 10 < 10 ^ k" using Suc.prems by (simp add: div_less_iff_less_mult mult.commute)
    ultimately show ?thesis using Suc.IH [of "n div 10"] False by (simp add: showNat.simps [of n])
  qed (simp add: showNat.simps [of n])
qed simp

lemma isDigitByte_not_space: "isDigitByte c \<Longrightarrow> \<not> isSpaceByte c"
  by (auto simp: isDigitByte_def isSpaceByte_def less_eq_char_def)

lemma trimSpace_digits: "list_all isDigitByte s \<Longrightarrow> trimSpace s = s"
proof -
  assume d: "list_all isDigitByte s"
  then have no: "\<forall>c\<in>set s. \<not> isSpaceByte c" using isDigitByte_not_space by (auto simp: list_all_iff)
  have "dropWhile isSpaceByte xs = xs" if "set xs = set s" for xs
    using no that by (cases xs) auto
  moreover have "isASCII s" using d by (auto simp: isASCII_def list_all_iff isDigitByte_def less_eq_char_def)
  ultimately show ?thesis unfolding trimSpace_def trimBoth_def by simp
qed

definition showInt :: "int \<Rightarrow> bytes" where
  "showInt n = (if n < 0 then CHR ''-'' # showNat (nat (- n)) else showNat (nat n))"

text \<open>The UTF-8 bytes of an em dash, which several messages contain.\<close>

definition emDash :: bytes where
  "emDash = [CHR 0xE2, CHR 0x80, CHR 0x94]"

section \<open>Integer division\<close>

text \<open>Go's \<open>/\<close> and \<open>%\<close> on signed integers truncate toward zero; HOL's \<open>div\<close> and \<open>mod\<close> floor.\<close>

definition goQuot :: "int \<Rightarrow> int \<Rightarrow> int" where
  "goQuot a b = (if (a < 0) = (b < 0) then \<bar>a\<bar> div \<bar>b\<bar> else - (\<bar>a\<bar> div \<bar>b\<bar>))"

definition goRem :: "int \<Rightarrow> int \<Rightarrow> int" where
  "goRem a b = a - goQuot a b * b"

lemma goQuot_nonneg [simp]: "0 \<le> a \<Longrightarrow> 0 < b \<Longrightarrow> goQuot a b = a div b"
  by (simp add: goQuot_def)

lemma goRem_nonneg [simp]: "0 \<le> a \<Longrightarrow> 0 < b \<Longrightarrow> goRem a b = a mod b"
  by (simp add: goRem_def minus_div_mult_eq_mod)

end
