(* ===== verification/YaraRule.thy ===== *)
theory YaraRule
  imports GoStd
begin

text \<open>
  The data of the YARA engine (\<open>src/internal/yara/rule.go\<close>, the types of
  \<open>eval.go\<close>): string definitions, the condition syntax tree, the compiled matchers and
  the rule that carries both, with the rule's own accessors \<open>Severity\<close> and
  \<open>Description\<close>.

  A compiled regular expression is what the engine uses of it: the start offsets of the
  successive leftmost matches in a buffer (\<open>FindAllIndex\<close> without a limit).
\<close>

datatype StringKind = KindText | KindHex | KindRegex

record StringDef =
  sd_ID :: bytes
  sd_Kind :: StringKind
  sd_Text :: bytes
  sd_Mods :: bytes
  sd_NoCase :: bool
  sd_Wide :: bool
  sd_ASCII :: bool
  sd_FullWord :: bool

section \<open>The condition syntax tree\<close>

text \<open>The parameter of \<open>valUint\<close> is the width in bits.\<close>

datatype Value =
    valNum int
  | valCount bytes
  | valOffset bytes
  | valFilesize
  | valUint nat Value

datatype quant = quantAny | quantAll | quantNone | quantN

datatype Node =
    nodeBool bool
  | nodeAnd Node Node
  | nodeOr Node Node
  | nodeNot Node
  | nodeStr bytes
  | nodeStrAt bytes Value
  | nodeOf quant int "bytes list"
  | nodeNear "bytes list" "bytes list" int
  | nodeRuleRef bytes
  | nodeCmp bytes Value Value

section \<open>Compiled strings and rules\<close>

text \<open>\<open>min\<close> and \<open>max\<close> of a jump; value and mask of a byte.\<close>

record hexElem =
  he_isJump :: bool
  he_min :: int
  he_max :: int
  he_val :: nat
  he_mask :: nat

type_synonym regex = "bytes \<Rightarrow> nat list"

record matcher =
  m_id :: bytes
  m_kind :: StringKind
  m_pats :: "bytes list"
  m_nocase :: bool
  m_fullword :: bool
  m_hex :: "hexElem list"
  m_re :: "regex option"

record Rule =
  r_Name :: bytes
  r_Tags :: "bytes list"
  r_Meta :: "bytes \<rightharpoonup> bytes"
  r_Strings :: "StringDef list"
  r_Cond :: Node
  r_Private :: bool
  r_Global :: bool
  r_Origin :: bytes
  r_matchers :: "matcher list"
  r_literals :: "bytes list"
  r_prefilterable :: bool

section \<open>Metadata\<close>

definition Severity :: "(nat \<Rightarrow> nat) \<Rightarrow> Rule \<Rightarrow> bytes" where
  "Severity ulow r =
     (case r_Meta r ''severity'' of
        Some v \<Rightarrow> goToLower ulow v
      | None \<Rightarrow>
          (case r_Meta r ''score'' of
             Some v \<Rightarrow>
               (case parseInt10 v of
                  Some n \<Rightarrow>
                    if n \<ge> 80 then ''critical''
                    else if n \<ge> 60 then ''high''
                    else if n \<ge> 40 then ''medium''
                    else ''low''
                | None \<Rightarrow> ''high'')
           | None \<Rightarrow> ''high''))"

fun firstMeta :: "(bytes \<rightharpoonup> bytes) \<Rightarrow> bytes list \<Rightarrow> bytes" where
  "firstMeta m [] = ''''"
| "firstMeta m (k # ks) = (case m k of Some v \<Rightarrow> v | None \<Rightarrow> firstMeta m ks)"

definition Description :: "Rule \<Rightarrow> bytes" where
  "Description r = firstMeta (r_Meta r) [''description'', ''desc'', ''info'']"

text \<open>A score is mapped to one of the four levels, and a higher score never to a lower one.\<close>

definition sevRank :: "bytes \<Rightarrow> nat" where
  "sevRank s =
     (if s = ''critical'' then 5 else if s = ''high'' then 4 else if s = ''medium'' then 3
      else if s = ''low'' then 2 else 0)"

end
