(* ===== verification/AhoCorasick.thy ===== *)
theory AhoCorasick
  imports Prelude
begin

text \<open>
  The literal prefilter of \<open>src/internal/rules/ahocorasick.go\<close>: the automaton
  \<open>AC\<close>, its construction \<open>BuildAC\<close> (trie insertion, then the breadth-first pass
  that computes failure links and turns the trie into a complete DFA) and the scan
  \<open>MatchSet\<close>.

  A node index is a natural number and the \<open>int32\<close> value -1 that marks a missing
  transition is \<open>None\<close>. An index into a slice that Go would refuse (a link of -1, a
  pattern id past the end of the caller's slice) makes the operation return \<open>None\<close>, as
  does a breadth-first pass that does not end; the theorems show that neither happens.
  Node counts stay below \<open>2 ^ 31\<close> in practice (a node takes a kilobyte), so the
  conversion of \<open>len(a.nodes)\<close> to \<open>int32\<close> is not truncated.
\<close>

section \<open>The automaton\<close>

record acNode =
  ac_next :: "byte \<Rightarrow> nat option"
  ac_fail :: "nat option"
  ac_out :: "nat list"

record AC =
  ac_nodes :: "acNode list"
  ac_patterns :: "bytes list"
  ac_hasEmpty :: bool

definition lowerByte :: "byte \<Rightarrow> byte" where
  "lowerByte b =
     (if CHR ''A'' \<le> b \<and> b \<le> CHR ''Z'' then char_of (of_char b + 32 :: nat) else b)"

lemma lowerByte_ascii_lower: "lowerByte = ascii_lower"
  by (simp add: fun_eq_iff lowerByte_def ascii_lower_def)

text \<open>A fresh node: every transition -1, \<open>fail\<close> the zero value 0, no outputs.\<close>

definition acNewNode :: acNode where
  "acNewNode = \<lparr>ac_next = (\<lambda>_. None), ac_fail = Some 0, ac_out = []\<rparr>"

subsection \<open>Trie insertion\<close>

text \<open>The inner loop over the bytes of one lowercased literal, from node \<open>cur\<close>.\<close>

fun acInsert :: "acNode list \<Rightarrow> nat \<Rightarrow> bytes \<Rightarrow> acNode list \<times> nat" where
  "acInsert ns cur [] = (ns, cur)"
| "acInsert ns cur (c # cs) =
     (case ac_next (ns ! cur) c of
        Some j \<Rightarrow> acInsert ns j cs
      | None \<Rightarrow>
          (let j = length ns;
               ns1 = ns @ [acNewNode];
               ns2 = ns1[cur := (ns1 ! cur)\<lparr>ac_next := (ac_next (ns1 ! cur))(c := Some j)\<rparr>]
           in acInsert ns2 j cs))"

type_synonym acBuild = "acNode list \<times> bytes list \<times> (bytes \<rightharpoonup> nat)"

text \<open>One iteration of the loop over the literals.\<close>

definition acAddLiteral :: "acBuild \<Rightarrow> bytes \<Rightarrow> acBuild" where
  "acAddLiteral st lit =
     (case st of (ns, pats, index) \<Rightarrow>
        if lit = [] then st
        else
          let key = map lowerByte lit in
          case index key of
            Some pid \<Rightarrow> (ns, pats, index(lit \<mapsto> pid))
          | None \<Rightarrow>
              let pid = length pats;
                  (ns', cur) = acInsert ns 0 key
              in (ns'[cur := (ns' ! cur)\<lparr>ac_out := ac_out (ns' ! cur) @ [pid]\<rparr>],
                  pats @ [key], index(key \<mapsto> pid, lit \<mapsto> pid)))"

definition acTrie :: "bytes list \<Rightarrow> acBuild" where
  "acTrie literals = foldl acAddLiteral ([acNewNode], [], (\<lambda>_. None)) literals"

subsection \<open>The breadth-first pass\<close>

type_synonym acBfs = "acNode list \<times> nat list"

text \<open>The loop that seeds the queue from the root, one byte at a time.\<close>

definition acRootStep :: "acBfs \<Rightarrow> byte \<Rightarrow> acBfs" where
  "acRootStep st c =
     (case st of (ns, queue) \<Rightarrow>
        case ac_next (ns ! 0) c of
          None \<Rightarrow> (ns[0 := (ns ! 0)\<lparr>ac_next := (ac_next (ns ! 0))(c := Some 0)\<rparr>], queue)
        | Some nxt \<Rightarrow> (ns[nxt := (ns ! nxt)\<lparr>ac_fail := Some 0\<rparr>], queue @ [nxt]))"

text \<open>The loop over the bytes of one dequeued node \<open>cur\<close> with failure state \<open>f\<close>.\<close>

definition acVisitStep :: "nat \<Rightarrow> nat \<Rightarrow> acBfs \<Rightarrow> byte \<Rightarrow> acBfs" where
  "acVisitStep cur f st c =
     (case st of (ns, queue) \<Rightarrow>
        case ac_next (ns ! cur) c of
          None \<Rightarrow>
            (ns[cur := (ns ! cur)\<lparr>ac_next := (ac_next (ns ! cur))(c := ac_next (ns ! f) c)\<rparr>],
             queue)
        | Some nxt \<Rightarrow>
            (ns[nxt := (ns ! nxt)\<lparr>ac_fail := ac_next (ns ! f) c\<rparr>], queue @ [nxt]))"

text \<open>Outputs are inherited from the failure state before the transitions are filled.\<close>

definition acInherit :: "acNode list \<Rightarrow> nat \<Rightarrow> nat \<Rightarrow> acNode list" where
  "acInherit ns cur f =
     (if length (ac_out (ns ! f)) > 0
      then ns[cur := (ns ! cur)\<lparr>ac_out := ac_out (ns ! cur) @ ac_out (ns ! f)\<rparr>]
      else ns)"

definition acVisit :: "nat \<Rightarrow> nat \<Rightarrow> acBfs \<Rightarrow> acBfs" where
  "acVisit cur f st =
     (case st of (ns, queue) \<Rightarrow> foldl (acVisitStep cur f) (acInherit ns cur f, queue) all_bytes)"

text \<open>The queue loop; the queue here is the part not yet dequeued.\<close>

partial_function (option) acBfsLoop :: "acNode list \<Rightarrow> nat list \<Rightarrow> acNode list option" where
  "acBfsLoop ns queue =
     (case queue of
        [] \<Rightarrow> Some ns
      | cur # rest \<Rightarrow>
          (case ac_fail (ns ! cur) of
             None \<Rightarrow> None
           | Some f \<Rightarrow>
               (case acVisit cur f (ns, rest) of (ns', queue') \<Rightarrow> acBfsLoop ns' queue')))"

definition BuildAC :: "bytes list \<Rightarrow> (AC \<times> (bytes \<rightharpoonup> nat)) option" where
  "BuildAC literals =
     (case acTrie literals of (ns, pats, index) \<Rightarrow>
        if pats = [] then Some (\<lparr>ac_nodes = ns, ac_patterns = pats, ac_hasEmpty = True\<rparr>, index)
        else
          case foldl acRootStep (ns, []) all_bytes of (ns1, queue) \<Rightarrow>
            (case acBfsLoop ns1 queue of
               None \<Rightarrow> None
             | Some ns2 \<Rightarrow>
                 Some (\<lparr>ac_nodes = ns2, ac_patterns = pats, ac_hasEmpty = False\<rparr>, index)))"

subsection \<open>Matching\<close>

definition NumPatterns :: "AC \<Rightarrow> nat" where
  "NumPatterns a = length (ac_patterns a)"

text \<open>\<open>hit[id] = true\<close> for each output; an id past the end of \<open>hit\<close> panics.\<close>

fun acMark :: "nat list \<Rightarrow> bool list \<Rightarrow> bool list option" where
  "acMark [] hit = Some hit"
| "acMark (pid # pids) hit =
     (if pid < length hit then acMark pids (hit[pid := True]) else None)"

fun acWalk :: "acNode list \<Rightarrow> nat \<Rightarrow> bytes \<Rightarrow> bool list \<Rightarrow> bool list option" where
  "acWalk ns cur [] hit = Some hit"
| "acWalk ns cur (b # bs) hit =
     (case ac_next (ns ! cur) (lowerByte b) of
        None \<Rightarrow> None
      | Some cur' \<Rightarrow>
          (case acMark (ac_out (ns ! cur')) hit of
             None \<Rightarrow> None
           | Some hit' \<Rightarrow> acWalk ns cur' bs hit'))"

definition MatchSet :: "AC \<Rightarrow> bytes \<Rightarrow> bool list \<Rightarrow> bool list option" where
  "MatchSet a data hit =
     (if ac_hasEmpty a \<or> length (ac_patterns a) = 0 then Some hit
      else acWalk (ac_nodes a) 0 data hit)"

section \<open>The state the automaton should be in\<close>

text \<open>
  For a prefix-closed set \<open>W\<close> of words, \<open>lsuf W w q\<close> says that \<open>q\<close> is the
  longest suffix of \<open>w\<close> that belongs to \<open>W\<close>.
\<close>

definition lsuf :: "bytes set \<Rightarrow> bytes \<Rightarrow> bytes \<Rightarrow> bool" where
  "lsuf W w q \<longleftrightarrow>
     q \<in> W \<and> suffix q w \<and> (\<forall>r\<in>W. suffix r w \<longrightarrow> length r \<le> length q)"

definition prefix_closed :: "bytes set \<Rightarrow> bool" where
  "prefix_closed W \<longleftrightarrow> [] \<in> W \<and> (\<forall>w c. w @ [c] \<in> W \<longrightarrow> w \<in> W)"

lemma lsuf_unique: "lsuf W w q \<Longrightarrow> lsuf W w r \<Longrightarrow> q = r"
  unfolding lsuf_def by (meson order_antisym suffix_length_suffix suffix_order.order_antisym)

lemma lsuf_self: "w \<in> W \<Longrightarrow> lsuf W w w"
  by (auto simp: lsuf_def dest: suffix_length_le)

lemma lsuf_snoc:
  assumes pc: "prefix_closed W" and q: "lsuf W w q" and r: "lsuf W (q @ [c]) r"
  shows "lsuf W (w @ [c]) r"
proof -
  have sq: "suffix (q @ [c]) (w @ [c])"
    using q by (simp add: lsuf_def)
  have "length t \<le> length r" if t: "t \<in> W" "suffix t (w @ [c])" for t
  proof (cases t rule: rev_cases)
    case (snoc t' d)
    with t pc have "t' \<in> W" "suffix t' w" "d = c"
      by (auto simp: prefix_closed_def)
    then have "suffix t' q"
      using q unfolding lsuf_def by (meson suffix_length_suffix)
    then have "suffix t (q @ [c])" using snoc \<open>d = c\<close> by simp
    with r t show ?thesis by (auto simp: lsuf_def)
  qed simp
  with r sq show ?thesis unfolding lsuf_def by (meson suffix_order.order_trans)
qed

text \<open>When \<open>w @ [c]\<close> is not a state, its longest suffix is that of its tail.\<close>

lemma lsuf_not_state:
  assumes "w @ [c] \<notin> W" and "w \<noteq> []" and "lsuf W (tl w @ [c]) r"
  shows "lsuf W (w @ [c]) r"
proof -
  have "tl (w @ [c]) = tl w @ [c]" using assms(2) by simp
  then have *: "suffix q (tl w @ [c]) \<longleftrightarrow> suffix q (w @ [c]) \<and> q \<noteq> w @ [c]" for q
    using suffix_tl_iff [of "w @ [c]" q] by simp
  show ?thesis using assms(1,3) unfolding lsuf_def * by blast
qed

section \<open>The trie\<close>

text \<open>
  \<open>trieNodes ns lab\<close>: node \<open>i\<close> stands for the word \<open>lab i\<close>; distinct nodes stand
  for distinct words, a transition appends a byte, every transition between labelled
  words is present, and every node but the root has a parent.
\<close>

definition trieEdge :: "acNode list \<Rightarrow> (nat \<Rightarrow> bytes) \<Rightarrow> nat \<Rightarrow> bool" where
  "trieEdge ns lab i \<longleftrightarrow>
     (\<forall>c j. ac_next (ns ! i) c = Some j \<longleftrightarrow> j < length ns \<and> lab j = lab i @ [c])"

definition trieLabels :: "nat \<Rightarrow> (nat \<Rightarrow> bytes) \<Rightarrow> bool" where
  "trieLabels n lab \<longleftrightarrow>
     0 < n \<and> lab 0 = [] \<and> inj_on lab {..<n} \<and>
     (\<forall>j<n. 0 < j \<longrightarrow> lab j \<noteq> [] \<and> (\<exists>i<n. lab i = butlast (lab j)))"

definition trieOuts :: "acNode list \<Rightarrow> (nat \<Rightarrow> bytes) \<Rightarrow> bytes list \<Rightarrow> nat \<Rightarrow> bool" where
  "trieOuts ns lab pats i \<longleftrightarrow>
     (\<forall>pid. pid \<in> set (ac_out (ns ! i)) \<longleftrightarrow> pid < length pats \<and> pats ! pid = lab i)"

definition trie :: "acNode list \<Rightarrow> (nat \<Rightarrow> bytes) \<Rightarrow> bytes list \<Rightarrow> bool" where
  "trie ns lab pats \<longleftrightarrow>
     trieLabels (length ns) lab \<and>
     (\<forall>i<length ns. trieEdge ns lab i \<and> trieOuts ns lab pats i \<and> ac_fail (ns ! i) = Some 0) \<and>
     (\<forall>p\<in>set pats. p \<noteq> [] \<and> (\<exists>i<length ns. lab i = p))"

lemma trieLabels_grow:
  assumes L: "trieLabels n lab" and i: "i < n" and new: "\<forall>j<n. lab j \<noteq> lab i @ [c]"
  shows "trieLabels (Suc n) (lab(n := lab i @ [c]))"
  unfolding trieLabels_def
proof (intro conjI allI impI)
  have inj: "inj_on lab {..<n}" and n0: "0 < n" "lab 0 = []"
    using L by (simp_all add: trieLabels_def)
  show "0 < Suc n" "(lab(n := lab i @ [c])) 0 = []" using n0 by simp_all
  show "inj_on (lab(n := lab i @ [c])) {..<Suc n}"
    using inj new by (auto simp: inj_on_def less_Suc_eq)
  fix j assume j: "j < Suc n" "0 < j"
  show "(lab(n := lab i @ [c])) j \<noteq> []"
    using j L by (auto simp: trieLabels_def less_Suc_eq)
  show "\<exists>k<Suc n. (lab(n := lab i @ [c])) k = butlast ((lab(n := lab i @ [c])) j)"
  proof (cases "j = n")
    case True
    with i show ?thesis by (intro exI [of _ i]) simp
  next
    case False
    with j L obtain k where "k < n" "lab k = butlast (lab j)"
      by (auto simp: trieLabels_def less_Suc_eq)
    with False show ?thesis by (intro exI [of _ k]) simp
  qed
qed

text \<open>One new node below node \<open>cur\<close>.\<close>

definition acGrow :: "acNode list \<Rightarrow> nat \<Rightarrow> byte \<Rightarrow> acNode list" where
  "acGrow ns cur c =
     (ns @ [acNewNode])[cur := (ns ! cur)\<lparr>ac_next := (ac_next (ns ! cur))(c := Some (length ns))\<rparr>]"

lemma acInsert_None:
  "cur < length ns \<Longrightarrow> ac_next (ns ! cur) c = None \<Longrightarrow>
   acInsert ns cur (c # cs) = acInsert (acGrow ns cur c) (length ns) cs"
  by (simp add: acGrow_def nth_append Let_def)

lemma length_acGrow [simp]: "length (acGrow ns cur c) = Suc (length ns)"
  by (simp add: acGrow_def)

lemma nth_acGrow:
  "cur < length ns \<Longrightarrow> i \<le> length ns \<Longrightarrow> acGrow ns cur c ! i =
     (if i = cur then (ns ! cur)\<lparr>ac_next := (ac_next (ns ! cur))(c := Some (length ns))\<rparr>
      else if i = length ns then acNewNode else ns ! i)"
  by (auto simp: acGrow_def nth_append nth_list_update)

lemma trie_acGrow:
  assumes T: "trie ns lab pats" and cur: "cur < length ns" and nx: "ac_next (ns ! cur) c = None"
  shows "trie (acGrow ns cur c) (lab(length ns := lab cur @ [c])) pats"
proof -
  let ?n = "length ns" and ?lab = "lab(length ns := lab cur @ [c])"
  have L: "trieLabels ?n lab" and E: "\<And>i. i < ?n \<Longrightarrow> trieEdge ns lab i"
    and O: "\<And>i. i < ?n \<Longrightarrow> trieOuts ns lab pats i"
    and F: "\<And>i. i < ?n \<Longrightarrow> ac_fail (ns ! i) = Some 0"
    and P: "\<forall>p\<in>set pats. p \<noteq> [] \<and> (\<exists>i<?n. lab i = p)"
    using T by (auto simp: trie_def)
  have new: "lab j \<noteq> lab cur @ [c]" if "j < ?n" for j
    using E [OF cur] nx that by (metis trieEdge_def option.distinct(1))
  have L': "trieLabels (Suc ?n) ?lab" using trieLabels_grow [OF L cur] new by blast
  have leaf: "lab j \<noteq> lab cur @ [c, d]" if j: "j < ?n" for j d
  proof
    assume eq: "lab j = lab cur @ [c, d]"
    then have "0 < j" using L by (cases j) (auto simp: trieLabels_def)
    with L j eq obtain k where "k < ?n" "lab k = lab cur @ [c]"
      by (auto simp: trieLabels_def butlast_append)
    with new show False by blast
  qed
  have inj: "lab i = lab cur \<Longrightarrow> i < ?n \<Longrightarrow> i = cur" for i
    using L cur by (auto simp: trieLabels_def inj_on_def)
  have nth: "i \<le> ?n \<Longrightarrow> acGrow ns cur c ! i =
     (if i = cur then (ns ! cur)\<lparr>ac_next := (ac_next (ns ! cur))(c := Some ?n)\<rparr>
      else if i = ?n then acNewNode else ns ! i)" for i
    by (rule nth_acGrow [OF cur])
  have E': "trieEdge (acGrow ns cur c) ?lab i" if i: "i \<le> ?n" for i
  proof (cases "i = ?n")
    case True
    then show ?thesis using cur leaf
      by (auto simp: trieEdge_def nth acNewNode_def less_Suc_eq)
  next
    case False
    then have "i < ?n" using i by simp
    then show ?thesis
      using E [of i] False new inj [of i] by (auto simp: trieEdge_def nth less_Suc_eq)
  qed
  have O': "trieOuts (acGrow ns cur c) ?lab pats i" if i: "i \<le> ?n" for i
  proof (cases "i = ?n")
    case True
    have "pid < length pats \<Longrightarrow> pats ! pid \<noteq> lab cur @ [c]" for pid
      using P new by (metis nth_mem)
    with True cur show ?thesis by (auto simp: trieOuts_def nth acNewNode_def)
  next
    case False
    then show ?thesis using O [of i] i by (auto simp: trieOuts_def nth)
  qed
  have F': "ac_fail (acGrow ns cur c ! i) = Some 0" if "i \<le> ?n" for i
    using that F cur by (auto simp: nth acNewNode_def)
  have "\<exists>i\<le>?n. ?lab i = p" if "p \<in> set pats" for p
    using P that by (metis fun_upd_other less_imp_le nat_neq_iff)
  with L' E' O' F' P show ?thesis by (simp add: trie_def less_Suc_eq_le)
qed

lemma acInsert_trie:
  assumes "trie ns lab pats" and "cur < length ns"
  shows "\<exists>ns' cur' lab'. acInsert ns cur cs = (ns', cur') \<and> trie ns' lab' pats \<and>
           cur' < length ns' \<and> lab' cur' = lab cur @ cs"
  using assms
proof (induction cs arbitrary: ns cur lab)
  case Nil
  then show ?case by (intro exI [of _ ns] exI [of _ cur] exI [of _ lab]) simp
next
  case (Cons c cs)
  show ?case
  proof (cases "ac_next (ns ! cur) c")
    case None
    have "trie (acGrow ns cur c) (lab(length ns := lab cur @ [c])) pats"
      using trie_acGrow Cons.prems None by blast
    from Cons.IH [OF this, of "length ns"] show ?thesis
      by (simp add: acInsert_None [OF Cons.prems(2) None] del: acInsert.simps)
  next
    case (Some j)
    with Cons.prems have j: "j < length ns" "lab j = lab cur @ [c]"
      by (auto simp: trie_def trieEdge_def)
    from Cons.IH [OF Cons.prems(1) j(1)] Some j(2) show ?thesis by simp
  qed
qed

text \<open>Recording the new pattern's id at the node its path ends in.\<close>

definition acAddOut :: "acNode list \<Rightarrow> nat \<Rightarrow> nat \<Rightarrow> acNode list" where
  "acAddOut ns cur pid = ns[cur := (ns ! cur)\<lparr>ac_out := ac_out (ns ! cur) @ [pid]\<rparr>]"

lemma length_acAddOut [simp]: "length (acAddOut ns cur pid) = length ns"
  by (simp add: acAddOut_def)

lemma acAddOut_sel [simp]:
  "ac_next (acAddOut ns cur pid ! i) = ac_next (ns ! i)"
  "ac_fail (acAddOut ns cur pid ! i) = ac_fail (ns ! i)"
  by (cases "i = cur"; cases "cur < length ns"; simp add: acAddOut_def list_update_beyond)+

lemma acAddOut_out:
  "cur < length ns \<Longrightarrow> ac_out (acAddOut ns cur pid ! i) =
     (if i = cur then ac_out (ns ! i) @ [pid] else ac_out (ns ! i))"
  by (simp add: acAddOut_def)

lemma trie_add_pattern:
  assumes T: "trie ns lab pats" and cur: "cur < length ns" and key: "lab cur = key" "key \<noteq> []"
    and fresh: "key \<notin> set pats"
  shows "trie (acAddOut ns cur (length pats)) lab (pats @ [key])"
proof -
  have "trieOuts (acAddOut ns cur (length pats)) lab (pats @ [key]) i" if i: "i < length ns" for i
  proof -
    have out: "\<And>pid. pid \<in> set (ac_out (ns ! i)) \<longleftrightarrow> pid < length pats \<and> pats ! pid = lab i"
      using T i by (simp add: trie_def trieOuts_def)
    have key_iff: "lab i = key \<longleftrightarrow> i = cur"
      using T cur i key(1) by (auto simp: trie_def trieLabels_def inj_on_def)
    have "pid \<in> set (ac_out (acAddOut ns cur (length pats) ! i)) \<longleftrightarrow>
            (pid \<in> set (ac_out (ns ! i)) \<or> pid = length pats \<and> i = cur)" for pid
      by (auto simp: acAddOut_out [OF cur])
    also have "\<dots> pid \<longleftrightarrow> pid < length (pats @ [key]) \<and> (pats @ [key]) ! pid = lab i" for pid
      unfolding out using key_iff by (cases "pid < length pats") (auto simp: nth_append)
    finally show ?thesis unfolding trieOuts_def by blast
  qed
  moreover have "trieEdge (acAddOut ns cur (length pats)) lab i \<longleftrightarrow> trieEdge ns lab i" for i
    by (simp add: trieEdge_def)
  ultimately show ?thesis using T cur key by (auto simp: trie_def)
qed

text \<open>The invariant of the literal loop: the trie, the pattern table and the index agree.\<close>

definition acIndexed :: "bytes list \<Rightarrow> bytes list \<Rightarrow> (bytes \<rightharpoonup> nat) \<Rightarrow> bool" where
  "acIndexed lits pats index \<longleftrightarrow>
     distinct pats \<and> set pats = map lowerByte ` {l \<in> set lits. l \<noteq> []} \<and>
     (\<forall>l pid. index l = Some pid \<longrightarrow> pid < length pats \<and> pats ! pid = map lowerByte l) \<and>
     (\<forall>l\<in>set lits. l \<noteq> [] \<longrightarrow> index l \<noteq> None) \<and>
     (\<forall>p\<in>set pats. index p \<noteq> None)"

definition acTrieOK :: "bytes list \<Rightarrow> acBuild \<Rightarrow> bool" where
  "acTrieOK lits st \<longleftrightarrow>
     (case st of (ns, pats, index) \<Rightarrow> (\<exists>lab. trie ns lab pats) \<and> acIndexed lits pats index)"

lemma lowerByte_idem [simp]: "lowerByte (lowerByte b) = lowerByte b"
  by (simp add: lowerByte_ascii_lower)

lemma map_lowerByte_idem [simp]: "map lowerByte (map lowerByte l) = map lowerByte l"
  by (simp add: comp_def)

lemma acIndexed_seen:
  assumes I: "acIndexed lits pats index" and "l \<noteq> []" and "index (map lowerByte l) = Some pid"
  shows "acIndexed (lits @ [l]) pats (index(l \<mapsto> pid))"
proof -
  have "pid < length pats" "pats ! pid = map lowerByte l"
    using I assms(3) by (auto simp: acIndexed_def)
  then have "map lowerByte l \<in> set pats" by (metis nth_mem)
  with I assms(2) \<open>pid < length pats\<close> \<open>pats ! pid = map lowerByte l\<close> show ?thesis
    unfolding acIndexed_def by auto
qed

lemma acIndexed_fresh:
  assumes I: "acIndexed lits pats index" and "l \<noteq> []" and none: "index (map lowerByte l) = None"
  shows "acIndexed (lits @ [l]) (pats @ [map lowerByte l])
           (index(map lowerByte l \<mapsto> length pats, l \<mapsto> length pats))"
  (is "acIndexed _ ?pats ?index")
proof -
  have fresh: "map lowerByte l \<notin> set pats" using I none by (metis acIndexed_def)
  have "distinct ?pats" using I fresh by (simp add: acIndexed_def)
  moreover have "set ?pats = map lowerByte ` {l' \<in> set (lits @ [l]). l' \<noteq> []}"
    using I assms(2) unfolding acIndexed_def by (auto simp del: map_map)
  moreover have "pid < length ?pats \<and> ?pats ! pid = map lowerByte l'"
    if "?index l' = Some pid" for l' pid
  proof (cases "l' = l \<or> l' = map lowerByte l")
    case True
    with that have "pid = length pats" by (auto split: if_splits)
    with True show ?thesis by (auto simp del: map_map)
  next
    case False
    with that have "index l' = Some pid" by simp
    then have "pid < length pats" "pats ! pid = map lowerByte l'"
      using I by (auto simp: acIndexed_def)
    then show ?thesis by (simp add: nth_append)
  qed
  moreover have "\<forall>l'\<in>set (lits @ [l]). l' \<noteq> [] \<longrightarrow> ?index l' \<noteq> None"
    using I by (auto simp: acIndexed_def)
  moreover have "\<forall>p\<in>set ?pats. ?index p \<noteq> None"
    using I unfolding acIndexed_def by auto
  ultimately show ?thesis unfolding acIndexed_def by blast
qed

lemma acAddLiteral_OK:
  assumes "acTrieOK lits st"
  shows "acTrieOK (lits @ [l]) (acAddLiteral st l)"
proof (cases "l = []")
  case True
  with assms show ?thesis
    by (auto simp: acTrieOK_def acAddLiteral_def acIndexed_def)
next
  case False
  obtain ns pats index where st: "st = (ns, pats, index)" by (cases st)
  obtain lab where T: "trie ns lab pats" and I: "acIndexed lits pats index"
    using assms by (auto simp: st acTrieOK_def)
  let ?key = "map lowerByte l"
  show ?thesis
  proof (cases "index ?key")
    case (Some pid)
    with T acIndexed_seen [OF I False Some] False show ?thesis
      by (auto simp: st acTrieOK_def acAddLiteral_def)
  next
    case None
    have "lab 0 = []" "0 < length ns" using T by (auto simp: trie_def trieLabels_def)
    then obtain ns' cur' lab' where ins: "acInsert ns 0 ?key = (ns', cur')"
      and T': "trie ns' lab' pats" and c: "cur' < length ns'" "lab' cur' = ?key"
      using acInsert_trie [OF T, of 0 ?key] by auto
    have "?key \<notin> set pats" using I None by (metis acIndexed_def)
    with trie_add_pattern [OF T' c] False acIndexed_fresh [OF I False None] ins None
    show ?thesis by (auto simp: st acTrieOK_def acAddLiteral_def acAddOut_def Let_def)
  qed
qed

lemma acTrie_OK: "acTrieOK lits (acTrie lits)"
proof (induction lits rule: rev_induct)
  case Nil
  have "trie [acNewNode] (\<lambda>_. []) []"
    by (auto simp: trie_def trieLabels_def trieEdge_def trieOuts_def acNewNode_def inj_on_def)
  then show ?case by (auto simp: acTrie_def acTrieOK_def acIndexed_def)
next
  case (snoc l lits)
  from acAddLiteral_OK [OF snoc] show ?case by (simp add: acTrie_def)
qed

section \<open>The breadth-first pass computes the automaton\<close>

text \<open>
  Both byte loops have one shape: where the node has no transition, take the one of the
  failure state (\<open>nf\<close>); where it has a child, that becomes the child's failure link and
  the child is queued.
\<close>

definition acFill :: "nat \<Rightarrow> (byte \<Rightarrow> nat option) \<Rightarrow> acBfs \<Rightarrow> byte \<Rightarrow> acBfs" where
  "acFill cur nf st c =
     (case st of (ns, queue) \<Rightarrow>
        case ac_next (ns ! cur) c of
          None \<Rightarrow> (ns[cur := (ns ! cur)\<lparr>ac_next := (ac_next (ns ! cur))(c := nf c)\<rparr>], queue)
        | Some nxt \<Rightarrow> (ns[nxt := (ns ! nxt)\<lparr>ac_fail := nf c\<rparr>], queue @ [nxt]))"

lemma acRootStep_fill: "acRootStep = acFill 0 (\<lambda>_. Some 0)"
  by (simp add: fun_eq_iff acRootStep_def acFill_def)

lemma acFill_None:
  "ac_next (ns ! cur) c = None \<Longrightarrow> acFill cur nf (ns, q) c =
     (ns[cur := (ns ! cur)\<lparr>ac_next := (ac_next (ns ! cur))(c := nf c)\<rparr>], q)"
  and acFill_Some:
  "ac_next (ns ! cur) c = Some j \<Longrightarrow> acFill cur nf (ns, q) c =
     (ns[j := (ns ! j)\<lparr>ac_fail := nf c\<rparr>], q @ [j])"
  by (simp_all add: acFill_def)

text \<open>What the loop leaves behind after the bytes \<open>bs\<close>.\<close>

definition acFilled ::
  "acNode list \<Rightarrow> nat \<Rightarrow> (byte \<Rightarrow> nat option) \<Rightarrow> byte list \<Rightarrow> acNode list \<Rightarrow> bool" where
  "acFilled ns cur nf bs ns' \<longleftrightarrow>
     length ns' = length ns \<and>
     (\<forall>i. ac_out (ns' ! i) = ac_out (ns ! i)) \<and>
     (\<forall>i. i \<noteq> cur \<longrightarrow> ac_next (ns' ! i) = ac_next (ns ! i)) \<and>
     ac_next (ns' ! cur) =
       (\<lambda>c. if c \<in> set bs \<and> ac_next (ns ! cur) c = None then nf c else ac_next (ns ! cur) c) \<and>
     (\<forall>c\<in>set bs. \<forall>j. ac_next (ns ! cur) c = Some j \<longrightarrow> ac_fail (ns' ! j) = nf c) \<and>
     (\<forall>i. (\<forall>c\<in>set bs. ac_next (ns ! cur) c \<noteq> Some i) \<longrightarrow> ac_fail (ns' ! i) = ac_fail (ns ! i))"

definition acKids :: "acNode list \<Rightarrow> nat \<Rightarrow> bool" where
  "acKids ns cur \<longleftrightarrow> cur < length ns \<and>
     (\<forall>c j. ac_next (ns ! cur) c = Some j \<longrightarrow> j < length ns \<and> j \<noteq> cur) \<and>
     (\<forall>c d j. ac_next (ns ! cur) c = Some j \<longrightarrow> ac_next (ns ! cur) d = Some j \<longrightarrow> c = d)"

lemma acFill_sel:
  assumes "cur < length ns"
  shows "ac_next (ns[cur := (ns ! cur)\<lparr>ac_next := g\<rparr>] ! i) = (if i = cur then g else ac_next (ns ! i))"
    "ac_fail (ns[cur := (ns ! cur)\<lparr>ac_next := g\<rparr>] ! i) = ac_fail (ns ! i)"
    "ac_out (ns[cur := (ns ! cur)\<lparr>ac_next := g\<rparr>] ! i) = ac_out (ns ! i)"
    "ac_next (ns[cur := (ns ! cur)\<lparr>ac_fail := l\<rparr>] ! i) = ac_next (ns ! i)"
    "ac_fail (ns[cur := (ns ! cur)\<lparr>ac_fail := l\<rparr>] ! i) = (if i = cur then l else ac_fail (ns ! i))"
    "ac_out (ns[cur := (ns ! cur)\<lparr>ac_fail := l\<rparr>] ! i) = ac_out (ns ! i)"
  using assms by (cases "i = cur"; simp)+

lemma acFill_fold:
  assumes kids: "acKids ns cur" and "distinct bs"
  shows "\<exists>ns'. foldl (acFill cur nf) (ns, q) bs = (ns', q @ List.map_filter (ac_next (ns ! cur)) bs)
             \<and> acFilled ns cur nf bs ns'"
  using assms(2)
proof (induction bs rule: rev_induct)
  case Nil
  then show ?case by (simp add: acFilled_def List.map_filter_def)
next
  case (snoc c bs)
  let ?nx = "ac_next (ns ! cur)"
  obtain ns' where fold: "foldl (acFill cur nf) (ns, q) bs = (ns', q @ List.map_filter ?nx bs)"
    and F: "acFilled ns cur nf bs ns'"
    using snoc by auto
  have c: "c \<notin> set bs" and len: "length ns' = length ns" and cur: "cur < length ns'"
    and nxc: "ac_next (ns' ! cur) c = ?nx c"
    using snoc F kids by (auto simp: acFilled_def acKids_def)
  show ?case
  proof (cases "?nx c")
    case None
    let ?ns2 = "ns'[cur := (ns' ! cur)\<lparr>ac_next := (ac_next (ns' ! cur))(c := nf c)\<rparr>]"
    have "acFilled ns cur nf (bs @ [c]) ?ns2"
      using F None unfolding acFilled_def
      by (simp add: acFill_sel [OF cur] fun_eq_iff)
    then show ?thesis using fold None acFill_None [of ns' cur c] nxc
      by (simp add: List.map_filter_def)
  next
    case (Some j)
    then have j: "j < length ns'" "j \<noteq> cur" using kids len by (auto simp: acKids_def)
    have other: "?nx d \<noteq> Some j" if "d \<in> set bs" for d
      using that c Some kids unfolding acKids_def by metis
    let ?ns2 = "ns'[j := (ns' ! j)\<lparr>ac_fail := nf c\<rparr>]"
    have "acFilled ns cur nf (bs @ [c]) ?ns2"
      using F Some other c unfolding acFilled_def
      by (auto simp: acFill_sel [OF j(1)] fun_eq_iff)
    then show ?thesis using fold Some acFill_Some [of ns' cur c j] nxc
      by (simp add: List.map_filter_def)
  qed
qed

lemma acVisitStep_fold:
  assumes kids: "acKids ns cur" and "distinct bs" and f: "f \<noteq> cur"
  shows "foldl (acVisitStep cur f) (ns, q) bs = foldl (acFill cur (ac_next (ns ! f))) (ns, q) bs"
  using assms(2)
proof (induction bs rule: rev_induct)
  case (snoc c bs)
  obtain ns' q' where fold: "foldl (acFill cur (ac_next (ns ! f))) (ns, q) bs = (ns', q')"
    and "acFilled ns cur (ac_next (ns ! f)) bs ns'"
    using acFill_fold [OF kids, of bs] snoc by fastforce
  then have "ac_next (ns' ! f) = ac_next (ns ! f)" using f by (simp add: acFilled_def)
  then have "acVisitStep cur f (ns', q') c = acFill cur (ac_next (ns ! f)) (ns', q') c"
    by (simp add: acVisitStep_def acFill_def split: option.split)
  with snoc fold show ?case by simp
qed simp

subsection \<open>The invariant of the queue loop\<close>

definition deltaOK :: "acNode list \<Rightarrow> (nat \<Rightarrow> bytes) \<Rightarrow> nat \<Rightarrow> bool" where
  "deltaOK ns lab i \<longleftrightarrow>
     (\<forall>c. \<exists>j<length ns. ac_next (ns ! i) c = Some j \<and>
            lsuf (lab ` {..<length ns}) (lab i @ [c]) (lab j))"

definition failOK :: "acNode list \<Rightarrow> (nat \<Rightarrow> bytes) \<Rightarrow> nat \<Rightarrow> bool" where
  "failOK ns lab i \<longleftrightarrow>
     (\<exists>f<length ns. ac_fail (ns ! i) = Some f \<and>
        lsuf (lab ` {..<length ns}) (tl (lab i)) (lab f))"

definition outOK :: "acNode list \<Rightarrow> (nat \<Rightarrow> bytes) \<Rightarrow> bytes list \<Rightarrow> nat \<Rightarrow> bool" where
  "outOK ns lab pats i \<longleftrightarrow>
     (\<forall>pid. pid \<in> set (ac_out (ns ! i)) \<longleftrightarrow> pid < length pats \<and> suffix (pats ! pid) (lab i))"

definition bfsInv ::
  "(nat \<Rightarrow> bytes) \<Rightarrow> bytes list \<Rightarrow> nat set \<Rightarrow> acNode list \<Rightarrow> nat list \<Rightarrow> bool" where
  "bfsInv lab pats D ns queue \<longleftrightarrow>
     trieLabels (length ns) lab \<and>
     (\<forall>p\<in>set pats. p \<noteq> [] \<and> p \<in> lab ` {..<length ns}) \<and>
     0 \<in> D \<and> D \<subseteq> {..<length ns} \<and>
     (\<forall>i\<in>D. deltaOK ns lab i \<and> outOK ns lab pats i) \<and>
     (\<forall>i<length ns. i \<notin> D \<longrightarrow> trieEdge ns lab i \<and> trieOuts ns lab pats i) \<and>
     distinct queue \<and> set queue \<subseteq> {..<length ns} - D \<and>
     (\<forall>q\<in>set queue. failOK ns lab q) \<and>
     (\<forall>j<length ns. 0 < j \<longrightarrow> (butlast (lab j) \<in> lab ` D \<longleftrightarrow> j \<in> D \<union> set queue)) \<and>
     sorted (map (length \<circ> lab) queue) \<and>
     (\<forall>q\<in>set queue. length (lab q) \<le> Suc (length (lab (hd queue))))"

lemma trieLabels_prefix_closed: "trieLabels n lab \<Longrightarrow> prefix_closed (lab ` {..<n})"
proof -
  assume L: "trieLabels n lab"
  have "w \<in> lab ` {..<n}" if "w @ [c] \<in> lab ` {..<n}" for w c
  proof -
    from that obtain j where j: "j < n" "lab j = w @ [c]" by auto
    with L have "0 < j" by (cases j) (auto simp: trieLabels_def)
    with L j obtain i where "i < n" "lab i = butlast (w @ [c])"
      unfolding trieLabels_def by metis
    then show ?thesis by (auto simp: image_iff intro!: bexI [of _ i])
  qed
  moreover have "[] \<in> lab ` {..<n}"
    using L by (auto simp: trieLabels_def intro!: image_eqI [of _ _ 0])
  ultimately show ?thesis by (auto simp: prefix_closed_def)
qed

lemma trieLabels_inj: "trieLabels n lab \<Longrightarrow> lab i = lab j \<Longrightarrow> i < n \<Longrightarrow> j < n \<Longrightarrow> i = j"
  by (auto simp: trieLabels_def inj_on_def)

text \<open>Every node shallower than the head of the queue has been processed.\<close>

lemma bfs_shallow_done:
  assumes I: "bfsInv lab pats D ns queue"
    and v: "v < length ns" "queue \<noteq> [] \<longrightarrow> length (lab v) < length (lab (hd queue))"
  shows "v \<in> D"
  using v
proof (induction "length (lab v)" arbitrary: v rule: less_induct)
  case less
  show ?case
  proof (cases "v = 0")
    case True
    with I show ?thesis by (simp add: bfsInv_def)
  next
    case False
    with I less.prems obtain p where p: "p < length ns" "lab p = butlast (lab v)" "lab v \<noteq> []"
      unfolding bfsInv_def trieLabels_def by (metis gr0I)
    then have "length (lab p) < length (lab v)" by simp
    with less.prems less.hyps [OF _ p(1)] have "p \<in> D" by fastforce
    then have "butlast (lab v) \<in> lab ` D" using p by (metis imageI)
    with I False less.prems have "v \<in> D \<union> set queue" by (simp add: bfsInv_def)
    moreover have "v \<notin> set queue"
    proof
      assume "v \<in> set queue"
      then obtain h t where q: "queue = h # t" by (cases queue) auto
      with I have "sorted (map (length \<circ> lab) (h # t))" by (simp add: bfsInv_def)
      with \<open>v \<in> set queue\<close> q have "length (lab h) \<le> length (lab v)" by auto
      with less.prems q show False by simp
    qed
    ultimately show ?thesis by blast
  qed
qed

lemma acInherit_sel:
  assumes "cur < length ns"
  shows "length (acInherit ns cur f) = length ns"
    "ac_next (acInherit ns cur f ! i) = ac_next (ns ! i)"
    "ac_fail (acInherit ns cur f ! i) = ac_fail (ns ! i)"
    "ac_out (acInherit ns cur f ! i) =
       (if i = cur then ac_out (ns ! cur) @ ac_out (ns ! f) else ac_out (ns ! i))"
  using assms by (cases "i = cur"; auto simp: acInherit_def)+

lemma set_map_filter_Some: "set (List.map_filter g xs) = {y. \<exists>x\<in>set xs. g x = Some y}"
  by (force simp: List.map_filter_def)

lemma distinct_map_filter:
  "distinct xs \<Longrightarrow> (\<And>x y z. g x = Some z \<Longrightarrow> g y = Some z \<Longrightarrow> x = y) \<Longrightarrow>
   distinct (List.map_filter g xs)"
  by (induction xs) (auto simp: set_map_filter_Some List.map_filter_simps split: option.splits)

text \<open>The facts about the node being processed that every part of the step uses.\<close>

lemma bfs_head:
  assumes I: "bfsInv lab pats D ns (cur # rest)"
  obtains f where "cur < length ns" "cur \<notin> D" "lab cur \<noteq> []" "ac_fail (ns ! cur) = Some f"
    "f \<in> D" "f < length ns" "f \<noteq> cur" "lsuf (lab ` {..<length ns}) (tl (lab cur)) (lab f)"
    "trieEdge ns lab cur" "acKids ns cur"
proof -
  have cur: "cur < length ns" "cur \<notin> D" and fo: "failOK ns lab cur" and D0: "0 \<in> D"
    and L: "trieLabels (length ns) lab"
    using I by (auto simp: bfsInv_def)
  then have E: "trieEdge ns lab cur" using I by (auto simp: bfsInv_def)
  from cur D0 have "0 < cur" by (cases cur) auto
  with L cur have ne: "lab cur \<noteq> []" by (simp add: trieLabels_def)
  obtain f where f: "f < length ns" "ac_fail (ns ! cur) = Some f"
    "lsuf (lab ` {..<length ns}) (tl (lab cur)) (lab f)"
    using fo by (auto simp: failOK_def)
  then have "length (lab f) \<le> length (tl (lab cur))"
    by (auto simp: lsuf_def dest: suffix_length_le)
  then have "length (lab f) < length (lab cur)" using ne by (cases "lab cur") auto
  then have "f \<in> D" using bfs_shallow_done [OF I f(1)] by simp
  moreover have "acKids ns cur"
    using E cur unfolding acKids_def trieEdge_def by (metis append_self_conv list.distinct(1) same_append_eq list.inject)
  ultimately show ?thesis using that cur ne f E by blast
qed

lemma bfs_out_step:
  assumes ls: "lsuf W (tl w) q" and ne: "w \<noteq> []" and p: "p \<in> W"
  shows "suffix p w \<longleftrightarrow> p = w \<or> suffix p q"
proof -
  have "suffix p (tl w) \<longleftrightarrow> suffix p q"
    using ls p unfolding lsuf_def
    by (meson suffix_length_suffix suffix_order.order_trans)
  then show ?thesis using suffix_tl_iff [OF ne, of p] by auto
qed

lemma bfs_kids:
  assumes E: "trieEdge ns lab cur"
  shows "j \<in> set (List.map_filter (ac_next (ns ! cur)) all_bytes) \<longleftrightarrow>
           j < length ns \<and> (\<exists>c. lab j = lab cur @ [c])"
    "distinct (List.map_filter (ac_next (ns ! cur)) all_bytes)"
proof -
  show "j \<in> set (List.map_filter (ac_next (ns ! cur)) all_bytes) \<longleftrightarrow>
           j < length ns \<and> (\<exists>c. lab j = lab cur @ [c])"
    using E by (auto simp: set_map_filter_Some trieEdge_def)
  show "distinct (List.map_filter (ac_next (ns ! cur)) all_bytes)"
    using E by (intro distinct_map_filter) (auto simp: trieEdge_def)
qed

text \<open>The transitions, outputs and failure links that one visit establishes.\<close>

lemma bfs_visit_head:
  assumes E: "trieEdge ns lab cur" and L: "trieLabels (length ns) lab" and cur: "cur < length ns"
    and ne: "lab cur \<noteq> []" and f: "deltaOK ns lab f" "lsuf (lab ` {..<length ns}) (tl (lab cur)) (lab f)"
    and F: "acFilled (acInherit ns cur f) cur (ac_next (ns ! f)) all_bytes ns'"
  shows "deltaOK ns' lab cur"
    and "j < length ns \<Longrightarrow> lab j = lab cur @ [c] \<Longrightarrow> failOK ns' lab j"
proof -
  let ?W = "lab ` {..<length ns}"
  have pc: "prefix_closed ?W" by (rule trieLabels_prefix_closed [OF L])
  have len: "length ns' = length ns"
    and nx: "ac_next (ns' ! cur) = (\<lambda>c. if ac_next (ns ! cur) c = None
                then ac_next (ns ! f) c else ac_next (ns ! cur) c)"
    using F by (auto simp: acFilled_def acInherit_sel [OF cur])
  have fstep: "\<exists>k<length ns. ac_next (ns ! f) c = Some k \<and> lsuf ?W (tl (lab cur) @ [c]) (lab k)" for c
    using f lsuf_snoc [OF pc f(2)] unfolding deltaOK_def by blast
  have "\<exists>k<length ns. ac_next (ns' ! cur) c = Some k \<and> lsuf ?W (lab cur @ [c]) (lab k)" for c
  proof (cases "ac_next (ns ! cur) c")
    case None
    then have "\<not> (j < length ns \<and> lab j = lab cur @ [c])" for j
      using E by (metis option.distinct(1) trieEdge_def)
    then have "lab cur @ [c] \<notin> ?W" by (metis imageE lessThan_iff)
    with fstep [of c] lsuf_not_state [OF _ ne] None nx show ?thesis by auto
  next
    case (Some k)
    then have k: "k < length ns" "lab k = lab cur @ [c]" using E by (auto simp: trieEdge_def)
    then have "lab k \<in> ?W" by blast
    then have "lsuf ?W (lab cur @ [c]) (lab k)" using lsuf_self [of "lab k" ?W] k by simp
    with k Some nx show ?thesis by auto
  qed
  then show "deltaOK ns' lab cur" by (simp add: deltaOK_def len)
  assume j: "j < length ns" "lab j = lab cur @ [c]"
  then have "ac_next (ns ! cur) c = Some j" using E by (simp add: trieEdge_def)
  then have "ac_fail (ns' ! j) = ac_next (ns ! f) c"
    using F by (simp add: acFilled_def acInherit_sel [OF cur])
  with fstep [of c] j ne show "failOK ns' lab j" by (auto simp: failOK_def len)
qed

text \<open>One iteration of the queue loop keeps the invariant.\<close>

lemma bfs_step:
  assumes I: "bfsInv lab pats D ns (cur # rest)"
    and f: "ac_fail (ns ! cur) = Some f" and v: "acVisit cur f (ns, rest) = (ns', q')"
  shows "bfsInv lab pats (insert cur D) ns' q' \<and> length ns' = length ns"
proof -
  let ?W = "lab ` {..<length ns}"
  define kids where "kids = List.map_filter (ac_next (ns ! cur)) all_bytes"
  have cur: "cur < length ns" "cur \<notin> D" "lab cur \<noteq> []" and fD: "f \<in> D" "f < length ns" "f \<noteq> cur"
    and ls: "lsuf ?W (tl (lab cur)) (lab f)" and E: "trieEdge ns lab cur" and K: "acKids ns cur"
    by (rule bfs_head [OF I]; simp add: f)+
  have K': "acKids (acInherit ns cur f) cur" using K by (simp add: acKids_def acInherit_sel [OF cur(1)])
  have nf: "ac_next (acInherit ns cur f ! f) = ac_next (ns ! f)" by (simp add: acInherit_sel [OF cur(1)])
  have F: "acFilled (acInherit ns cur f) cur (ac_next (ns ! f)) all_bytes ns'" and q': "q' = rest @ kids"
    using v acFill_fold [OF K' distinct_all_bytes, of "ac_next (ns ! f)" rest]
      acVisitStep_fold [OF K' distinct_all_bytes fD(3), of rest]
    by (auto simp: acVisit_def nf kids_def acInherit_sel [OF cur(1)])
  have len: "length ns' = length ns"
    and nx: "i \<noteq> cur \<Longrightarrow> ac_next (ns' ! i) = ac_next (ns ! i)"
    and out: "ac_out (ns' ! i) = (if i = cur then ac_out (ns ! cur) @ ac_out (ns ! f) else ac_out (ns ! i))"
    and fl: "i \<notin> set kids \<Longrightarrow> ac_fail (ns' ! i) = ac_fail (ns ! i)" for i
    using F by (auto simp: acFilled_def acInherit_sel [OF cur(1)] kids_def set_map_filter_Some)
  have L: "trieLabels (length ns) lab" and P: "\<forall>p\<in>set pats. p \<noteq> [] \<and> p \<in> ?W"
    and D: "0 \<in> D" "D \<subseteq> {..<length ns}" "\<And>i. i \<in> D \<Longrightarrow> deltaOK ns lab i \<and> outOK ns lab pats i"
    and raw: "\<And>i. i < length ns \<Longrightarrow> i \<notin> D \<Longrightarrow> trieEdge ns lab i \<and> trieOuts ns lab pats i"
    and Q: "distinct (cur # rest)" "set (cur # rest) \<subseteq> {..<length ns} - D"
      "\<And>q. q \<in> set (cur # rest) \<Longrightarrow> failOK ns lab q"
    and par: "\<And>j. j < length ns \<Longrightarrow> 0 < j \<Longrightarrow> (butlast (lab j) \<in> lab ` D \<longleftrightarrow> j \<in> D \<union> set (cur # rest))"
    and srt: "sorted (map (length \<circ> lab) (cur # rest))"
      "\<And>q. q \<in> set (cur # rest) \<Longrightarrow> length (lab q) \<le> Suc (length (lab cur))"
    using I by (auto simp: bfsInv_def)
  have inj: "lab i = lab j \<Longrightarrow> i < length ns \<Longrightarrow> j < length ns \<Longrightarrow> i = j" for i j
    using trieLabels_inj [OF L] by blast
  have kids: "j \<in> set kids \<longleftrightarrow> j < length ns \<and> (\<exists>c. lab j = lab cur @ [c])" for j
    using bfs_kids(1) [OF E] by (simp add: kids_def)
  have kid_par: "j \<in> set kids \<longleftrightarrow> j < length ns \<and> 0 < j \<and> butlast (lab j) = lab cur" for j
  proof -
    have "0 < j \<Longrightarrow> j < length ns \<Longrightarrow> lab j \<noteq> []" "lab 0 = []" using L by (simp_all add: trieLabels_def)
    then show ?thesis unfolding kids
      by (metis append_butlast_last_id butlast_snoc gr0I snoc_eq_iff_butlast)
  qed
  have kid_new: "j \<notin> D \<and> j \<noteq> cur \<and> j \<notin> set rest" if "j \<in> set kids" for j
  proof -
    have "lab cur \<notin> lab ` D" using inj cur D(2) by blast
    with that kid_par [of j] par [of j] show ?thesis by auto
  qed
  have lenkid: "length (lab j) = Suc (length (lab cur))" if "j \<in> set kids" for j
    using that kids [of j] by (metis length_append_singleton)
  have dOK: "deltaOK ns' lab i" if "i \<in> insert cur D" for i
    using that D(3) [of i] nx [of i] bfs_visit_head(1) [OF E L cur(1,3) _ ls F] D(3) [OF fD(1)]
    by (cases "i = cur") (auto simp: deltaOK_def len)
  have pW: "pid < length pats \<Longrightarrow> pats ! pid \<in> ?W" for pid using P by simp
  have oOK: "outOK ns' lab pats i" if "i \<in> insert cur D" for i
  proof (cases "i = cur")
    case True
    have "pid \<in> set (ac_out (ns' ! cur)) \<longleftrightarrow> pid < length pats \<and>
            (pats ! pid = lab cur \<or> suffix (pats ! pid) (lab f))" for pid
    proof -
      have "pid \<in> set (ac_out (ns ! cur)) \<longleftrightarrow> pid < length pats \<and> pats ! pid = lab cur"
        using conjunct2 [OF raw [OF cur(1,2)]] unfolding trieOuts_def by (rule spec)
      moreover have "pid \<in> set (ac_out (ns ! f)) \<longleftrightarrow> pid < length pats \<and> suffix (pats ! pid) (lab f)"
        using conjunct2 [OF D(3) [OF fD(1)]] unfolding outOK_def by (rule spec)
      ultimately show ?thesis by (auto simp: out)
    qed
    moreover have "pid < length pats \<Longrightarrow> suffix (pats ! pid) (lab cur) \<longleftrightarrow>
            pats ! pid = lab cur \<or> suffix (pats ! pid) (lab f)" for pid
      by (rule bfs_out_step [OF ls cur(3) pW])
    ultimately show ?thesis using True unfolding outOK_def by blast
  next
    case False
    with that D(3) [of i] show ?thesis by (simp add: outOK_def out)
  qed
  have rOK: "trieEdge ns' lab i \<and> trieOuts ns' lab pats i" if "i < length ns" "i \<notin> insert cur D" for i
    using that raw [of i] nx [of i] by (simp add: trieEdge_def trieOuts_def len out)
  have fOK: "failOK ns' lab q" if "q \<in> set q'" for q
  proof (cases "q \<in> set kids")
    case True
    then show ?thesis using kids bfs_visit_head(2) [OF E L cur(1,3) _ ls F] D(3) [OF fD(1)] by blast
  next
    case False
    with that have "failOK ns lab q" by (auto simp: q' intro!: Q(3))
    with fl [OF False] show ?thesis by (simp add: failOK_def len)
  qed
  have par': "butlast (lab j) \<in> lab ` insert cur D \<longleftrightarrow> j \<in> insert cur D \<union> set q'"
    if "j < length ns" "0 < j" for j
    using par [OF that] kid_par [of j] that by (auto simp: q')
  have srt': "sorted (map (length \<circ> lab) q')"
  proof -
    have "sorted (map (length \<circ> lab) rest)" using srt(1) by simp
    moreover have "sorted (map (length \<circ> lab) kids)"
      using lenkid by (intro sorted_map_const) simp
    moreover have "length (lab a) \<le> length (lab b)" if "a \<in> set rest" "b \<in> set kids" for a b
      using srt(2) [of a] lenkid that by simp
    ultimately show ?thesis by (auto simp: q' sorted_append)
  qed
  have hd': "length (lab q) \<le> Suc (length (lab (hd q')))" if "q \<in> set q'" for q
  proof -
    have "length (lab cur) \<le> length (lab (hd q'))"
    proof (cases rest)
      case Nil
      then have "hd q' \<in> set kids" using that hd_in_set [of kids] by (fastforce simp: q')
      then show ?thesis using lenkid by simp
    next
      case (Cons r rs)
      then show ?thesis using srt(1) by (simp add: q')
    qed
    moreover have "length (lab q) \<le> Suc (length (lab cur))"
      using that srt(2) [of q] lenkid [of q] unfolding q' by force
    ultimately show ?thesis by simp
  qed
  have Q': "distinct q'" "set q' \<subseteq> {..<length ns} - insert cur D"
    using Q(1,2) kid_new bfs_kids(2) [OF E] kid_par cur by (auto simp: q' kids_def [symmetric])
  have D': "0 \<in> insert cur D" "insert cur D \<subseteq> {..<length ns}" using D cur by auto
  have all: "\<forall>i\<in>insert cur D. deltaOK ns' lab i \<and> outOK ns' lab pats i"
    "\<forall>i<length ns. i \<notin> insert cur D \<longrightarrow> trieEdge ns' lab i \<and> trieOuts ns' lab pats i"
    "\<forall>q\<in>set q'. failOK ns' lab q"
    "\<forall>j<length ns. 0 < j \<longrightarrow> (butlast (lab j) \<in> lab ` insert cur D \<longleftrightarrow> j \<in> insert cur D \<union> set q')"
    "\<forall>q\<in>set q'. length (lab q) \<le> Suc (length (lab (hd q')))"
    using dOK oOK rOK fOK par' hd' by blast+
  show ?thesis unfolding bfsInv_def len by (intro conjI L P D' Q' srt' all refl)
qed

text \<open>The root loop establishes the invariant.\<close>

lemma bfs_root:
  assumes T: "trie ns lab pats" and r: "foldl acRootStep (ns, []) all_bytes = (ns1, queue)"
  shows "bfsInv lab pats {0} ns1 queue \<and> length ns1 = length ns"
proof -
  let ?W = "lab ` {..<length ns}"
  have L: "trieLabels (length ns) lab" and E: "\<And>i. i < length ns \<Longrightarrow> trieEdge ns lab i"
    and O: "\<And>i. i < length ns \<Longrightarrow> trieOuts ns lab pats i"
    and P: "\<forall>p\<in>set pats. p \<noteq> [] \<and> p \<in> ?W"
    using T by (auto simp: trie_def)
  have n0: "0 < length ns" "lab 0 = []" and pos: "\<And>j. j < length ns \<Longrightarrow> 0 < j \<Longrightarrow> lab j \<noteq> []"
    using L by (simp_all add: trieLabels_def)
  have K: "acKids ns 0"
    using E [OF n0(1)] n0 unfolding acKids_def trieEdge_def
    by (metis append_self_conv2 list.distinct(1) list.inject)
  define kids where "kids = List.map_filter (ac_next (ns ! 0)) all_bytes"
  have F: "acFilled ns 0 (\<lambda>_. Some 0) all_bytes ns1" and q: "queue = kids"
    using r acFill_fold [OF K distinct_all_bytes, of "\<lambda>_. Some 0" "[]"]
    by (auto simp: acRootStep_fill kids_def)
  have len: "length ns1 = length ns"
    and nx: "i \<noteq> 0 \<Longrightarrow> ac_next (ns1 ! i) = ac_next (ns ! i)"
    and nx0: "ac_next (ns1 ! 0) = (\<lambda>c. if ac_next (ns ! 0) c = None then Some 0 else ac_next (ns ! 0) c)"
    and out: "ac_out (ns1 ! i) = ac_out (ns ! i)" for i
    using F by (auto simp: acFilled_def)
  have kids: "j \<in> set kids \<longleftrightarrow> j < length ns \<and> (\<exists>c. lab j = [c])" for j
    using bfs_kids(1) [OF E [OF n0(1)]] n0(2) by (simp add: kids_def)
  have empty_lsuf: "lsuf ?W [] (lab 0)" using n0 by (auto simp: lsuf_def intro!: image_eqI [of _ _ 0])
  have "\<exists>k<length ns. ac_next (ns1 ! 0) c = Some k \<and> lsuf ?W (lab 0 @ [c]) (lab k)" for c
  proof (cases "ac_next (ns ! 0) c")
    case None
    then have "\<not> (j < length ns \<and> lab j = [c])" for j
      using E [OF n0(1)] n0(2) by (metis append_Nil option.distinct(1) trieEdge_def)
    then have "[c] \<notin> ?W" by (metis imageE lessThan_iff)
    then have "lsuf ?W [c] (lab 0)"
      using empty_lsuf unfolding lsuf_def by (metis n0(2) suffix_Cons suffix_Nil suffix_bot.extremum)
    with None nx0 n0 show ?thesis by auto
  next
    case (Some k)
    then have k: "k < length ns" "lab k = [c]" using E [OF n0(1)] n0(2) by (auto simp: trieEdge_def)
    then have "lab k \<in> ?W" by blast
    then have "lsuf ?W [c] (lab k)" using lsuf_self [of "lab k" ?W] k by simp
    with k Some nx0 n0(2) show ?thesis by auto
  qed
  then have d0: "deltaOK ns1 lab 0" by (simp add: deltaOK_def len)
  have o0: "outOK ns1 lab pats 0" using O [OF n0(1)] n0(2) by (simp add: outOK_def trieOuts_def out)
  have raw: "trieEdge ns1 lab i \<and> trieOuts ns1 lab pats i" if "i < length ns" "i \<noteq> 0" for i
    using E O that nx by (simp add: trieEdge_def trieOuts_def len out)
  have fk: "failOK ns1 lab j" if "j \<in> set kids" for j
  proof -
    from that kids [of j] obtain c where j: "j < length ns" "lab j = [c]" by blast
    then have "ac_next (ns ! 0) c = Some j" using E [OF n0(1)] n0(2) by (simp add: trieEdge_def)
    then have "ac_fail (ns1 ! j) = Some 0" using F by (simp add: acFilled_def)
    with j n0 empty_lsuf show ?thesis by (auto simp: failOK_def len)
  qed
  have k1: "length (lab j) = 1" if "j \<in> set kids" for j
    using that kids [of j] by auto
  have par: "butlast (lab j) \<in> lab ` {0} \<longleftrightarrow> j \<in> {0} \<union> set kids" if "j < length ns" "0 < j" for j
  proof -
    have "butlast (lab j) = [] \<longleftrightarrow> (\<exists>c. lab j = [c])" using pos [OF that]
      by (metis append_Nil append_butlast_last_id butlast.simps(2))
    with that kids [of j] n0 show ?thesis by simp
  qed
  have "sorted (map (length \<circ> lab) kids)"
    using k1 by (intro sorted_map_const) simp
  moreover have "length (lab j) \<le> Suc (length (lab (hd kids)))" if "j \<in> set kids" for j
    using that k1 by simp
  moreover have "set kids \<subseteq> {..<length ns} - {0}" using kids n0(2) by (metis DiffI lessThan_iff
        list.distinct(1) singletonD subsetI)
  moreover have "distinct kids" using bfs_kids(2) [OF E [OF n0(1)]] by (simp add: kids_def)
  moreover have "{0} \<subseteq> {..<length ns}" using n0 by simp
  moreover have "\<forall>i\<in>{0}. deltaOK ns1 lab i \<and> outOK ns1 lab pats i" using d0 o0 by simp
  moreover have "0 \<in> {0::nat}" by simp
  moreover have "\<forall>i<length ns. i \<notin> {0} \<longrightarrow> trieEdge ns1 lab i \<and> trieOuts ns1 lab pats i"
    using raw by simp
  moreover have "\<forall>q\<in>set kids. failOK ns1 lab q" using fk by simp
  moreover have "\<forall>j<length ns. 0 < j \<longrightarrow> (butlast (lab j) \<in> lab ` {0} \<longleftrightarrow> j \<in> {0} \<union> set kids)"
    using par by blast
  ultimately show ?thesis
    unfolding bfsInv_def len q using L P by (intro conjI) auto
qed

text \<open>The queue loop ends, without a link of -1, in the finished automaton.\<close>

definition acReady :: "acNode list \<Rightarrow> (nat \<Rightarrow> bytes) \<Rightarrow> bytes list \<Rightarrow> bool" where
  "acReady ns lab pats \<longleftrightarrow>
     trieLabels (length ns) lab \<and> (\<forall>p\<in>set pats. p \<noteq> [] \<and> p \<in> lab ` {..<length ns}) \<and>
     (\<forall>i<length ns. deltaOK ns lab i \<and> outOK ns lab pats i)"

lemma acBfsLoop_ready:
  assumes "bfsInv lab pats D ns queue"
  shows "\<exists>ns'. acBfsLoop ns queue = Some ns' \<and> acReady ns' lab pats"
  using assms
proof (induction "length ns - card D" arbitrary: D ns queue rule: less_induct)
  case less
  show ?case
  proof (cases queue)
    case Nil
    have "i \<in> D" if "i < length ns" for i
      using bfs_shallow_done [OF less.prems that] Nil by simp
    then have "acReady ns lab pats" using less.prems by (auto simp: acReady_def bfsInv_def)
    then show ?thesis using Nil by (simp add: acBfsLoop.simps)
  next
    case (Cons cur rest)
    have I: "bfsInv lab pats D ns (cur # rest)" using less.prems Cons by simp
    obtain f where f: "ac_fail (ns ! cur) = Some f" and cur: "cur < length ns" "cur \<notin> D"
      by (rule bfs_head [OF I])
    obtain ns' q' where v: "acVisit cur f (ns, rest) = (ns', q')" by fastforce
    have I': "bfsInv lab pats (insert cur D) ns' q'" and len: "length ns' = length ns"
      using bfs_step [OF I f v] by auto
    have D: "finite D" "D \<subseteq> {..<length ns}"
      using I finite_subset by (auto simp: bfsInv_def)
    then have "card (insert cur D) \<le> length ns"
      using card_mono [of "{..<length ns}" "insert cur D"] cur by simp
    with D cur have "length ns' - card (insert cur D) < length ns - card D" by (simp add: len)
    from less.hyps [OF this I'] show ?thesis
      using Cons f v by (simp add: acBfsLoop.simps)
  qed
qed

section \<open>Matching\<close>

lemma acMark_spec:
  assumes "\<forall>pid\<in>set pids. pid < length hit"
  shows "\<exists>hit'. acMark pids hit = Some hit' \<and> length hit' = length hit \<and>
           (\<forall>pid<length hit. hit' ! pid \<longleftrightarrow> hit ! pid \<or> pid \<in> set pids)"
  using assms
proof (induction pids arbitrary: hit)
  case (Cons q pids)
  have len: "length (hit[q := True]) = length hit" by simp
  from Cons.prems have "\<forall>pid\<in>set pids. pid < length (hit[q := True])" by simp
  from Cons.IH [OF this] obtain hit' where "acMark pids (hit[q := True]) = Some hit'"
    "length hit' = length hit"
    "\<forall>pid<length hit. hit' ! pid \<longleftrightarrow> hit[q := True] ! pid \<or> pid \<in> set pids"
    unfolding len by blast
  with Cons.prems show ?case by (auto simp: nth_list_update)
qed simp

text \<open>
  The walk from a state that is the longest suffix of the text read so far sets exactly the
  patterns that end within the rest of the text.
\<close>

lemma acWalk_spec:
  assumes R: "acReady ns lab pats" and cur: "cur < length ns"
    and s: "lsuf (lab ` {..<length ns}) w (lab cur)" and h: "length pats \<le> length hit"
  shows "\<exists>hit'. acWalk ns cur bs hit = Some hit' \<and> length hit' = length hit \<and>
    (\<forall>pid<length hit. hit' ! pid \<longleftrightarrow> hit ! pid \<or> pid < length pats \<and>
       (\<exists>k<length bs. suffix (pats ! pid) (w @ map lowerByte (take (Suc k) bs))))"
  using cur s h
proof (induction bs arbitrary: cur w hit)
  case (Cons b bs)
  let ?W = "lab ` {..<length ns}" and ?w = "w @ [lowerByte b]"
  have L: "trieLabels (length ns) lab" and P: "\<And>p. p \<in> set pats \<Longrightarrow> p \<in> ?W"
    using R by (auto simp: acReady_def)
  have d: "deltaOK ns lab cur" using R Cons.prems(1) by (auto simp: acReady_def)
  then obtain j where j: "j < length ns" "ac_next (ns ! cur) (lowerByte b) = Some j"
    "lsuf ?W (lab cur @ [lowerByte b]) (lab j)" unfolding deltaOK_def by blast
  have sj: "lsuf ?W ?w (lab j)"
    using lsuf_snoc [OF trieLabels_prefix_closed [OF L] Cons.prems(2) j(3)] .
  have out: "pid \<in> set (ac_out (ns ! j)) \<longleftrightarrow> pid < length pats \<and> suffix (pats ! pid) ?w" for pid
  proof -
    have "pid \<in> set (ac_out (ns ! j)) \<longleftrightarrow> pid < length pats \<and> suffix (pats ! pid) (lab j)"
      using R j(1) by (auto simp: acReady_def outOK_def)
    moreover have "suffix p (lab j) \<longleftrightarrow> suffix p ?w" if "p \<in> ?W" for p
      using sj that unfolding lsuf_def by (meson suffix_length_suffix suffix_order.order_trans)
    ultimately show ?thesis using P by (metis nth_mem)
  qed
  obtain hit1 where h1: "acMark (ac_out (ns ! j)) hit = Some hit1" "length hit1 = length hit"
    "\<forall>pid<length hit. hit1 ! pid \<longleftrightarrow> hit ! pid \<or> pid \<in> set (ac_out (ns ! j))"
    using acMark_spec [of "ac_out (ns ! j)" hit] out Cons.prems(3) by auto
  have "length pats \<le> length hit1" using Cons.prems(3) h1(2) by simp
  from Cons.IH [OF j(1) sj this] obtain hit' where
    h': "acWalk ns j bs hit1 = Some hit'" "length hit' = length hit"
    "\<forall>pid<length hit. hit' ! pid \<longleftrightarrow> hit1 ! pid \<or> pid < length pats \<and>
       (\<exists>k<length bs. suffix (pats ! pid) (?w @ map lowerByte (take (Suc k) bs)))"
    unfolding h1(2) by blast
  have ex: "(\<exists>k<length (b # bs). suffix p (w @ map lowerByte (take (Suc k) (b # bs)))) \<longleftrightarrow>
      suffix p ?w \<or> (\<exists>k<length bs. suffix p (?w @ map lowerByte (take (Suc k) bs)))" for p
    by (simp add: Ex_less_Suc2)
  have "hit' ! pid \<longleftrightarrow> hit ! pid \<or> pid < length pats \<and>
       (\<exists>k<length (b # bs). suffix (pats ! pid) (w @ map lowerByte (take (Suc k) (b # bs))))"
    if "pid < length hit" for pid
    unfolding ex using h'(3) h1(3) out that by blast
  then show ?case using j(2) h1(1) h'(1,2) by simp
qed simp

lemma suffix_take_contains:
  assumes "p \<noteq> []"
  shows "(\<exists>k<length bs. suffix p (map f (take (Suc k) bs))) \<longleftrightarrow> contains (map f bs) p"
proof
  assume "\<exists>k<length bs. suffix p (map f (take (Suc k) bs))"
  then obtain k u where "map f (take (Suc k) bs) = u @ p" by (auto simp: suffix_def)
  moreover have "map f bs = map f (take (Suc k) bs) @ map f (drop (Suc k) bs)"
    by (metis append_take_drop_id map_append)
  ultimately show "contains (map f bs) p" by (auto simp: contains_def sublist_def)
next
  assume "contains (map f bs) p"
  then obtain u v where uv: "map f bs = u @ p @ v" by (auto simp: contains_def sublist_def)
  then have len: "length bs = length u + length p + length v" by (metis add.assoc length_append length_map)
  let ?k = "length u + length p - 1"
  have k: "?k < length bs" "Suc ?k = length u + length p" using len assms by (cases p; simp)+
  then have "map f (take (Suc ?k) bs) = u @ p"
    using uv by (simp add: take_map [symmetric] del: take_map)
  with k show "\<exists>k<length bs. suffix p (map f (take (Suc k) bs))" by (auto simp: suffix_def)
qed

text \<open>
  Construction always succeeds: the queue loop ends, no link of -1 is followed, and the
  result is the automaton of the pattern set.
\<close>

lemma BuildAC_ready:
  obtains ac index where "BuildAC lits = Some (ac, index)"
    "acIndexed lits (ac_patterns ac) index"
    "ac_patterns ac = [] \<or> (\<exists>lab. acReady (ac_nodes ac) lab (ac_patterns ac))"
    "ac_hasEmpty ac \<longleftrightarrow> ac_patterns ac = []"
proof -
  obtain ns pats index where t: "acTrie lits = (ns, pats, index)" by (cases "acTrie lits")
  have ix: "acIndexed lits pats index" and "\<exists>lab. trie ns lab pats"
    using acTrie_OK [of lits] by (auto simp: acTrieOK_def t)
  then obtain lab where T: "trie ns lab pats" by blast
  show ?thesis
  proof (cases "pats = []")
    case True
    with t ix show ?thesis by (intro that [of "\<lparr>ac_nodes = ns, ac_patterns = pats, ac_hasEmpty = True\<rparr>"])
        (simp_all add: BuildAC_def)
  next
    case False
    obtain ns1 queue where r: "foldl acRootStep (ns, []) all_bytes = (ns1, queue)" by fastforce
    obtain ns2 where "acBfsLoop ns1 queue = Some ns2" "acReady ns2 lab pats"
      using bfs_root [OF T r] acBfsLoop_ready by blast
    with t r False ix show ?thesis
      by (intro that [of "\<lparr>ac_nodes = ns2, ac_patterns = pats, ac_hasEmpty = False\<rparr>"])
        (auto simp: BuildAC_def)
  qed
qed

lemma MatchSet_spec:
  assumes B: "BuildAC lits = Some (ac, index)" and h: "NumPatterns ac \<le> length hit"
  shows "\<exists>hit'. MatchSet ac data hit = Some hit' \<and> length hit' = length hit \<and>
    (\<forall>pid<length hit. hit' ! pid \<longleftrightarrow> hit ! pid \<or>
       pid < NumPatterns ac \<and> contains (map lowerByte data) (ac_patterns ac ! pid))"
proof (cases "ac_patterns ac = []")
  case True
  with B BuildAC_ready [of lits] have "ac_hasEmpty ac" by (metis Pair_inject option.inject)
  with True show ?thesis by (simp add: MatchSet_def NumPatterns_def)
next
  case False
  with B BuildAC_ready [of lits] obtain lab where
    R: "acReady (ac_nodes ac) lab (ac_patterns ac)" and e: "\<not> ac_hasEmpty ac"
    by (metis Pair_inject option.inject)
  let ?W = "lab ` {..<length (ac_nodes ac)}"
  have n0: "0 < length (ac_nodes ac)" "lab 0 = []" and P: "\<forall>p\<in>set (ac_patterns ac). p \<noteq> []"
    using R by (auto simp: acReady_def trieLabels_def)
  have "lsuf ?W [] (lab 0)" using n0 by (auto simp: lsuf_def intro!: image_eqI [of _ _ 0])
  moreover have "length (ac_patterns ac) \<le> length hit" using h by (simp add: NumPatterns_def)
  ultimately obtain hit' where "acWalk (ac_nodes ac) 0 data hit = Some hit'"
    "length hit' = length hit"
    "\<forall>pid<length hit. hit' ! pid \<longleftrightarrow> hit ! pid \<or> pid < length (ac_patterns ac) \<and>
       (\<exists>k<length data. suffix (ac_patterns ac ! pid) ([] @ map lowerByte (take (Suc k) data)))"
    using acWalk_spec [OF R n0(1)] by blast
  moreover have "pid < length (ac_patterns ac) \<Longrightarrow>
      (\<exists>k<length data. suffix (ac_patterns ac ! pid) ([] @ map lowerByte (take (Suc k) data))) \<longleftrightarrow>
      contains (map lowerByte data) (ac_patterns ac ! pid)" for pid
    using P by (simp add: suffix_take_contains)
  ultimately show ?thesis using False e by (auto simp: MatchSet_def NumPatterns_def)
qed

text \<open>On a cleared slice of the right size, the scan computes containment for every pattern.\<close>

lemma MatchSet_cleared:
  assumes "BuildAC lits = Some (ac, index)"
  shows "MatchSet ac data (replicate (NumPatterns ac) False) =
           Some (map (contains (map lowerByte data)) (ac_patterns ac))"
proof -
  from MatchSet_spec [OF assms, of "replicate (NumPatterns ac) False" data]
  obtain hit' where "MatchSet ac data (replicate (NumPatterns ac) False) = Some hit'"
    "length hit' = NumPatterns ac"
    "\<forall>pid<NumPatterns ac. hit' ! pid \<longleftrightarrow> contains (map lowerByte data) (ac_patterns ac ! pid)"
    by auto
  then show ?thesis by (auto simp: NumPatterns_def intro: nth_equalityI)
qed

lemma BuildAC_index:
  assumes "BuildAC lits = Some (ac, index)"
  shows "acIndexed lits (ac_patterns ac) index"
  using BuildAC_ready [of lits] assms by (metis Pair_inject option.inject)

section \<open>The interface the engines rely on\<close>

text \<open>
  What the rule engine and the YARA engine use of the automaton: a scan gives one bit per
  pattern, a literal registered at build time has an id, and the bit of a literal's id says
  whether the literal occurs in the data up to ASCII case.
\<close>

locale literal_prefilter =
  fixes hits :: "bytes \<Rightarrow> bool list" and litId :: "bytes \<rightharpoonup> nat" and registered :: "bytes set"
  assumes id_bit: "litId l = Some pid \<Longrightarrow> pid < length (hits data) \<and>
            (hits data ! pid \<longleftrightarrow> contains (map ascii_lower data) (map ascii_lower l))"
    and id_registered: "l \<in> registered \<Longrightarrow> l \<noteq> [] \<Longrightarrow> litId l \<noteq> None"
begin

text \<open>The lookups of the engines: an id that is unknown or out of range counts as absent.\<close>

definition lit_hit :: "bytes \<Rightarrow> bytes \<Rightarrow> bool" where
  "lit_hit data l \<longleftrightarrow>
     (case litId l of None \<Rightarrow> False | Some pid \<Rightarrow> pid < length (hits data) \<and> hits data ! pid)"

lemma lit_hit_sound: "lit_hit data l \<Longrightarrow> contains (map ascii_lower data) (map ascii_lower l)"
  using id_bit by (auto simp: lit_hit_def split: option.splits)

lemma lit_hit_complete:
  "l \<in> registered \<Longrightarrow> l \<noteq> [] \<Longrightarrow> contains (map ascii_lower data) (map ascii_lower l) \<Longrightarrow>
   lit_hit data l"
  using id_bit id_registered by (fastforce simp: lit_hit_def split: option.splits)

lemma lit_hit_iff:
  "l \<in> registered \<Longrightarrow> l \<noteq> [] \<Longrightarrow>
   lit_hit data l \<longleftrightarrow> contains (map ascii_lower data) (map ascii_lower l)"
  using lit_hit_sound lit_hit_complete by blast

end

text \<open>The automaton built from \<open>lits\<close>, its scan of a cleared slice, and its index.\<close>

definition builtAC :: "bytes list \<Rightarrow> AC" where
  "builtAC lits = fst (the (BuildAC lits))"

definition builtIndex :: "bytes list \<Rightarrow> (bytes \<rightharpoonup> nat)" where
  "builtIndex lits = snd (the (BuildAC lits))"

definition scanHits :: "bytes list \<Rightarrow> bytes \<Rightarrow> bool list" where
  "scanHits lits data =
     the (MatchSet (builtAC lits) data (replicate (NumPatterns (builtAC lits)) False))"

lemma BuildAC_built: "BuildAC lits = Some (builtAC lits, builtIndex lits)"
  by (rule BuildAC_ready [of lits]) (simp add: builtAC_def builtIndex_def)

lemma scanHits_eq:
  "scanHits lits data = map (contains (map ascii_lower data)) (ac_patterns (builtAC lits))"
  using MatchSet_cleared [OF BuildAC_built] by (simp add: scanHits_def lowerByte_ascii_lower)

interpretation acp: literal_prefilter "scanHits lits" "builtIndex lits" "set lits" for lits
proof
  fix l pid data
  assume "builtIndex lits l = Some pid"
  then have "pid < length (ac_patterns (builtAC lits)) \<and>
      ac_patterns (builtAC lits) ! pid = map ascii_lower l"
    using BuildAC_index [OF BuildAC_built [of lits]]
    by (auto simp: acIndexed_def lowerByte_ascii_lower)
  then show "pid < length (scanHits lits data) \<and>
      (scanHits lits data ! pid \<longleftrightarrow> contains (map ascii_lower data) (map ascii_lower l))"
    by (simp add: scanHits_eq)
next
  fix l
  assume "l \<in> set lits" "l \<noteq> []"
  then show "builtIndex lits l \<noteq> None"
    using BuildAC_index [OF BuildAC_built [of lits]] by (auto simp: acIndexed_def)
qed

section \<open>Properties\<close>

text \<open>
  C1. For every list of literals the automaton can be built (the breadth-first pass ends and
  follows no link of -1), and one scan of a cleared hit slice never indexes out of range and
  sets exactly the bits of the patterns that occur in the data, upper and lower case ASCII
  letters identified.
\<close>

theorem MatchSet_exact:
  "\<exists>ac index. BuildAC lits = Some (ac, index) \<and>
     (\<forall>data. MatchSet ac data (replicate (NumPatterns ac) False) =
        Some (map (contains (map lowerByte data)) (ac_patterns ac)))"
  using BuildAC_built MatchSet_cleared by blast

text \<open>
  The index returned with the automaton is right: every non-empty literal has an id, the
  id is in range and names the literal's lowercase form, and no two patterns are equal.
\<close>

theorem BuildAC_index_correct:
  assumes "BuildAC lits = Some (ac, index)" and "l \<in> set lits" and "l \<noteq> []"
  shows "distinct (ac_patterns ac) \<and>
     (\<exists>pid<NumPatterns ac. index l = Some pid \<and> ac_patterns ac ! pid = map lowerByte l)"
  using BuildAC_index [OF assms(1)] assms(2,3)
  by (fastforce simp: acIndexed_def NumPatterns_def)

lemma BuildAC_index_correct_witness:
  "distinct (ac_patterns (builtAC [''Eval'', ''eval''])) \<and>
   (\<exists>pid<NumPatterns (builtAC [''Eval'', ''eval'']).
      builtIndex [''Eval'', ''eval''] ''Eval'' = Some pid \<and>
      ac_patterns (builtAC [''Eval'', ''eval'']) ! pid = map lowerByte ''Eval'')"
  by (rule BuildAC_index_correct [OF BuildAC_built]) simp_all

end
