(* ===== verification/RulePacks.thy ===== *)
theory RulePacks
  imports YaraRule AhoCorasick
begin

text \<open>
  Rule packs (\<open>src/internal/rules/rules.go\<close>): merging packs into one compiled set with a
  shared automaton, the content-free filters, the literal gates, the regular-expression stage
  with its proximity window, and the IOC lookup.

  YAML decoding and the file system are outside the model: a pack is the decoded value. The
  regular-expression compiler is the parameter \<open>rx\<close> as in \<open>YaraEval\<close>; \<open>re subj\<close>
  lists the start offsets of all matches of \<open>re\<close> in \<open>subj\<close>, so \<open>Match\<close> asks
  whether the list is empty, \<open>FindIndex\<close> takes its head and \<open>FindAllIndex(_, n)\<close> its
  first \<open>n\<close> elements. \<open>ulow\<close> is the Unicode lower-case table of \<open>strings.ToLower\<close>.
\<close>

section \<open>Data\<close>

record PackRule =
  pr_ID :: bytes
  pr_Class :: bytes
  pr_Severity :: bytes
  pr_Confidence :: bytes
  pr_Title :: bytes
  pr_Detail :: bytes
  pr_Remediation :: bytes
  pr_Actionable :: bool
  pr_Gate :: "bytes list"
  pr_Any :: "bytes list"
  pr_All :: "bytes list"
  pr_Not :: "bytes list"
  pr_AnyCode :: "bytes list"
  pr_AllCode :: "bytes list"
  pr_Within :: int
  pr_Scope :: bytes
  pr_Ext :: "bytes list"
  pr_PathAny :: "bytes list"
  pr_PathNot :: "bytes list"
  pr_MinSize :: int
  pr_MaxSize :: int
  pr_anyRe :: "regex list"
  pr_allRe :: "regex list"
  pr_notRe :: "regex list"
  pr_anyCodeRe :: "regex list"
  pr_allCodeRe :: "regex list"
  pr_pathAnyRe :: "regex list"
  pr_pathNotRe :: "regex list"
  pr_gateIDs :: "int list"
  pr_extSet :: "bytes set option"
  pr_pack :: bytes

record IOCs =
  ioc_Strings :: "bytes list"
  ioc_Filenames :: "bytes list"
  ioc_PathGlobs :: "bytes list"
  ioc_IPs :: "bytes list"
  ioc_Domains :: "bytes list"
  ioc_SpamKeywords :: "bytes list"
  ioc_SuspectEmailDomains :: "bytes list"
  ioc_VendorDomains :: "bytes list"
  ioc_IncidentStart :: bytes
  ioc_DBOptionPatterns :: "bytes list"

record Pack =
  pk_Name :: bytes
  pk_Version :: bytes
  pk_ExcludePaths :: "bytes list"
  pk_IOCs :: IOCs
  pk_Rules :: "PackRule list"
  pk_sha :: bytes

record RuleSet =
  rs_Packs :: "Pack list"
  rs_Rules :: "PackRule list"
  rs_IOCs :: IOCs
  rs_Exclude :: "regex list"
  rs_AC :: AC
  rs_iocGate :: "int list"
  rs_nPattern :: nat
  rs_index :: "bytes \<rightharpoonup> nat"

datatype packError =
    ErrExcludePath bytes bytes
  | ErrEmptyID bytes
  | ErrRulePattern bytes bytes bytes
  | ErrScope bytes bytes

section \<open>Merging\<close>

text \<open>\<open>appendUnique\<close>: the loop over \<open>src\<close> with the set \<open>seen\<close>.\<close>

fun appendUniqueLoop :: "bytes set \<Rightarrow> bytes list \<Rightarrow> bytes list \<Rightarrow> bytes list" where
  "appendUniqueLoop seen dst [] = dst"
| "appendUniqueLoop seen dst (s # src) =
     (if s \<notin> seen then appendUniqueLoop (insert s seen) (dst @ [s]) src
      else appendUniqueLoop seen dst src)"

definition appendUnique :: "bytes list \<Rightarrow> bytes list \<Rightarrow> bytes list" where
  "appendUnique dst src = appendUniqueLoop (set dst) dst src"

definition mergeIOCs :: "IOCs \<Rightarrow> IOCs \<Rightarrow> IOCs" where
  "mergeIOCs i u =
     \<lparr>ioc_Strings = appendUnique (ioc_Strings i) (ioc_Strings u),
      ioc_Filenames = appendUnique (ioc_Filenames i) (ioc_Filenames u),
      ioc_PathGlobs = appendUnique (ioc_PathGlobs i) (ioc_PathGlobs u),
      ioc_IPs = appendUnique (ioc_IPs i) (ioc_IPs u),
      ioc_Domains = appendUnique (ioc_Domains i) (ioc_Domains u),
      ioc_SpamKeywords = appendUnique (ioc_SpamKeywords i) (ioc_SpamKeywords u),
      ioc_SuspectEmailDomains = appendUnique (ioc_SuspectEmailDomains i) (ioc_SuspectEmailDomains u),
      ioc_VendorDomains = appendUnique (ioc_VendorDomains i) (ioc_VendorDomains u),
      ioc_IncidentStart = (if ioc_IncidentStart u \<noteq> [] then ioc_IncidentStart u else ioc_IncidentStart i),
      ioc_DBOptionPatterns = appendUnique (ioc_DBOptionPatterns i) (ioc_DBOptionPatterns u)\<rparr>"

definition emptyIOCs :: IOCs where
  "emptyIOCs = \<lparr>ioc_Strings = [], ioc_Filenames = [], ioc_PathGlobs = [], ioc_IPs = [], ioc_Domains = [],
     ioc_SpamKeywords = [], ioc_SuspectEmailDomains = [], ioc_VendorDomains = [],
     ioc_IncidentStart = [], ioc_DBOptionPatterns = []\<rparr>"

section \<open>Compiling one rule\<close>

text \<open>The closure \<open>cc\<close>: the first pattern that does not compile is the error.\<close>

fun compileList :: "(bytes \<Rightarrow> regex option) \<Rightarrow> bytes \<Rightarrow> bytes \<Rightarrow> bytes list \<Rightarrow> packError + regex list" where
  "compileList rx rid what [] = Inr []"
| "compileList rx rid what (p # ps) =
     (case rx p of
        None \<Rightarrow> Inl (ErrRulePattern rid what p)
      | Some re \<Rightarrow> andThen (compileList rx rid what ps) (\<lambda>res. Inr (re # res)))"

definition trimDot :: "bytes \<Rightarrow> bytes" where
  "trimDot e = (if hasPrefix e ''.'' then tl e else e)"

text \<open>\<open>gateIDs\<close>: the ids of the gate literals the index knows.\<close>

definition gateIds :: "(nat \<Rightarrow> nat) \<Rightarrow> (bytes \<rightharpoonup> nat) \<Rightarrow> bytes list \<Rightarrow> int list" where
  "gateIds ulow index gates = map int (List.map_filter (\<lambda>g. index (goToLower ulow g)) gates)"

definition ruleCompile ::
    "(bytes \<Rightarrow> regex option) \<Rightarrow> (nat \<Rightarrow> nat) \<Rightarrow> (bytes \<rightharpoonup> nat) \<Rightarrow> PackRule \<Rightarrow> packError + PackRule" where
  "ruleCompile rx ulow index r =
     andThen (compileList rx (pr_ID r) ''any'' (pr_Any r)) (\<lambda>anyRe.
     andThen (compileList rx (pr_ID r) ''all'' (pr_All r)) (\<lambda>allRe.
     andThen (compileList rx (pr_ID r) ''not'' (pr_Not r)) (\<lambda>notRe.
     andThen (compileList rx (pr_ID r) ''any_code'' (pr_AnyCode r)) (\<lambda>anyCodeRe.
     andThen (compileList rx (pr_ID r) ''all_code'' (pr_AllCode r)) (\<lambda>allCodeRe.
     andThen (compileList rx (pr_ID r) ''path_any'' (pr_PathAny r)) (\<lambda>pathAnyRe.
     andThen (compileList rx (pr_ID r) ''path_not'' (pr_PathNot r)) (\<lambda>pathNotRe.
     let r1 = r\<lparr>pr_anyRe := anyRe, pr_allRe := allRe, pr_notRe := notRe, pr_anyCodeRe := anyCodeRe,
                pr_allCodeRe := allCodeRe, pr_pathAnyRe := pathAnyRe, pr_pathNotRe := pathNotRe,
                pr_gateIDs := pr_gateIDs r @ gateIds ulow index (pr_Gate r),
                pr_extSet := (if length (pr_Ext r) > 0
                              then Some (set (map (\<lambda>e. goToLower ulow (trimDot e)) (pr_Ext r)))
                              else pr_extSet r),
                pr_Severity := (if pr_Severity r = [] then ''medium'' else pr_Severity r),
                pr_Confidence := (if pr_Confidence r = [] then ''review'' else pr_Confidence r),
                pr_Class := (if pr_Class r = [] then ''SHELL'' else pr_Class r)\<rparr>
     in if pr_Scope r = [] \<or> pr_Scope r = ''raw'' then Inr (r1\<lparr>pr_Scope := ''raw''\<rparr>)
        else if pr_Scope r = ''code'' then Inr r1
        else Inl (ErrScope (pr_ID r) (pr_Scope r)))))))))"

section \<open>Compiling the set\<close>

text \<open>The state of the loop over the packs: packs, exclusions, IOCs, rules by id, order of ids.\<close>

record mergeState =
  mg_Packs :: "Pack list"
  mg_Exclude :: "regex list"
  mg_IOCs :: IOCs
  mg_byID :: "bytes \<rightharpoonup> PackRule"
  mg_order :: "bytes list"

fun addExcludes :: "(bytes \<Rightarrow> regex option) \<Rightarrow> bytes \<Rightarrow> bytes list \<Rightarrow> regex list \<Rightarrow> packError + regex list" where
  "addExcludes rx pack [] out = Inr out"
| "addExcludes rx pack (ex # exs) out =
     (case rx ex of
        None \<Rightarrow> Inl (ErrExcludePath pack ex)
      | Some re \<Rightarrow> addExcludes rx pack exs (out @ [re]))"

fun addRules :: "bytes \<Rightarrow> PackRule list \<Rightarrow> (bytes \<rightharpoonup> PackRule) \<Rightarrow> bytes list \<Rightarrow>
    packError + (bytes \<rightharpoonup> PackRule) \<times> bytes list" where
  "addRules pack [] byID order = Inr (byID, order)"
| "addRules pack (r # rs) byID order =
     (if pr_ID r = [] then Inl (ErrEmptyID pack)
      else addRules pack rs (byID(pr_ID r \<mapsto> r))
             (if byID (pr_ID r) = None then order @ [pr_ID r] else order))"

text \<open>A nil pack is skipped.\<close>

fun mergePacks :: "(bytes \<Rightarrow> regex option) \<Rightarrow> Pack option list \<Rightarrow> mergeState \<Rightarrow> packError + mergeState" where
  "mergePacks rx [] st = Inr st"
| "mergePacks rx (None # ps) st = mergePacks rx ps st"
| "mergePacks rx (Some p # ps) st =
     andThen (addExcludes rx (pk_Name p) (pk_ExcludePaths p) (mg_Exclude st)) (\<lambda>exclude.
     andThen (addRules (pk_Name p) (pk_Rules p) (mg_byID st) (mg_order st)) (\<lambda>(byID, order).
     mergePacks rx ps
       \<lparr>mg_Packs = mg_Packs st @ [p], mg_Exclude = exclude, mg_IOCs = mergeIOCs (mg_IOCs st) (pk_IOCs p),
        mg_byID = byID, mg_order = order\<rparr>))"

text \<open>The closure \<open>addLit\<close> over the gathered literals.\<close>

definition addLit :: "(nat \<Rightarrow> nat) \<Rightarrow> bytes list \<Rightarrow> bytes \<Rightarrow> bytes list" where
  "addLit ulow literals l =
     (let l = goToLower ulow l in if l = [] \<or> l \<in> set literals then literals else literals @ [l])"

definition gatherLiterals :: "(nat \<Rightarrow> nat) \<Rightarrow> mergeState \<Rightarrow> bytes list \<Rightarrow> bytes list" where
  "gatherLiterals ulow st extra =
     (let gates = concat (map (\<lambda>i. case mg_byID st i of None \<Rightarrow> [] | Some r \<Rightarrow> pr_Gate r) (mg_order st))
      in foldl (addLit ulow) [] (gates @ ioc_Strings (mg_IOCs st) @ extra))"

fun compileRules :: "(bytes \<Rightarrow> regex option) \<Rightarrow> (nat \<Rightarrow> nat) \<Rightarrow> (bytes \<rightharpoonup> nat) \<Rightarrow> (bytes \<rightharpoonup> PackRule) \<Rightarrow>
    bytes list \<Rightarrow> packError + PackRule list" where
  "compileRules rx ulow index byID [] = Inr []"
| "compileRules rx ulow index byID (i # order) =
     (case byID i of
        None \<Rightarrow> compileRules rx ulow index byID order
      | Some r \<Rightarrow>
          andThen (ruleCompile rx ulow index r) (\<lambda>r'.
          andThen (compileRules rx ulow index byID order) (\<lambda>rs. Inr (r' # rs))))"

definition startMerge :: mergeState where
  "startMerge = \<lparr>mg_Packs = [], mg_Exclude = [], mg_IOCs = emptyIOCs, mg_byID = (\<lambda>_. None), mg_order = []\<rparr>"

text \<open>A missing key of the index reads as 0, for the IOC gates too.\<close>

definition indexOr0 :: "(bytes \<rightharpoonup> nat) \<Rightarrow> bytes \<Rightarrow> nat" where
  "indexOr0 index k = (case index k of None \<Rightarrow> 0 | Some i \<Rightarrow> i)"

text \<open>\<open>None\<close> would be an automaton whose construction does not end; there is none (C1).\<close>

definition CompilePacks :: "(bytes \<Rightarrow> regex option) \<Rightarrow> (nat \<Rightarrow> nat) \<Rightarrow> bytes list \<Rightarrow> Pack option list \<Rightarrow>
    (packError + RuleSet) option" where
  "CompilePacks rx ulow extra packs =
     (case mergePacks rx packs startMerge of
        Inl e \<Rightarrow> Some (Inl e)
      | Inr st \<Rightarrow>
          (case BuildAC (gatherLiterals ulow st extra) of
             None \<Rightarrow> None
           | Some (ac, index) \<Rightarrow>
               Some
                 (andThen (compileRules rx ulow index (mg_byID st) (mg_order st)) (\<lambda>rs.
                  Inr \<lparr>rs_Packs = mg_Packs st, rs_Rules = rs, rs_IOCs = mg_IOCs st,
                       rs_Exclude = mg_Exclude st, rs_AC = ac,
                       rs_iocGate = map (\<lambda>s. int (indexOr0 index (goToLower ulow s)))
                                      (ioc_Strings (mg_IOCs st)),
                       rs_nPattern = NumPatterns ac, rs_index = index\<rparr>))))"

definition LiteralID :: "(nat \<Rightarrow> nat) \<Rightarrow> RuleSet \<Rightarrow> bytes \<Rightarrow> int" where
  "LiteralID ulow s lit = (case rs_index s (goToLower ulow lit) of Some i \<Rightarrow> int i | None \<Rightarrow> -1)"

section \<open>Evaluation\<close>

definition reMatch :: "regex \<Rightarrow> bytes \<Rightarrow> bool" where
  "reMatch re subj \<longleftrightarrow> re subj \<noteq> []"

definition NeedsCode :: "PackRule \<Rightarrow> bool" where
  "NeedsCode r \<longleftrightarrow> pr_Scope r = ''code'' \<or> length (pr_allCodeRe r) > 0 \<or> length (pr_anyCodeRe r) > 0"

definition Excluded :: "RuleSet \<Rightarrow> bytes \<Rightarrow> bool" where
  "Excluded s path = list_ex (\<lambda>re. reMatch re path) (rs_Exclude s)"

definition PathEligible :: "PackRule \<Rightarrow> bytes \<Rightarrow> bytes \<Rightarrow> int \<Rightarrow> bool" where
  "PathEligible r path ext sz =
     (if (case pr_extSet r of None \<Rightarrow> False | Some es \<Rightarrow> ext \<notin> es) then False
      else if pr_MinSize r > 0 \<and> sz < pr_MinSize r then False
      else if pr_MaxSize r > 0 \<and> sz > pr_MaxSize r then False
      else if list_ex (\<lambda>re. reMatch re path) (pr_pathNotRe r) then False
      else if length (pr_pathAnyRe r) > 0 \<and> \<not> list_ex (\<lambda>re. reMatch re path) (pr_pathAnyRe r) then False
      else True)"

text \<open>A lookup in the hit slice that counts an id out of range as absent.\<close>

definition hitAtId :: "bool list \<Rightarrow> int \<Rightarrow> bool" where
  "hitAtId hit i \<longleftrightarrow> 0 \<le> i \<and> i < int (length hit) \<and> hit ! nat i"

definition GatesFired :: "PackRule \<Rightarrow> bool list \<Rightarrow> bool" where
  "GatesFired r hit = list_all (hitAtId hit) (pr_gateIDs r)"

definition IOCHits :: "RuleSet \<Rightarrow> bool list \<Rightarrow> bytes list" where
  "IOCHits s hit =
     map snd (filter (\<lambda>(i, str). hitAtId hit i) (zip (rs_iocGate s) (ioc_Strings (rs_IOCs s))))"

definition maxProxMatches :: nat where "maxProxMatches = 512"

subsection \<open>The proximity window\<close>

text \<open>
  The inner loop over the groups: \<open>None\<close> when a list is exhausted, else the least and greatest
  head and the first group that holds the least. The groups are the lists from their pointers on.
\<close>

fun windowHeads :: "nat \<Rightarrow> nat list list \<Rightarrow> int \<Rightarrow> int \<Rightarrow> int \<Rightarrow> (int \<times> int \<times> int) option" where
  "windowHeads g [] lo hi loGroup = Some (lo, hi, loGroup)"
| "windowHeads g ([] # gs) lo hi loGroup = None"
| "windowHeads g ((v # vs) # gs) lo hi loGroup =
     windowHeads (g + 1) gs (if int v < lo then int v else lo) (if int v > hi then int v else hi)
       (if int v < lo then int g else loGroup)"

text \<open>The outer loop. \<open>idx[-1]++\<close>, when no head is below \<open>1<<62\<close>, panics: \<open>None\<close>.\<close>

function windowLoop :: "nat list list \<Rightarrow> int \<Rightarrow> int \<Rightarrow> int \<Rightarrow> (int \<times> bool) option" where
  "windowLoop groups within bestLo bestSpan =
     (case windowHeads 0 groups (2 ^ 62) (-1) (-1) of
        None \<Rightarrow> Some (bestLo, bestSpan \<ge> 0 \<and> bestSpan \<le> within)
      | Some (lo, hi, loGroup) \<Rightarrow>
          let span = hi - lo; better = (bestSpan < 0 \<or> span < bestSpan) in
          if better \<and> span \<le> within then Some (lo, True)
          else if loGroup < 0 \<or> int (length groups) \<le> loGroup \<or> groups ! nat loGroup = [] then None
          else windowLoop (groups[nat loGroup := tl (groups ! nat loGroup)]) within
                 (if better then lo else bestLo) (if better then span else bestSpan))"
  by pat_completeness auto
termination
proof (relation "measure (\<lambda>(groups, within, bestLo, bestSpan). sum_list (map length groups))", goal_cases)
  case 1
  show ?case by simp
next
  case (2 groups within bestLo bestSpan x lo y hi loGroup)
  then have "nat loGroup < length groups" "groups ! nat loGroup \<noteq> []" by auto
  moreover from this have "length (groups ! nat loGroup) \<le> sum_list (map length groups)"
    using elem_le_sum_list [of "nat loGroup" "map length groups"] by simp
  ultimately show ?case
    by (cases "groups ! nat loGroup") (auto simp: map_update sum_list_update)
qed

declare windowLoop.simps [simp del]

definition smallestWindow :: "nat list list \<Rightarrow> int \<Rightarrow> (int \<times> bool) option" where
  "smallestWindow groups within = windowLoop groups within 0 (-1)"

subsection \<open>MatchContent\<close>

text \<open>
  The closure \<open>collect\<close>, which fills \<open>off\<close> (without a window) or \<open>groups\<close> (with
  one, when it is not nil). \<open>None\<close> is its result \<open>false\<close>.
\<close>

fun collect :: "regex list \<Rightarrow> bytes \<Rightarrow> int \<times> nat list list option \<Rightarrow> (int \<times> nat list list option) option" where
  "collect [] subj st = Some st"
| "collect (re # res) subj (off, None) =
     (case re subj of
        [] \<Rightarrow> None
      | l # _ \<Rightarrow> collect res subj (if off < 0 \<or> int l < off then int l else off, None))"
| "collect (re # res) subj (off, Some groups) =
     (if take maxProxMatches (re subj) = [] then None
      else collect res subj (off, Some (groups @ [take maxProxMatches (re subj)])))"

text \<open>The closure \<open>scan\<close> of the OR-set: the first pattern that matches.\<close>

fun scanAny :: "regex list \<Rightarrow> bytes \<Rightarrow> int \<Rightarrow> (bool \<times> int)" where
  "scanAny [] subj off = (False, off)"
| "scanAny (re # res) subj off =
     (case re subj of
        [] \<Rightarrow> scanAny res subj off
      | l # _ \<Rightarrow> (True, if off < 0 then int l else off))"

text \<open>The AND-set: the offset, or \<open>Inl False\<close> when the rule does not match and \<open>Inl True\<close>
  for a panic in the window search.\<close>

definition matchAll :: "PackRule \<Rightarrow> bytes \<Rightarrow> bytes \<Rightarrow> bool + int" where
  "matchAll r allSubj code =
     (let nAll = length (pr_allRe r) + length (pr_allCodeRe r);
          groups0 = (if pr_Within r > 0 \<and> nAll > 1 then Some [] else None)
      in case collect (pr_allRe r) allSubj (-1, groups0) of
           None \<Rightarrow> Inl False
         | Some st \<Rightarrow>
             (case collect (pr_allCodeRe r) code st of
                None \<Rightarrow> Inl False
              | Some (off, None) \<Rightarrow> Inr off
              | Some (off, Some groups) \<Rightarrow>
                  (case smallestWindow groups (pr_Within r) of
                     None \<Rightarrow> Inl True
                   | Some (start, ok) \<Rightarrow> if ok then Inr start else Inl False)))"

text \<open>The OR-set and the result.\<close>

definition matchAny :: "PackRule \<Rightarrow> bytes \<Rightarrow> bytes \<Rightarrow> int \<Rightarrow> bool \<times> int" where
  "matchAny r anySubj code off =
     (let nAll = length (pr_allRe r) + length (pr_allCodeRe r);
          nAny = length (pr_anyRe r) + length (pr_anyCodeRe r);
          (found, off1) =
            (if nAny > 0 then
               (case scanAny (pr_anyRe r) anySubj off of
                  (True, o1) \<Rightarrow> (True, o1)
                | (False, o1) \<Rightarrow> scanAny (pr_anyCodeRe r) code o1)
             else (True, off))
      in if \<not> found then (False, -1)
         else
           let off2 = (if nAll = 0 \<and> nAny = 0 \<and> off1 < 0 then 0 else off1)
           in (off2 \<ge> 0, off2))"

definition MatchContent :: "PackRule \<Rightarrow> bytes \<Rightarrow> bytes option \<Rightarrow> (bool \<times> int) option" where
  "MatchContent r raw code0 =
     (let code = (case code0 of None \<Rightarrow> raw | Some c \<Rightarrow> c);
          subj = (if pr_Scope r = ''code'' then code else raw)
      in if list_ex (\<lambda>re. reMatch re subj) (pr_notRe r) then Some (False, -1)
         else case matchAll r subj code of
                Inl True \<Rightarrow> None
              | Inl False \<Rightarrow> Some (False, -1)
              | Inr off \<Rightarrow> Some (matchAny r subj code off))"

section \<open>The report header\<close>

record PackInfo =
  pi_Name :: bytes
  pi_Version :: bytes
  pi_SHA256 :: bytes
  pi_Rules :: nat

text \<open>\<open>Info\<close> before its final sort by name, which is not stable for equal names.\<close>

definition packInfos :: "RuleSet \<Rightarrow> PackInfo list" where
  "packInfos s =
     map (\<lambda>p. \<lparr>pi_Name = pk_Name p, pi_Version = pk_Version p, pi_SHA256 = pk_sha p,
               pi_Rules = length (filter (\<lambda>r. pr_pack r = pk_Name p) (rs_Rules s))\<rparr>) (rs_Packs s)"

section \<open>Correctness of the window search\<close>

text \<open>One offset of every group, all within \<open>within\<close> bytes of the first, \<open>start\<close>.\<close>

definition windowAt :: "nat list list \<Rightarrow> int \<Rightarrow> int \<Rightarrow> bool" where
  "windowAt groups within start \<longleftrightarrow>
     (\<forall>g\<in>set groups. \<exists>x\<in>set g. start \<le> int x \<and> int x \<le> start + within) \<and>
     (\<exists>g\<in>set groups. \<exists>x\<in>set g. int x = start)"

text \<open>A window may start at its least offset.\<close>

lemma windowAt_shift:
  assumes "groups \<noteq> []" "\<forall>g\<in>set groups. \<exists>x\<in>set g. s \<le> int x \<and> int x \<le> s + within"
  shows "\<exists>s'. windowAt groups within s'"
proof -
  let ?X = "{x. (\<exists>g\<in>set groups. x \<in> set g) \<and> s \<le> int x}"
  have "\<exists>x. x \<in> ?X" using assms by (cases groups) auto
  then obtain m where m: "m \<in> ?X" "\<forall>x\<in>?X. m \<le> x"
    by (metis (no_types, lifting) LeastI Least_le mem_Collect_eq)
  have "windowAt groups within (int m)"
    unfolding windowAt_def
  proof (intro conjI ballI)
    fix g assume "g \<in> set groups"
    with assms(2) obtain x where "x \<in> set g" "s \<le> int x" "int x \<le> s + within" by blast
    with m \<open>g \<in> set groups\<close> show "\<exists>x\<in>set g. int m \<le> int x \<and> int x \<le> int m + within" by force
  qed (use m(1) in auto)
  then show ?thesis ..
qed

lemma windowHeads_None: "windowHeads g gs lo hi lg = None \<longleftrightarrow> [] \<in> set gs"
  by (induction g gs lo hi lg rule: windowHeads.induct) auto

lemma windowHeads_Some:
  "windowHeads g gs lo hi lg = Some (lo', hi', lg') \<Longrightarrow>
     lo' \<le> lo \<and> hi \<le> hi' \<and> (\<forall>xs\<in>set gs. xs \<noteq> [] \<and> lo' \<le> int (hd xs) \<and> int (hd xs) \<le> hi') \<and>
     (lo' = lo \<and> lg' = lg \<or>
        (\<exists>k<length gs. lg' = int (g + k) \<and> int (hd (gs ! k)) = lo')) \<and>
     (hi' = hi \<or> (\<exists>xs\<in>set gs. int (hd xs) = hi'))"
proof (induction g gs lo hi lg rule: windowHeads.induct)
  case (3 g v vs gs lo hi lg)
  let ?lo = "if int v < lo then int v else lo"
  let ?hi = "if int v > hi then int v else hi"
  let ?lg = "if int v < lo then int g else lg"
  have IH: "lo' \<le> ?lo" "?hi \<le> hi'" "\<forall>xs\<in>set gs. xs \<noteq> [] \<and> lo' \<le> int (hd xs) \<and> int (hd xs) \<le> hi'"
    "lo' = ?lo \<and> lg' = ?lg \<or> (\<exists>k<length gs. lg' = int (g + 1 + k) \<and> int (hd (gs ! k)) = lo')"
    "hi' = ?hi \<or> (\<exists>xs\<in>set gs. int (hd xs) = hi')"
    using "3.IH" "3.prems" by simp_all
  have a: "lo' \<le> lo" "hi \<le> hi'" "lo' \<le> int v" "int v \<le> hi'" using IH(1,2) by (auto split: if_splits)
  have b: "lo' = lo \<and> lg' = lg \<or>
      (\<exists>k<length ((v # vs) # gs). lg' = int (g + k) \<and> int (hd (((v # vs) # gs) ! k)) = lo')"
    using IH(4)
  proof
    assume "lo' = ?lo \<and> lg' = ?lg"
    then show ?thesis by (cases "int v < lo") (auto intro!: exI [of _ 0])
  next
    assume "\<exists>k<length gs. lg' = int (g + 1 + k) \<and> int (hd (gs ! k)) = lo'"
    then obtain k where "k < length gs" "lg' = int (g + 1 + k)" "int (hd (gs ! k)) = lo'" by blast
    then show ?thesis by (intro disjI2 exI [of _ "Suc k"]) simp
  qed
  show ?case using a b IH(3,5) by (auto split: if_splits)
qed auto

lemma windowAt_nth:
  "windowAt groups within start \<longleftrightarrow>
     (\<forall>i<length groups. \<exists>x\<in>set (groups ! i). start \<le> int x \<and> int x \<le> start + within) \<and>
     (\<exists>i<length groups. \<exists>x\<in>set (groups ! i). int x = start)"
  by (auto simp: windowAt_def all_set_conv_all_nth) (metis in_set_conv_nth)+

text \<open>When the heads are more than \<open>within\<close> apart, no window contains the least head.\<close>

lemma windowAt_drop:
  assumes k: "k < length groups" "groups ! k = v # vs" "int v = lo"
    and far: "g \<in> set groups" "\<forall>y\<in>set g. hi \<le> int y" "within < hi - lo"
  shows "windowAt (groups[k := vs]) within s \<longleftrightarrow> windowAt groups within s"
proof
  assume w: "windowAt (groups[k := vs]) within s"
  have sub: "set (groups[k := vs] ! i) \<subseteq> set (groups ! i)" if "i < length groups" for i
    using k that by (cases "i = k") auto
  show "windowAt groups within s"
    using w sub unfolding windowAt_nth length_list_update by blast
next
  assume w: "windowAt groups within s"
  obtain y where y: "y \<in> set g" "s \<le> int y" "int y \<le> s + within"
    using w far(1) by (auto simp: windowAt_def)
  then have s: "lo < s" using far(2,3) by fastforce
  have drop: "x \<in> set (groups[k := vs] ! i)" if "i < length groups" "x \<in> set (groups ! i)" "s \<le> int x" for i x
    using k s that by (cases "i = k") auto
  show "windowAt (groups[k := vs]) within s"
    unfolding windowAt_nth length_list_update
  proof (intro conjI allI impI)
    fix i assume "i < length groups"
    with w drop show "\<exists>x\<in>set (groups[k := vs] ! i). s \<le> int x \<and> int x \<le> s + within"
      unfolding windowAt_nth by blast
  next
    show "\<exists>i<length groups. \<exists>x\<in>set (groups[k := vs] ! i). int x = s"
      using w drop unfolding windowAt_nth by (metis order_refl)
  qed
qed

lemma windowLoop_correct:
  assumes "groups \<noteq> []" "\<forall>g\<in>set groups. sorted g \<and> (\<forall>x\<in>set g. int x < 2 ^ 62)"
    and "bestSpan < 0 \<or> within < bestSpan"
  shows "\<exists>start ok. windowLoop groups within bestLo bestSpan = Some (start, ok) \<and>
     (ok \<longrightarrow> windowAt groups within start) \<and> (ok \<longleftrightarrow> (\<exists>s. windowAt groups within s))"
  using assms
proof (induction "sum_list (map length groups)" arbitrary: groups bestLo bestSpan rule: less_induct)
  case less
  note step = windowLoop.simps [of groups within bestLo bestSpan]
  show ?case
  proof (cases "windowHeads 0 groups (2 ^ 62) (-1) (-1)")
    case None
    then have "\<not> windowAt groups within s" for s by (force simp: windowHeads_None windowAt_def)
    with None less.prems(3) show ?thesis by (subst step) auto
  next
    case (Some t)
    obtain lo hi lg where t: "t = (lo, hi, lg)" by (cases t)
    note W = windowHeads_Some [OF Some [unfolded t]]
    obtain g0 where g0: "g0 \<in> set groups" using less.prems(1) by (cases groups) auto
    have hd0: "hd g0 \<in> set g0" "lo \<le> int (hd g0)" "int (hd g0) \<le> hi" using W g0 by auto
    then have "lo < 2 ^ 62" using less.prems(2) g0 by fastforce
    with W obtain k where k: "k < length groups" "lg = int k" "int (hd (groups ! k)) = lo" by auto
    then obtain vs where vs: "groups ! k = hd (groups ! k) # vs" using W by (metis list.collapse nth_mem)
    then have tl_k: "tl (groups ! k) = vs" by (metis list.sel(3))
    from hd0 have "hi \<noteq> -1" by linarith
    with W obtain g where g: "g \<in> set groups" "int (hd g) = hi" by blast
    have gsort: "\<forall>y\<in>set g. hi \<le> int y"
      using less.prems(2) g W by (cases g) auto
    define better where "better \<longleftrightarrow> bestSpan < 0 \<or> hi - lo < bestSpan"
    show ?thesis
    proof (cases "hi - lo \<le> within")
      case True
      then have "better" using less.prems(3) by (auto simp: better_def)
      then have "windowLoop groups within bestLo bestSpan = Some (lo, True)"
        using True Some t by (subst step) (simp add: better_def Let_def)
      moreover have "windowAt groups within lo"
        unfolding windowAt_def
      proof
        show "\<forall>g\<in>set groups. \<exists>x\<in>set g. lo \<le> int x \<and> int x \<le> lo + within"
        proof
          fix h assume "h \<in> set groups"
          with W True have "hd h \<in> set h" "lo \<le> int (hd h)" "int (hd h) \<le> lo + within" by auto
          then show "\<exists>x\<in>set h. lo \<le> int x \<and> int x \<le> lo + within" by blast
        qed
        show "\<exists>g\<in>set groups. \<exists>x\<in>set g. int x = lo" using k vs by (metis list.set_intros(1) nth_mem)
      qed
      ultimately show ?thesis by blast
    next
      case False
      let ?groups = "groups[k := vs]"
      let ?lo = "if better then lo else bestLo" and ?span = "if better then hi - lo else bestSpan"
      have rec: "windowLoop groups within bestLo bestSpan = windowLoop ?groups within ?lo ?span"
        using False Some t k vs tl_k by (subst step) (auto simp: better_def Let_def)
      have eq: "windowAt ?groups within s \<longleftrightarrow> windowAt groups within s" for s
        by (rule windowAt_drop [OF k(1) vs k(3) g(1) gsort]) (use False in simp)
      have vs': "sorted vs \<and> (\<forall>x\<in>set vs. int x < 2 ^ 62)"
        using less.prems(2) nth_mem [OF k(1)] vs by (metis list.set_intros(2) sorted_simps(2))
      have "\<exists>start ok. windowLoop ?groups within ?lo ?span = Some (start, ok) \<and>
         (ok \<longrightarrow> windowAt ?groups within start) \<and> (ok \<longleftrightarrow> (\<exists>s. windowAt ?groups within s))"
      proof (rule less.hyps)
        have "sum_list (map length ?groups) = sum_list (map length groups) + length vs - length (groups ! k)"
          using k(1) by (simp add: map_update sum_list_update)
        moreover have "length (groups ! k) \<le> sum_list (map length groups)"
          using elem_le_sum_list [of k "map length groups"] k(1) by simp
        moreover have "length (groups ! k) = Suc (length vs)" using vs by (metis length_Cons)
        ultimately show "sum_list (map length ?groups) < sum_list (map length groups)" by linarith
        show "?groups \<noteq> []" using less.prems(1) by simp
        show "\<forall>g\<in>set ?groups. sorted g \<and> (\<forall>x\<in>set g. int x < 2 ^ 62)"
          using less.prems(2) vs' set_update_subset_insert [of groups k vs] by auto
        show "?span < 0 \<or> within < ?span" using less.prems(3) False by auto
      qed
      then show ?thesis unfolding rec eq .
    qed
  qed
qed

lemma smallestWindow_correct:
  assumes "groups \<noteq> []" "\<forall>g\<in>set groups. sorted g \<and> (\<forall>x\<in>set g. int x < 2 ^ 62)"
  obtains start ok where "smallestWindow groups within = Some (start, ok)"
    "ok \<Longrightarrow> windowAt groups within start" "ok \<longleftrightarrow> (\<exists>s. windowAt groups within s)"
  using windowLoop_correct [OF assms, of "-1" within 0] by (auto simp: smallestWindow_def)

section \<open>Correctness of the content stage\<close>

text \<open>What \<open>regexp\<close> promises of the offsets: ascending, and far below \<open>1<<62\<close>.\<close>

definition regexOffsets :: "regex \<Rightarrow> bool" where
  "regexOffsets re \<longleftrightarrow> (\<forall>subj. sorted (re subj) \<and> (\<forall>x\<in>set (re subj). int x < 2 ^ 62))"

lemma collect_first:
  "collect res subj (off, None) =
     (if \<forall>re\<in>set res. reMatch re subj
      then Some (foldl (\<lambda>o1 re. if o1 < 0 \<or> int (hd (re subj)) < o1 then int (hd (re subj)) else o1) off res, None)
      else None)"
  by (induction res arbitrary: off) (auto simp: reMatch_def split: list.split)

lemma foldl_off_nonneg:
  "0 \<le> off \<or> res \<noteq> [] \<Longrightarrow>
   0 \<le> foldl (\<lambda>o1 re. if o1 < 0 \<or> int (hd (re subj)) < o1 then int (hd (re subj)) else o1) (off::int) res"
proof (induction res arbitrary: off)
  case (Cons re res)
  show ?case unfolding foldl_Cons by (rule Cons.IH) auto
qed simp

lemma collect_all:
  "collect res subj (off, Some gs) =
     (if \<forall>re\<in>set res. reMatch re subj
      then Some (off, Some (gs @ map (\<lambda>re. take maxProxMatches (re subj)) res)) else None)"
  by (induction res arbitrary: gs) (auto simp: reMatch_def maxProxMatches_def)

lemma scanAny_found: "fst (scanAny res subj off) \<longleftrightarrow> (\<exists>re\<in>set res. reMatch re subj)"
  by (induction res subj off rule: scanAny.induct) (auto simp: reMatch_def split: list.split)

lemma scanAny_off:
  "snd (scanAny res subj off) = off \<and> \<not> fst (scanAny res subj off) \<or>
   fst (scanAny res subj off) \<and> 0 \<le> snd (scanAny res subj off)"
  by (induction res subj off rule: scanAny.induct) (auto split: list.split)

text \<open>The groups of the window: the first matches of every pattern of the AND-set.\<close>

definition proxGroups :: "PackRule \<Rightarrow> bytes \<Rightarrow> bytes \<Rightarrow> nat list list" where
  "proxGroups r subj code =
     map (\<lambda>re. take maxProxMatches (re subj)) (pr_allRe r) @
     map (\<lambda>re. take maxProxMatches (re code)) (pr_allCodeRe r)"

definition allHolds :: "PackRule \<Rightarrow> bytes \<Rightarrow> bytes \<Rightarrow> bool" where
  "allHolds r subj code \<longleftrightarrow>
     (\<forall>re\<in>set (pr_allRe r). reMatch re subj) \<and> (\<forall>re\<in>set (pr_allCodeRe r). reMatch re code) \<and>
     (0 < pr_Within r \<and> 1 < length (pr_allRe r) + length (pr_allCodeRe r) \<longrightarrow>
        (\<exists>s. windowAt (proxGroups r subj code) (pr_Within r) s))"

definition anyHolds :: "PackRule \<Rightarrow> bytes \<Rightarrow> bytes \<Rightarrow> bool" where
  "anyHolds r subj code \<longleftrightarrow>
     pr_anyRe r = [] \<and> pr_anyCodeRe r = [] \<or>
     (\<exists>re\<in>set (pr_anyRe r). reMatch re subj) \<or> (\<exists>re\<in>set (pr_anyCodeRe r). reMatch re code)"

lemma matchAll_spec:
  assumes "\<forall>re\<in>set (pr_allRe r) \<union> set (pr_allCodeRe r). regexOffsets re"
  shows "if allHolds r subj code
         then \<exists>off. matchAll r subj code = Inr off \<and>
                ((0 < length (pr_allRe r) + length (pr_allCodeRe r)) \<longrightarrow> 0 \<le> off)
         else matchAll r subj code = Inl False"
proof (cases "(\<forall>re\<in>set (pr_allRe r). reMatch re subj) \<and> (\<forall>re\<in>set (pr_allCodeRe r). reMatch re code)")
  case both: True
  show ?thesis
  proof (cases "0 < pr_Within r \<and> 1 < length (pr_allRe r) + length (pr_allCodeRe r)")
    case win: True
    let ?gs = "proxGroups r subj code"
    have "?gs \<noteq> []" using win by (auto simp: proxGroups_def)
    moreover have "\<forall>g\<in>set ?gs. sorted g \<and> (\<forall>x\<in>set g. int x < 2 ^ 62)"
      using assms by (auto simp: proxGroups_def regexOffsets_def dest!: in_set_takeD)
    ultimately obtain start ok where w: "smallestWindow ?gs (pr_Within r) = Some (start, ok)"
        "ok \<Longrightarrow> windowAt ?gs (pr_Within r) start" "ok \<longleftrightarrow> (\<exists>s. windowAt ?gs (pr_Within r) s)"
      using smallestWindow_correct by blast
    have m: "matchAll r subj code = (if ok then Inr start else Inl False)"
      using win both w(1) by (simp add: matchAll_def collect_all proxGroups_def Let_def)
    have "0 \<le> start" if ok using w(2) [OF that] by (auto simp: windowAt_def)
    with m w(3) both win show ?thesis by (auto simp: allHolds_def)
  next
    case nowin: False
    let ?f = "\<lambda>subj off. foldl (\<lambda>o1 re. if o1 < 0 \<or> int (hd (re subj)) < o1 then int (hd (re subj)) else o1) off"
    have "matchAll r subj code = Inr (?f code (?f subj (-1) (pr_allRe r)) (pr_allCodeRe r))"
      using nowin both by (auto simp: matchAll_def collect_first Let_def)
    moreover have "0 \<le> ?f code (?f subj (-1) (pr_allRe r)) (pr_allCodeRe r)"
      if "0 < length (pr_allRe r) + length (pr_allCodeRe r)"
    proof (cases "pr_allCodeRe r = []")
      case True
      with that show ?thesis by (auto intro!: foldl_off_nonneg)
    next
      case False
      then show ?thesis by (intro foldl_off_nonneg) simp
    qed
    ultimately show ?thesis using both nowin by (auto simp: allHolds_def)
  qed
next
  case False
  then have "matchAll r subj code = Inl False"
    by (cases "0 < pr_Within r \<and> 1 < length (pr_allRe r) + length (pr_allCodeRe r)")
      (auto simp: matchAll_def collect_first collect_all Let_def split: if_splits)
  with False show ?thesis by (auto simp: allHolds_def)
qed

lemma matchAny_spec:
  assumes "0 < length (pr_allRe r) + length (pr_allCodeRe r) \<longrightarrow> 0 \<le> off"
  shows "fst (matchAny r subj code off) \<longleftrightarrow> anyHolds r subj code"
    "anyHolds r subj code \<Longrightarrow> 0 \<le> snd (matchAny r subj code off)"
proof -
  let ?n = "0 < length (pr_anyRe r) + length (pr_anyCodeRe r)"
  let ?s1 = "scanAny (pr_anyRe r) subj off"
  let ?s2 = "scanAny (pr_anyCodeRe r) code (snd ?s1)"
  have "fst (matchAny r subj code off) = anyHolds r subj code \<and>
      (anyHolds r subj code \<longrightarrow> 0 \<le> snd (matchAny r subj code off))"
  proof (cases ?n)
    case True
    then have any: "anyHolds r subj code \<longleftrightarrow> fst ?s1 \<or> fst ?s2"
      by (auto simp: anyHolds_def scanAny_found)
    show ?thesis
    proof (cases "fst ?s1")
      case f1: True
      then show ?thesis using any True scanAny_off [of "pr_anyRe r" subj off]
        by (cases ?s1) (auto simp: matchAny_def Let_def)
    next
      case f1: False
      then show ?thesis using any True scanAny_off [of "pr_anyCodeRe r" code "snd ?s1"]
        by (cases ?s1; cases ?s2) (auto simp: matchAny_def Let_def)
    qed
  next
    case False
    then show ?thesis using assms by (auto simp: matchAny_def anyHolds_def Let_def)
  qed
  then show "fst (matchAny r subj code off) \<longleftrightarrow> anyHolds r subj code"
    "anyHolds r subj code \<Longrightarrow> 0 \<le> snd (matchAny r subj code off)" by blast+
qed

section \<open>What merging and compiling establish\<close>

lemma appendUniqueLoop_spec:
  "set dst \<subseteq> seen \<Longrightarrow> distinct dst \<Longrightarrow>
   (\<exists>new. appendUniqueLoop seen dst src = dst @ new \<and> set new = set src - seen \<and> distinct new)"
proof (induction seen dst src rule: appendUniqueLoop.induct)
  case (2 seen dst s src)
  show ?case
  proof (cases "s \<in> seen")
    case True
    with 2 show ?thesis by auto
  next
    case False
    with 2 obtain new where "appendUniqueLoop (insert s seen) (dst @ [s]) src = (dst @ [s]) @ new"
      "set new = set src - insert s seen" "distinct new" by fastforce
    with False show ?thesis by (intro exI [of _ "s # new"]) auto
  qed
qed simp

lemma gatherLiterals_acc:
  "distinct acc \<Longrightarrow> [] \<notin> set acc \<Longrightarrow>
     distinct (foldl (addLit ulow) acc ls) \<and> [] \<notin> set (foldl (addLit ulow) acc ls) \<and>
     set (foldl (addLit ulow) acc ls) = set acc \<union> (goToLower ulow ` set ls - {[]})"
proof (induction ls arbitrary: acc)
  case (Cons l ls)
  have "distinct (addLit ulow acc l) \<and> [] \<notin> set (addLit ulow acc l) \<and>
      set (addLit ulow acc l) = set acc \<union> ({goToLower ulow l} - {[]})"
    using Cons.prems by (auto simp: addLit_def Let_def)
  then show ?case using Cons.IH [of "addLit ulow acc l"] by auto
qed simp

text \<open>The last rule with an id, over all packs in order.\<close>

fun overrideRules :: "(bytes \<rightharpoonup> PackRule) \<Rightarrow> PackRule list \<Rightarrow> (bytes \<rightharpoonup> PackRule)" where
  "overrideRules m [] = m"
| "overrideRules m (r # rs) = overrideRules (m(pr_ID r \<mapsto> r)) rs"

lemma overrideRules_append [simp]: "overrideRules m (xs @ ys) = overrideRules (overrideRules m xs) ys"
  by (induction xs arbitrary: m) simp_all

definition allRules :: "Pack option list \<Rightarrow> PackRule list" where
  "allRules packs = concat (map (\<lambda>p. case p of None \<Rightarrow> [] | Some p \<Rightarrow> pk_Rules p) packs)"

definition lastRule :: "Pack option list \<Rightarrow> bytes \<rightharpoonup> PackRule" where
  "lastRule packs = overrideRules (\<lambda>_. None) (allRules packs)"

lemma addRules_spec:
  "addRules pack rs byID order = Inr (byID', order') \<Longrightarrow> distinct order \<Longrightarrow> set order = dom byID \<Longrightarrow>
   byID' = overrideRules byID rs \<and> distinct order' \<and> set order' = dom byID'"
proof (induction rs arbitrary: byID order)
  case (Cons r rs)
  let ?order = "if byID (pr_ID r) = None then order @ [pr_ID r] else order"
  have "addRules pack rs (byID(pr_ID r \<mapsto> r)) ?order = Inr (byID', order')"
    using Cons.prems(1) by (auto split: if_splits)
  moreover have "distinct ?order" "set ?order = dom (byID(pr_ID r \<mapsto> r))"
    using Cons.prems(2,3) by auto
  ultimately show ?case using Cons.IH by fastforce
qed simp

lemma mergePacks_spec:
  "mergePacks rx packs st = Inr st' \<Longrightarrow> distinct (mg_order st) \<Longrightarrow> set (mg_order st) = dom (mg_byID st) \<Longrightarrow>
   mg_byID st' = overrideRules (mg_byID st) (allRules packs) \<and>
   distinct (mg_order st') \<and> set (mg_order st') = dom (mg_byID st')"
proof (induction rx packs st rule: mergePacks.induct)
  case (3 rx p ps st)
  then obtain exclude byID order where a: "addRules (pk_Name p) (pk_Rules p) (mg_byID st) (mg_order st) = Inr (byID, order)"
    and ex: "addExcludes rx (pk_Name p) (pk_ExcludePaths p) (mg_Exclude st) = Inr exclude"
    by auto
  note a' = addRules_spec [OF a "3.prems"(2,3)]
  show ?case
    using "3.IH" [OF ex _ refl] a a' "3.prems"(1) ex by (auto simp: allRules_def)
qed (simp_all add: allRules_def)

lemma overrideRules_ID:
  "\<forall>r. m i = Some r \<longrightarrow> pr_ID r = i \<Longrightarrow> overrideRules m rs i = Some r \<Longrightarrow> pr_ID r = i"
proof (induction rs arbitrary: m)
  case (Cons q rs)
  show ?case
  proof (rule Cons.IH)
    show "\<forall>r. (m(pr_ID q \<mapsto> q)) i = Some r \<longrightarrow> pr_ID r = i" using Cons.prems(1) by auto
    show "overrideRules (m(pr_ID q \<mapsto> q)) rs i = Some r"
      using Cons.prems(2) by (simp only: overrideRules.simps)
  qed
qed simp

lemma overrideRules_mem: "overrideRules m rs i = Some r \<Longrightarrow> m i = Some r \<or> r \<in> set rs"
proof (induction rs arbitrary: m)
  case (Cons q rs)
  then have "overrideRules (m(pr_ID q \<mapsto> q)) rs i = Some r" by (simp only: overrideRules.simps)
  from Cons.IH [OF this] show ?case by (auto split: if_splits)
qed simp

lemma ruleCompile_ID: "ruleCompile rx ulow index r = Inr r' \<Longrightarrow> pr_ID r' = pr_ID r"
  by (auto simp: ruleCompile_def Let_def split: if_splits)

lemma compileRules_spec:
  "compileRules rx ulow index byID order = Inr rs \<Longrightarrow> set order \<subseteq> dom byID \<Longrightarrow>
   list_all2 (\<lambda>i r. \<exists>r0. byID i = Some r0 \<and> ruleCompile rx ulow index r0 = Inr r) order rs"
proof (induction order arbitrary: rs)
  case (Cons i order)
  then show ?case by (auto split: option.splits)
qed simp

text \<open>A compiled set: its automaton is that of its literals, its rules are those of its packs.\<close>

lemma CompilePacks_set:
  assumes "CompilePacks rx ulow extra packs = Some (Inr s)"
  obtains st where "mergePacks rx packs startMerge = Inr st"
    "rs_AC s = builtAC (gatherLiterals ulow st extra)"
    "rs_index s = builtIndex (gatherLiterals ulow st extra)"
    "rs_nPattern s = NumPatterns (rs_AC s)" "rs_IOCs s = mg_IOCs st"
    "compileRules rx ulow (rs_index s) (mg_byID st) (mg_order st) = Inr (rs_Rules s)"
    "rs_iocGate s = map (\<lambda>l. int (indexOr0 (rs_index s) (goToLower ulow l))) (ioc_Strings (rs_IOCs s))"
  using assms BuildAC_built
  by (auto simp: CompilePacks_def split: sum.splits)

lemma CompilePacks_rules:
  assumes "CompilePacks rx ulow extra packs = Some (Inr s)"
  shows "distinct (map pr_ID (rs_Rules s))"
    "set (map pr_ID (rs_Rules s)) = dom (lastRule packs)"
    "\<forall>r\<in>set (rs_Rules s). \<exists>r0. lastRule packs (pr_ID r) = Some r0 \<and> ruleCompile rx ulow (rs_index s) r0 = Inr r"
proof -
  obtain st where st: "mergePacks rx packs startMerge = Inr st"
      "compileRules rx ulow (rs_index s) (mg_byID st) (mg_order st) = Inr (rs_Rules s)"
    using CompilePacks_set [OF assms] by blast
  have m: "mg_byID st = lastRule packs" "distinct (mg_order st)" "set (mg_order st) = dom (mg_byID st)"
    using mergePacks_spec [OF st(1)] by (auto simp: startMerge_def lastRule_def)
  have all: "list_all2 (\<lambda>i r. \<exists>r0. lastRule packs i = Some r0 \<and> ruleCompile rx ulow (rs_index s) r0 = Inr r)
      (mg_order st) (rs_Rules s)"
    using compileRules_spec [OF st(2)] m by simp
  have id: "lastRule packs i = Some r0 \<Longrightarrow> ruleCompile rx ulow (rs_index s) r0 = Inr r \<Longrightarrow> pr_ID r = i" for i r0 r
    using overrideRules_ID [of "\<lambda>_. None" i "allRules packs" r0] ruleCompile_ID [of rx ulow "rs_index s" r0 r]
    by (simp add: lastRule_def)
  have "list_all2 (\<lambda>i r. pr_ID r = i) (mg_order st) (rs_Rules s)"
    by (rule list_all2_mono [OF all]) (use id in blast)
  then have ids: "map pr_ID (rs_Rules s) = mg_order st"
    by (induction rule: list_all2_induct) simp_all
  with m show "distinct (map pr_ID (rs_Rules s))" "set (map pr_ID (rs_Rules s)) = dom (lastRule packs)"
    by simp_all
  show "\<forall>r\<in>set (rs_Rules s). \<exists>r0. lastRule packs (pr_ID r) = Some r0 \<and> ruleCompile rx ulow (rs_index s) r0 = Inr r"
  proof
    fix r assume "r \<in> set (rs_Rules s)"
    then obtain i r0 where "lastRule packs i = Some r0" "ruleCompile rx ulow (rs_index s) r0 = Inr r"
      using list_all2_right [OF all] by blast
    with id show "\<exists>r0. lastRule packs (pr_ID r) = Some r0 \<and> ruleCompile rx ulow (rs_index s) r0 = Inr r" by blast
  qed
qed

section \<open>Gates and IOCs over one scan\<close>

lemma hitAtId_index:
  "builtIndex lits k = Some i \<Longrightarrow>
   hitAtId (scanHits lits data) (int i) \<longleftrightarrow> contains (map ascii_lower data) (map ascii_lower k)"
  using acp.id_bit [of lits k i data] by (simp add: hitAtId_def)

lemma contains_Nil [simp]: "contains s []"
  by (simp add: contains_def)

lemma set_scan:
  assumes "rs_AC s = builtAC lits" "rs_nPattern s = NumPatterns (rs_AC s)"
  shows "MatchSet (rs_AC s) data (replicate (rs_nPattern s) False) = Some (scanHits lits data)"
  using MatchSet_cleared [OF BuildAC_built [of lits], of data] assms by (simp add: scanHits_def)

lemma builtIndex_Nil: "builtIndex lits [] = None"
proof (rule ccontr)
  assume "builtIndex lits [] \<noteq> None"
  then obtain i where i: "builtIndex lits [] = Some i" by blast
  have I: "acIndexed lits (ac_patterns (builtAC lits)) (builtIndex lits)"
    using BuildAC_index [OF BuildAC_built] .
  with i have "i < length (ac_patterns (builtAC lits))" "ac_patterns (builtAC lits) ! i = []"
    by (auto simp: acIndexed_def)
  then have "[] \<in> set (ac_patterns (builtAC lits))" by (metis nth_mem)
  with I show False by (auto simp: acIndexed_def)
qed

lemma gateIds_fired:
  assumes "\<forall>g\<in>set gates. goToLower ulow g \<noteq> [] \<longrightarrow> goToLower ulow g \<in> set lits"
  shows "list_all (hitAtId (scanHits lits data)) (gateIds ulow (builtIndex lits) gates) \<longleftrightarrow>
     (\<forall>g\<in>set gates. contains (map ascii_lower data) (map ascii_lower (goToLower ulow g)))"
  using assms
proof (induction gates)
  case (Cons g gates)
  let ?k = "goToLower ulow g"
  have IH: "list_all (hitAtId (scanHits lits data)) (gateIds ulow (builtIndex lits) gates) \<longleftrightarrow>
     (\<forall>g\<in>set gates. contains (map ascii_lower data) (map ascii_lower (goToLower ulow g)))"
    using Cons by simp
  show ?case
  proof (cases "?k = []")
    case True
    then have "builtIndex lits ?k = None" by (simp add: builtIndex_Nil)
    then have "gateIds ulow (builtIndex lits) (g # gates) = gateIds ulow (builtIndex lits) gates"
      by (simp add: gateIds_def map_filter_def)
    with IH True show ?thesis by simp
  next
    case False
    then obtain i where i: "builtIndex lits ?k = Some i"
      using Cons.prems acp.id_registered [of ?k lits] by auto
    then have "gateIds ulow (builtIndex lits) (g # gates) = int i # gateIds ulow (builtIndex lits) gates"
      by (simp add: gateIds_def map_filter_def)
    with IH hitAtId_index [OF i] show ?thesis by simp
  qed
qed (simp add: gateIds_def map_filter_def)

lemma ruleCompile_gates:
  "ruleCompile rx ulow index r0 = Inr r \<Longrightarrow>
   pr_Gate r = pr_Gate r0 \<and> pr_gateIDs r = pr_gateIDs r0 @ gateIds ulow index (pr_Gate r0)"
  by (auto simp: ruleCompile_def Let_def split: if_splits)

lemma gatherLiterals_set:
  "set (gatherLiterals ulow st extra) =
     goToLower ulow ` (\<Union>i\<in>set (mg_order st). case mg_byID st i of None \<Rightarrow> {} | Some r \<Rightarrow> set (pr_Gate r)) - {[]} \<union>
     (goToLower ulow ` set (ioc_Strings (mg_IOCs st)) - {[]}) \<union> (goToLower ulow ` set extra - {[]})"
proof -
  have u: "set (case mg_byID st i of None \<Rightarrow> [] | Some r \<Rightarrow> pr_Gate r) =
      (case mg_byID st i of None \<Rightarrow> {} | Some r \<Rightarrow> set (pr_Gate r))" for i
    by (simp split: option.split)
  let ?ls = "concat (map (\<lambda>i. case mg_byID st i of None \<Rightarrow> [] | Some r \<Rightarrow> pr_Gate r) (mg_order st)) @
      ioc_Strings (mg_IOCs st) @ extra"
  have "set (gatherLiterals ulow st extra) = goToLower ulow ` set ?ls - {[]}"
    using gatherLiterals_acc [of "[]" ulow ?ls] unfolding gatherLiterals_def Let_def by simp
  then show ?thesis by (simp add: u image_Un Un_Diff Un_assoc)
qed

lemma gates_of_set:
  assumes "CompilePacks rx ulow extra packs = Some (Inr s)" "\<forall>r\<in>set (allRules packs). pr_gateIDs r = []"
    and "r \<in> set (rs_Rules s)"
    and "MatchSet (rs_AC s) data (replicate (rs_nPattern s) False) = Some hit"
  shows "GatesFired r hit \<longleftrightarrow>
     (\<forall>g\<in>set (pr_Gate r). contains (map ascii_lower data) (map ascii_lower (goToLower ulow g)))"
proof -
  obtain st where st: "mergePacks rx packs startMerge = Inr st"
    "rs_AC s = builtAC (gatherLiterals ulow st extra)"
    "rs_index s = builtIndex (gatherLiterals ulow st extra)" "rs_nPattern s = NumPatterns (rs_AC s)"
    using CompilePacks_set [OF assms(1)] by metis
  let ?lits = "gatherLiterals ulow st extra"
  have m: "mg_byID st = lastRule packs" "set (mg_order st) = dom (mg_byID st)"
    using mergePacks_spec [OF st(1)] by (auto simp: startMerge_def lastRule_def)
  have hit: "hit = scanHits ?lits data" using set_scan [OF st(2,4)] assms(4) by simp
  obtain r0 where r0: "lastRule packs (pr_ID r) = Some r0" "ruleCompile rx ulow (rs_index s) r0 = Inr r"
    using CompilePacks_rules(3) [OF assms(1)] assms(3) by blast
  have "r0 \<in> set (allRules packs)"
    using r0(1) overrideRules_mem [of "\<lambda>_. None"] by (simp add: lastRule_def)
  then have ids: "pr_gateIDs r = gateIds ulow (builtIndex ?lits) (pr_Gate r)" "pr_Gate r = pr_Gate r0"
    using ruleCompile_gates [OF r0(2)] assms(2) st(3) by auto
  have "\<forall>g\<in>set (pr_Gate r). goToLower ulow g \<noteq> [] \<longrightarrow> goToLower ulow g \<in> set ?lits"
    using m r0(1) ids(2) unfolding gatherLiterals_set by (fastforce simp: dom_def)
  from gateIds_fired [OF this] hit ids(1) show ?thesis by (simp add: GatesFired_def)
qed

lemma IOCHits_zip: "map snd (filter (\<lambda>(i, x). P i) (zip (map f xs) xs)) = filter (\<lambda>x. P (f x)) xs"
  by (induction xs) auto

lemma iocs_of_set:
  assumes "CompilePacks rx ulow extra packs = Some (Inr s)"
    and "\<forall>x\<in>set (ioc_Strings (rs_IOCs s)). goToLower ulow x \<noteq> []"
    and "MatchSet (rs_AC s) data (replicate (rs_nPattern s) False) = Some hit"
  shows "IOCHits s hit = filter (\<lambda>x. contains (map ascii_lower data) (map ascii_lower (goToLower ulow x)))
     (ioc_Strings (rs_IOCs s))"
proof -
  obtain st where st: "rs_AC s = builtAC (gatherLiterals ulow st extra)"
    "rs_index s = builtIndex (gatherLiterals ulow st extra)" "rs_nPattern s = NumPatterns (rs_AC s)"
    "rs_IOCs s = mg_IOCs st"
    "rs_iocGate s = map (\<lambda>l. int (indexOr0 (rs_index s) (goToLower ulow l))) (ioc_Strings (rs_IOCs s))"
    using CompilePacks_set [OF assms(1)] by metis
  let ?lits = "gatherLiterals ulow st extra"
  have hit: "hit = scanHits ?lits data" using set_scan [OF st(1,3)] assms(3) by simp
  have "hitAtId hit (int (indexOr0 (rs_index s) (goToLower ulow x))) \<longleftrightarrow>
      contains (map ascii_lower data) (map ascii_lower (goToLower ulow x))"
    if "x \<in> set (ioc_Strings (rs_IOCs s))" for x
  proof -
    have "goToLower ulow x \<noteq> []" "goToLower ulow x \<in> set ?lits"
      using assms(2) that st(4) unfolding gatherLiterals_set by auto
    then obtain i where i: "builtIndex ?lits (goToLower ulow x) = Some i"
      using acp.id_registered [of _ ?lits] by auto
    with hitAtId_index [OF i] hit st(2) show ?thesis by (simp add: indexOr0_def)
  qed
  then show ?thesis unfolding IOCHits_def st(5) IOCHits_zip by (auto intro: filter_cong)
qed

section \<open>Properties\<close>

text \<open>
  C7. The linear sweep of the proximity search is exact: on non-empty ascending offset lists it
  ends without a panic and says yes exactly when one offset of every list can be chosen inside a
  window of \<open>within\<close> bytes; the offset it returns then starts such a window.
\<close>

theorem smallestWindow_exact:
  assumes "groups \<noteq> []" and "\<forall>g\<in>set groups. sorted g \<and> (\<forall>x\<in>set g. int x < 2 ^ 62)"
  shows "\<exists>start ok. smallestWindow groups within = Some (start, ok) \<and>
     (ok \<longleftrightarrow> (\<exists>s. \<forall>g\<in>set groups. \<exists>x\<in>set g. s \<le> int x \<and> int x \<le> s + within)) \<and>
     (ok \<longrightarrow> (\<forall>g\<in>set groups. \<exists>x\<in>set g. start \<le> int x \<and> int x \<le> start + within))"
proof -
  obtain start ok where w: "smallestWindow groups within = Some (start, ok)"
    "ok \<Longrightarrow> windowAt groups within start" "ok \<longleftrightarrow> (\<exists>s. windowAt groups within s)"
    using smallestWindow_correct [OF assms] by blast
  have "(\<exists>s. windowAt groups within s) \<longleftrightarrow>
      (\<exists>s. \<forall>g\<in>set groups. \<exists>x\<in>set g. s \<le> int x \<and> int x \<le> s + within)"
    using windowAt_shift [OF assms(1)] by (auto simp: windowAt_def)
  with w show ?thesis by (auto simp: windowAt_def)
qed

lemma smallestWindow_exact_witness:
  "\<exists>start ok. smallestWindow [[0, 40], [50, 90]] 10 = Some (start, ok) \<and> ok"
proof -
  have "\<exists>s. \<forall>g\<in>set [[0, 40], [50, 90 :: nat]]. \<exists>x\<in>set g. s \<le> int x \<and> int x \<le> s + 10"
    by (intro exI [of _ 40]) simp
  with smallestWindow_exact [of "[[0, 40], [50, 90]]" 10] show ?thesis by auto
qed

text \<open>
  C8. The regular-expression stage decides what the rule says: no \<open>not\<close> pattern matches, every
  \<open>all\<close> and \<open>all_code\<close> pattern matches, under \<open>within\<close> some of their (first 512) matches
  lie in one window, and one \<open>any\<close> or \<open>any_code\<close> pattern matches if there are any. It does
  not panic, and a match comes with an offset.
\<close>

theorem MatchContent_exact:
  assumes "\<forall>re\<in>set (pr_allRe r) \<union> set (pr_allCodeRe r). regexOffsets re"
  shows "\<exists>ok off. MatchContent r raw code0 = Some (ok, off) \<and> (ok \<longrightarrow> 0 \<le> off) \<and>
     (let code = (case code0 of None \<Rightarrow> raw | Some c \<Rightarrow> c);
          subj = (if pr_Scope r = ''code'' then code else raw)
      in ok \<longleftrightarrow> (\<forall>re\<in>set (pr_notRe r). \<not> reMatch re subj) \<and> allHolds r subj code \<and> anyHolds r subj code)"
proof -
  define code where "code = (case code0 of None \<Rightarrow> raw | Some c \<Rightarrow> c)"
  define subj where "subj = (if pr_Scope r = ''code'' then code else raw)"
  have mc: "MatchContent r raw code0 =
     (if list_ex (\<lambda>re. reMatch re subj) (pr_notRe r) then Some (False, -1)
      else case matchAll r subj code of
             Inl True \<Rightarrow> None | Inl False \<Rightarrow> Some (False, -1)
           | Inr off \<Rightarrow> Some (matchAny r subj code off))"
    unfolding MatchContent_def Let_def code_def subj_def by (rule refl)
  have "\<exists>ok off. MatchContent r raw code0 = Some (ok, off) \<and> (ok \<longrightarrow> 0 \<le> off) \<and>
      (ok \<longleftrightarrow> (\<forall>re\<in>set (pr_notRe r). \<not> reMatch re subj) \<and> allHolds r subj code \<and> anyHolds r subj code)"
  proof (cases "list_ex (\<lambda>re. reMatch re subj) (pr_notRe r)")
    case True
    then show ?thesis unfolding mc by (auto simp: list_ex_iff)
  next
    case no: False
    show ?thesis
    proof (cases "allHolds r subj code")
      case True
      then obtain off where off: "matchAll r subj code = Inr off"
          "0 < length (pr_allRe r) + length (pr_allCodeRe r) \<longrightarrow> 0 \<le> off"
        using matchAll_spec [OF assms, of subj code] by auto
      obtain ok o2 where m: "matchAny r subj code off = (ok, o2)" by fastforce
      then have "ok \<longleftrightarrow> anyHolds r subj code" "ok \<Longrightarrow> 0 \<le> o2"
        using matchAny_spec [OF off(2), of subj code] by auto
      with m off(1) no True show ?thesis unfolding mc by (auto simp: list_ex_iff)
    next
      case False
      then show ?thesis
        using matchAll_spec [OF assms, of subj code] no unfolding mc by auto
    qed
  qed
  then show ?thesis unfolding Let_def subj_def code_def .
qed

definition sampleRegex :: "bytes \<Rightarrow> regex" where
  "sampleRegex p = (\<lambda>subj. filter (\<lambda>i. take (length p) (drop i subj) = p \<and> i < 1000) [0..<length subj])"

definition samplePackRule :: "bytes \<Rightarrow> bytes list \<Rightarrow> PackRule" where
  "samplePackRule i gate = \<lparr>pr_ID = i, pr_Class = [], pr_Severity = [], pr_Confidence = [], pr_Title = [],
     pr_Detail = [], pr_Remediation = [], pr_Actionable = False, pr_Gate = gate, pr_Any = [], pr_All = [],
     pr_Not = [], pr_AnyCode = [], pr_AllCode = [], pr_Within = 0, pr_Scope = [], pr_Ext = [],
     pr_PathAny = [], pr_PathNot = [], pr_MinSize = 0, pr_MaxSize = 0, pr_anyRe = [], pr_allRe = [],
     pr_notRe = [], pr_anyCodeRe = [], pr_allCodeRe = [], pr_pathAnyRe = [], pr_pathNotRe = [],
     pr_gateIDs = [], pr_extSet = None, pr_pack = []\<rparr>"

definition sampleWindowRule :: PackRule where
  "sampleWindowRule = (samplePackRule ''w'' [])\<lparr>pr_Within := 5,
     pr_allRe := [sampleRegex ''a'', sampleRegex ''b'']\<rparr>"

lemma MatchContent_exact_witness:
  "\<exists>ok off. MatchContent sampleWindowRule ''a--b'' None = Some (ok, off) \<and> (ok \<longrightarrow> 0 \<le> off)"
proof -
  have "\<forall>re\<in>set (pr_allRe sampleWindowRule) \<union> set (pr_allCodeRe sampleWindowRule). regexOffsets re"
    by (auto simp: sampleWindowRule_def samplePackRule_def regexOffsets_def sampleRegex_def
        intro!: sorted_wrt_filter)
  from MatchContent_exact [OF this, of "''a--b''" None] show ?thesis by blast
qed

text \<open>
  In a compiled set every rule id occurs once, the ids are those of all packs, and the rule
  with an id is the compiled form of its last definition: a later pack overrides an earlier one.
\<close>

theorem CompilePacks_last_wins:
  assumes "CompilePacks rx ulow extra packs = Some (Inr s)"
  shows "distinct (map pr_ID (rs_Rules s)) \<and> set (map pr_ID (rs_Rules s)) = dom (lastRule packs) \<and>
     (\<forall>r\<in>set (rs_Rules s). \<exists>r0. lastRule packs (pr_ID r) = Some r0 \<and>
        ruleCompile rx ulow (rs_index s) r0 = Inr r)"
  using CompilePacks_rules [OF assms] by blast

definition samplePack :: "bytes list \<Rightarrow> PackRule list \<Rightarrow> Pack" where
  "samplePack strs rs = \<lparr>pk_Name = ''p'', pk_Version = ''1'', pk_ExcludePaths = [],
     pk_IOCs = emptyIOCs\<lparr>ioc_Strings := strs\<rparr>, pk_Rules = rs, pk_sha = []\<rparr>"

lemma sample_compiles:
  "\<exists>s. CompilePacks rx ulow [] [Some (samplePack strs [samplePackRule ''r'' gate])] = Some (Inr s) \<and>
     ioc_Strings (rs_IOCs s) = appendUnique [] strs"
  by (simp add: CompilePacks_def samplePack_def samplePackRule_def startMerge_def BuildAC_built
      ruleCompile_def mergeIOCs_def emptyIOCs_def)

lemma CompilePacks_last_wins_witness:
  "\<exists>s. CompilePacks (\<lambda>_. None) (\<lambda>c. c) [] [Some (samplePack [] [samplePackRule ''r'' []])] = Some (Inr s) \<and>
     distinct (map pr_ID (rs_Rules s))"
proof -
  obtain s where "CompilePacks (\<lambda>_. None) (\<lambda>c. c) [] [Some (samplePack [] [samplePackRule ''r'' []])] = Some (Inr s)"
    using sample_compiles by blast
  with CompilePacks_last_wins [OF this] show ?thesis by blast
qed

text \<open>
  The gates of a rule, looked up in the hits of one automaton scan, are open exactly when
  every gate literal occurs in the file, ASCII case ignored, for gates in ASCII: the prefilter
  loses no rule and admits none for a literal that is absent.
\<close>

theorem GatesFired_exact:
  assumes "CompilePacks rx ulow extra packs = Some (Inr s)"
    and "\<forall>r\<in>set (allRules packs). pr_gateIDs r = []"
    and "r \<in> set (rs_Rules s)" and "\<forall>g\<in>set (pr_Gate r). isASCII g"
    and "MatchSet (rs_AC s) data (replicate (rs_nPattern s) False) = Some hit"
  shows "GatesFired r hit \<longleftrightarrow>
     (\<forall>g\<in>set (pr_Gate r). contains (map ascii_lower data) (map ascii_lower g))"
  using gates_of_set [OF assms(1,2,3,5)] assms(4)
  by (simp add: goToLower_ASCII ascii_lower_idem comp_def)

lemma GatesFired_exact_witness:
  "\<exists>s r hit. CompilePacks (\<lambda>_. None) (\<lambda>c. c) [] [Some (samplePack [] [samplePackRule ''r'' [''Eval'']])] = Some (Inr s) \<and>
     r \<in> set (rs_Rules s) \<and>
     MatchSet (rs_AC s) ''x eval y'' (replicate (rs_nPattern s) False) = Some hit \<and>
     (GatesFired r hit \<longleftrightarrow> (\<forall>g\<in>set (pr_Gate r). contains (map ascii_lower ''x eval y'') (map ascii_lower g)))"
proof -
  let ?packs = "[Some (samplePack [] [samplePackRule ''r'' [''Eval'']])]"
  obtain s where s: "CompilePacks (\<lambda>_. None) (\<lambda>c. c) [] ?packs = Some (Inr s)"
    using sample_compiles by blast
  obtain lits where "rs_AC s = builtAC lits" "rs_nPattern s = NumPatterns (rs_AC s)"
    using CompilePacks_set [OF s] by metis
  then obtain hit where hit: "MatchSet (rs_AC s) ''x eval y'' (replicate (rs_nPattern s) False) = Some hit"
    using set_scan by blast
  have all: "\<forall>r\<in>set (allRules ?packs). pr_gateIDs r = [] \<and> pr_Gate r = [''Eval'']"
    by (simp add: allRules_def samplePack_def samplePackRule_def)
  have last: "lastRule ?packs = [''r'' \<mapsto> samplePackRule ''r'' [''Eval'']]"
    by (simp add: lastRule_def allRules_def samplePack_def samplePackRule_def)
  then have "''r'' \<in> set (map pr_ID (rs_Rules s))" unfolding CompilePacks_rules(2) [OF s] by simp
  then obtain r where r: "r \<in> set (rs_Rules s)" "pr_ID r = ''r''" by auto
  obtain r0 where r0: "lastRule ?packs (pr_ID r) = Some r0"
      "ruleCompile (\<lambda>_. None) (\<lambda>c. c) (rs_index s) r0 = Inr r"
    using CompilePacks_rules(3) [OF s] r(1) by blast
  then have "r0 = samplePackRule ''r'' [''Eval'']" using last r(2) by simp
  then have "pr_Gate r = [''Eval'']"
    using ruleCompile_gates [OF r0(2)] by (simp add: samplePackRule_def)
  then have "\<forall>g\<in>set (pr_Gate r). isASCII g" by (simp add: isASCII_def)
  moreover have "\<forall>r\<in>set (allRules ?packs). pr_gateIDs r = []" using all by blast
  ultimately show ?thesis using GatesFired_exact [OF s _ r(1) _ hit] s r(1) hit by blast
qed

text \<open>
  The IOC strings reported for a file are exactly those that occur in it, ASCII case
  ignored and in pack order, when they are in ASCII and not empty.
\<close>

theorem IOCHits_exact:
  assumes "CompilePacks rx ulow extra packs = Some (Inr s)"
    and "\<forall>x\<in>set (ioc_Strings (rs_IOCs s)). isASCII x \<and> x \<noteq> []"
    and "MatchSet (rs_AC s) data (replicate (rs_nPattern s) False) = Some hit"
  shows "IOCHits s hit =
     filter (\<lambda>x. contains (map ascii_lower data) (map ascii_lower x)) (ioc_Strings (rs_IOCs s))"
proof -
  have "\<forall>x\<in>set (ioc_Strings (rs_IOCs s)). goToLower ulow x \<noteq> []"
    using assms(2) by (simp add: goToLower_ASCII)
  from iocs_of_set [OF assms(1) this assms(3)] assms(2) show ?thesis
    by (auto simp: goToLower_ASCII ascii_lower_idem comp_def intro!: filter_cong)
qed

lemma IOCHits_exact_witness:
  "\<exists>s hit. CompilePacks (\<lambda>_. None) (\<lambda>c. c) [] [Some (samplePack [''evil.example''] [samplePackRule ''r'' []])] = Some (Inr s) \<and>
     IOCHits s hit = filter (\<lambda>x. contains (map ascii_lower ''GET EVIL.example'') (map ascii_lower x)) [''evil.example'']"
proof -
  let ?packs = "[Some (samplePack [''evil.example''] [samplePackRule ''r'' []])]"
  obtain s where s: "CompilePacks (\<lambda>_. None) (\<lambda>c. c) [] ?packs = Some (Inr s)"
      "ioc_Strings (rs_IOCs s) = [''evil.example'']"
    using sample_compiles [of "\<lambda>_. None" "\<lambda>c. c" "[''evil.example'']" "[]"] by (auto simp: appendUnique_def)
  obtain lits where "rs_AC s = builtAC lits" "rs_nPattern s = NumPatterns (rs_AC s)"
    using CompilePacks_set [OF s(1)] by metis
  then obtain hit where hit: "MatchSet (rs_AC s) ''GET EVIL.example'' (replicate (rs_nPattern s) False) = Some hit"
    using set_scan by blast
  have "isASCII ''evil.example''" by code_simp
  with IOCHits_exact [OF s(1) _ hit] s show ?thesis by auto
qed

text \<open>
  An IOC string with a non-ASCII capital never fires: it is registered in its Unicode lower
  case, while the scan lowers ASCII letters only. Here the string and the file are both the two
  bytes of U+00C9.
\<close>

theorem IOC_capital_missed:
  assumes "ulow 0xC9 = 0xE9"
  shows "\<exists>s hit. CompilePacks rx ulow [] [Some (samplePack [map char_of [0xC3, 0x89 :: nat]] [])] = Some (Inr s) \<and>
     MatchSet (rs_AC s) (map char_of [0xC3, 0x89 :: nat]) (replicate (rs_nPattern s) False) = Some hit \<and>
     IOCHits s hit = []"
proof -
  let ?w = "map char_of [0xC3, 0x89 :: nat]"
  let ?packs = "[Some (samplePack [?w] [])]"
  have low: "goToLower ulow ?w = map char_of [0xC3, 0xA9 :: nat]"
  proof -
    have "\<not> isASCII ?w" "runes ?w = [0xC9]" "encodeRune 0xE9 = map char_of [0xC3, 0xA9 :: nat]"
      by code_simp+
    then show ?thesis using assms by (simp add: goToLower_def lowerRune_def)
  qed
  obtain s where s: "CompilePacks rx ulow [] ?packs = Some (Inr s)" "ioc_Strings (rs_IOCs s) = [?w]"
    by (simp add: CompilePacks_def samplePack_def startMerge_def BuildAC_built mergeIOCs_def emptyIOCs_def
        appendUnique_def)
  obtain lits where "rs_AC s = builtAC lits" "rs_nPattern s = NumPatterns (rs_AC s)"
    using CompilePacks_set [OF s(1)] by metis
  then obtain hit where hit: "MatchSet (rs_AC s) ?w (replicate (rs_nPattern s) False) = Some hit"
    using set_scan by blast
  have "\<not> contains (map ascii_lower ?w) (map ascii_lower (map char_of [0xC3, 0xA9 :: nat]))"
    by code_simp
  then have "IOCHits s hit = []"
    using iocs_of_set [OF s(1) _ hit] s(2) low by simp
  with s(1) hit show ?thesis by blast
qed

lemma IOC_capital_missed_witness:
  "\<exists>s hit. CompilePacks (\<lambda>_. None) (\<lambda>c. if c = 0xC9 then 0xE9 else c) []
       [Some (samplePack [map char_of [0xC3, 0x89 :: nat]] [])] = Some (Inr s) \<and>
     MatchSet (rs_AC s) (map char_of [0xC3, 0x89 :: nat]) (replicate (rs_nPattern s) False) = Some hit \<and>
     IOCHits s hit = []"
  by (rule IOC_capital_missed) simp

end
