(* ===== verification/YaraEval.thy ===== *)
theory YaraEval
  imports YaraRule "HOL-Library.Word"
begin

unbundle bit_operations_syntax

text \<open>
  Compilation, matching and evaluation of YARA rules (\<open>src/internal/yara/eval.go\<close>, and
  the double compilation of \<open>LoadPaths\<close> in \<open>embed.go\<close>).

  A result of \<open>None\<close> is a run-time panic (a slice or index out of range). The compiler of
  regular expressions is the parameter \<open>rx\<close>: \<open>rx pat\<close> is \<open>None\<close> when
  \<open>regexp.Compile\<close> rejects the pattern and otherwise the matches it finds.
\<close>

section \<open>Compilation\<close>

text \<open>Errors of \<open>compileRule\<close> and \<open>parseHex\<close>, by the message they carry.\<close>

datatype yaraError =
    ErrNoEncoding bytes
  | ErrBadRegex bytes
  | ErrHex bytes hexError
and hexError =
    UnterminatedJump | BadJump bytes | HexAlternation | OddNibble | BadNibble | BadHexChar byte | EmptyHex

definition isHexDigit :: "byte \<Rightarrow> bool" where
  "isHexDigit c \<longleftrightarrow>
     (CHR ''0'' \<le> c \<and> c \<le> CHR ''9'') \<or> (CHR ''a'' \<le> c \<and> c \<le> CHR ''f'') \<or>
     (CHR ''A'' \<le> c \<and> c \<le> CHR ''F'')"

definition toWide :: "bytes \<Rightarrow> bytes" where
  "toWide s = concat (map (\<lambda>c. [c, char_of (0::nat)]) s)"

definition hexByte :: "nat \<Rightarrow> nat \<Rightarrow> hexElem" where
  "hexByte v msk = \<lparr>he_isJump = False, he_min = 0, he_max = 0, he_val = v, he_mask = msk\<rparr>"

definition hexJumpElem :: "int \<Rightarrow> int \<Rightarrow> hexElem" where
  "hexJumpElem lo hi = \<lparr>he_isJump = True, he_min = lo, he_max = hi, he_val = 0, he_mask = 0\<rparr>"

text \<open>The body of \<open>[...]\<close>: \<open>lo-hi\<close>, \<open>lo-\<close> (256) or \<open>n\<close>.\<close>

definition parseJump :: "bytes \<Rightarrow> hexError + hexElem" where
  "parseJump body =
     (case goIndex body ''-'' of
        Some k \<Rightarrow>
          (let lo = parseInt10 (trimSpace (take k body));
               hiStr = trimSpace (drop (k + 1) body);
               hi = (if hiStr \<noteq> '''' then parseInt10 hiStr else Some 256)
           in case (lo, hi) of
                (Some l, Some h) \<Rightarrow> Inr (hexJumpElem l h)
              | _ \<Rightarrow> Inl (BadJump body))
      | None \<Rightarrow>
          (case parseInt10 (trimSpace body) of
             Some n \<Rightarrow> Inr (hexJumpElem n n)
           | None \<Rightarrow> Inl (BadJump body)))"

text \<open>One byte of the pattern, written as two nibbles.\<close>

definition parseNibbles :: "byte \<Rightarrow> byte \<Rightarrow> hexError + hexElem" where
  "parseNibbles hi lo =
     (if hi = CHR ''?'' \<and> lo = CHR ''?'' then Inr (hexByte 0 0)
      else if hi = CHR ''?'' then
        (case parseUintHex [lo] 8 of Some v \<Rightarrow> Inr (hexByte v 0x0F) | None \<Rightarrow> Inl BadNibble)
      else if lo = CHR ''?'' then
        (case parseUintHex [hi] 8 of Some v \<Rightarrow> Inr (hexByte (v * 16 mod 256) 0xF0) | None \<Rightarrow> Inl BadNibble)
      else
        (case parseUintHex [hi, lo] 8 of Some v \<Rightarrow> Inr (hexByte v 0xFF) | None \<Rightarrow> Inl BadNibble))"

text \<open>The loop over \<open>s[i:]\<close>, with the elements produced so far.\<close>

function parseHexLoop :: "bytes \<Rightarrow> hexElem list \<Rightarrow> hexError + hexElem list" where
  "parseHexLoop [] out = Inr out"
| "parseHexLoop (c # s) out =
     (if c = CHR '' '' \<or> c = CHR 0x09 \<or> c = CHR 0x0D \<or> c = CHR 0x0A then parseHexLoop s out
      else if c = CHR ''['' then
        (case goIndex (c # s) '']'' of
           None \<Rightarrow> Inl UnterminatedJump
         | Some j \<Rightarrow>
             (case parseJump (take (j - 1) s) of
                Inl e \<Rightarrow> Inl e
              | Inr e \<Rightarrow> parseHexLoop (drop j s) (out @ [e])))
      else if c = CHR ''('' \<or> c = CHR '')'' \<or> c = CHR ''|'' then Inl HexAlternation
      else if isHexDigit c \<or> c = CHR ''?'' then
        (case s of
           [] \<Rightarrow> Inl OddNibble
         | lo # s' \<Rightarrow>
             (case parseNibbles c lo of
                Inl e \<Rightarrow> Inl e
              | Inr e \<Rightarrow> parseHexLoop s' (out @ [e])))
      else Inl (BadHexChar c))"
  by pat_completeness auto
termination
  by (relation "measure (\<lambda>(s, out). length s)") auto

definition parseHex :: "bytes \<Rightarrow> hexError + hexElem list" where
  "parseHex s =
     (case parseHexLoop s [] of
        Inl e \<Rightarrow> Inl e
      | Inr out \<Rightarrow> if out = [] then Inl EmptyHex else Inr out)"

definition compileString :: "(bytes \<Rightarrow> regex option) \<Rightarrow> StringDef \<Rightarrow> yaraError + matcher" where
  "compileString rx sd =
     (let m = \<lparr>m_id = sd_ID sd, m_kind = sd_Kind sd, m_pats = [], m_nocase = sd_NoCase sd,
               m_fullword = sd_FullWord sd, m_hex = [], m_re = None\<rparr>
      in case sd_Kind sd of
           KindText \<Rightarrow>
             (let pats = (if sd_ASCII sd then [sd_Text sd] else []) @
                         (if sd_Wide sd then [toWide (sd_Text sd)] else [])
              in if pats = [] then Inl (ErrNoEncoding (sd_ID sd)) else Inr (m\<lparr>m_pats := pats\<rparr>))
         | KindHex \<Rightarrow>
             (case parseHex (sd_Text sd) of
                Inl e \<Rightarrow> Inl (ErrHex (sd_ID sd) e)
              | Inr elems \<Rightarrow> Inr (m\<lparr>m_hex := elems\<rparr>))
         | KindRegex \<Rightarrow>
             (let flags = (if contains (sd_Mods sd) ''i'' \<or> sd_NoCase sd then ''i'' else '''') @
                          (if contains (sd_Mods sd) ''s'' then ''s'' else '''');
                  pat = (if flags \<noteq> '''' then ''(?'' @ flags @ '')'' @ sd_Text sd else sd_Text sd)
              in case rx pat of
                   None \<Rightarrow> Inl (ErrBadRegex (sd_ID sd))
                 | Some re \<Rightarrow> Inr (m\<lparr>m_re := Some re\<rparr>)))"

text \<open>\<open>compileRule\<close> appends the matchers of all strings to those the rule already has.\<close>

fun compileStrings :: "(bytes \<Rightarrow> regex option) \<Rightarrow> StringDef list \<Rightarrow> matcher list \<Rightarrow> yaraError + matcher list" where
  "compileStrings rx [] ms = Inr ms"
| "compileStrings rx (sd # sds) ms =
     (case compileString rx sd of
        Inl e \<Rightarrow> Inl e
      | Inr m \<Rightarrow> compileStrings rx sds (ms @ [m]))"

definition compileRule :: "(bytes \<Rightarrow> regex option) \<Rightarrow> Rule \<Rightarrow> yaraError + Rule" where
  "compileRule rx r =
     (case compileStrings rx (r_Strings r) (r_matchers r) of
        Inl e \<Rightarrow> Inl e
      | Inr ms \<Rightarrow> Inr (r\<lparr>r_matchers := ms\<rparr>))"

fun requiresSomeString :: "Node \<Rightarrow> bool" where
  "requiresSomeString (nodeStr _) = True"
| "requiresSomeString (nodeStrAt _ _) = True"
| "requiresSomeString (nodeNear _ _ _) = True"
| "requiresSomeString (nodeOf q n _) = (q \<noteq> quantNone \<and> \<not> (q = quantN \<and> n \<le> 0))"
| "requiresSomeString (nodeAnd l r) = (requiresSomeString l \<or> requiresSomeString r)"
| "requiresSomeString (nodeOr l r) = (requiresSomeString l \<and> requiresSomeString r)"
| "requiresSomeString _ = False"

fun prefilterStrings :: "StringDef list \<Rightarrow> bool \<times> bytes list \<Rightarrow> bool \<times> bytes list" where
  "prefilterStrings [] st = st"
| "prefilterStrings (sd # sds) (pf, lits) =
     (if sd_Kind sd \<noteq> KindText \<or> \<not> sd_ASCII sd then prefilterStrings sds (False, lits)
      else prefilterStrings sds (pf, lits @ [sd_Text sd]))"

definition analyzePrefilter :: "Rule \<Rightarrow> Rule" where
  "analyzePrefilter r =
     (case prefilterStrings (r_Strings r) (True, r_literals r) of (pf, lits) \<Rightarrow>
        let pf1 = (if length (r_Strings r) = 0 then False else pf);
            pf2 = (if pf1 \<and> \<not> requiresSomeString (r_Cond r) then False else pf1)
        in r\<lparr>r_literals := lits, r_prefilterable := pf2\<rparr>)"

text \<open>
  \<open>Compile\<close>: a later rule with a name already seen is skipped; the first error stops the
  compilation.
\<close>

fun compileLoop :: "(bytes \<Rightarrow> regex option) \<Rightarrow> Rule list \<Rightarrow> bytes list \<Rightarrow> Rule list \<Rightarrow>
    (bytes \<times> yaraError) + Rule list" where
  "compileLoop rx [] seen out = Inr out"
| "compileLoop rx (r # rs) seen out =
     (if r_Name r \<in> set seen then compileLoop rx rs seen out
      else case compileRule rx r of
             Inl e \<Rightarrow> Inl (r_Name r, e)
           | Inr r' \<Rightarrow> compileLoop rx rs (r_Name r # seen) (out @ [analyzePrefilter r']))"

definition Compile :: "(bytes \<Rightarrow> regex option) \<Rightarrow> Rule list \<Rightarrow> (bytes \<times> yaraError) + Rule list" where
  "Compile rx rules = compileLoop rx rules [] []"

definition Literals :: "Rule list \<Rightarrow> bytes list" where
  "Literals rules = concat (map r_literals rules)"

section \<open>Matching\<close>

definition lowerB :: "byte \<Rightarrow> byte" where
  "lowerB b =
     (if CHR ''A'' \<le> b \<and> b \<le> CHR ''Z'' then char_of (of_char b + 32 :: nat) else b)"

lemma lowerB_ascii_lower: "lowerB = ascii_lower"
  by (simp add: fun_eq_iff lowerB_def ascii_lower_def)

definition isWordByte :: "byte \<Rightarrow> bool" where
  "isWordByte b \<longleftrightarrow>
     b = CHR ''_'' \<or> (CHR ''0'' \<le> b \<and> b \<le> CHR ''9'') \<or>
     (CHR ''a'' \<le> b \<and> b \<le> CHR ''z'') \<or> (CHR ''A'' \<le> b \<and> b \<le> CHR ''Z'')"

definition isFullWord :: "bytes \<Rightarrow> nat \<Rightarrow> nat \<Rightarrow> bool" where
  "isFullWord data off n =
     (if off > 0 \<and> isWordByte (data ! (off - 1)) then False
      else if off + n < length data \<and> isWordByte (data ! (off + n)) then False
      else True)"

text \<open>The inner loop of \<open>indexFold\<close> over \<open>j < n\<close>, and its loop over \<open>i\<close>.\<close>

fun foldMatch :: "bytes \<Rightarrow> bytes \<Rightarrow> bool" where
  "foldMatch _ [] = True"
| "foldMatch [] (p # ps) = False"
| "foldMatch (d # ds) (p # ps) = (if lowerB d \<noteq> lowerB p then False else foldMatch ds ps)"

fun indexFoldLoop :: "bytes \<Rightarrow> bytes \<Rightarrow> nat option" where
  "indexFoldLoop [] pat = None"
| "indexFoldLoop (d # ds) pat =
     (if length pat \<le> length (d # ds) \<and> foldMatch (d # ds) pat then Some 0
      else map_option Suc (indexFoldLoop ds pat))"

definition indexFold :: "bytes \<Rightarrow> bytes \<Rightarrow> nat option" where
  "indexFold data pat =
     (if length pat = 0 \<or> length data < length pat then None else indexFoldLoop data pat)"

text \<open>
  The loop of \<open>findText\<close> for one encoding: search from \<open>off\<close>, record the hit unless the
  full-word check rejects it, go on one byte later. \<open>data[off:]\<close> panics past the end.
\<close>

function findTextFrom :: "matcher \<Rightarrow> bytes \<Rightarrow> nat \<Rightarrow> bytes \<Rightarrow> nat \<Rightarrow> nat list \<Rightarrow> nat list option" where
  "findTextFrom m data limit pat off out =
     (if length out < limit then
        (if off > length data then None
         else case (if m_nocase m then indexFold (drop off data) pat
                    else goIndex (drop off data) pat) of
                None \<Rightarrow> Some out
              | Some idx \<Rightarrow>
                  let abs = off + idx in
                  findTextFrom m data limit pat (abs + 1)
                    (if \<not> m_fullword m \<or> isFullWord data abs (length pat) then out @ [abs] else out))
      else Some out)"
  by pat_completeness auto
termination
  by (relation "measure (\<lambda>(m, data, limit, pat, off, out). Suc (length data) - off)") auto

declare findTextFrom.simps [simp del]

fun findTextPats :: "matcher \<Rightarrow> bytes \<Rightarrow> nat \<Rightarrow> bytes list \<Rightarrow> nat list \<Rightarrow> nat list option" where
  "findTextPats m data limit [] out = Some out"
| "findTextPats m data limit (pat # pats) out =
     (if length pat = 0 then findTextPats m data limit pats out
      else case findTextFrom m data limit pat 0 out of
             None \<Rightarrow> None
           | Some out' \<Rightarrow> findTextPats m data limit pats out')"

definition findText :: "matcher \<Rightarrow> bytes \<Rightarrow> nat \<Rightarrow> nat list option" where
  "findText m data limit = findTextPats m data limit (m_pats m) []"

subsection \<open>Hex patterns\<close>

definition maxHexSteps :: int where "maxHexSteps = 2000000"

definition maskedEq :: "byte \<Rightarrow> hexElem \<Rightarrow> bool" where
  "maskedEq b e \<longleftrightarrow>
     (of_char b AND word_of_nat (he_mask e) :: 8 word) =
     (word_of_nat (he_val e) AND word_of_nat (he_mask e))"

text \<open>
  \<open>hexMatchAt\<close> threads the shared step budget (the Go pointer \<open>budget\<close>) through the
  recursion; \<open>hexJump\<close> is its loop over the length of a jump. Reading \<open>data[pos]\<close> at a
  negative position panics.
\<close>

function hexMatchAt :: "hexElem list \<Rightarrow> bytes \<Rightarrow> int \<Rightarrow> int \<Rightarrow> (bool \<times> int) option"
  and hexJump :: "hexElem list \<Rightarrow> bytes \<Rightarrow> int \<Rightarrow> int \<Rightarrow> int \<Rightarrow> int \<Rightarrow> (bool \<times> int) option" where
  "hexMatchAt elems data pos budget =
     (if budget \<le> 0 then Some (False, budget)
      else
        case elems of
          [] \<Rightarrow> Some (True, budget - 1)
        | e # es \<Rightarrow>
            if he_isJump e then
              (let maxJ = (if he_max e > int (length data) - pos then int (length data) - pos
                           else he_max e)
               in hexJump es data pos (he_min e) maxJ (budget - 1))
            else if pos \<ge> int (length data) then Some (False, budget - 1)
            else if pos < 0 then None
            else if \<not> maskedEq (data ! nat pos) e then Some (False, budget - 1)
            else hexMatchAt es data (pos + 1) (budget - 1))"
| "hexJump es data pos j maxJ budget =
     (if j \<le> maxJ then
        (case hexMatchAt es data (pos + j) budget of
           None \<Rightarrow> None
         | Some (True, b) \<Rightarrow> Some (True, b)
         | Some (False, b) \<Rightarrow>
             if b \<le> 0 then Some (False, b) else hexJump es data pos (j + 1) maxJ b)
      else Some (False, budget))"
  by pat_completeness auto
termination
  by (relation "measures
        [\<lambda>x. case x of Inl (elems, _) \<Rightarrow> length elems | Inr (es, _) \<Rightarrow> length es,
         \<lambda>x. case x of Inl _ \<Rightarrow> 0 | Inr _ \<Rightarrow> 1,
         \<lambda>x. case x of Inl _ \<Rightarrow> 0 | Inr (es, data, pos, j, maxJ, b) \<Rightarrow> nat (maxJ + 1 - j)]")
     auto

declare hexMatchAt.simps [simp del] hexJump.simps [simp del]

text \<open>The loop of \<open>findHex\<close> over \<open>i\<close>.\<close>

function findHexFrom :: "hexElem list \<Rightarrow> bytes \<Rightarrow> nat \<Rightarrow> nat \<Rightarrow> int \<Rightarrow> nat list \<Rightarrow> nat list option" where
  "findHexFrom elems data limit i budget out =
     (if i < length data \<and> length out < limit then
        (case hexMatchAt elems data (int i) budget of
           None \<Rightarrow> None
         | Some (ok, b) \<Rightarrow>
             let out' = (if ok then out @ [i] else out)
             in if b \<le> 0 then Some out' else findHexFrom elems data limit (i + 1) b out')
      else Some out)"
  by pat_completeness auto
termination
  by (relation "measure (\<lambda>(elems, data, limit, i, budget, out). length data - i)") auto

declare findHexFrom.simps [simp del]

definition findHex :: "matcher \<Rightarrow> bytes \<Rightarrow> nat \<Rightarrow> nat list option" where
  "findHex m data limit = findHexFrom (m_hex m) data limit 0 maxHexSteps []"

text \<open>A regular-expression matcher without its compiled form would dereference nil.\<close>

definition findAll :: "matcher \<Rightarrow> bytes \<Rightarrow> nat \<Rightarrow> nat list option" where
  "findAll m data limit =
     (case m_kind m of
        KindText \<Rightarrow> findText m data limit
      | KindHex \<Rightarrow> findHex m data limit
      | KindRegex \<Rightarrow> (case m_re m of None \<Rightarrow> None | Some re \<Rightarrow> Some (take limit (re data))))"

section \<open>Evaluation\<close>

definition maxMatchesPerString :: nat where "maxMatchesPerString = 64"

record evalCtx =
  c_data :: bytes
  c_size :: int
  c_counts :: "bytes \<rightharpoonup> nat"
  c_offsets :: "bytes \<rightharpoonup> nat list"
  c_ids :: "bytes list"
  c_results :: "bytes \<rightharpoonup> bool"

text \<open>A missing key of a Go map reads as the zero value.\<close>

definition countOf :: "evalCtx \<Rightarrow> bytes \<Rightarrow> nat" where
  "countOf c k = (case c_counts c k of None \<Rightarrow> 0 | Some n \<Rightarrow> n)"

definition offsetsOf :: "evalCtx \<Rightarrow> bytes \<Rightarrow> nat list" where
  "offsetsOf c k = (case c_offsets c k of None \<Rightarrow> [] | Some os \<Rightarrow> os)"

definition resultOf :: "evalCtx \<Rightarrow> bytes \<Rightarrow> bool" where
  "resultOf c k = (case c_results c k of None \<Rightarrow> False | Some b \<Rightarrow> b)"

text \<open>
  \<open>binary.LittleEndian\<close> over \<open>data[off : off+n]\<close>; the slice expression panics unless
  \<open>off \<le> off + n \<le> len(data)\<close> with the sum computed in \<open>int\<close>.
\<close>

fun littleEndian :: "bytes \<Rightarrow> nat" where
  "littleEndian [] = 0"
| "littleEndian (b # bs) = of_char b + 256 * littleEndian bs"

definition readLE :: "bytes \<Rightarrow> int \<Rightarrow> int \<Rightarrow> int option" where
  "readLE data off n =
     (let hi = wrap64 (off + n) in
      if off \<le> hi \<and> hi \<le> int (length data)
      then Some (int (littleEndian (take (nat n) (drop (nat off) data)))) else None)"

fun evalValue :: "Value \<Rightarrow> evalCtx \<Rightarrow> int option" where
  "evalValue (valNum n) c = Some n"
| "evalValue (valCount k) c = Some (int (countOf c k))"
| "evalValue (valOffset k) c =
     (case offsetsOf c k of [] \<Rightarrow> Some (-1) | o1 # _ \<Rightarrow> Some (int o1))"
| "evalValue valFilesize c = Some (c_size c)"
| "evalValue (valUint w v) c =
     (case evalValue v c of
        None \<Rightarrow> None
      | Some off \<Rightarrow>
          if off < 0 then Some 0
          else if w = 8 then
            (if off < int (length (c_data c)) then Some (int (of_char (c_data c ! nat off))) else Some 0)
          else if w = 16 then
            (if wrap64 (off + 2) \<le> int (length (c_data c)) then readLE (c_data c) off 2 else Some 0)
          else if w = 32 then
            (if wrap64 (off + 4) \<le> int (length (c_data c)) then readLE (c_data c) off 4 else Some 0)
          else Some 0)"

definition trimStar :: "bytes \<Rightarrow> bytes" where
  "trimStar p = (if hasSuffix p ''*'' then butlast p else p)"

definition expandWildcards :: "bytes list \<Rightarrow> bytes list \<Rightarrow> bytes list" where
  "expandWildcards pats all =
     concat (map (\<lambda>p. if \<not> hasSuffix p ''*'' then [p]
                      else filter (\<lambda>k. hasPrefix k (trimStar p)) all) pats)"

text \<open>
  The two-pointer sweep of \<open>near()\<close>: \<open>seek\<close> advances \<open>j\<close>; \<open>prev\<close> is
  \<open>bs[j-1]\<close>, if any, and \<open>rest\<close> is \<open>bs[j:]\<close>.
\<close>

fun nearSeek :: "nat \<Rightarrow> nat option \<Rightarrow> nat list \<Rightarrow> nat option \<times> nat list" where
  "nearSeek a prev [] = (prev, [])"
| "nearSeek a prev (b # bs) = (if b < a then nearSeek a (Some b) bs else (prev, b # bs))"

fun nearSweep :: "int \<Rightarrow> nat list \<Rightarrow> nat option \<Rightarrow> nat list \<Rightarrow> bool" where
  "nearSweep dist [] prev rest = False"
| "nearSweep dist (a # as) prev rest =
     (case nearSeek a prev rest of (prev', rest') \<Rightarrow>
        if (case rest' of [] \<Rightarrow> False | b # _ \<Rightarrow> int b - int a \<le> dist) then True
        else if (case prev' of None \<Rightarrow> False | Some b \<Rightarrow> int a - int b \<le> dist) then True
        else nearSweep dist as prev' rest')"

definition gather :: "bytes list \<Rightarrow> evalCtx \<Rightarrow> nat list" where
  "gather pats c = sort (concat (map (offsetsOf c) (expandWildcards pats (c_ids c))))"

definition evalNear :: "bytes list \<Rightarrow> bytes list \<Rightarrow> int \<Rightarrow> evalCtx \<Rightarrow> bool" where
  "evalNear a b dist c =
     (let as = gather a c; bs = gather b c
      in if as = [] \<or> bs = [] then False else nearSweep dist as None bs)"

definition evalOf :: "quant \<Rightarrow> int \<Rightarrow> bytes list \<Rightarrow> evalCtx \<Rightarrow> bool" where
  "evalOf q n sel c =
     (let ids = (if length sel = 0 then c_ids c else expandWildcards sel (c_ids c));
          matched = length (filter (\<lambda>k. countOf c k > 0) ids)
      in case q of
           quantAny \<Rightarrow> matched > 0
         | quantAll \<Rightarrow> length ids > 0 \<and> matched = length ids
         | quantNone \<Rightarrow> matched = 0
         | quantN \<Rightarrow> int matched \<ge> n)"

definition evalCmp :: "bytes \<Rightarrow> int \<Rightarrow> int \<Rightarrow> bool" where
  "evalCmp op l r =
     (if op = ''=='' then l = r
      else if op = ''!='' then l \<noteq> r
      else if op = ''<'' then l < r
      else if op = ''>'' then l > r
      else if op = ''<='' then l \<le> r
      else if op = ''>='' then l \<ge> r
      else False)"

fun evalNode :: "Node \<Rightarrow> evalCtx \<Rightarrow> bool option" where
  "evalNode (nodeBool v) c = Some v"
| "evalNode (nodeAnd l r) c =
     (case evalNode l c of None \<Rightarrow> None | Some False \<Rightarrow> Some False | Some True \<Rightarrow> evalNode r c)"
| "evalNode (nodeOr l r) c =
     (case evalNode l c of None \<Rightarrow> None | Some True \<Rightarrow> Some True | Some False \<Rightarrow> evalNode r c)"
| "evalNode (nodeNot x) c = map_option Not (evalNode x c)"
| "evalNode (nodeRuleRef name) c = Some (resultOf c name)"
| "evalNode (nodeStr k) c = Some (countOf c k > 0)"
| "evalNode (nodeStrAt k v) c =
     (case evalValue v c of
        None \<Rightarrow> None
      | Some want \<Rightarrow> Some (list_ex (\<lambda>o1. int o1 = want) (offsetsOf c k)))"
| "evalNode (nodeOf q n sel) c = Some (evalOf q n sel c)"
| "evalNode (nodeNear a b dist) c = Some (evalNear a b dist c)"
| "evalNode (nodeCmp op l r) c =
     (case evalValue l c of
        None \<Rightarrow> None
      | Some x \<Rightarrow> (case evalValue r c of None \<Rightarrow> None | Some y \<Rightarrow> Some (evalCmp op x y)))"

subsection \<open>Scanning\<close>

record Match =
  mt_Rule :: Rule
  mt_Strings :: "bytes list"

text \<open>The loop over the matchers of a rule fills counts, offsets and ids.\<close>

fun runMatchers :: "matcher list \<Rightarrow> evalCtx \<Rightarrow> evalCtx option" where
  "runMatchers [] c = Some c"
| "runMatchers (m # ms) c =
     (case findAll m (c_data c) maxMatchesPerString of
        None \<Rightarrow> None
      | Some offs \<Rightarrow>
          runMatchers ms
            (c\<lparr>c_counts := (c_counts c)(m_id m \<mapsto> length offs),
               c_offsets := (c_offsets c)(m_id m \<mapsto> offs),
               c_ids := c_ids c @ [m_id m]\<rparr>))"

text \<open>The gate is optional: \<open>None\<close> is Go's nil.\<close>

definition gatedOut :: "Rule \<Rightarrow> (bytes list \<Rightarrow> bool) option \<Rightarrow> bool" where
  "gatedOut r gate \<longleftrightarrow>
     r_prefilterable r \<and> (case gate of None \<Rightarrow> False | Some g \<Rightarrow> \<not> g (r_literals r))"

definition startCtx :: "bytes \<Rightarrow> int \<Rightarrow> (bytes \<rightharpoonup> bool) \<Rightarrow> evalCtx" where
  "startCtx data fsize results =
     \<lparr>c_data = data, c_size = fsize, c_counts = (\<lambda>_. None), c_offsets = (\<lambda>_. None),
      c_ids = [], c_results = results\<rparr>"

text \<open>One rule: its context and whether it matched.\<close>

definition evalRule :: "Rule \<Rightarrow> bytes \<Rightarrow> int \<Rightarrow> (bytes \<rightharpoonup> bool) \<Rightarrow> (evalCtx \<times> bool) option" where
  "evalRule r data fsize results =
     (case runMatchers (r_matchers r) (startCtx data fsize results) of
        None \<Rightarrow> None
      | Some ctx \<Rightarrow>
          (case evalNode (r_Cond r) ctx of None \<Rightarrow> None | Some b \<Rightarrow> Some (ctx, b)))"

definition hitStrings :: "evalCtx \<Rightarrow> bytes list" where
  "hitStrings c = filter (\<lambda>k. countOf c k > 0) (c_ids c)"

fun scanRules :: "Rule list \<Rightarrow> bytes \<Rightarrow> int \<Rightarrow> (bytes list \<Rightarrow> bool) option \<Rightarrow>
    (bytes \<rightharpoonup> bool) \<Rightarrow> Match list \<Rightarrow> Match list option" where
  "scanRules [] data fsize gate results out = Some out"
| "scanRules (r # rs) data fsize gate results out =
     (if gatedOut r gate then scanRules rs data fsize gate (results(r_Name r \<mapsto> False)) out
      else case evalRule r data fsize results of
             None \<Rightarrow> None
           | Some (ctx, matched) \<Rightarrow>
               (let results' = results(r_Name r \<mapsto> matched)
                in if \<not> matched \<or> r_Private r then scanRules rs data fsize gate results' out
                   else scanRules rs data fsize gate results'
                          (out @ [\<lparr>mt_Rule = r, mt_Strings = hitStrings ctx\<rparr>])))"

definition Scan :: "Rule list \<Rightarrow> bytes \<Rightarrow> int \<Rightarrow> (bytes list \<Rightarrow> bool) option \<Rightarrow> Match list option" where
  "Scan rules data fsize gate = scanRules rules data fsize gate (\<lambda>_. None) []"

end
