(* ===== verification/YaraMatching.thy ===== *)
theory YaraMatching
  imports YaraEval
begin

text \<open>
  Correctness of the YARA string matchers of \<open>eval.go\<close>: the text search against the set
  of occurrences, the budgeted backtracking search for hex patterns against a reference
  semantics without a budget, and the \<open>near()\<close> sweep against its meaning.
\<close>

section \<open>Text strings\<close>

text \<open>The specification: a pattern occurs at \<open>i\<close>, up to ASCII case when \<open>nocase\<close>.\<close>

definition textAt :: "bool \<Rightarrow> bytes \<Rightarrow> bytes \<Rightarrow> nat \<Rightarrow> bool" where
  "textAt nocase data pat i \<longleftrightarrow>
     (if nocase then occurs_at (map ascii_lower pat) (map ascii_lower data) i
      else occurs_at pat data i)"

definition hitAt :: "matcher \<Rightarrow> bytes \<Rightarrow> bytes \<Rightarrow> nat \<Rightarrow> bool" where
  "hitAt m data pat i \<longleftrightarrow>
     textAt (m_nocase m) data pat i \<and> (m_fullword m \<longrightarrow> isFullWord data i (length pat))"

lemma foldMatch_take:
  "foldMatch ds ps \<longleftrightarrow> length ps \<le> length ds \<and>
     take (length ps) (map ascii_lower ds) = map ascii_lower ps"
  by (induction ds ps rule: foldMatch.induct) (auto simp: lowerB_ascii_lower)

lemma indexFoldLoop_Some:
  assumes "pat \<noteq> []"
  shows "indexFoldLoop ds pat = goIndex (map ascii_lower ds) (map ascii_lower pat)"
proof (induction ds)
  case Nil
  with assms show ?case by simp
next
  case (Cons d ds)
  have "length pat \<le> length (d # ds) \<and> foldMatch (d # ds) pat \<longleftrightarrow>
        take (length (map ascii_lower pat)) (map ascii_lower (d # ds)) = map ascii_lower pat"
    unfolding foldMatch_take by (metis length_map length_take min.cobounded1)
  with Cons show ?case by simp
qed

lemma indexFold_eq:
  assumes "pat \<noteq> []"
  shows "indexFold ds pat = goIndex (map ascii_lower ds) (map ascii_lower pat)"
proof (cases "length ds < length pat")
  case True
  then have "goIndex (map ascii_lower ds) (map ascii_lower pat) = None"
    by (simp add: goIndex_None occurs_at_def)
  with True show ?thesis by (simp add: indexFold_def)
next
  case False
  with assms show ?thesis by (simp add: indexFold_def indexFoldLoop_Some)
qed

lemma occurs_at_drop: "off \<le> length s \<Longrightarrow> occurs_at p (drop off s) i \<longleftrightarrow> occurs_at p s (off + i)"
  by (auto simp: occurs_at_def add.commute)

text \<open>Both searches find the first occurrence at or after \<open>off\<close>.\<close>

lemma search_Some:
  assumes "pat \<noteq> []" "off \<le> length data"
  shows "(if m_nocase m then indexFold (drop off data) pat else goIndex (drop off data) pat) = Some i
     \<longleftrightarrow> textAt (m_nocase m) data pat (off + i) \<and> (\<forall>j<i. \<not> textAt (m_nocase m) data pat (off + j))"
proof (cases "m_nocase m")
  case True
  have "indexFold (drop off data) pat = goIndex (drop off (map ascii_lower data)) (map ascii_lower pat)"
    by (simp add: indexFold_eq [OF assms(1)] drop_map)
  with True assms(2) show ?thesis
    by (simp add: goIndex_Some textAt_def occurs_at_drop)
next
  case False
  with assms(2) show ?thesis by (simp add: goIndex_Some textAt_def occurs_at_drop)
qed

lemma search_None:
  assumes "pat \<noteq> []" "off \<le> length data"
  shows "(if m_nocase m then indexFold (drop off data) pat else goIndex (drop off data) pat) = None
     \<longleftrightarrow> (\<forall>j\<ge>off. \<not> textAt (m_nocase m) data pat j)"
proof -
  have "(if m_nocase m then indexFold (drop off data) pat else goIndex (drop off data) pat) = None
     \<longleftrightarrow> (\<forall>i. \<not> textAt (m_nocase m) data pat (off + i))"
  proof (cases "m_nocase m")
    case True
    have "indexFold (drop off data) pat = goIndex (drop off (map ascii_lower data)) (map ascii_lower pat)"
      by (simp add: indexFold_eq [OF assms(1)] drop_map)
    with True assms(2) show ?thesis by (simp add: goIndex_None textAt_def occurs_at_drop)
  next
    case False
    with assms(2) show ?thesis by (simp add: goIndex_None textAt_def occurs_at_drop)
  qed
  then show ?thesis by (metis le_add1 nat_le_iff_add)
qed

lemma textAt_bound: "pat \<noteq> [] \<Longrightarrow> textAt nc data pat i \<Longrightarrow> i < length data"
  by (cases pat) (auto simp: textAt_def occurs_at_def split: if_splits)

lemma filter_upt_first:
  assumes "off \<le> k" "k < n" "\<And>j. off \<le> j \<Longrightarrow> j < k \<Longrightarrow> \<not> P j"
  shows "filter P [off..<n] = (if P k then [k] else []) @ filter P [Suc k..<n]"
proof -
  have "[off..<n] = [off..<k] @ k # [Suc k..<n]"
    using assms(1,2) upt_add_eq_append [of off k "n - k"] upt_conv_Cons [of k n] by simp
  moreover have "filter P [off..<k] = []" using assms(3) by (simp add: filter_empty_conv)
  ultimately show ?thesis by simp
qed

lemma findTextFrom_spec:
  assumes "pat \<noteq> []" "off \<le> length data"
  shows "findTextFrom m data limit pat off out =
     Some (out @ take (limit - length out) (filter (hitAt m data pat) [off..<length data]))"
  using assms(2)
proof (induction "length data - off" arbitrary: off out rule: less_induct)
  case less
  let ?find = "if m_nocase m then indexFold (drop off data) pat else goIndex (drop off data) pat"
  note step = findTextFrom.simps [of m data limit pat off out]
  show ?case
  proof (cases "length out < limit")
    case False
    then show ?thesis by (simp add: step)
  next
    case True
    show ?thesis
    proof (cases ?find)
      case None
      then have "\<forall>j\<ge>off. \<not> textAt (m_nocase m) data pat j"
        using search_None [OF assms(1) less.prems] by blast
      then have "filter (hitAt m data pat) [off..<length data] = []"
        by (simp add: filter_empty_conv hitAt_def)
      with True None less.prems show ?thesis by (simp add: step)
    next
      case (Some idx)
      then have at: "textAt (m_nocase m) data pat (off + idx)"
        and before: "\<forall>j<idx. \<not> textAt (m_nocase m) data pat (off + j)"
        using search_Some [OF assms(1) less.prems] by blast+
      have lt: "off + idx < length data" using textAt_bound [OF assms(1) at] .
      have no: "\<not> hitAt m data pat j" if "off \<le> j" "j < off + idx" for j
        using before that by (metis add_diff_inverse_nat hitAt_def nat_add_left_cancel_less not_less)
      have ok: "\<not> m_fullword m \<or> isFullWord data (off + idx) (length pat) \<longleftrightarrow> hitAt m data pat (off + idx)"
        using at by (auto simp: hitAt_def)
      have split: "filter (hitAt m data pat) [off..<length data] =
          (if hitAt m data pat (off + idx) then [off + idx] else []) @
          filter (hitAt m data pat) [Suc (off + idx)..<length data]"
        by (rule filter_upt_first) (use lt no in auto)
      let ?out = "if hitAt m data pat (off + idx) then out @ [off + idx] else out"
      have "findTextFrom m data limit pat off out = findTextFrom m data limit pat (Suc (off + idx)) ?out"
        using True Some less.prems ok by (simp add: step Let_def)
      also have "\<dots> = Some (?out @ take (limit - length ?out)
          (filter (hitAt m data pat) [Suc (off + idx)..<length data]))"
        by (rule less.hyps) (use lt in auto)
      also have "\<dots> = Some (out @ take (limit - length out) (filter (hitAt m data pat) [off..<length data]))"
        using True unfolding split
        by (cases "limit - length out") (auto simp: diff_Suc split: nat.splits)
      finally show ?thesis .
    qed
  qed
qed

definition textHits :: "matcher \<Rightarrow> bytes \<Rightarrow> nat list" where
  "textHits m data =
     concat (map (\<lambda>pat. filter (hitAt m data pat) [0..<length data]) (filter (\<lambda>p. p \<noteq> []) (m_pats m)))"

lemma findTextPats_spec:
  "findTextPats m data limit pats out =
     Some (out @ take (limit - length out)
       (concat (map (\<lambda>pat. filter (hitAt m data pat) [0..<length data]) (filter (\<lambda>p. p \<noteq> []) pats))))"
proof (induction pats arbitrary: out)
  case (Cons p pats)
  show ?case
  proof (cases "p = []")
    case False
    let ?h = "filter (hitAt m data p) [0..<length data]"
    have "findTextFrom m data limit p 0 out = Some (out @ take (limit - length out) ?h)"
      by (rule findTextFrom_spec) (use False in auto)
    then show ?thesis using False Cons.IH [of "out @ take (limit - length out) ?h"]
      by (simp add: min_def)
  qed (simp add: Cons.IH)
qed simp

lemma findText_spec: "findText m data limit = Some (take limit (textHits m data))"
  by (simp add: findText_def findTextPats_spec textHits_def)

section \<open>Hex strings\<close>

text \<open>The meaning of a hex pattern, without a budget.\<close>

fun hexSpec :: "hexElem list \<Rightarrow> bytes \<Rightarrow> int \<Rightarrow> bool" where
  "hexSpec [] data pos = True"
| "hexSpec (e # es) data pos =
     (if he_isJump e
      then list_ex (\<lambda>j. hexSpec es data (pos + j)) [he_min e..min (he_max e) (int (length data) - pos)]
      else pos < int (length data) \<and> maskedEq (data ! nat pos) e \<and> hexSpec es data (pos + 1))"

text \<open>Jumps read from a pattern never go backwards.\<close>

definition forwardHex :: "hexElem list \<Rightarrow> bool" where
  "forwardHex es \<longleftrightarrow> (\<forall>e\<in>set es. he_isJump e \<longrightarrow> 0 \<le> he_min e)"

text \<open>
  The budgeted search never panics, uses at most the budget it is given, finds only real
  matches, and when it fails with budget to spare there is none.
\<close>

definition hexAnswer :: "int \<Rightarrow> bool \<Rightarrow> (bool \<times> int) option \<Rightarrow> bool" where
  "hexAnswer budget ref r \<longleftrightarrow>
     (case r of None \<Rightarrow> False
      | Some (ok, b) \<Rightarrow> b \<le> budget \<and> min 0 budget \<le> b \<and> (ok \<longrightarrow> ref) \<and> (\<not> ok \<and> 0 < b \<longrightarrow> \<not> ref))"

lemma upto_step: "(j::int) \<le> n \<Longrightarrow> [j..n] = j # [j + 1..n]"
  by (rule upto_rec1)

lemma hex_search_correct:
  "forwardHex elems \<Longrightarrow> 0 \<le> pos \<Longrightarrow>
     hexAnswer budget (hexSpec elems data pos) (hexMatchAt elems data pos budget)"
  "forwardHex es \<Longrightarrow> 0 \<le> pos \<Longrightarrow> 0 \<le> j \<Longrightarrow>
     hexAnswer budget (list_ex (\<lambda>i. hexSpec es data (pos + i)) [j..maxJ])
       (hexJump es data pos j maxJ budget)"
proof (induction elems data pos budget and es data pos j maxJ budget rule: hexMatchAt_hexJump.induct)
  case (1 elems data pos budget)
  note step = hexMatchAt.simps [of elems data pos budget]
  show ?case
  proof (cases "budget \<le> 0")
    case True
    then show ?thesis by (simp add: step hexAnswer_def)
  next
    case pos_budget: False
    show ?thesis
    proof (cases elems)
      case Nil
      then show ?thesis using pos_budget unfolding step by (simp add: hexAnswer_def)
    next
      case (Cons e es)
      have fw: "forwardHex es" using "1.prems" Cons by (simp add: forwardHex_def)
      show ?thesis
      proof (cases "he_isJump e")
        case True
        let ?maxJ = "if he_max e > int (length data) - pos then int (length data) - pos else he_max e"
        have m: "?maxJ = min (he_max e) (int (length data) - pos)" by (simp add: min_def)
        have "0 \<le> he_min e" using "1.prems" Cons True by (simp add: forwardHex_def)
        then have "hexAnswer (budget - 1) (list_ex (\<lambda>i. hexSpec es data (pos + i)) [he_min e..?maxJ])
            (hexJump es data pos (he_min e) ?maxJ (budget - 1))"
          using "1.IH"(1) [OF pos_budget Cons True refl fw "1.prems"(2)] by simp
        then show ?thesis using pos_budget Cons True unfolding step
          by (auto simp: hexAnswer_def m Let_def split: option.splits)
      next
        case False
        have "pos < int (length data) \<Longrightarrow> maskedEq (data ! nat pos) e \<Longrightarrow>
           hexAnswer (budget - 1) (hexSpec es data (pos + 1)) (hexMatchAt es data (pos + 1) (budget - 1))"
          using "1.IH"(2) [OF pos_budget Cons False _ _ _ fw] "1.prems"(2) by simp
        then show ?thesis using pos_budget Cons False "1.prems"(2) unfolding step
          by (cases "pos < int (length data)") (auto simp: hexAnswer_def split: option.splits)
      qed
    qed
  qed
next
  case (2 es data pos j maxJ budget)
  note step = hexJump.simps [of es data pos j maxJ budget]
  show ?case
  proof (cases "j \<le> maxJ")
    case True
    have "hexAnswer budget (hexSpec es data (pos + j)) (hexMatchAt es data (pos + j) budget)"
      using "2.IH"(1) [OF True] "2.prems" by simp
    then obtain ok b where r: "hexMatchAt es data (pos + j) budget = Some (ok, b)"
      and a: "b \<le> budget" "min 0 budget \<le> b" "ok \<longrightarrow> hexSpec es data (pos + j)"
        "\<not> ok \<and> 0 < b \<longrightarrow> \<not> hexSpec es data (pos + j)"
      by (auto simp: hexAnswer_def split: option.splits)
    show ?thesis
    proof (cases "ok \<or> b \<le> 0")
      case True
      then show ?thesis using a r \<open>j \<le> maxJ\<close>
        by (cases ok) (auto simp: step hexAnswer_def upto_step)
    next
      case False
      then have nb: "\<not> b \<le> 0" "ok = False" by auto
      have "hexAnswer b (list_ex (\<lambda>i. hexSpec es data (pos + i)) [j + 1..maxJ])
          (hexJump es data pos (j + 1) maxJ b)"
        using "2.IH"(2) [OF True r refl] nb "2.prems" by simp
      then show ?thesis using a r nb True
        by (auto simp: step hexAnswer_def upto_step split: option.splits)
    qed
  next
    case False
    then show ?thesis by (simp add: step hexAnswer_def)
  qed
qed

lemma hexMatchAt_result:
  assumes "forwardHex elems" "0 \<le> pos"
  obtains ok b where "hexMatchAt elems data pos budget = Some (ok, b)" "b \<le> budget" "min 0 budget \<le> b"
    "ok \<Longrightarrow> hexSpec elems data pos" "\<not> ok \<Longrightarrow> 0 < b \<Longrightarrow> \<not> hexSpec elems data pos"
  using hex_search_correct(1) [OF assms, of budget data] that
  by (auto simp: hexAnswer_def split: option.splits)

text \<open>What \<open>findHex\<close> returns: real matches only, in order, and all of them while budget is left.\<close>

lemma findHexFrom_sound:
  assumes "forwardHex elems" and "\<forall>k\<in>set out. hexSpec elems data (int k) \<and> k < length data"
  shows "\<exists>out'. findHexFrom elems data limit i budget out = Some out' \<and>
           (\<forall>k\<in>set out'. hexSpec elems data (int k) \<and> k < length data) \<and>
           length out' \<le> max limit (length out)"
  using assms(2)
proof (induction "length data - i" arbitrary: i budget out rule: less_induct)
  case less
  note step = findHexFrom.simps [of elems data limit i budget out]
  show ?case
  proof (cases "i < length data \<and> length out < limit")
    case False
    then show ?thesis using less.prems unfolding step by auto
  next
    case True
    obtain ok b where r: "hexMatchAt elems data (int i) budget = Some (ok, b)"
      and ok: "ok \<Longrightarrow> hexSpec elems data (int i)"
      by (rule hexMatchAt_result [OF assms(1), of "int i" data budget]) auto
    let ?out = "if ok then out @ [i] else out"
    have inv: "\<forall>k\<in>set ?out. hexSpec elems data (int k) \<and> k < length data"
      and len: "length ?out \<le> limit"
      using less.prems ok True by auto
    show ?thesis
    proof (cases "b \<le> 0")
      case True
      then show ?thesis using \<open>i < length data \<and> length out < limit\<close> r inv len unfolding step
        by (intro exI [of _ ?out]) (simp add: Let_def)
    next
      case False
      have "length data - (i + 1) < length data - i" using True by arith
      from less.hyps [OF this inv, of b] show ?thesis
        using False \<open>i < length data \<and> length out < limit\<close> r len unfolding step
        by (auto simp: Let_def)
    qed
  qed
qed

lemma findHexFrom_complete:
  assumes fw: "forwardHex elems" and steps: "\<And>i budget. i < length data \<Longrightarrow> 0 < budget \<Longrightarrow>
      \<exists>ok b. hexMatchAt elems data (int i) budget = Some (ok, b) \<and> budget - b \<le> cost"
    and "cost * int (length data - i) < budget" and "0 \<le> cost"
  shows "findHexFrom elems data limit i budget out =
     Some (out @ take (limit - length out) (filter (\<lambda>k. hexSpec elems data (int k)) [i..<length data]))"
  using assms(3)
proof (induction "length data - i" arbitrary: i budget out rule: less_induct)
  case less
  note step = findHexFrom.simps [of elems data limit i budget out]
  show ?case
  proof (cases "i < length data \<and> length out < limit")
    case False
    then show ?thesis unfolding step by auto
  next
    case True
    have bpos: "0 < budget" using less.prems assms(4) by (smt (verit) mult_nonneg_nonneg of_nat_0_le_iff)
    obtain ok b where r: "hexMatchAt elems data (int i) budget = Some (ok, b)" and c: "budget - b \<le> cost"
      using steps [of i budget] True bpos by blast
    have "int (length data - i) = int (length data - (i + 1)) + 1" using True by linarith
    then have "cost * int (length data - i) = cost * int (length data - (i + 1)) + cost"
      by (metis distrib_left mult.right_neutral)
    then have rest: "cost * int (length data - (i + 1)) < b"
      using less.prems c by linarith
    then have b: "0 < b" using assms(4) by (smt (verit) mult_nonneg_nonneg of_nat_0_le_iff)
    have ok: "ok \<longleftrightarrow> hexSpec elems data (int i)"
      using hexMatchAt_result [OF fw, of "int i" data budget] r b by fastforce
    let ?out = "if ok then out @ [i] else out"
    have "findHexFrom elems data limit i budget out = findHexFrom elems data limit (i + 1) b ?out"
      using True r b unfolding step by (simp add: Let_def)
    also have "\<dots> = Some (?out @ take (limit - length ?out)
        (filter (\<lambda>k. hexSpec elems data (int k)) [i + 1..<length data]))"
      by (rule less.hyps) (use True rest in auto)
    also have "\<dots> = Some (out @ take (limit - length out)
        (filter (\<lambda>k. hexSpec elems data (int k)) [i..<length data]))"
      using True ok by (cases "limit - length out")
        (auto simp: upt_conv_Cons diff_Suc split: nat.splits)
    finally show ?thesis .
  qed
qed

text \<open>A pattern without jumps costs at most one step per element and one more.\<close>

lemma hexMatchAt_linear:
  assumes "\<forall>e\<in>set elems. \<not> he_isJump e" "0 \<le> pos" "0 < budget"
  shows "\<exists>ok b. hexMatchAt elems data pos budget = Some (ok, b) \<and> budget - b \<le> int (length elems) + 1"
  using assms
proof (induction elems arbitrary: pos budget)
  case Nil
  then show ?case by (intro exI [of _ True] exI [of _ "budget - 1"]) (simp add: hexMatchAt.simps)
next
  case (Cons e es)
  show ?case
  proof (cases "pos < int (length data) \<and> maskedEq (data ! nat pos) e \<and> 1 < budget")
    case True
    then obtain ok b where "hexMatchAt es data (pos + 1) (budget - 1) = Some (ok, b)"
      "(budget - 1) - b \<le> int (length es) + 1"
      using Cons.IH [of "pos + 1" "budget - 1"] Cons.prems by auto
    with True Cons.prems show ?thesis by (subst hexMatchAt.simps) simp
  next
    case False
    then have "hexMatchAt (e # es) data pos budget = Some (False, budget - 1)"
      using Cons.prems by (subst hexMatchAt.simps) (auto simp: hexMatchAt.simps [of es])
    then show ?thesis by (intro exI [of _ False] exI [of _ "budget - 1"]) simp
  qed
qed

subsection \<open>Parsing hex patterns\<close>

lemma parseJump_forward: "parseJump body = Inr e \<Longrightarrow> he_isJump e \<and> 0 \<le> he_min e"
proof -
  assume p: "parseJump body = Inr e"
  show ?thesis
  proof (cases "goIndex body ''-''")
    case None
    then have "CHR ''-'' \<notin> set (trimSpace body)"
      using set_trimSpace by (auto simp: goIndex_single_None)
    with p None show ?thesis
      by (auto simp: parseJump_def hexJumpElem_def dest: parseInt10_nonneg split: option.splits)
  next
    case (Some k)
    then have "CHR ''-'' \<notin> set (trimSpace (take k body))"
      using set_trimSpace by (auto simp: goIndex_single_Some)
    with p Some show ?thesis
      by (auto simp: parseJump_def hexJumpElem_def Let_def dest: parseInt10_nonneg
          split: option.splits if_splits)
  qed
qed

lemma parseNibbles_byte: "parseNibbles hi lo = Inr e \<Longrightarrow> \<not> he_isJump e"
  by (auto simp: parseNibbles_def hexByte_def split: if_splits option.splits)

lemma forwardHex_snoc: "forwardHex (out @ [e]) \<longleftrightarrow> forwardHex out \<and> (he_isJump e \<longrightarrow> 0 \<le> he_min e)"
  by (auto simp: forwardHex_def)

lemma parseHexLoop_forward:
  "parseHexLoop s out = Inr es \<Longrightarrow> forwardHex out \<Longrightarrow> forwardHex es"
proof (induction s out arbitrary: es rule: parseHexLoop.induct)
  case (2 c s out)
  let ?sp = "c = CHR '' '' \<or> c = CHR 0x09 \<or> c = CHR 0x0D \<or> c = CHR 0x0A"
  consider (space) ?sp
    | (jump) j e where "\<not> ?sp" "c = CHR ''[''" "goIndex (c # s) '']'' = Some j"
        "parseJump (take (j - 1) s) = Inr e" "parseHexLoop (drop j s) (out @ [e]) = Inr es"
    | (nibs) lo s' e where "\<not> ?sp" "c \<noteq> CHR ''[''" "\<not> (c = CHR ''('' \<or> c = CHR '')'' \<or> c = CHR ''|'')"
        "isHexDigit c \<or> c = CHR ''?''" "s = lo # s'"
        "parseNibbles c lo = Inr e" "parseHexLoop s' (out @ [e]) = Inr es"
    using "2.prems"(1) by (auto split: if_splits option.splits sum.splits list.splits)
  then show ?case
  proof cases
    case space
    then show ?thesis using "2.IH"(1) "2.prems" by auto
  next
    case (jump j e)
    then show ?thesis
      using "2.IH"(2) [OF jump(1-4) jump(5)] "2.prems"(2) parseJump_forward
      by (simp add: forwardHex_snoc)
  next
    case (nibs lo s' e)
    then show ?thesis
      using "2.IH"(3) [OF nibs(1-6) nibs(7)] "2.prems"(2) parseNibbles_byte
      by (simp add: forwardHex_snoc)
  qed
qed simp

lemma parseHex_forward: "parseHex s = Inr es \<Longrightarrow> forwardHex es"
  by (auto simp: parseHex_def forwardHex_def [of "[]"] dest: parseHexLoop_forward
      split: sum.splits if_splits)

section \<open>The near() sweep\<close>

lemma nearSeek_spec:
  "nearSeek a prev bs = (let us = takeWhile (\<lambda>b. b < a) bs in
     (if us = [] then prev else Some (last us), dropWhile (\<lambda>b. b < a) bs))"
  by (induction a prev bs rule: nearSeek.induct) (auto simp: Let_def)

text \<open>The nearest hits around \<open>a\<close> are the last one below and the first one not below.\<close>

lemma near_closest:
  assumes "sorted (us @ ds)" "\<forall>b\<in>set us. b \<le> a" "\<forall>b\<in>set ds. a \<le> b"
  shows "(\<exists>b\<in>set (us @ ds). \<bar>int a - int b\<bar> \<le> dist) \<longleftrightarrow>
     (case ds of [] \<Rightarrow> False | b # _ \<Rightarrow> int b - int a \<le> dist) \<or>
     (case (if us = [] then None else Some (last us)) of None \<Rightarrow> False | Some b \<Rightarrow> int a - int b \<le> dist)"
proof -
  have above: "(\<exists>b\<in>set ds. \<bar>int a - int b\<bar> \<le> dist) \<longleftrightarrow>
      (case ds of [] \<Rightarrow> False | b # _ \<Rightarrow> int b - int a \<le> dist)"
  proof (cases ds)
    case (Cons d ds')
    then have "a \<le> d" "\<forall>b\<in>set ds. d \<le> b" using assms by (auto simp: sorted_append)
    then show ?thesis unfolding Cons by force
  qed simp
  have below: "(\<exists>b\<in>set us. \<bar>int a - int b\<bar> \<le> dist) \<longleftrightarrow>
      (case (if us = [] then None else Some (last us)) of None \<Rightarrow> False | Some b \<Rightarrow> int a - int b \<le> dist)"
  proof (cases us rule: rev_cases)
    case (snoc vs b)
    then have "\<forall>x\<in>set us. x \<le> b" using assms(1) by (auto simp: sorted_append)
    with snoc assms(2) show ?thesis by force
  qed simp
  show ?thesis using above below by auto
qed

lemma nearSweep_spec:
  assumes "sorted as" "sorted (pre @ rest)" "\<forall>p\<in>set pre. \<forall>a\<in>set as. p \<le> a"
    and "prev = (if pre = [] then None else Some (last pre))"
  shows "nearSweep dist as prev rest \<longleftrightarrow>
     (\<exists>a\<in>set as. \<exists>b\<in>set (pre @ rest). \<bar>int a - int b\<bar> \<le> dist)"
  using assms
proof (induction as arbitrary: pre prev rest)
  case (Cons a as)
  define us where "us = takeWhile (\<lambda>b. b < a) rest"
  define ds where "ds = dropWhile (\<lambda>b. b < a) rest"
  let ?pre = "pre @ us"
  let ?prev = "if ?pre = [] then None else Some (last ?pre)"
  have rest: "rest = us @ ds" by (simp add: us_def ds_def)
  have seek: "nearSeek a prev rest = (?prev, ds)"
    using Cons.prems(4) by (simp add: nearSeek_spec Let_def us_def ds_def)
  have us: "\<forall>b\<in>set us. b < a" using set_takeWhileD by (fastforce simp: us_def)
  have srt: "sorted (?pre @ ds)" using Cons.prems(2) rest by simp
  have below: "\<forall>b\<in>set ?pre. b \<le> a" using us Cons.prems(3) by auto
  have above: "\<forall>b\<in>set ds. a \<le> b"
  proof (cases ds)
    case (Cons d ds')
    then have "\<not> d < a" using hd_dropWhile [of "\<lambda>b. b < a" rest] by (simp add: ds_def)
    with Cons srt show ?thesis by (auto simp: sorted_append)
  qed simp
  have head: "(\<exists>b\<in>set (?pre @ ds). \<bar>int a - int b\<bar> \<le> dist) \<longleftrightarrow>
      (case ds of [] \<Rightarrow> False | b # _ \<Rightarrow> int b - int a \<le> dist) \<or>
      (case ?prev of None \<Rightarrow> False | Some b \<Rightarrow> int a - int b \<le> dist)"
    by (rule near_closest [OF srt below above])
  have tail: "nearSweep dist as ?prev ds \<longleftrightarrow>
      (\<exists>a\<in>set as. \<exists>b\<in>set (?pre @ ds). \<bar>int a - int b\<bar> \<le> dist)"
    by (rule Cons.IH) (use Cons.prems(1) srt below in force)+
  have "nearSweep dist (a # as) prev rest \<longleftrightarrow>
      (\<exists>b\<in>set (?pre @ ds). \<bar>int a - int b\<bar> \<le> dist) \<or>
      (\<exists>a\<in>set as. \<exists>b\<in>set (?pre @ ds). \<bar>int a - int b\<bar> \<le> dist)"
    unfolding tail [symmetric] head by (simp add: seek)
  then show ?case unfolding rest by simp
qed simp

section \<open>Properties\<close>

text \<open>
  The text search never panics and returns the first \<open>limit\<close> hits, encoding by encoding and
  in ascending order: exactly the offsets where the pattern occurs, ASCII case ignored under
  \<open>nocase\<close>, and where \<open>fullword\<close> finds no word byte on either side.
\<close>

theorem findText_exact:
  "findText m data limit = Some (take limit
     (concat (map (\<lambda>pat. filter (\<lambda>i. textAt (m_nocase m) data pat i \<and>
                                  (if m_fullword m then isFullWord data i (length pat) else True))
                             [0..<length data])
                  (filter (\<lambda>p. p \<noteq> []) (m_pats m)))))"
proof -
  have eq: "(if m_fullword m then isFullWord data i (length pat) else True) \<longleftrightarrow>
      (m_fullword m \<longrightarrow> isFullWord data i (length pat))" for i pat by simp
  show ?thesis unfolding eq by (simp add: findText_spec textHits_def hitAt_def [abs_def])
qed

text \<open>
  The budgeted search for a hex pattern never panics, reports at most \<open>limit\<close> offsets, and
  only offsets where the pattern matches; for a pattern without jumps whose length times the
  file size stays below the budget it reports every match, in order.
\<close>

theorem findHex_correct:
  assumes "parseHex s = Inr (m_hex m)"
  shows "\<exists>out. findHex m data limit = Some out \<and> length out \<le> limit \<and>
     (\<forall>k\<in>set out. k < length data \<and> hexSpec (m_hex m) data (int k)) \<and>
     ((\<forall>e\<in>set (m_hex m). \<not> he_isJump e) \<and>
        (int (length (m_hex m)) + 1) * int (length data) < maxHexSteps \<longrightarrow>
      out = take limit (filter (\<lambda>k. hexSpec (m_hex m) data (int k)) [0..<length data]))"
proof -
  have fw: "forwardHex (m_hex m)" using parseHex_forward [OF assms] .
  obtain out where out: "findHex m data limit = Some out"
    "\<forall>k\<in>set out. hexSpec (m_hex m) data (int k) \<and> k < length data" "length out \<le> limit"
    using findHexFrom_sound [OF fw, of "[]" data limit 0 maxHexSteps] by (auto simp: findHex_def)
  have "out = take limit (filter (\<lambda>k. hexSpec (m_hex m) data (int k)) [0..<length data])"
    if nojump: "\<forall>e\<in>set (m_hex m). \<not> he_isJump e"
      and small: "(int (length (m_hex m)) + 1) * int (length data) < maxHexSteps"
  proof -
    have "findHexFrom (m_hex m) data limit 0 maxHexSteps [] =
        Some ([] @ take (limit - length ([] :: nat list)) (filter (\<lambda>k. hexSpec (m_hex m) data (int k)) [0..<length data]))"
      by (rule findHexFrom_complete [OF fw, where cost = "int (length (m_hex m)) + 1"])
        (use small hexMatchAt_linear [OF nojump] in simp_all)
    with out(1) show ?thesis by (simp add: findHex_def)
  qed
  with out show ?thesis by blast
qed

lemma findHex_correct_witness:
  "\<exists>out. findHex \<lparr>m_id = ''$a'', m_kind = KindHex, m_pats = [], m_nocase = False, m_fullword = False,
       m_hex = [hexByte 77 255, hexJumpElem 1 2, hexByte 80 240], m_re = None\<rparr> ''xM..Z'' 64 = Some out \<and>
     length out \<le> 64"
proof -
  have "parseHex ''4D [1-2] 5?'' = Inr [hexByte 77 255, hexJumpElem 1 2, hexByte 80 240]"
    by code_simp
  from findHex_correct [of _ "\<lparr>m_id = ''$a'', m_kind = KindHex, m_pats = [], m_nocase = False,
      m_fullword = False, m_hex = [hexByte 77 255, hexJumpElem 1 2, hexByte 80 240], m_re = None\<rparr>",
      simplified, OF this]
  show ?thesis by blast
qed

text \<open>
  C2. The linear two-pointer sweep of \<open>near()\<close> decides the quadratic definition: some hit of
  the first set and some hit of the second are at most \<open>dist\<close> bytes apart, in either order.
\<close>

theorem evalNear_correct:
  "evalNear a b dist c \<longleftrightarrow>
     (\<exists>x\<in>set (gather a c). \<exists>y\<in>set (gather b c). \<bar>int x - int y\<bar> \<le> dist)"
proof -
  have "sorted (gather a c)" "sorted (gather b c)" by (simp_all add: gather_def)
  then have "nearSweep dist (gather a c) None (gather b c) \<longleftrightarrow>
      (\<exists>x\<in>set (gather a c). \<exists>y\<in>set (gather b c). \<bar>int x - int y\<bar> \<le> dist)"
    using nearSweep_spec [of "gather a c" "[]" "gather b c" None dist] by simp
  then show ?thesis by (auto simp: evalNear_def Let_def)
qed

end
