(* ===== verification/YaraGate.thy ===== *)
theory YaraGate
  imports YaraMatching
begin

text \<open>
  The prefilter of the YARA engine: when \<open>analyzePrefilter\<close> (\<open>eval.go\<close>) lets a rule be
  skipped because none of its literals is in the file, and why the skip loses no match. The
  automaton behind the gate is the interface \<open>yara_gate\<close>.

  Also here: the compiled rules never panic while scanning, except through an offset of
  \<open>uint16\<close> or \<open>uint32\<close> close to the largest \<open>int64\<close>.
\<close>

section \<open>What compilation establishes\<close>

definition freshRule :: "Rule \<Rightarrow> bool" where
  "freshRule r \<longleftrightarrow> r_matchers r = [] \<and> r_literals r = []"

text \<open>How the matcher of a string relates to the string.\<close>

definition matcherOf :: "(bytes \<Rightarrow> regex option) \<Rightarrow> StringDef \<Rightarrow> matcher \<Rightarrow> bool" where
  "matcherOf rx sd m \<longleftrightarrow>
     m_id m = sd_ID sd \<and> m_kind m = sd_Kind sd \<and>
     (sd_Kind sd = KindText \<longrightarrow>
        m_pats m = (if sd_ASCII sd then [sd_Text sd] else []) @
                   (if sd_Wide sd then [toWide (sd_Text sd)] else [])) \<and>
     (sd_Kind sd = KindHex \<longrightarrow> parseHex (sd_Text sd) = Inr (m_hex m)) \<and>
     (sd_Kind sd = KindRegex \<longrightarrow> (\<exists>pat re. rx pat = Some re \<and> m_re m = Some re))"

lemma compileString_matcher: "compileString rx sd = Inr m \<Longrightarrow> matcherOf rx sd m"
  by (auto simp: compileString_def matcherOf_def Let_def
      split: StringKind.splits sum.splits option.splits if_splits)

lemma compileStrings_matchers:
  "compileStrings rx sds ms = Inr ms' \<Longrightarrow> \<exists>new. ms' = ms @ new \<and> list_all2 (matcherOf rx) sds new"
proof (induction sds arbitrary: ms)
  case (Cons sd sds)
  then obtain m where m: "compileString rx sd = Inr m" "compileStrings rx sds (ms @ [m]) = Inr ms'"
    by (auto split: sum.splits)
  with Cons.IH [OF m(2)] compileString_matcher show ?case
    by (metis append.assoc append_Cons append_Nil list.rel_intros(2))
qed simp

lemma prefilterStrings_eq:
  "prefilterStrings sds (pf, lits) =
     (pf \<and> (\<forall>sd\<in>set sds. sd_Kind sd = KindText \<and> sd_ASCII sd),
      lits @ map sd_Text (filter (\<lambda>sd. sd_Kind sd = KindText \<and> sd_ASCII sd) sds))"
  by (induction sds arbitrary: pf lits) auto

text \<open>A rule as \<open>Compile\<close> leaves it.\<close>

definition compiledRule :: "(bytes \<Rightarrow> regex option) \<Rightarrow> Rule \<Rightarrow> bool" where
  "compiledRule rx r \<longleftrightarrow>
     list_all2 (matcherOf rx) (r_Strings r) (r_matchers r) \<and>
     (r_prefilterable r \<longleftrightarrow>
        r_Strings r \<noteq> [] \<and> (\<forall>sd\<in>set (r_Strings r). sd_Kind sd = KindText \<and> sd_ASCII sd) \<and>
        requiresSomeString (r_Cond r)) \<and>
     r_literals r = map sd_Text (filter (\<lambda>sd. sd_Kind sd = KindText \<and> sd_ASCII sd) (r_Strings r))"

lemma compileRule_compiled:
  assumes "compileRule rx r = Inr r'" and "freshRule r"
  shows "compiledRule rx (analyzePrefilter r') \<and> r_Strings (analyzePrefilter r') = r_Strings r \<and>
         r_Cond (analyzePrefilter r') = r_Cond r \<and> r_Name (analyzePrefilter r') = r_Name r"
proof -
  obtain ms where ms: "compileStrings rx (r_Strings r) [] = Inr ms" "r' = r\<lparr>r_matchers := ms\<rparr>"
    using assms by (auto simp: compileRule_def freshRule_def split: sum.splits)
  then have "list_all2 (matcherOf rx) (r_Strings r) ms"
    using compileStrings_matchers by fastforce
  with ms(2) assms(2) show ?thesis
    by (auto simp: analyzePrefilter_def compiledRule_def freshRule_def prefilterStrings_eq Let_def)
qed

lemma compileLoop_compiled:
  "compileLoop rx rs seen out = Inr out' \<Longrightarrow> \<forall>r\<in>set rs. freshRule r \<Longrightarrow>
   \<forall>r\<in>set out'. r \<in> set out \<or>
     compiledRule rx r \<and> (\<exists>r0\<in>set rs. r_Strings r = r_Strings r0 \<and> r_Cond r = r_Cond r0)"
proof (induction rs arbitrary: seen out)
  case (Cons r rs)
  show ?case
  proof (cases "r_Name r \<in> set seen")
    case True
    then show ?thesis using Cons.IH [of seen out] Cons.prems by auto
  next
    case False
    then obtain r' where r': "compileRule rx r = Inr r'"
      "compileLoop rx rs (r_Name r # seen) (out @ [analyzePrefilter r']) = Inr out'"
      using Cons.prems(1) by (auto split: sum.splits)
    have "freshRule r" using Cons.prems(2) by simp
    note c = compileRule_compiled [OF r'(1) this]
    show ?thesis
    proof
      fix q assume "q \<in> set out'"
      then have "q \<in> set (out @ [analyzePrefilter r']) \<or>
          compiledRule rx q \<and> (\<exists>r0\<in>set rs. r_Strings q = r_Strings r0 \<and> r_Cond q = r_Cond r0)"
        using Cons.IH [OF r'(2)] Cons.prems(2) by simp
      with c show "q \<in> set out \<or> compiledRule rx q \<and>
          (\<exists>r0\<in>set (r # rs). r_Strings q = r_Strings r0 \<and> r_Cond q = r_Cond r0)"
        by auto
    qed
  qed
qed simp

lemma Compile_compiled:
  assumes "Compile rx src = Inr rules" "\<forall>r\<in>set src. freshRule r" "r \<in> set rules"
  shows "compiledRule rx r" "\<exists>r0\<in>set src. r_Strings r = r_Strings r0 \<and> r_Cond r = r_Cond r0"
  using compileLoop_compiled [of rx src "[]" "[]" rules] assms by (auto simp: Compile_def)

section \<open>Conditions that need a string\<close>

text \<open>The context when no string matched.\<close>

definition noHits :: "evalCtx \<Rightarrow> bool" where
  "noHits c \<longleftrightarrow> (\<forall>k. countOf c k = 0 \<and> offsetsOf c k = [])"

lemma gather_noHits: "noHits c \<Longrightarrow> gather pats c = []"
proof -
  assume "noHits c"
  then have "set (gather pats c) = {}" by (simp add: gather_def noHits_def)
  then show ?thesis by simp
qed

lemma evalNear_noHits: "noHits c \<Longrightarrow> \<not> evalNear a b dist c"
  by (simp add: evalNear_def gather_noHits)

lemma evalOf_noHits:
  "noHits c \<Longrightarrow> requiresSomeString (nodeOf q n sel) \<Longrightarrow> \<not> evalOf q n sel c"
  by (cases q) (auto simp: evalOf_def noHits_def)

lemma requiresSomeString_noHits:
  "requiresSomeString n \<Longrightarrow> noHits c \<Longrightarrow> evalNode n c \<noteq> Some True"
proof (induction n)
  case (nodeOf q n sel)
  then show ?case using evalOf_noHits by simp
next
  case (nodeNear a b d)
  then show ?case using evalNear_noHits by simp
qed (auto simp: noHits_def split: option.splits bool.splits)

section \<open>The matcher loop\<close>

text \<open>Counts and offsets agree, and the ids are those of the matchers.\<close>

lemma runMatchers_data: "runMatchers ms c = Some c' \<Longrightarrow> c_data c' = c_data c \<and> c_size c' = c_size c"
  by (induction ms arbitrary: c) (force split: option.splits)+

lemma runMatchers_noHits:
  assumes "runMatchers ms c = Some c'" "noHits c" "\<forall>m\<in>set ms. findAll m (c_data c) maxMatchesPerString = Some []"
  shows "noHits c'"
  using assms
proof (induction ms arbitrary: c)
  case (Cons m ms)
  let ?c = "c\<lparr>c_counts := (c_counts c)(m_id m \<mapsto> 0), c_offsets := (c_offsets c)(m_id m \<mapsto> []),
              c_ids := c_ids c @ [m_id m]\<rparr>"
  have "runMatchers ms ?c = Some c'" using Cons.prems by simp
  moreover have "noHits ?c" using Cons.prems(2) by (simp add: noHits_def countOf_def offsetsOf_def)
  ultimately show ?case using Cons.IH [of ?c] Cons.prems(3) by simp
qed simp

text \<open>A text string only in ASCII whose literal is nowhere in the data has no hits.\<close>

lemma occurs_at_lower:
  "occurs_at p s i \<Longrightarrow> occurs_at (map f p) (map f s) i"
  by (auto simp: occurs_at_def take_map drop_map)

lemma textAt_contains:
  "textAt nc data pat i \<Longrightarrow> contains (map ascii_lower data) (map ascii_lower pat)"
  by (metis occurs_at_contains occurs_at_lower textAt_def)

lemma findAll_absent:
  assumes "matcherOf rx sd m" "sd_Kind sd = KindText" "sd_ASCII sd" "\<not> sd_Wide sd"
    and "sd_Text sd \<noteq> [] \<Longrightarrow> \<not> contains (map ascii_lower data) (map ascii_lower (sd_Text sd))"
  shows "findAll m data limit = Some []"
proof -
  have "m_pats m = [sd_Text sd]" "m_kind m = KindText" using assms(1-4) by (auto simp: matcherOf_def)
  moreover have "\<not> hitAt m data (sd_Text sd) i" if "sd_Text sd \<noteq> []" for i
    using assms(5) [OF that] textAt_contains by (auto simp: hitAt_def)
  ultimately show ?thesis by (simp add: findAll_def findText_spec textHits_def)
qed

lemma noHits_startCtx [simp]: "noHits (startCtx data fsize results)"
  by (simp add: noHits_def startCtx_def countOf_def offsetsOf_def)

lemma compiled_matcher:
  assumes "compiledRule rx r" "m \<in> set (r_matchers r)"
  shows "\<exists>sd\<in>set (r_Strings r). matcherOf rx sd m"
  using assms list_all2_right [of "matcherOf rx" "r_Strings r" "r_matchers r" m]
  by (simp add: compiledRule_def)

lemma evalRule_absent:
  assumes "compiledRule rx r" "r_prefilterable r"
    and "\<forall>sd\<in>set (r_Strings r). \<not> sd_Wide sd"
    and "\<forall>l\<in>set (r_literals r). l \<noteq> [] \<longrightarrow> \<not> contains (map ascii_lower data) (map ascii_lower l)"
    and "evalRule r data fsize results = Some (ctx, b)"
  shows "\<not> b"
proof -
  have all: "\<forall>sd\<in>set (r_Strings r). sd_Kind sd = KindText \<and> sd_ASCII sd"
    and cond: "requiresSomeString (r_Cond r)"
    and lits: "set (r_literals r) = sd_Text ` set (r_Strings r)"
    using assms(1,2) by (auto simp: compiledRule_def)
  have "findAll m data maxMatchesPerString = Some []" if "m \<in> set (r_matchers r)" for m
  proof -
    have "\<exists>sd\<in>set (r_Strings r). matcherOf rx sd m"
      by (rule compiled_matcher [OF assms(1) that])
    then obtain sd where "sd \<in> set (r_Strings r)" "matcherOf rx sd m" ..
    with all assms(3,4) lits show ?thesis by (intro findAll_absent) auto
  qed
  moreover obtain c where "runMatchers (r_matchers r) (startCtx data fsize results) = Some c"
      "evalNode (r_Cond r) c = Some b"
    using assms(5) by (auto simp: evalRule_def split: option.splits)
  moreover have "c_data (startCtx data fsize results) = data" by (simp add: startCtx_def)
  ultimately have "noHits c"
    using runMatchers_noHits [of "r_matchers r" "startCtx data fsize results" c] noHits_startCtx by metis
  with \<open>evalNode (r_Cond r) c = Some b\<close> requiresSomeString_noHits [OF cond] show ?thesis by metis
qed

section \<open>The gate\<close>

text \<open>
  What the engine relies on of the gate it is given: it lets a rule through when a literal it
  knows occurs in the data, upper and lower case ASCII letters identified. It may let through
  more.
\<close>

locale yara_gate =
  fixes gate :: "bytes list \<Rightarrow> bool" and data :: bytes and known :: "bytes set"
  assumes gate_open: "l \<in> set lits \<Longrightarrow> l \<in> known \<Longrightarrow>
      contains (map ascii_lower data) (map ascii_lower l) \<Longrightarrow> gate lits"
begin

lemma gated_no_match:
  assumes "compiledRule rx r" "gatedOut r (Some gate)" "\<forall>sd\<in>set (r_Strings r). \<not> sd_Wide sd"
    and "\<forall>l\<in>set (r_literals r). l \<noteq> [] \<longrightarrow> l \<in> known"
    and "evalRule r data fsize results = Some (ctx, b)"
  shows "\<not> b"
proof (rule evalRule_absent [OF assms(1) _ assms(3) _ assms(5)])
  show "r_prefilterable r" using assms(2) by (simp add: gatedOut_def)
  have "\<not> gate (r_literals r)" using assms(2) by (simp add: gatedOut_def)
  then show "\<forall>l\<in>set (r_literals r). l \<noteq> [] \<longrightarrow>
      \<not> contains (map ascii_lower data) (map ascii_lower l)"
    using gate_open assms(4) by blast
qed

lemma gate_loses_nothing:
  assumes "\<forall>r\<in>set rules. compiledRule rx r"
    and "\<forall>r\<in>set rules. r_prefilterable r \<longrightarrow> (\<forall>sd\<in>set (r_Strings r). \<not> sd_Wide sd)"
    and "\<forall>l\<in>set (Literals rules). l \<noteq> [] \<longrightarrow> l \<in> known"
    and "scanRules rules data fsize None results out = Some ms"
  shows "scanRules rules data fsize (Some gate) results out = Some ms"
  using assms
proof (induction rules arbitrary: results out)
  case (Cons r rs)
  have none: "\<not> gatedOut r None" by (simp add: gatedOut_def)
  then obtain ctx b where e: "evalRule r data fsize results = Some (ctx, b)"
    using Cons.prems(4) by (auto split: option.splits)
  have IH: "scanRules rs data fsize None res out' = Some ms \<Longrightarrow>
      scanRules rs data fsize (Some gate) res out' = Some ms" for res out'
    by (rule Cons.IH) (use Cons.prems(1-3) in \<open>auto simp: Literals_def\<close>)
  show ?case
  proof (cases "gatedOut r (Some gate)")
    case True
    have "\<not> b"
      by (rule gated_no_match [OF _ True _ _ e])
        (use Cons.prems True in \<open>auto simp: gatedOut_def Literals_def\<close>)
    then have "scanRules rs data fsize None (results(r_Name r \<mapsto> False)) out = Some ms"
      using Cons.prems(4) none e by simp
    with True IH show ?thesis by simp
  next
    case False
    with Cons.prems(4) none e IH show ?thesis by (auto simp: Let_def split: if_splits)
  qed
qed simp

end

section \<open>Panics\<close>

text \<open>
  The constants in the offset of \<open>uint8\<close>, \<open>uint16\<close>, \<open>uint32\<close> are below
  \<open>2 ^ 62\<close>; the constants of comparisons are free.
\<close>

fun smallValue :: "Value \<Rightarrow> bool" where
  "smallValue (valNum n) \<longleftrightarrow> n < 2 ^ 62"
| "smallValue (valUint w v) \<longleftrightarrow> smallValue v"
| "smallValue _ \<longleftrightarrow> True"

fun smallOffset :: "Value \<Rightarrow> bool" where
  "smallOffset (valUint w v) \<longleftrightarrow> smallValue v"
| "smallOffset _ \<longleftrightarrow> True"

fun smallOffsets :: "Node \<Rightarrow> bool" where
  "smallOffsets (nodeAnd l r) \<longleftrightarrow> smallOffsets l \<and> smallOffsets r"
| "smallOffsets (nodeOr l r) \<longleftrightarrow> smallOffsets l \<and> smallOffsets r"
| "smallOffsets (nodeNot x) \<longleftrightarrow> smallOffsets x"
| "smallOffsets (nodeStrAt k v) \<longleftrightarrow> smallOffset v"
| "smallOffsets (nodeCmp op l r) \<longleftrightarrow> smallOffset l \<and> smallOffset r"
| "smallOffsets _ \<longleftrightarrow> True"

definition smallCtx :: "evalCtx \<Rightarrow> bool" where
  "smallCtx c \<longleftrightarrow> c_size c < 2 ^ 62 \<and> int (length (c_data c)) < 2 ^ 62 \<and>
     (\<forall>k. countOf c k \<le> 64 \<and> (\<forall>n\<in>set (offsetsOf c k). n \<le> length (c_data c)))"

lemma digit_less: "(d::nat) < b \<Longrightarrow> k < p \<Longrightarrow> d + b * k < b * p"
  by (metis add_less_mono1 less_le_trans mult_Suc_right mult_le_mono2 Suc_leI)

lemma littleEndian_less: "littleEndian bs < 256 ^ length bs"
  by (induction bs) (simp_all add: digit_less)

lemma readLE_small:
  assumes "0 \<le> off" "off + n \<le> int (length data)" "int (length data) < 2 ^ 62" "0 \<le> n" "n \<le> 4"
  shows "\<exists>v. readLE data off n = Some v \<and> 0 \<le> v \<and> v < 2 ^ 62"
proof -
  have w: "wrap64 (off + n) = off + n" using assms by (intro wrap64_id) (auto simp: int64_range_def)
  let ?bs = "take (nat n) (drop (nat off) data)"
  have "littleEndian ?bs < 256 ^ length ?bs" by (rule littleEndian_less)
  also have "\<dots> \<le> (256 :: nat) ^ 4" using assms(5) by (intro power_increasing) auto
  finally have "int (littleEndian ?bs) < 2 ^ 62" by simp
  then show ?thesis using assms w by (simp add: readLE_def)
qed

lemma evalValue_small:
  "smallCtx c \<Longrightarrow> smallValue v \<Longrightarrow> \<exists>n. evalValue v c = Some n \<and> n < 2 ^ 62"
proof (induction v)
  case (valUint w v)
  then obtain off where off: "evalValue v c = Some off" "off < 2 ^ 62" by auto
  have len: "int (length (c_data c)) < 2 ^ 62" using valUint.prems(1) by (simp add: smallCtx_def)
  have w: "0 \<le> off \<Longrightarrow> wrap64 (off + 2) = off + 2" "0 \<le> off \<Longrightarrow> wrap64 (off + 4) = off + 4"
    using off(2) by (intro wrap64_id; simp add: int64_range_def)+
  have byte: "(of_char b :: nat) < 4611686018427387904" for b
    by (rule less_trans [OF nat_of_char_less_256]) simp
  show ?case
    using off(1) w byte [of "c_data c ! nat off"] readLE_small [OF _ _ len, of off 2]
      readLE_small [OF _ _ len, of off 4]
    by (cases "0 \<le> off") auto
next
  case (valCount k)
  then have "countOf c k \<le> 64" by (simp add: smallCtx_def)
  then show ?case by simp
next
  case (valOffset k)
  then have "\<forall>n\<in>set (offsetsOf c k). int n < 2 ^ 62" by (force simp: smallCtx_def)
  then show ?case by (auto split: list.split)
qed (auto simp: smallCtx_def)

lemma smallOffset_evalValue: "smallCtx c \<Longrightarrow> smallOffset v \<Longrightarrow> evalValue v c \<noteq> None"
  using evalValue_small [of c v] by (cases v) (auto split: list.split)

lemma evalNode_no_panic: "smallOffsets n \<Longrightarrow> smallCtx c \<Longrightarrow> evalNode n c \<noteq> None"
  by (induction n) (auto dest: smallOffset_evalValue split: option.splits bool.splits)

text \<open>The matchers of a compiled rule never panic, and report few and small offsets.\<close>

definition regexInBounds :: "(bytes \<Rightarrow> regex option) \<Rightarrow> bool" where
  "regexInBounds rx \<longleftrightarrow> (\<forall>pat re data. rx pat = Some re \<longrightarrow> (\<forall>k\<in>set (re data). k \<le> length data))"

lemma findAll_total:
  assumes "matcherOf rx sd m" "regexInBounds rx"
  shows "\<exists>out. findAll m data limit = Some out \<and> length out \<le> limit \<and> (\<forall>k\<in>set out. k \<le> length data)"
proof (cases "m_kind m")
  case KindText
  then show ?thesis
    using findText_spec [of m data limit]
    by (auto simp: findAll_def textHits_def dest!: in_set_takeD)
next
  case KindHex
  then have "forwardHex (m_hex m)" using assms(1) parseHex_forward by (auto simp: matcherOf_def)
  from findHexFrom_sound [OF this, of "[]" data limit 0 maxHexSteps] KindHex show ?thesis
    by (fastforce simp: findAll_def findHex_def)
next
  case KindRegex
  then obtain pat re where "rx pat = Some re" "m_re m = Some re"
    using assms(1) by (auto simp: matcherOf_def)
  then show ?thesis
    using KindRegex assms(2) by (auto simp: findAll_def regexInBounds_def dest!: in_set_takeD)
qed

lemma runMatchers_total:
  assumes "\<forall>m\<in>set ms. \<exists>sd. matcherOf rx sd m" "regexInBounds rx" "smallCtx c"
  shows "\<exists>c'. runMatchers ms c = Some c' \<and> smallCtx c'"
  using assms
proof (induction ms arbitrary: c)
  case (Cons m ms)
  then obtain sd where "matcherOf rx sd m" by auto
  from findAll_total [OF this Cons.prems(2), of "c_data c" maxMatchesPerString]
  obtain out where out: "findAll m (c_data c) maxMatchesPerString = Some out"
    "length out \<le> 64" "\<forall>k\<in>set out. k \<le> length (c_data c)"
    by (auto simp: maxMatchesPerString_def)
  let ?c = "c\<lparr>c_counts := (c_counts c)(m_id m \<mapsto> length out),
              c_offsets := (c_offsets c)(m_id m \<mapsto> out), c_ids := c_ids c @ [m_id m]\<rparr>"
  have "smallCtx ?c" using Cons.prems(3) out by (auto simp: smallCtx_def countOf_def offsetsOf_def)
  with Cons.IH [of ?c] Cons.prems out(1) show ?case by auto
qed simp

lemma evalRule_no_panic:
  assumes "compiledRule rx r" "regexInBounds rx" "smallOffsets (r_Cond r)"
    and "int (length data) < 2 ^ 62" "fsize < 2 ^ 62"
  shows "evalRule r data fsize results \<noteq> None"
proof -
  have "smallCtx (startCtx data fsize results)"
    using assms(4,5) by (simp add: smallCtx_def startCtx_def countOf_def offsetsOf_def)
  moreover have "\<forall>m\<in>set (r_matchers r). \<exists>sd. matcherOf rx sd m"
    using compiled_matcher [OF assms(1)] by blast
  ultimately obtain c where "runMatchers (r_matchers r) (startCtx data fsize results) = Some c" "smallCtx c"
    using runMatchers_total [of "r_matchers r" rx] assms(2) by blast
  then show ?thesis
    using evalNode_no_panic [OF assms(3), of c] by (auto simp: evalRule_def)
qed

lemma scanRules_no_panic:
  assumes "\<And>r res. r \<in> set rules \<Longrightarrow> evalRule r data fsize res \<noteq> None"
  shows "scanRules rules data fsize gate results out \<noteq> None"
  using assms
proof (induction rules arbitrary: results out)
  case (Cons r rs)
  have IH: "scanRules rs data fsize gate res out' \<noteq> None" for res out'
    by (rule Cons.IH) (use Cons.prems in simp)
  show ?case
    using Cons.prems [of r results] IH by (auto simp: Let_def split: option.split)
qed simp

section \<open>Compiling compiled rules\<close>

text \<open>
  \<open>LoadPaths\<close> (\<open>embed.go\<close>) hands the rules of \<open>Embedded\<close>, which are compiled, to
  \<open>Compile\<close> again. The matchers are appended to those already there.
\<close>

lemma compileStrings_acc:
  "compileStrings rx sds ms =
     (case compileStrings rx sds [] of Inl e \<Rightarrow> Inl e | Inr new \<Rightarrow> Inr (ms @ new))"
proof (induction sds arbitrary: ms)
  case (Cons sd sds)
  show ?case
  proof (cases "compileString rx sd")
    case (Inr m)
    then show ?thesis
      using Cons.IH [of "ms @ [m]"] Cons.IH [of "[m]"] by (simp split: sum.split)
  qed simp
qed simp

lemma compileStrings_append:
  "compileStrings rx sds [] = Inr new \<Longrightarrow> compileStrings rx sds ms = Inr (ms @ new)"
  by (subst compileStrings_acc) simp

definition doubledRule :: "Rule \<Rightarrow> Rule \<Rightarrow> bool" where
  "doubledRule r r2 \<longleftrightarrow> r_Name r2 = r_Name r \<and> r_Cond r2 = r_Cond r \<and> r_Strings r2 = r_Strings r \<and>
     r_matchers r2 = r_matchers r @ r_matchers r \<and> r_literals r2 = r_literals r @ r_literals r"

text \<open>A rule made by \<open>compileRule\<close> and \<open>analyzePrefilter\<close> from a fresh one.\<close>

definition oneCompile :: "(bytes \<Rightarrow> regex option) \<Rightarrow> Rule \<Rightarrow> bool" where
  "oneCompile rx r \<longleftrightarrow> compiledRule rx r \<and> compileStrings rx (r_Strings r) [] = Inr (r_matchers r)"

lemma oneCompile_again:
  assumes "oneCompile rx r"
  shows "\<exists>r'. compileRule rx r = Inr r' \<and> doubledRule r (analyzePrefilter r')"
  using assms compileStrings_append [of rx "r_Strings r" "r_matchers r" "r_matchers r"]
  by (auto simp: oneCompile_def compiledRule_def compileRule_def doubledRule_def analyzePrefilter_def
      prefilterStrings_eq Let_def)

lemma compileRule_matchers:
  "compileRule rx r = Inr r' \<Longrightarrow>
   compileStrings rx (r_Strings r) (r_matchers r) = Inr (r_matchers (analyzePrefilter r'))"
  by (auto simp: compileRule_def analyzePrefilter_def Let_def split: sum.splits prod.splits)

lemma compileLoop_once:
  "compileLoop rx rs seen out = Inr out' \<Longrightarrow> \<forall>r\<in>set rs. freshRule r \<Longrightarrow>
   \<forall>r\<in>set out. oneCompile rx r \<and> r_Name r \<in> set seen \<Longrightarrow> distinct (map r_Name out) \<Longrightarrow>
   (\<forall>r\<in>set out'. oneCompile rx r) \<and> distinct (map r_Name out')"
proof (induction rs arbitrary: seen out)
  case (Cons r rs)
  show ?case
  proof (cases "r_Name r \<in> set seen")
    case True
    then show ?thesis using Cons.IH [of seen out] Cons.prems by auto
  next
    case False
    then obtain r' where r': "compileRule rx r = Inr r'"
      "compileLoop rx rs (r_Name r # seen) (out @ [analyzePrefilter r']) = Inr out'"
      using Cons.prems(1) by (auto split: sum.splits)
    have "freshRule r" using Cons.prems(2) by simp
    note c = compileRule_compiled [OF r'(1) this]
    have one: "oneCompile rx (analyzePrefilter r')"
      unfolding oneCompile_def using c compileRule_matchers [OF r'(1)] \<open>freshRule r\<close>
      by (simp add: freshRule_def)
    show ?thesis
    proof (rule Cons.IH [OF r'(2)])
      show "\<forall>r\<in>set rs. freshRule r" using Cons.prems(2) by simp
      show "\<forall>q\<in>set (out @ [analyzePrefilter r']). oneCompile rx q \<and> r_Name q \<in> set (r_Name r # seen)"
        using Cons.prems(3) one c by auto
      show "distinct (map r_Name (out @ [analyzePrefilter r']))"
        using Cons.prems(3,4) False c by auto
    qed
  qed
qed simp

lemma compileLoop_again:
  "\<forall>r\<in>set rs. oneCompile rx r \<and> r_Name r \<notin> set seen \<Longrightarrow> distinct (map r_Name rs) \<Longrightarrow>
   \<exists>rs2. compileLoop rx rs seen out = Inr (out @ rs2) \<and> list_all2 doubledRule rs rs2"
proof (induction rs arbitrary: seen out)
  case (Cons r rs)
  then obtain r' where r': "compileRule rx r = Inr r'" "doubledRule r (analyzePrefilter r')"
    using oneCompile_again by (metis list.set_intros(1))
  have "\<forall>q\<in>set rs. oneCompile rx q \<and> r_Name q \<notin> set (r_Name r # seen)" "distinct (map r_Name rs)"
    using Cons.prems by (auto simp: rev_image_eqI)
  from Cons.IH [OF this, of "out @ [analyzePrefilter r']"] r' Cons.prems(1) show ?case by auto
qed simp

section \<open>Properties\<close>


definition sampleRule :: "StringDef list \<Rightarrow> Node \<Rightarrow> Rule" where
  "sampleRule sds cond = \<lparr>r_Name = ''sample'', r_Tags = [], r_Meta = (\<lambda>_. None), r_Strings = sds,
     r_Cond = cond, r_Private = False, r_Global = False, r_Origin = ''test'', r_matchers = [],
     r_literals = [], r_prefilterable = False\<rparr>"

definition sampleText :: "bytes \<Rightarrow> bytes \<Rightarrow> bool \<Rightarrow> StringDef" where
  "sampleText k t wide = \<lparr>sd_ID = k, sd_Kind = KindText, sd_Text = t, sd_Mods = [], sd_NoCase = False,
     sd_Wide = wide, sd_ASCII = True, sd_FullWord = False\<rparr>"


text \<open>
  An offset near the largest \<open>int64\<close> does panic: the sum \<open>int(off)+2\<close> wraps to a
  negative number, passes the bounds check and slices past the end. A compiled rule with
  \<open>uint16(0x7fffffffffffffff)\<close> makes every scan panic.
\<close>

theorem Scan_huge_offset_panics:
  "evalValue (valUint 16 (valNum (2 ^ 63 - 1))) c = None"
proof -
  have "wrap64 (2 ^ 63 - 1 + 2) = 1 - 2 ^ 63" by (simp add: wrap64_def)
  then show ?thesis by (simp add: readLE_def Let_def)
qed

text \<open>
  Compiling a compiled rule set again keeps every rule but doubles its matchers, so that each
  string of the rule is counted twice by \<open>N of them\<close> and by \<open>N of ($a*)\<close>.
\<close>

theorem Compile_twice_doubles:
  assumes "Compile rx src = Inr rules" and "\<forall>r\<in>set src. freshRule r"
  shows "\<exists>rules2. Compile rx rules = Inr rules2 \<and> list_all2 doubledRule rules rules2"
  using compileLoop_once [of rx src "[]" "[]" rules] compileLoop_again [of rules rx "[]" "[]"] assms
  by (auto simp: Compile_def)

lemma Compile_twice_doubles_witness:
  "\<exists>rules rules2. Compile (\<lambda>_. None) [sampleRule [sampleText ''$a'' ''x'' False] (nodeOf quantN 2 [])] = Inr rules \<and>
     Compile (\<lambda>_. None) rules = Inr rules2 \<and> list_all2 doubledRule rules rules2"
proof -
  let ?src = "[sampleRule [sampleText ''$a'' ''x'' False] (nodeOf quantN 2 [])]"
  obtain rules where c: "Compile (\<lambda>_. None) ?src = Inr rules"
    by (simp add: Compile_def sampleRule_def sampleText_def compileRule_def compileString_def Let_def)
  have "\<forall>r\<in>set ?src. freshRule r" by (simp add: freshRule_def sampleRule_def)
  from Compile_twice_doubles [OF c this] c show ?thesis by blast
qed

text \<open>
  The gate loses a match for a string that is both \<open>ascii\<close> and \<open>wide\<close>: the rule
  counts as prefilterable, its literal is the ASCII form, and data holding only the wide form
  matches without a gate but is skipped by an exact one.
\<close>

theorem gate_misses_wide:
  "\<exists>rules. Compile rx [sampleRule [sampleText ''$a'' ''eval'' True] (nodeStr ''$a'')] = Inr rules \<and>
     map_option length (Scan rules (toWide ''eval'') 8 None) = Some 1 \<and>
     map_option length
       (Scan rules (toWide ''eval'') 8 (Some (list_ex (contains (toWide ''eval''))))) = Some 0"
proof -
  let ?sd = "sampleText ''$a'' ''eval'' True"
  let ?m = "\<lparr>m_id = ''$a'', m_kind = KindText, m_pats = [''eval'', toWide ''eval''], m_nocase = False,
      m_fullword = False, m_hex = [], m_re = None\<rparr>"
  let ?r = "(sampleRule [?sd] (nodeStr ''$a''))\<lparr>r_matchers := [?m], r_literals := [''eval''],
      r_prefilterable := True\<rparr>"
  have "Compile rx [sampleRule [?sd] (nodeStr ''$a'')] = Inr [?r]"
    by (simp add: Compile_def sampleRule_def sampleText_def compileRule_def compileString_def
        analyzePrefilter_def Let_def)
  moreover have "map_option length (Scan [?r] (toWide ''eval'') 8 None) = Some 1"
    by code_simp
  moreover have "map_option length
      (Scan [?r] (toWide ''eval'') 8 (Some (list_ex (contains (toWide ''eval''))))) = Some 0"
    by code_simp
  ultimately show ?thesis by blast
qed

end
