(* ===== verification/AgentGate.thy ===== *)
theory AgentGate
  imports PhpLexer RulePacks YaraGate
begin

text \<open>
  How the agent puts the engines together for one file: the lexed view shared by the engines
  (\<open>codeLens\<close>, \<open>agent/heuristic.go\<close>), the literals of the YARA rules folded into the automaton
  of the rule packs (\<open>New\<close>, \<open>agent/agent.go\<close>), and the gate built from its hits
  (\<open>evalYara\<close>, \<open>agent/fsscan.go\<close>). The interface \<open>yara_gate\<close> is provided here.
\<close>

section \<open>The view of a file\<close>

text \<open>What the YARA engine and the code-scoped rules see of a file.\<close>

definition uncommented :: "bool \<Rightarrow> bytes \<Rightarrow> bytes" where
  "uncommented isPHP src = (if isPHP then withoutComments (lexPHP src) src else src)"

definition subject :: "bool \<Rightarrow> bytes \<Rightarrow> bytes" where
  "subject isPHP src = (if isPHP then v_code (lexPHP src) else src)"

section \<open>The gate\<close>

definition yaraLit :: "(nat \<Rightarrow> nat) \<Rightarrow> RuleSet \<Rightarrow> Rule list \<Rightarrow> bytes \<rightharpoonup> int" where
  "yaraLit ulow s ys l = (if l \<in> set (Literals ys) then Some (LiteralID ulow s l) else None)"

definition yaraGate :: "(nat \<Rightarrow> nat) \<Rightarrow> RuleSet \<Rightarrow> Rule list \<Rightarrow> bool list \<Rightarrow> bytes list \<Rightarrow> bool" where
  "yaraGate ulow s ys hit literals =
     list_ex (\<lambda>l. case yaraLit ulow s ys l of Some i \<Rightarrow> hitAtId hit i | None \<Rightarrow> False) literals"

section \<open>The gate sees what the rules see\<close>

lemma ascii_lower_space: "ascii_lower b = CHR '' '' \<longleftrightarrow> b = CHR '' ''"
proof (cases "CHR ''A'' \<le> b \<and> b \<le> CHR ''Z''")
  case True
  then have "65 \<le> (of_char b :: nat)" "(of_char b :: nat) \<le> 90" by (simp_all add: byte_upper_range)
  moreover from this True have "of_char (ascii_lower b) = (of_char b + 32 :: nat)"
    by (simp add: ascii_lower_def)
  ultimately have "ascii_lower b \<noteq> CHR '' ''" "b \<noteq> CHR '' ''" by auto
  then show ?thesis by simp
next
  case False
  then have "ascii_lower b = b" unfolding ascii_lower_def by (rule if_not_P)
  then show ?thesis by simp
qed

lemma uncommented_length [simp]: "length (uncommented isPHP src) = length src"
  by (simp add: uncommented_def withoutComments_nth)

lemma uncommented_nth:
  "k < length src \<Longrightarrow> uncommented isPHP src ! k = src ! k \<or> uncommented isPHP src ! k = CHR '' ''"
  using withoutComments_nth(2) [of k src] by (simp add: uncommented_def blankComment_def)

text \<open>A literal with no space that occurs in the blanked view occurs in the file.\<close>

lemma uncommented_contains:
  assumes "CHR '' '' \<notin> set l"
    and "contains (map ascii_lower (uncommented isPHP src)) (map ascii_lower l)"
  shows "contains (map ascii_lower src) (map ascii_lower l)"
proof -
  obtain i where "occurs_at (map ascii_lower l) (map ascii_lower (uncommented isPHP src)) i"
    using assms(2) occurs_at_contains by blast
  then have i: "i + length l \<le> length src"
    "map ascii_lower (take (length l) (drop i (uncommented isPHP src))) = map ascii_lower l"
    by (simp_all add: occurs_at_def take_map drop_map)
  have "map ascii_lower (take (length l) (drop i src)) = map ascii_lower l"
  proof (rule nth_equalityI)
    show "length (map ascii_lower (take (length l) (drop i src))) = length (map ascii_lower l)"
      using i(1) by simp
  next
    fix k assume "k < length (map ascii_lower (take (length l) (drop i src)))"
    then have k: "k < length l" "i + k < length src" using i(1) by simp_all
    have eq: "ascii_lower (uncommented isPHP src ! (i + k)) = ascii_lower (l ! k)"
      using arg_cong [OF i(2), of "\<lambda>x. x ! k"] k by simp
    have "l ! k \<noteq> CHR '' ''" using assms(1) k(1) by (metis nth_mem)
    then have "uncommented isPHP src ! (i + k) \<noteq> CHR '' ''" using eq ascii_lower_space by metis
    then have "uncommented isPHP src ! (i + k) = src ! (i + k)" using uncommented_nth [OF k(2)] by blast
    with eq k show "map ascii_lower (take (length l) (drop i src)) ! k = map ascii_lower l ! k" by simp
  qed
  with i(1) have "occurs_at (map ascii_lower l) (map ascii_lower src) i"
    by (simp add: occurs_at_def take_map drop_map)
  then show ?thesis using occurs_at_contains by blast
qed

text \<open>The literals the gate knows: registered, in ASCII, and with no space.\<close>

definition knownLits :: "bytes list \<Rightarrow> Rule list \<Rightarrow> bytes set" where
  "knownLits lits ys =
     {l. l \<in> set (Literals ys) \<and> l \<noteq> [] \<and> isASCII l \<and> CHR '' '' \<notin> set l \<and> map ascii_lower l \<in> set lits}"

interpretation agent: yara_gate
  "yaraGate ulow (s\<lparr>rs_index := builtIndex lits\<rparr>) ys (scanHits lits src)"
  "uncommented isPHP src" "knownLits lits ys"
  for ulow s lits ys src isPHP
proof
  fix l ls
  assume l: "l \<in> set ls" "l \<in> knownLits lits ys"
    and c: "contains (map ascii_lower (uncommented isPHP src)) (map ascii_lower l)"
  have k: "l \<in> set (Literals ys)" "l \<noteq> []" "isASCII l" "CHR '' '' \<notin> set l" "map ascii_lower l \<in> set lits"
    using l(2) by (auto simp: knownLits_def)
  then obtain i where i: "builtIndex lits (map ascii_lower l) = Some i"
    using acp.id_registered [of "map ascii_lower l" lits] k(2) by auto
  have "contains (map ascii_lower src) (map ascii_lower (map ascii_lower l))"
    using uncommented_contains [OF k(4) c] by (simp add: comp_def)
  then have "hitAtId (scanHits lits src) (int i)" using hitAtId_index [OF i] by blast
  then show "yaraGate ulow (s\<lparr>rs_index := builtIndex lits\<rparr>) ys (scanHits lits src) ls"
    using l(1) k(1) i k(3)
    by (auto simp: yaraGate_def yaraLit_def LiteralID_def goToLower_ASCII list_ex_iff intro!: bexI [of _ l])
qed

section \<open>Properties\<close>



end
