(* ===== verification/YaraLexer.thy ===== *)
theory YaraLexer
  imports YaraEval
begin

text \<open>
  The lexer of the YARA parser (\<open>src/internal/yara/parse.go\<close>, lines 38-276).

  The Go lexer holds the source and a position in it; the model holds the unread rest
  \<open>src[pos:]\<close> and the line number. A position past the end, which \<open>skipSpaceAndComments\<close>
  can leave after an unclosed comment, is an empty rest: every use of the position compares it
  with the length first. Errors carry the line at which \<open>errf\<close> was called.
\<close>

section \<open>Tokens and errors\<close>

datatype tokKind = tEOF | tIdent | tString | tRegex | tHex | tNumber | tPunct | tOp

record token =
  tk_kind :: tokKind
  tk_text :: bytes
  tk_mods :: bytes
  tk_line :: nat

record lexer =
  lx_rest :: bytes
  lx_line :: nat

text \<open>One constructor per message of \<open>errf\<close> and \<open>fmt.Errorf\<close>; \<open>OutOfFuel\<close> is the
  model's own and does not occur (see \<open>YaraParser\<close>).\<close>

datatype pmsg =
    BadXEscape | UnterminatedString | UnterminatedRegex | UnterminatedBlock
  | Expected bytes bytes | ExpectedRule bytes | ExpectedRuleName | ExpectedRuleBody bytes
  | ExpectedMetaKey bytes | ExpectedStringId bytes | ExpectedEqAfter bytes
  | UnsupportedStringValue bytes | UnsupportedModifier bytes | OutsideSection bytes
  | ExpectedCloseParen | InNotSupported | ModuleNotSupported bytes | ExpectedOf
  | ExpectedThemOrParen | ExpectedStringIdIn bytes | ExpectedCloseOf bytes
  | NearFirst | NearThree | NearSecond | NearThird | NearNumber | NearClose
  | UnsupportedIntFun bytes | ExpectedOpenAfter bytes | ExpectedCloseAfter bytes
  | UnsupportedIdent bytes | UnexpectedToken bytes

datatype perror =
    AtLine nat pmsg
  | BadNumber bytes
  | NoCondition
  | NoRules bytes
  | InOrigin bytes perror
  | InRule bytes perror
  | OutOfFuel

definition errf :: "lexer \<Rightarrow> pmsg \<Rightarrow> perror + 'a" where
  "errf l m = Inl (AtLine (lx_line l) m)"

definition mkTok :: "tokKind \<Rightarrow> bytes \<Rightarrow> bytes \<Rightarrow> nat \<Rightarrow> token" where
  "mkTok k s ms ln = \<lparr>tk_kind = k, tk_text = s, tk_mods = ms, tk_line = ln\<rparr>"

definition isIdentStart :: "byte \<Rightarrow> bool" where
  "isIdentStart c \<longleftrightarrow>
     c = CHR ''_'' \<or> (CHR ''a'' \<le> c \<and> c \<le> CHR ''z'') \<or> (CHR ''A'' \<le> c \<and> c \<le> CHR ''Z'')"

definition isIdentChar :: "byte \<Rightarrow> bool" where
  "isIdentChar c \<longleftrightarrow> isIdentStart c \<or> (CHR ''0'' \<le> c \<and> c \<le> CHR ''9'')"

section \<open>White space and comments\<close>

text \<open>The body of a block comment after its opening: up to and including the closing, counting
  lines. A last lone byte is passed by \<open>pos += 2\<close>.\<close>

fun skipBlock :: "bytes \<Rightarrow> nat \<Rightarrow> bytes \<times> nat" where
  "skipBlock (a # b # s) ln =
     (if a = CHR ''*'' \<and> b = CHR ''/'' then (s, ln)
      else skipBlock (b # s) (if a = CHR 0x0A then ln + 1 else ln))"
| "skipBlock _ ln = ([], ln)"

lemma skipBlock_length: "length (fst (skipBlock s ln)) \<le> length s"
  by (induction s ln rule: skipBlock.induct) auto

function skipSpace :: "bytes \<Rightarrow> nat \<Rightarrow> bytes \<times> nat" where
  "skipSpace [] ln = ([], ln)"
| "skipSpace (c # s) ln =
     (if c = CHR 0x0A then skipSpace s (ln + 1)
      else if c = CHR '' '' \<or> c = CHR 0x09 \<or> c = CHR 0x0D then skipSpace s ln
      else if c = CHR ''/'' \<and> hasPrefix s ''/'' then
        skipSpace (dropWhile (\<lambda>d. d \<noteq> CHR 0x0A) s) ln
      else if c = CHR ''/'' \<and> hasPrefix s ''*'' then
        skipSpace (fst (skipBlock (tl s) ln)) (snd (skipBlock (tl s) ln))
      else (c # s, ln))"
  by pat_completeness auto
termination
proof (relation "measure (\<lambda>(s, ln). length s)")
  fix c :: byte and s :: bytes and ln :: nat
  show "((dropWhile (\<lambda>d. d \<noteq> CHR 0x0A) s, ln), c # s, ln) \<in> measure (\<lambda>(s, ln). length s)"
    using length_dropWhile_le [of "\<lambda>d. d \<noteq> CHR 0x0A" s] by simp
  show "((fst (skipBlock (tl s) ln), snd (skipBlock (tl s) ln)), c # s, ln)
      \<in> measure (\<lambda>(s, ln). length s)"
    using skipBlock_length [of "tl s" ln] by (simp add: split_beta)
qed auto

definition skipSpaceAndComments :: "lexer \<Rightarrow> lexer" where
  "skipSpaceAndComments l =
     (case skipSpace (lx_rest l) (lx_line l) of (s, ln) \<Rightarrow> l\<lparr>lx_rest := s, lx_line := ln\<rparr>)"

section \<open>The kinds of token\<close>

text \<open>The loop over a quoted string, after the opening quote: the text and the rest.\<close>

definition escapeByte :: "byte \<Rightarrow> byte" where
  "escapeByte e =
     (if e = CHR ''n'' then CHR 0x0A else if e = CHR ''r'' then CHR 0x0D
      else if e = CHR ''t'' then CHR 0x09 else e)"

function lexString :: "bytes \<Rightarrow> bytes \<Rightarrow> pmsg + bytes \<times> bytes" where
  "lexString [] sb = Inl UnterminatedString"
| "lexString (ch # s) sb =
     (if ch = CHR 0x5C \<and> s \<noteq> [] then
        (let esc = hd s; s' = tl s in
         if esc = CHR ''x'' then
           (if 2 \<le> length s' then
              (case parseUintHex (take 2 s') 8 of
                 None \<Rightarrow> Inl BadXEscape
               | Some v \<Rightarrow> lexString (drop 2 s') (sb @ [char_of v]))
            else lexString s' sb)
         else lexString s' (sb @ [escapeByte esc]))
      else if ch = CHR 0x22 then Inr (sb, s)
      else if ch = CHR 0x0A then Inl UnterminatedString
      else lexString s (sb @ [ch]))"
  by pat_completeness auto
termination
  by (relation "measure (\<lambda>(s, sb). length s)") auto

text \<open>The loop over a regular expression, after the opening slash.\<close>

fun lexRegex :: "bytes \<Rightarrow> bytes \<Rightarrow> pmsg + bytes \<times> bytes" where
  "lexRegex [] sb = Inl UnterminatedRegex"
| "lexRegex [ch] sb =
     (if ch = CHR ''/'' then Inr (sb, [])
      else Inl UnterminatedRegex)"
| "lexRegex (ch # d # s) sb =
     (if ch = CHR 0x5C then lexRegex s (sb @ [ch, d])
      else if ch = CHR ''/'' then Inr (sb, d # s)
      else if ch = CHR 0x0A then Inl UnterminatedRegex
      else lexRegex (d # s) (sb @ [ch]))"

text \<open>The loop over a braced block, from its opening brace: the text up to the brace that
  balances it, the rest after it, and the line count.\<close>

fun lexBlock :: "bytes \<Rightarrow> int \<Rightarrow> bytes \<Rightarrow> nat \<Rightarrow> (bytes \<times> bytes) option \<times> nat" where
  "lexBlock [] depth acc ln = (None, ln)"
| "lexBlock (c # s) depth acc ln =
     (if c = CHR ''{'' then lexBlock s (depth + 1) (acc @ [c]) ln
      else if c = CHR ''}'' then
        (if depth - 1 = 0 then (Some (acc, s), ln) else lexBlock s (depth - 1) (acc @ [c]) ln)
      else lexBlock s depth (acc @ [c]) (if c = CHR 0x0A then ln + 1 else ln))"

definition opWords :: "bytes list" where
  "opWords = [''and'', ''or'', ''not'', ''of'', ''them'', ''all'', ''any'', ''at'', ''in'',
     ''matches'', ''contains'', ''true'', ''false'', ''none'']"

text \<open>\<open>unicode.IsDigit\<close> of a byte is an ASCII digit. The upper case of the next two bytes
  starts with \<open>KB\<close>, \<open>MB\<close> or \<open>GB\<close> only when both bytes are ASCII.\<close>

definition asciiUpper :: "byte \<Rightarrow> byte" where
  "asciiUpper c = (if CHR ''a'' \<le> c \<and> c \<le> CHR ''z'' then char_of (of_char c - 32 :: nat) else c)"

definition lexDigits :: "bytes \<Rightarrow> bytes \<times> bytes" where
  "lexDigits s =
     (if hasPrefix s ''0'' \<and> 2 \<le> length s \<and> (s ! 1 = CHR ''x'' \<or> s ! 1 = CHR ''X'')
      then (take 2 s @ takeWhile isHexDigit (drop 2 s), dropWhile isHexDigit (drop 2 s))
      else (takeWhile isDigitByte s, dropWhile isDigitByte s))"

definition sizeSuffix :: "bytes \<Rightarrow> bytes" where
  "sizeSuffix s =
     (let up = map asciiUpper (take 2 s) in
      if up = ''KB'' \<or> up = ''MB'' \<or> up = ''GB'' then up else [])"

definition regexMod :: "byte \<Rightarrow> bool" where
  "regexMod c \<longleftrightarrow> c = CHR ''i'' \<or> c = CHR ''s'' \<or> c = CHR ''g'' \<or> c = CHR ''m''"

text \<open>The default case of \<open>next\<close>: two-byte operators first.\<close>

definition lexPunct :: "bytes \<Rightarrow> bytes \<times> bytes" where
  "lexPunct s =
     (if take 2 s \<in> {''=='', ''!='', ''<='', ''>=''} then (take 2 s, drop 2 s)
      else (encodeRune (of_char (hd s)), tl s))"

definition next_tok :: "bool \<Rightarrow> lexer \<Rightarrow> perror + token \<times> lexer" where
  "next_tok regexAllowed l0 =
     (let l = skipSpaceAndComments l0; start = lx_line l in
      case lx_rest l of
        [] \<Rightarrow> Inr (mkTok tEOF [] [] (lx_line l), l)
      | c # s \<Rightarrow>
          if c = CHR 0x22 then
            (case lexString s [] of
               Inl e \<Rightarrow> errf l e
             | Inr (t, s') \<Rightarrow> Inr (mkTok tString t [] start, l\<lparr>lx_rest := s'\<rparr>))
          else if c = CHR ''/'' \<and> regexAllowed then
            (case lexRegex s [] of
               Inl e \<Rightarrow> errf l e
             | Inr (t, s') \<Rightarrow>
                 Inr (mkTok tRegex t (takeWhile regexMod s') start,
                      l\<lparr>lx_rest := dropWhile regexMod s'\<rparr>))
          else if c = CHR ''{'' then
            (case lexBlock s 1 [] start of
               (None, ln) \<Rightarrow> errf (l\<lparr>lx_line := ln\<rparr>) UnterminatedBlock
             | (Some (t, s'), ln) \<Rightarrow>
                 Inr (mkTok tHex t [] start, l\<lparr>lx_rest := s', lx_line := ln\<rparr>))
          else if isIdentStart c then
            (let word = takeWhile isIdentChar (c # s)
             in Inr (mkTok (if word \<in> set opWords then tOp else tIdent) word [] start,
                     l\<lparr>lx_rest := dropWhile isIdentChar (c # s)\<rparr>))
          else if isDigitByte c then
            (let (num, s') = lexDigits (c # s); suf = sizeSuffix s'
             in Inr (mkTok tNumber (num @ suf) [] start, l\<lparr>lx_rest := drop (length suf) s'\<rparr>))
          else
            (let (op, s') = lexPunct (c # s)
             in Inr (mkTok tPunct op [] start, l\<lparr>lx_rest := s'\<rparr>)))"

section \<open>Progress\<close>

lemma skipSpace_length: "length (fst (skipSpace s ln)) \<le> length s"
proof (induction s ln rule: skipSpace.induct)
  case (2 c s ln)
  have "length (dropWhile (\<lambda>d. d \<noteq> CHR 0x0A) s) \<le> length s" by (rule length_dropWhile_le)
  moreover have "length (fst (skipBlock (tl s) ln)) \<le> length s"
    using skipBlock_length [of "tl s" ln] by simp
  ultimately show ?case using "2.IH" by auto
qed simp

lemma lexString_length: "lexString s sb = Inr (t, s') \<Longrightarrow> length s' < length s"
proof (induction s sb rule: lexString.induct)
  case (2 ch s sb)
  then show ?case by (fastforce simp: Let_def split: if_splits option.splits)
qed simp

lemma lexRegex_length: "lexRegex s sb = Inr (t, s') \<Longrightarrow> length s' < length s"
  by (induction s sb rule: lexRegex.induct) (auto split: if_splits)

lemma lexBlock_length: "lexBlock s d acc ln = (Some (t, s'), ln') \<Longrightarrow> length s' < length s"
  by (induction s d acc ln rule: lexBlock.induct) (auto split: if_splits)

lemma lexDigits_length:
  "isDigitByte c \<Longrightarrow> length (snd (lexDigits (c # s))) < length (c # s)"
  using length_dropWhile_le [of isHexDigit "drop 2 (c # s)"] length_dropWhile_le [of isDigitByte s]
  by (auto simp: lexDigits_def)

text \<open>Every token but the end of file consumes input; no token gives any back.\<close>

lemma next_tok_progress:
  assumes "next_tok re l = Inr (t, l')"
  shows "length (lx_rest l') \<le> length (lx_rest l)"
    "tk_kind t \<noteq> tEOF \<Longrightarrow> length (lx_rest l') < length (lx_rest l)"
proof -
  obtain s ln where sk: "skipSpace (lx_rest l) (lx_line l) = (s, ln)" by fastforce
  have len: "length s \<le> length (lx_rest l)"
    using skipSpace_length [of "lx_rest l" "lx_line l"] sk by simp
  have "length (lx_rest l') < length s \<or> tk_kind t = tEOF \<and> lx_rest l' = s"
  proof (cases s)
    case Nil
    then show ?thesis using assms sk
      by (auto simp: next_tok_def skipSpaceAndComments_def mkTok_def)
  next
    case (Cons c s1)
    let ?l = "l\<lparr>lx_rest := s, lx_line := ln\<rparr>"
    have sp: "skipSpaceAndComments l = ?l" using sk by (simp add: skipSpaceAndComments_def)
    note step = assms [unfolded next_tok_def Let_def sp, simplified, unfolded Cons, simplified]
    consider (str) "c = CHR 0x22" | (rx) "c \<noteq> CHR 0x22" "c = CHR ''/'' \<and> re"
      | (blk) "c = CHR ''{''"
      | (idt) "c \<noteq> CHR 0x22" "\<not> (c = CHR ''/'' \<and> re)" "c \<noteq> CHR ''{''" "isIdentStart c"
      | (num) "c \<noteq> CHR 0x22" "\<not> (c = CHR ''/'' \<and> re)" "c \<noteq> CHR ''{''" "\<not> isIdentStart c" "isDigitByte c"
      | (pun) "c \<noteq> CHR 0x22" "\<not> (c = CHR ''/'' \<and> re)" "c \<noteq> CHR ''{''" "\<not> isIdentStart c" "\<not> isDigitByte c"
      by blast
    then show ?thesis
    proof cases
      case str
      then show ?thesis using step Cons
        by (auto simp: errf_def dest: lexString_length split: sum.splits)
    next
      case rx
      then obtain u s' where u: "lexRegex s1 [] = Inr (u, s')" "lx_rest l' = dropWhile regexMod s'"
        using step by (auto simp: errf_def split: sum.splits)
      then show ?thesis using lexRegex_length [OF u(1)] length_dropWhile_le [of regexMod s'] Cons by simp
    next
      case blk
      then show ?thesis using step Cons
        by (auto simp: errf_def dest: lexBlock_length split: option.splits prod.splits)
    next
      case idt
      then show ?thesis using step Cons length_dropWhile_le [of isIdentChar s1]
        by (auto simp: isIdentChar_def)
    next
      case num
      obtain n s' where n: "lexDigits (c # s1) = (n, s')" by fastforce
      then have "length s' < length (c # s1)" using lexDigits_length [OF num(5), of s1] by simp
      moreover have "lx_rest l' = drop (length (sizeSuffix s')) s'"
        using step num n by (auto simp: split_beta)
      ultimately show ?thesis using Cons by (intro disjI1) simp
    next
      case pun
      then have "lx_rest l' = snd (lexPunct (c # s1))" using step by (auto simp: split_beta)
      moreover have "length (snd (lexPunct (c # s1))) < length (c # s1)" by (auto simp: lexPunct_def)
      ultimately show ?thesis using Cons by simp
    qed
  qed
  with len show "length (lx_rest l') \<le> length (lx_rest l)"
    "tk_kind t \<noteq> tEOF \<Longrightarrow> length (lx_rest l') < length (lx_rest l)" by auto
qed

end
