(* ===== verification/YaraParser.thy ===== *)
theory YaraParser
  imports YaraLexer YaraGate
begin

text \<open>
  The parser of the YARA subset: the condition parser of \<open>rule.go\<close> (lines 180-620) and the rule
  parser of \<open>parse.go\<close> (lines 282-544).

  The mutually recursive condition parser takes fuel, one unit per call. A call needs at most
  six units per token left, and \<open>parseCondition\<close> provides them, so \<open>OutOfFuel\<close> is
  never returned; the loops of the rule parser terminate because every turn reads a token.
\<close>

section \<open>Errors in context\<close>

text \<open>\<open>fmt.Errorf\<close> with \<open>%w\<close>: an error wrapped in its context.\<close>

definition wrapErr :: "('e \<Rightarrow> 'e) \<Rightarrow> 'e + 'a \<Rightarrow> 'e + 'a" where
  "wrapErr f r = (case r of Inl e \<Rightarrow> Inl (f e) | Inr x \<Rightarrow> Inr x)"

lemma wrapErr_Inr [simp]: "wrapErr f r = Inr x \<longleftrightarrow> r = Inr x"
  by (cases r) (simp_all add: wrapErr_def)

lemma wrapErr_Inl: "wrapErr f r = Inl e \<longleftrightarrow> (\<exists>e'. r = Inl e' \<and> e = f e')"
  by (cases r) (auto simp: wrapErr_def)

section \<open>The parser state\<close>

text \<open>The field \<open>peek\<close> of the Go parser is never assigned, so \<open>advance\<close> always
  calls the lexer and the model has no such field.\<close>

record parser =
  ps_lx :: lexer
  ps_tok :: token

definition advance :: "bool \<Rightarrow> parser \<Rightarrow> perror + parser" where
  "advance regexAllowed p =
     (case next_tok regexAllowed (ps_lx p) of
        Inl e \<Rightarrow> Inl e
      | Inr (t, l) \<Rightarrow> Inr (p\<lparr>ps_tok := t, ps_lx := l\<rparr>))"

definition isTok :: "tokKind \<Rightarrow> bytes \<Rightarrow> parser \<Rightarrow> bool" where
  "isTok k s p \<longleftrightarrow> tk_kind (ps_tok p) = k \<and> tk_text (ps_tok p) = s"

definition expectPunct :: "bytes \<Rightarrow> parser \<Rightarrow> perror + parser" where
  "expectPunct s p =
     (if \<not> isTok tPunct s p then errf (ps_lx p) (Expected s (tk_text (ps_tok p)))
      else advance False p)"

definition isNameTok :: "token \<Rightarrow> bool" where
  "isNameTok t \<longleftrightarrow> tk_kind t = tIdent \<or> tk_kind t = tNumber \<or> tk_kind t = tOp"

text \<open>The identifier after a \<open>$\<close>, \<open>#\<close> or \<open>@\<close>, spelled out four times in the source.\<close>

definition parseName :: "parser \<Rightarrow> perror + bytes \<times> parser" where
  "parseName p =
     (if isNameTok (ps_tok p)
      then andThen (advance False p) (\<lambda>p'. Inr (''$'' @ tk_text (ps_tok p), p'))
      else Inr (''$'', p))"

text \<open>How much there is left to read: the bytes, and the token in hand unless it is the last.
  Every \<open>advance\<close> from a token other than the end lowers it.\<close>

definition left_over :: "parser \<Rightarrow> nat" where
  "left_over p = length (lx_rest (ps_lx p)) + (if tk_kind (ps_tok p) = tEOF then 0 else 1)"

lemma advance_le:
  assumes "advance re p = Inr p'"
  shows "left_over p' \<le> left_over p" "tk_kind (ps_tok p) \<noteq> tEOF \<Longrightarrow> left_over p' < left_over p"
proof -
  obtain t l where n: "next_tok re (ps_lx p) = Inr (t, l)" "p' = p\<lparr>ps_tok := t, ps_lx := l\<rparr>"
    using assms by (auto simp: advance_def split: sum.splits)
  have "tk_kind t = tEOF \<or> length (lx_rest l) < length (lx_rest (ps_lx p))"
    using next_tok_progress(2) [OF n(1)] by blast
  with next_tok_progress(1) [OF n(1)] n(2)
  show "left_over p' \<le> left_over p" "tk_kind (ps_tok p) \<noteq> tEOF \<Longrightarrow> left_over p' < left_over p"
    by (auto simp: left_over_def)
qed

lemma isTok_not_EOF: "isTok k s p \<Longrightarrow> k \<noteq> tEOF \<Longrightarrow> tk_kind (ps_tok p) \<noteq> tEOF"
  by (simp add: isTok_def)

lemma parseName_le: "parseName p = Inr (k, p') \<Longrightarrow> left_over p' \<le> left_over p"
  by (auto simp: parseName_def split: if_splits dest: advance_le(1))

section \<open>Numbers\<close>

definition parseNumber :: "bytes \<Rightarrow> perror + int" where
  "parseNumber s =
     (let up = map asciiUpper s;
          (mult, d) =
            (if hasSuffix up ''KB'' then (1024, take (length s - 2) s)
             else if hasSuffix up ''MB'' then (1024 * 1024, take (length s - 2) s)
             else if hasSuffix up ''GB'' then (1024 * 1024 * 1024, take (length s - 2) s)
             else (1, s));
          n = (if hasPrefix (map ascii_lower d) ''0x''
               then map_option (\<lambda>u. wrap64 (int u)) (parseUintHex (drop 2 d) 64)
               else parseInt10 d)
      in case n of
           None \<Rightarrow> Inl (BadNumber d)
         | Some v \<Rightarrow> Inr (wrap64 (v * mult)))"

definition mustNumber :: "bytes \<Rightarrow> int" where
  "mustNumber s = (case parseNumber s of Inl _ \<Rightarrow> 0 | Inr n \<Rightarrow> n)"

definition isValueKeyword :: "bytes \<Rightarrow> bool" where
  "isValueKeyword s \<longleftrightarrow>
     (if s = ''filesize'' \<or> s = ''entrypoint'' then True
      else hasPrefix s ''uint'' \<or> hasPrefix s ''int'')"

section \<open>String sets and near()\<close>

text \<open>One identifier of the set, with its optional \<open>*\<close>; the loop over the commas;
  \<open>what\<close> is quoted in the errors.\<close>

definition parseSetItem :: "bytes \<Rightarrow> parser \<Rightarrow> perror + bytes \<times> parser" where
  "parseSetItem what p =
     (if \<not> isTok tPunct ''$'' p then errf (ps_lx p) (ExpectedStringIdIn what)
      else
        andThen (advance False p) (\<lambda>p.
        andThen (parseName p) (\<lambda>(k, p).
        if isTok tPunct ''*'' p then andThen (advance False p) (\<lambda>p. Inr (k @ ''*'', p))
        else Inr (k, p))))"

lemma parseSetItem_less: "parseSetItem what p = Inr (k, p') \<Longrightarrow> left_over p' < left_over p"
proof -
  assume r: "parseSetItem what p = Inr (k, p')"
  then have tok: "isTok tPunct ''$'' p" by (simp add: parseSetItem_def errf_def split: if_splits)
  with r obtain p1 k2 p2 where p1: "advance False p = Inr p1" "parseName p1 = Inr (k2, p2)"
    and p3: "p' = p2 \<or> advance False p2 = Inr p'"
    by (auto simp: parseSetItem_def split: if_splits)
  have "left_over p1 < left_over p" using advance_le(2) [OF p1(1)] tok isTok_not_EOF by blast
  moreover have "left_over p' \<le> left_over p2" using p3 advance_le(1) by blast
  ultimately show ?thesis using parseName_le [OF p1(2)] by simp
qed

function stringSetLoop :: "bytes \<Rightarrow> bytes list \<Rightarrow> parser \<Rightarrow> perror + bytes list \<times> parser" where
  "stringSetLoop what ids p =
     (case parseSetItem what p of
        Inl e \<Rightarrow> Inl e
      | Inr (k, p1) \<Rightarrow>
          if isTok tPunct '','' p1
          then (case advance False p1 of
                  Inl e \<Rightarrow> Inl e
                | Inr p2 \<Rightarrow> stringSetLoop what (ids @ [k]) p2)
          else Inr (ids @ [k], p1))"
  by pat_completeness auto
termination
proof (relation "measure (\<lambda>(what, ids, p). left_over p)", goal_cases)
  case 1
  show ?case by simp
next
  case (2 what ids p x k p1 p2)
  then have "left_over p1 < left_over p" "left_over p2 \<le> left_over p1"
    by (auto intro: parseSetItem_less advance_le(1))
  then show ?case by simp
qed

declare stringSetLoop.simps [simp del]

definition parseStringSet :: "bytes \<Rightarrow> parser \<Rightarrow> perror + bytes list \<times> parser" where
  "parseStringSet what p =
     andThen (advance False p) (\<lambda>p.
     andThen (stringSetLoop what [] p) (\<lambda>(ids, p).
     if \<not> isTok tPunct '')'' p then errf (ps_lx p) (ExpectedCloseOf what)
     else andThen (advance False p) (\<lambda>p. Inr (ids, p))))"

definition parseNear :: "parser \<Rightarrow> perror + Node \<times> parser" where
  "parseNear p =
     andThen (advance False p) (\<lambda>p.
     if \<not> isTok tPunct ''('' p then errf (ps_lx p) NearFirst
     else andThen (parseStringSet ''near() first argument'' p) (\<lambda>(a, p).
     if \<not> isTok tPunct '','' p then errf (ps_lx p) NearThree
     else andThen (advance False p) (\<lambda>p.
     if \<not> isTok tPunct ''('' p then errf (ps_lx p) NearSecond
     else andThen (parseStringSet ''near() second argument'' p) (\<lambda>(b, p).
     if \<not> isTok tPunct '','' p then errf (ps_lx p) NearThird
     else andThen (advance False p) (\<lambda>p.
     if tk_kind (ps_tok p) \<noteq> tNumber then errf (ps_lx p) NearNumber
     else andThen (parseNumber (tk_text (ps_tok p))) (\<lambda>dist.
     andThen (advance False p) (\<lambda>p.
     if \<not> isTok tPunct '')'' p then errf (ps_lx p) NearClose
     else andThen (advance False p) (\<lambda>p. Inr (nodeNear a b dist, p)))))))))"

section \<open>Values\<close>

definition uintWidth :: "bytes \<Rightarrow> nat option" where
  "uintWidth name =
     (if hasSuffix name ''8'' then Some 8
      else if hasSuffix name ''16'' then Some 16
      else if hasSuffix name ''32'' then Some 32
      else None)"

fun parseValue :: "nat \<Rightarrow> parser \<Rightarrow> perror + Value \<times> parser" where
  "parseValue 0 p = Inl OutOfFuel"
| "parseValue (Suc n) p =
     (let t = ps_tok p in
      if tk_kind t = tNumber then
        andThen (parseNumber (tk_text t)) (\<lambda>v.
        andThen (advance False p) (\<lambda>p. Inr (valNum v, p)))
      else if isTok tPunct ''#'' p then
        andThen (advance False p) (\<lambda>p. andThen (parseName p) (\<lambda>(k, p). Inr (valCount k, p)))
      else if isTok tPunct ''@'' p then
        andThen (advance False p) (\<lambda>p. andThen (parseName p) (\<lambda>(k, p). Inr (valOffset k, p)))
      else if isTok tIdent ''filesize'' p then
        andThen (advance False p) (\<lambda>p. Inr (valFilesize, p))
      else if tk_kind t = tIdent \<and> (hasPrefix (tk_text t) ''uint'' \<or> hasPrefix (tk_text t) ''int'') then
        (case uintWidth (tk_text t) of
           None \<Rightarrow> errf (ps_lx p) (UnsupportedIntFun (tk_text t))
         | Some width \<Rightarrow>
             andThen (advance False p) (\<lambda>p.
             if \<not> isTok tPunct ''('' p then errf (ps_lx p) (ExpectedOpenAfter (tk_text t))
             else andThen (advance False p) (\<lambda>p.
             andThen (parseValue n p) (\<lambda>(off, p).
             if \<not> isTok tPunct '')'' p then errf (ps_lx p) (ExpectedCloseAfter (tk_text t))
             else andThen (advance False p) (\<lambda>p. Inr (valUint width off, p))))))
      else if tk_kind t = tIdent then errf (ps_lx p) (UnsupportedIdent (tk_text t))
      else errf (ps_lx p) (UnexpectedToken (tk_text t)))"

text \<open>The fuel of \<open>parseValue\<close>: one unit per nested \<open>uint\<close>, each of which reads tokens.\<close>

definition readValue :: "parser \<Rightarrow> perror + Value \<times> parser" where
  "readValue p = parseValue (Suc (left_over p)) p"

section \<open>Conditions\<close>

definition cmpOps :: "bytes list" where
  "cmpOps = [''=='', ''!='', ''<'', ''>'', ''<='', ''>='']"

definition parseComparisonTail :: "Value \<Rightarrow> parser \<Rightarrow> perror + Node \<times> parser" where
  "parseComparisonTail l p =
     (if tk_kind (ps_tok p) = tPunct \<and> tk_text (ps_tok p) \<in> set cmpOps then
        andThen (advance False p) (\<lambda>p'.
        andThen (readValue p') (\<lambda>(r, p').
        Inr (nodeCmp (tk_text (ps_tok p)) l r, p')))
      else Inr (nodeCmp ''!='' l (valNum 0), p))"

definition parseOfTail :: "quant \<Rightarrow> int \<Rightarrow> parser \<Rightarrow> perror + Node \<times> parser" where
  "parseOfTail q n p =
     andThen (advance False p) (\<lambda>p.
     if isTok tOp ''them'' p then andThen (advance False p) (\<lambda>p. Inr (nodeOf q n [], p))
     else if \<not> isTok tPunct ''('' p then errf (ps_lx p) ExpectedThemOrParen
     else andThen (parseStringSet [CHR 0x27, CHR ''o'', CHR ''f'', CHR 0x27, CHR '' '', CHR ''l'', CHR ''i'', CHR ''s'', CHR ''t''] p)
       (\<lambda>(ids, p). Inr (nodeOf q n ids, p)))"

text \<open>\<open>parsePrimary\<close> calls it on \<open>any\<close>, \<open>all\<close> or \<open>none\<close> only.\<close>

definition parseOf :: "parser \<Rightarrow> perror + Node \<times> parser" where
  "parseOf p =
     (let q = (if tk_text (ps_tok p) = ''all'' then quantAll
               else if tk_text (ps_tok p) = ''none'' then quantNone else quantAny)
      in andThen (advance False p) (\<lambda>p.
         if \<not> isTok tOp ''of'' p then errf (ps_lx p) ExpectedOf
         else parseOfTail q 0 p))"

text \<open>The cases of \<open>parsePrimary\<close> after the parenthesised sub-expression.\<close>

definition parseAtom :: "parser \<Rightarrow> perror + Node \<times> parser" where
  "parseAtom p =
     (let t = ps_tok p in
      if isTok tOp ''true'' p \<or> isTok tOp ''false'' p then
        andThen (advance False p) (\<lambda>p. Inr (nodeBool (tk_text t = ''true''), p))
      else if isTok tOp ''any'' p \<or> isTok tOp ''all'' p \<or> isTok tOp ''none'' p then parseOf p
      else if tk_kind t = tNumber then
        andThen (advance False p) (\<lambda>p.
        if isTok tOp ''of'' p then andThen (parseNumber (tk_text t)) (\<lambda>n. parseOfTail quantN n p)
        else parseComparisonTail (valNum (mustNumber (tk_text t))) p)
      else if isTok tPunct ''$'' p then
        andThen (advance False p) (\<lambda>p.
        andThen (parseName p) (\<lambda>(k, p).
        if isTok tOp ''at'' p then
          andThen (advance False p) (\<lambda>p.
          andThen (readValue p) (\<lambda>(off, p). Inr (nodeStrAt k off, p)))
        else if isTok tOp ''in'' p then errf (ps_lx p) InNotSupported
        else Inr (nodeStr k, p)))
      else if tk_kind t = tIdent \<and> \<not> isValueKeyword (tk_text t) then
        andThen (advance False p) (\<lambda>p.
        if tk_text t = ''near'' \<and> isTok tPunct ''('' p then parseNear p
        else if isTok tPunct ''.'' p then errf (ps_lx p) (ModuleNotSupported (tk_text t))
        else Inr (nodeRuleRef (tk_text t), p))
      else andThen (readValue p) (\<lambda>(l, p). parseComparisonTail l p))"

fun parseOr :: "nat \<Rightarrow> parser \<Rightarrow> perror + Node \<times> parser"
  and orLoop :: "nat \<Rightarrow> Node \<Rightarrow> parser \<Rightarrow> perror + Node \<times> parser"
  and parseAnd :: "nat \<Rightarrow> parser \<Rightarrow> perror + Node \<times> parser"
  and andLoop :: "nat \<Rightarrow> Node \<Rightarrow> parser \<Rightarrow> perror + Node \<times> parser"
  and parseNot :: "nat \<Rightarrow> parser \<Rightarrow> perror + Node \<times> parser"
  and parsePrimary :: "nat \<Rightarrow> parser \<Rightarrow> perror + Node \<times> parser" where
  "parseOr 0 p = Inl OutOfFuel"
| "parseOr (Suc n) p = andThen (parseAnd n p) (\<lambda>(l, p). orLoop n l p)"
| "orLoop 0 l p = Inl OutOfFuel"
| "orLoop (Suc n) l p =
     (if isTok tOp ''or'' p then
        andThen (advance False p) (\<lambda>p. andThen (parseAnd n p) (\<lambda>(r, p). orLoop n (nodeOr l r) p))
      else Inr (l, p))"
| "parseAnd 0 p = Inl OutOfFuel"
| "parseAnd (Suc n) p = andThen (parseNot n p) (\<lambda>(l, p). andLoop n l p)"
| "andLoop 0 l p = Inl OutOfFuel"
| "andLoop (Suc n) l p =
     (if isTok tOp ''and'' p then
        andThen (advance False p) (\<lambda>p. andThen (parseNot n p) (\<lambda>(r, p). andLoop n (nodeAnd l r) p))
      else Inr (l, p))"
| "parseNot 0 p = Inl OutOfFuel"
| "parseNot (Suc n) p =
     (if isTok tOp ''not'' p then
        andThen (advance False p) (\<lambda>p. andThen (parseNot n p) (\<lambda>(x, p). Inr (nodeNot x, p)))
      else parsePrimary n p)"
| "parsePrimary 0 p = Inl OutOfFuel"
| "parsePrimary (Suc n) p =
     (if isTok tPunct ''('' p then
        andThen (advance False p) (\<lambda>p.
        andThen (parseOr n p) (\<lambda>(inner, p).
        if \<not> isTok tPunct '')'' p then errf (ps_lx p) ExpectedCloseParen
        else andThen (advance False p) (\<lambda>p. Inr (inner, p))))
      else parseAtom p)"

definition parseCondition :: "parser \<Rightarrow> perror + Node \<times> parser" where
  "parseCondition p = parseOr (6 * left_over p + 6) p"

section \<open>Progress and fuel\<close>

fun outOfFuel :: "perror \<Rightarrow> bool" where
  "outOfFuel OutOfFuel = True"
| "outOfFuel (InOrigin _ e) = outOfFuel e"
| "outOfFuel (InRule _ e) = outOfFuel e"
| "outOfFuel _ = False"

definition fuelled :: "perror + 'a \<Rightarrow> bool" where
  "fuelled r \<longleftrightarrow> (\<forall>e. r = Inl e \<longrightarrow> \<not> outOfFuel e)"

lemma fuelled_simps [simp]:
  "fuelled (Inr x)" "fuelled (Inl e) \<longleftrightarrow> \<not> outOfFuel e" "fuelled (errf l m)"
  "fuelled (wrapErr (InOrigin s) r) \<longleftrightarrow> fuelled r" "fuelled (wrapErr (InRule s) r) \<longleftrightarrow> fuelled r"
  by (auto simp: fuelled_def errf_def wrapErr_Inl)

lemma fuelled_andThen:
  "fuelled r \<Longrightarrow> (\<And>x. r = Inr x \<Longrightarrow> fuelled (f x)) \<Longrightarrow> fuelled (andThen r f)"
  by (cases r) simp_all

text \<open>
  \<open>reads r p\<close>: the outcome \<open>r\<close> of a parsing function from \<open>p\<close> is not for want of
  fuel and gives nothing back; \<open>readsLess\<close>: it also reads at least one token.
\<close>

definition reads :: "(perror + 'a \<times> parser) \<Rightarrow> parser \<Rightarrow> bool" where
  "reads r p \<longleftrightarrow> fuelled r \<and> (\<forall>x p'. r = Inr (x, p') \<longrightarrow> left_over p' \<le> left_over p)"

definition readsLess :: "(perror + 'a \<times> parser) \<Rightarrow> parser \<Rightarrow> bool" where
  "readsLess r p \<longleftrightarrow> fuelled r \<and> (\<forall>x p'. r = Inr (x, p') \<longrightarrow> left_over p' < left_over p)"

lemma readsLess_reads: "readsLess r p \<Longrightarrow> reads r p"
  by (auto simp: readsLess_def reads_def less_imp_le)

lemma reads_Inr [simp]: "reads (Inr (x, p')) p \<longleftrightarrow> left_over p' \<le> left_over p"
  by (simp add: reads_def)

lemma reads_errf [simp]: "reads (errf l m) p" "readsLess (errf l m) p"
  by (simp_all add: reads_def readsLess_def errf_def)

lemma reads_mono: "reads r p \<Longrightarrow> left_over p \<le> left_over q \<Longrightarrow> reads r q"
  by (auto simp: reads_def)

lemma reads_less: "reads r p \<Longrightarrow> left_over p < left_over q \<Longrightarrow> readsLess r q"
  by (fastforce simp: reads_def readsLess_def)

lemma next_tok_no_fuel: "fuelled (next_tok re l)"
  by (auto simp: next_tok_def errf_def Let_def split: list.splits sum.splits prod.splits option.splits)

lemma advance_no_fuel: "fuelled (advance re p)"
  using next_tok_no_fuel [of re "ps_lx p"] by (auto simp: advance_def split: sum.splits)

lemma parseNumber_no_fuel: "fuelled (parseNumber s)"
  by (auto simp: parseNumber_def Let_def split: option.splits prod.splits)

text \<open>The rules by which a parsing function is checked: after an \<open>advance\<close>, after another
  parsing function, after a number.\<close>

lemma reads_advance:
  "(\<And>p'. advance re p = Inr p' \<Longrightarrow> left_over p' \<le> left_over p \<Longrightarrow> reads (f p') p) \<Longrightarrow>
   reads (andThen (advance re p) f) p"
  using advance_no_fuel [of re p] advance_le(1) [of re p] by (cases "advance re p") (simp_all add: reads_def)

lemma reads_advance':
  "(\<And>p'. advance re p = Inr p' \<Longrightarrow> left_over p' \<le> left_over p \<Longrightarrow> reads (f p') q) \<Longrightarrow>
   reads (andThen (advance re p) f) q"
  using advance_no_fuel [of re p] advance_le(1) [of re p] by (cases "advance re p") (simp_all add: reads_def)

lemma readsLess_advance:
  "tk_kind (ps_tok p) \<noteq> tEOF \<Longrightarrow>
   (\<And>p'. advance re p = Inr p' \<Longrightarrow> left_over p' < left_over p \<Longrightarrow> reads (f p') p') \<Longrightarrow>
   readsLess (andThen (advance re p) f) p"
  using advance_no_fuel [of re p] advance_le(2) [of re p]
  by (cases "advance re p") (fastforce simp: reads_def readsLess_def)+

lemma reads_bind:
  "reads r p \<Longrightarrow> (\<And>x p'. r = Inr (x, p') \<Longrightarrow> left_over p' \<le> left_over p \<Longrightarrow> reads (f x p') q) \<Longrightarrow>
   reads (andThen r (\<lambda>(x, p'). f x p')) q"
  by (cases r) (auto simp: reads_def)

lemma reads_number: "(\<And>n. reads (f n) p) \<Longrightarrow> reads (andThen (parseNumber s) f) p"
  using parseNumber_no_fuel [of s] by (cases "parseNumber s") (auto simp: reads_def)

lemma reads_advance_less:
  "tk_kind (ps_tok p) \<noteq> tEOF \<Longrightarrow>
   (\<And>p'. advance re p = Inr p' \<Longrightarrow> left_over p' < left_over p \<Longrightarrow> reads (f p') p) \<Longrightarrow>
   reads (andThen (advance re p) f) p"
  using advance_no_fuel [of re p] advance_le(2) [of re p]
  by (cases "advance re p") (auto simp: reads_def)

lemma parseName_reads: "reads (parseName p) p"
  by (auto simp: parseName_def intro!: reads_advance)

lemma parseSetItem_reads: "reads (parseSetItem what p) p"
  unfolding parseSetItem_def
  by (auto intro!: reads_advance' reads_bind [OF parseName_reads])

lemma stringSetLoop_reads: "reads (stringSetLoop what ids p) p"
proof (induction what ids p rule: stringSetLoop.induct)
  case (1 what ids p)
  note step = stringSetLoop.simps [of what ids p]
  show ?case
  proof (cases "parseSetItem what p")
    case (Inl e)
    then show ?thesis using parseSetItem_reads [of what p] unfolding step by (simp add: reads_def)
  next
    case (Inr r)
    then obtain k p1 where i: "parseSetItem what p = Inr (k, p1)" by (cases r) simp
    then have le: "left_over p1 \<le> left_over p" using parseSetItem_less by fastforce
    show ?thesis
    proof (cases "isTok tPunct '','' p1")
      case True
      show ?thesis
      proof (cases "advance False p1")
        case (Inr p2)
        have "left_over p2 \<le> left_over p" using advance_le(1) [OF Inr] le by simp
        moreover have "reads (stringSetLoop what (ids @ [k]) p2) p2"
          by (rule "1.IH") (use i True Inr in simp_all)
        ultimately show ?thesis using i True Inr reads_mono unfolding step by auto
      next
        case (Inl e)
        then have "\<not> outOfFuel e" using advance_no_fuel [of False p1] by (simp add: fuelled_def)
        then show ?thesis using i True Inl unfolding step by (simp add: reads_def)
      qed
    next
      case False
      then show ?thesis using i le unfolding step by simp
    qed
  qed
qed

lemma parseStringSet_reads: "reads (parseStringSet what p) p"
  unfolding parseStringSet_def
  by (auto intro!: reads_advance' reads_bind [OF stringSetLoop_reads])

lemma parseNear_reads: "reads (parseNear p) p"
  unfolding parseNear_def
  by (auto intro!: reads_advance' reads_number reads_bind [OF parseStringSet_reads])

lemma parseValue_reads: "left_over p < n \<Longrightarrow> reads (parseValue n p) p"
proof (induction n arbitrary: p)
  case (Suc n)
  have rec: "reads (parseValue n p2) p2"
    if "advance False p = Inr p1" "advance False p1 = Inr p2" "tk_kind (ps_tok p) \<noteq> tEOF" for p1 p2
    using advance_le(1) [OF that(2)] advance_le(2) [OF that(1,3)] Suc.prems by (intro Suc.IH) simp
  show ?case
    by (auto simp: Let_def intro!: reads_advance' reads_number reads_bind [OF parseName_reads]
        split: option.split) (auto intro!: reads_bind [OF rec] reads_advance')
qed simp

lemma readValue_reads: "reads (readValue p) p"
  by (simp add: readValue_def parseValue_reads del: parseValue.simps)

lemma parseComparisonTail_reads: "reads (parseComparisonTail l p) p"
  by (auto simp: parseComparisonTail_def intro!: reads_advance' reads_bind [OF readValue_reads])

lemma parseOfTail_reads: "reads (parseOfTail q n p) p"
  by (auto simp: parseOfTail_def intro!: reads_advance' reads_bind [OF parseStringSet_reads])

lemma parseOf_reads: "reads (parseOf p) p"
  by (auto simp: parseOf_def Let_def intro!: reads_advance' reads_mono [OF parseOfTail_reads])

lemma parseAtom_reads: "reads (parseAtom p) p"
  by (auto simp: parseAtom_def Let_def parseOf_reads
      intro!: reads_advance' reads_number reads_bind [OF parseName_reads] reads_bind [OF readValue_reads]
        reads_mono [OF parseOfTail_reads] reads_mono [OF parseComparisonTail_reads]
        reads_mono [OF parseNear_reads])

text \<open>One turn of a loop: a keyword, an operand, the loop again.\<close>

lemma reads_loop:
  assumes "isTok k w p" "k \<noteq> tEOF"
    and operand: "\<And>p1. left_over p1 < left_over p \<Longrightarrow> reads (operand p1) p1"
    and loop: "\<And>x p2. left_over p2 < left_over p \<Longrightarrow> reads (loop x p2) p2"
  shows "reads (andThen (advance False p) (\<lambda>p. andThen (operand p) (\<lambda>(x, p). loop x p))) p"
proof (rule reads_advance_less [OF isTok_not_EOF [OF assms(1,2)]])
  fix p1 assume lt: "left_over p1 < left_over p"
  show "reads (andThen (operand p1) (\<lambda>(x, p). loop x p)) p"
  proof (rule reads_bind [OF operand [OF lt]])
    fix x p2 assume "left_over p2 \<le> left_over p1"
    with lt have "left_over p2 < left_over p" by simp
    then show "reads (loop x p2) p" by (intro reads_mono [OF loop]) auto
  qed
qed

lemma condition_reads:
  "(6 * left_over p + 6 \<le> n \<longrightarrow> reads (parseOr n p) p) \<and>
   (6 * left_over p + 5 \<le> n \<longrightarrow> reads (orLoop n l p) p) \<and>
   (6 * left_over p + 5 \<le> n \<longrightarrow> reads (parseAnd n p) p) \<and>
   (6 * left_over p + 4 \<le> n \<longrightarrow> reads (andLoop n l p) p) \<and>
   (6 * left_over p + 4 \<le> n \<longrightarrow> reads (parseNot n p) p) \<and>
   (6 * left_over p + 3 \<le> n \<longrightarrow> reads (parsePrimary n p) p)"
proof (induction n arbitrary: l p)
  case (Suc n)
  have pOr: "reads (parseOr n q) q" if "6 * left_over q + 6 \<le> n" for q using Suc.IH that by blast
  have lOr: "reads (orLoop n l q) q" if "6 * left_over q + 5 \<le> n" for l q using Suc.IH that by blast
  have pAnd: "reads (parseAnd n q) q" if "6 * left_over q + 5 \<le> n" for q using Suc.IH that by blast
  have lAnd: "reads (andLoop n l q) q" if "6 * left_over q + 4 \<le> n" for l q using Suc.IH that by blast
  have pNot: "reads (parseNot n q) q" if "6 * left_over q + 4 \<le> n" for q using Suc.IH that by blast
  have pPrim: "reads (parsePrimary n q) q" if "6 * left_over q + 3 \<le> n" for q using Suc.IH that by blast
  show ?case
  proof (intro conjI impI)
    assume le: "6 * left_over p + 6 \<le> Suc n"
    show "reads (parseOr (Suc n) p) p"
      unfolding parseOr.simps
      by (rule reads_bind [OF pAnd]) (use le in \<open>auto intro!: reads_mono [OF lOr]\<close>)
  next
    assume le: "6 * left_over p + 5 \<le> Suc n"
    show "reads (orLoop (Suc n) l p) p"
    proof (cases "isTok tOp ''or'' p")
      case True
      have "reads (andThen (advance False p) (\<lambda>p. andThen (parseAnd n p) (\<lambda>(r, p). orLoop n (nodeOr l r) p))) p"
        by (rule reads_loop [OF True]) (use le in \<open>auto intro!: pAnd lOr\<close>)
      then show ?thesis using True by simp
    qed simp
  next
    assume le: "6 * left_over p + 5 \<le> Suc n"
    show "reads (parseAnd (Suc n) p) p"
      unfolding parseAnd.simps
      by (rule reads_bind [OF pNot]) (use le in \<open>auto intro!: reads_mono [OF lAnd]\<close>)
  next
    assume le: "6 * left_over p + 4 \<le> Suc n"
    show "reads (andLoop (Suc n) l p) p"
    proof (cases "isTok tOp ''and'' p")
      case True
      have "reads (andThen (advance False p) (\<lambda>p. andThen (parseNot n p) (\<lambda>(r, p). andLoop n (nodeAnd l r) p))) p"
        by (rule reads_loop [OF True]) (use le in \<open>auto intro!: pNot lAnd\<close>)
      then show ?thesis using True by simp
    qed simp
  next
    assume le: "6 * left_over p + 4 \<le> Suc n"
    show "reads (parseNot (Suc n) p) p"
    proof (cases "isTok tOp ''not'' p")
      case True
      have "reads (andThen (advance False p) (\<lambda>p. andThen (parseNot n p) (\<lambda>(x, p). Inr (nodeNot x, p)))) p"
        by (rule reads_loop [OF True]) (use le in \<open>auto intro!: pNot\<close>)
      then show ?thesis using True by simp
    qed (use le pPrim in simp)
  next
    assume le: "6 * left_over p + 3 \<le> Suc n"
    show "reads (parsePrimary (Suc n) p) p"
    proof (cases "isTok tPunct ''('' p")
      case True
      have "reads (andThen (advance False p) (\<lambda>p. andThen (parseOr n p) (\<lambda>(inner, p).
          if \<not> isTok tPunct '')'' p then errf (ps_lx p) ExpectedCloseParen
          else andThen (advance False p) (\<lambda>p. Inr (inner, p))))) p"
        by (rule reads_loop [OF True]) (use le in \<open>auto intro!: pOr reads_advance\<close>)
      then show ?thesis using True by simp
    qed (simp add: parseAtom_reads)
  qed
qed simp

text \<open>The condition parser is never out of fuel and gives nothing back.\<close>

lemma parseCondition_reads: "reads (parseCondition p) p"
  using condition_reads [of p "6 * left_over p + 6"] by (simp add: parseCondition_def del: parseOr.simps)

section \<open>The body of a rule\<close>

text \<open>The loop over the modifiers after a string value.\<close>

definition applyMod :: "bytes \<Rightarrow> StringDef \<Rightarrow> StringDef" where
  "applyMod w sd =
     (if w = ''nocase'' then sd\<lparr>sd_NoCase := True\<rparr>
      else if w = ''wide'' then sd\<lparr>sd_Wide := True\<rparr>
      else if w = ''ascii'' then sd\<lparr>sd_ASCII := True\<rparr>
      else if w = ''fullword'' then sd\<lparr>sd_FullWord := True\<rparr>
      else sd)"

function modLoop :: "StringDef \<Rightarrow> parser \<Rightarrow> perror + StringDef \<times> parser" where
  "modLoop sd p =
     (if tk_kind (ps_tok p) = tIdent then
        (let w = map ascii_lower (tk_text (ps_tok p)) in
         if w \<in> {''xor'', ''base64'', ''base64wide''} then
           errf (ps_lx p) (UnsupportedModifier (tk_text (ps_tok p)))
         else if w \<in> {''nocase'', ''wide'', ''ascii'', ''fullword'', ''private''} then
           (case advance False p of
              Inl e \<Rightarrow> Inl e
            | Inr p' \<Rightarrow> modLoop (applyMod w sd) p')
         else Inr (sd, p))
      else Inr (sd, p))"
  by pat_completeness auto
termination
  by (relation "measure (\<lambda>(sd, p). left_over p)") (auto dest: advance_le(2))

declare modLoop.simps [simp del]

definition newString :: "bytes \<Rightarrow> StringDef" where
  "newString k = \<lparr>sd_ID = k, sd_Kind = KindText, sd_Text = [], sd_Mods = [], sd_NoCase = False,
     sd_Wide = False, sd_ASCII = False, sd_FullWord = False\<rparr>"

text \<open>The kind of a string value by its token.\<close>

definition stringValue :: "token \<Rightarrow> StringDef \<Rightarrow> StringDef option" where
  "stringValue t sd =
     (case tk_kind t of
        tString \<Rightarrow> Some (sd\<lparr>sd_Kind := KindText, sd_Text := tk_text t\<rparr>)
      | tHex \<Rightarrow> Some (sd\<lparr>sd_Kind := KindHex, sd_Text := tk_text t\<rparr>)
      | tRegex \<Rightarrow> Some (sd\<lparr>sd_Kind := KindRegex, sd_Text := tk_text t, sd_Mods := tk_mods t\<rparr>)
      | _ \<Rightarrow> None)"

text \<open>Without \<open>wide\<close> a string is ASCII.\<close>

definition defaultASCII :: "StringDef \<Rightarrow> StringDef" where
  "defaultASCII sd = (if \<not> sd_Wide sd then sd\<lparr>sd_ASCII := True\<rparr> else sd)"

text \<open>The case \<open>strings\<close> of the section loop: one definition.\<close>

definition stringStep :: "parser \<Rightarrow> perror + StringDef \<times> parser" where
  "stringStep p =
     (if \<not> isTok tPunct ''$'' p then errf (ps_lx p) (ExpectedStringId (tk_text (ps_tok p)))
      else
        andThen (advance False p) (\<lambda>p.
        andThen (parseName p) (\<lambda>(k, p).
        if \<not> isTok tPunct ''='' p then errf (ps_lx p) (ExpectedEqAfter k)
        else
          andThen (advance True p) (\<lambda>p.
          case stringValue (ps_tok p) (newString k) of
            None \<Rightarrow> errf (ps_lx p) (UnsupportedStringValue k)
          | Some sd \<Rightarrow>
              andThen (advance False p) (\<lambda>p.
              andThen (modLoop sd p) (\<lambda>(sd, p).
              Inr (defaultASCII sd, p)))))))"

text \<open>The case \<open>meta\<close>: one key and its value.\<close>

definition metaStep :: "Rule \<Rightarrow> parser \<Rightarrow> perror + Rule \<times> parser" where
  "metaStep r p =
     (if tk_kind (ps_tok p) \<noteq> tIdent then errf (ps_lx p) (ExpectedMetaKey (tk_text (ps_tok p)))
      else
        (let key = tk_text (ps_tok p) in
         andThen (advance False p) (\<lambda>p.
         andThen (expectPunct ''='' p) (\<lambda>p.
         (let v = tk_text (ps_tok p) in
          andThen (advance False p) (\<lambda>p.
          Inr (r\<lparr>r_Meta := (r_Meta r)(key \<mapsto> v)\<rparr>, p)))))))"

definition sectionWords :: "bytes list" where
  "sectionWords = [''meta'', ''strings'', ''condition'']"

text \<open>A section header: the word and the colon.\<close>

definition headerStep :: "parser \<Rightarrow> perror + parser" where
  "headerStep p = andThen (advance False p) (\<lambda>p. expectPunct '':'' p)"

lemma expectPunct_le: "expectPunct s p = Inr p' \<Longrightarrow> left_over p' \<le> left_over p"
  by (auto simp: expectPunct_def errf_def split: if_splits dest: advance_le(1))

lemma expectPunct_no_fuel: "fuelled (expectPunct s p)"
  by (simp add: expectPunct_def errf_def advance_no_fuel)

lemma headerStep_less:
  assumes "headerStep p = Inr p'" "tk_kind (ps_tok p) \<noteq> tEOF"
  shows "left_over p' < left_over p"
proof -
  obtain p1 where p1: "advance False p = Inr p1" "expectPunct '':'' p1 = Inr p'"
    using assms(1) by (auto simp: headerStep_def)
  with advance_le(2) [OF p1(1) assms(2)] expectPunct_le [OF p1(2)] show ?thesis by simp
qed

lemma headerStep_no_fuel: "fuelled (headerStep p)"
  by (simp add: headerStep_def fuelled_andThen advance_no_fuel expectPunct_no_fuel)

lemma modLoop_reads: "reads (modLoop sd p) p"
proof (induction sd p rule: modLoop.induct)
  case (1 sd p)
  show ?case
  proof (cases "advance False p")
    case (Inl e)
    then show ?thesis using advance_no_fuel [of False p]
      by (subst modLoop.simps) (auto simp: Let_def reads_def errf_def)
  next
    case (Inr p')
    then show ?thesis using advance_le(1) [OF Inr] 1 [OF _ refl _ _ Inr]
      by (subst modLoop.simps) (auto simp: Let_def intro: reads_mono)
  qed
qed

lemma stringStep_reads: "readsLess (stringStep p) p"
proof (cases "isTok tPunct ''$'' p")
  case True
  have neq: "tk_kind (ps_tok p) \<noteq> tEOF" using isTok_not_EOF [OF True] by simp
  have "readsLess (andThen (advance False p) (\<lambda>p.
        andThen (parseName p) (\<lambda>(k, p).
        if \<not> isTok tPunct ''='' p then errf (ps_lx p) (ExpectedEqAfter k)
        else
          andThen (advance True p) (\<lambda>p.
          case stringValue (ps_tok p) (newString k) of
            None \<Rightarrow> errf (ps_lx p) (UnsupportedStringValue k)
          | Some sd \<Rightarrow>
              andThen (advance False p) (\<lambda>p.
              andThen (modLoop sd p) (\<lambda>(sd, p).
              Inr (defaultASCII sd, p))))))) p"
    by (rule readsLess_advance [OF neq])
      (auto intro!: reads_bind [OF parseName_reads] reads_advance' reads_bind [OF modLoop_reads]
        split: option.split)
  with True show ?thesis by (simp add: stringStep_def)
qed (simp add: stringStep_def)

lemma metaStep_reads: "readsLess (metaStep r p) p"
proof (cases "tk_kind (ps_tok p) = tIdent")
  case True
  have e: "reads (andThen (expectPunct s q) f) q"
    if "\<And>q'. left_over q' \<le> left_over q \<Longrightarrow> reads (f q') q" for s q and f :: "parser \<Rightarrow> perror + Rule \<times> parser"
    using that expectPunct_le expectPunct_no_fuel [of s q]
    by (cases "expectPunct s q") (fastforce simp: reads_def)+
  have "readsLess (andThen (advance False p) (\<lambda>q. andThen (expectPunct ''='' q) (\<lambda>q.
      andThen (advance False q) (\<lambda>q'.
      Inr (r\<lparr>r_Meta := (r_Meta r)(tk_text (ps_tok p) \<mapsto> tk_text (ps_tok q))\<rparr>, q'))))) p"
    by (rule readsLess_advance) (auto simp: True intro!: e reads_advance')
  with True show ?thesis by (simp add: metaStep_def Let_def)
qed (simp add: metaStep_def)

text \<open>The loop over the sections; \<open>cond\<close> is \<open>r.Cond\<close>, nil at first.\<close>

function bodyLoop :: "bytes \<Rightarrow> Rule \<Rightarrow> Node option \<Rightarrow> parser \<Rightarrow> perror + Rule \<times> Node option" where
  "bodyLoop sec r cond p =
     (if tk_kind (ps_tok p) = tEOF then Inr (r, cond)
      else if tk_kind (ps_tok p) = tIdent \<and> tk_text (ps_tok p) \<in> set sectionWords then
        (case headerStep p of
           Inl e \<Rightarrow> Inl e
         | Inr p1 \<Rightarrow>
             if tk_text (ps_tok p) = ''condition'' then
               (case parseCondition p1 of
                  Inl e \<Rightarrow> Inl e
                | Inr (node, p2) \<Rightarrow> bodyLoop (tk_text (ps_tok p)) r (Some node) p2)
             else bodyLoop (tk_text (ps_tok p)) r cond p1)
      else if sec = ''meta'' then
        (case metaStep r p of Inl e \<Rightarrow> Inl e | Inr (r', p') \<Rightarrow> bodyLoop sec r' cond p')
      else if sec = ''strings'' then
        (case stringStep p of
           Inl e \<Rightarrow> Inl e
         | Inr (sd, p') \<Rightarrow> bodyLoop sec (r\<lparr>r_Strings := r_Strings r @ [sd]\<rparr>) cond p')
      else errf (ps_lx p) (OutsideSection (tk_text (ps_tok p))))"
  by pat_completeness auto
termination
proof (relation "measure (\<lambda>(sec, r, cond, p). left_over p)", goal_cases)
  case 1
  show ?case by simp
next
  case (2 sec r cond p p1 x node p2)
  then have "left_over p1 < left_over p" using headerStep_less by blast
  moreover have "left_over p2 \<le> left_over p1"
    using 2 parseCondition_reads [of p1] by (auto simp: reads_def)
  ultimately show ?case by simp
next
  case (3 sec r cond p p1)
  then show ?case using headerStep_less by auto
next
  case (4 sec r cond p x r' p')
  then show ?case using metaStep_reads [of r p] by (auto simp: readsLess_def)
next
  case (5 sec r cond p x sd p')
  then show ?case using stringStep_reads [of p] by (auto simp: readsLess_def)
qed

declare bodyLoop.simps [simp del]

definition startParser :: "bytes \<Rightarrow> parser" where
  "startParser s = \<lparr>ps_lx = \<lparr>lx_rest = s, lx_line = 1\<rparr>, ps_tok = mkTok tEOF [] [] 0\<rparr>"

definition parseBody :: "bytes \<Rightarrow> Rule \<Rightarrow> perror + Rule" where
  "parseBody body r =
     andThen (advance False (startParser body)) (\<lambda>p.
     andThen (bodyLoop [] r None p) (\<lambda>(r, cond).
     case cond of
       None \<Rightarrow> Inl NoCondition
     | Some c \<Rightarrow> Inr (r\<lparr>r_Cond := c\<rparr>)))"

section \<open>Rules and files\<close>

function tagsLoop :: "bytes list \<Rightarrow> parser \<Rightarrow> perror + bytes list \<times> parser" where
  "tagsLoop tags p =
     (if tk_kind (ps_tok p) = tIdent then
        (case advance False p of
           Inl e \<Rightarrow> Inl e
         | Inr p' \<Rightarrow> tagsLoop (tags @ [tk_text (ps_tok p)]) p')
      else Inr (tags, p))"
  by pat_completeness auto
termination
  by (relation "measure (\<lambda>(tags, p). left_over p)") (auto dest: advance_le(2))

declare tagsLoop.simps [simp del]

lemma tagsLoop_reads: "reads (tagsLoop tags p) p"
proof (induction tags p rule: tagsLoop.induct)
  case (1 tags p)
  show ?case
  proof (cases "advance False p")
    case (Inl e)
    then show ?thesis using advance_no_fuel [of False p]
      by (subst tagsLoop.simps) (auto simp: reads_def)
  next
    case (Inr p')
    then show ?thesis using advance_le(1) [OF Inr] 1 [OF _ Inr]
      by (subst tagsLoop.simps) (auto intro: reads_mono)
  qed
qed

definition parseTags :: "parser \<Rightarrow> perror + bytes list \<times> parser" where
  "parseTags p =
     (if isTok tPunct '':'' p then andThen (advance False p) (\<lambda>p. tagsLoop [] p) else Inr ([], p))"

lemma parseTags_reads: "reads (parseTags p) p"
  by (auto simp: parseTags_def intro!: reads_advance reads_mono [OF tagsLoop_reads])

definition newRule :: "bytes \<Rightarrow> Rule" where
  "newRule name = \<lparr>r_Name = name, r_Tags = [], r_Meta = (\<lambda>_. None), r_Strings = [],
     r_Cond = nodeBool False, r_Private = False, r_Global = False, r_Origin = [], r_matchers = [],
     r_literals = [], r_prefilterable = False\<rparr>"

definition parseRule :: "parser \<Rightarrow> perror + Rule \<times> parser" where
  "parseRule p =
     andThen (advance False p) (\<lambda>p.
     if tk_kind (ps_tok p) \<noteq> tIdent then errf (ps_lx p) ExpectedRuleName
     else
       (let name = tk_text (ps_tok p) in
        andThen (advance False p) (\<lambda>p.
        andThen (parseTags p) (\<lambda>(tags, p).
        if tk_kind (ps_tok p) \<noteq> tHex then errf (ps_lx p) (ExpectedRuleBody name)
        else
          (let body = tk_text (ps_tok p) in
           andThen (advance False p) (\<lambda>p.
           andThen (wrapErr (InRule name) (parseBody body ((newRule name)\<lparr>r_Tags := tags\<rparr>)))
             (\<lambda>r. Inr (r, p))))))))"

lemma parseRule_less:
  assumes "parseRule p = Inr (r, p')" "tk_kind (ps_tok p) \<noteq> tEOF"
  shows "left_over p' < left_over p"
proof -
  obtain p1 p2 ts p3 where p: "advance False p = Inr p1" "advance False p1 = Inr p2"
      "parseTags p2 = Inr (ts, p3)" "advance False p3 = Inr p'"
    using assms(1) unfolding parseRule_def Let_def errf_def by (auto split: if_splits sum.splits)
  have "left_over p3 \<le> left_over p2" using parseTags_reads [of p2] p(3) by (simp add: reads_def)
  with advance_le(2) [OF p(1) assms(2)] advance_le(1) [OF p(2)] advance_le(1) [OF p(4)]
  show ?thesis by simp
qed

text \<open>The loop over \<open>private\<close> and \<open>global\<close>.\<close>

function flagsLoop :: "bool \<Rightarrow> bool \<Rightarrow> parser \<Rightarrow> perror + bool \<times> bool \<times> parser" where
  "flagsLoop priv glob p =
     (if isTok tIdent ''private'' p \<or> isTok tIdent ''global'' p then
        (case advance False p of
           Inl e \<Rightarrow> Inl e
         | Inr p' \<Rightarrow> flagsLoop (priv \<or> isTok tIdent ''private'' p) (glob \<or> isTok tIdent ''global'' p) p')
      else Inr (priv, glob, p))"
  by pat_completeness auto
termination
  by (relation "measure (\<lambda>(priv, glob, p). left_over p)") (auto dest: advance_le(2) simp: isTok_def)

declare flagsLoop.simps [simp del]

lemma flagsLoop_le: "flagsLoop priv glob p = Inr (a, b, p') \<Longrightarrow> left_over p' \<le> left_over p"
proof (induction priv glob p rule: flagsLoop.induct)
  case (1 priv glob p)
  note step = flagsLoop.simps [of priv glob p]
  show ?case
  proof (cases "isTok tIdent ''private'' p \<or> isTok tIdent ''global'' p")
    case True
    with "1.prems" obtain p1 where p1: "advance False p = Inr p1"
      by (auto simp: step split: sum.splits)
    then have "left_over p' \<le> left_over p1" using "1.IH" [OF True p1] "1.prems" True by (simp add: step)
    with advance_le(1) [OF p1] show ?thesis by simp
  next
    case False
    with "1.prems" show ?thesis by (simp add: step)
  qed
qed

text \<open>The rule in hand, once its flags are read.\<close>

definition ruleStep :: "bytes \<Rightarrow> parser \<Rightarrow> perror + Rule \<times> parser" where
  "ruleStep origin p =
     andThen (flagsLoop False False p) (\<lambda>(priv, glob, p).
     if \<not> isTok tIdent ''rule'' p then errf (ps_lx p) (ExpectedRule (tk_text (ps_tok p)))
     else
       andThen (wrapErr (InOrigin origin) (parseRule p)) (\<lambda>(r, p).
       Inr (r\<lparr>r_Private := priv, r_Global := glob, r_Origin := origin\<rparr>, p)))"

lemma ruleStep_less: "ruleStep origin p = Inr (r, p') \<Longrightarrow> left_over p' < left_over p"
proof -
  assume r: "ruleStep origin p = Inr (r, p')"
  then obtain a b p1 where f: "flagsLoop False False p = Inr (a, b, p1)"
    by (auto simp: ruleStep_def)
  with r have tok: "isTok tIdent ''rule'' p1" by (auto simp: ruleStep_def errf_def split: if_splits)
  with r f obtain r0 where "parseRule p1 = Inr (r0, p')" by (auto simp: ruleStep_def split: sum.splits)
  from parseRule_less [OF this] tok isTok_not_EOF [OF tok] have "left_over p' < left_over p1" by simp
  with flagsLoop_le [OF f] show ?thesis by simp
qed

function parseLoop :: "bytes \<Rightarrow> Rule list \<Rightarrow> parser \<Rightarrow> perror + Rule list" where
  "parseLoop origin out p =
     (if tk_kind (ps_tok p) = tEOF then Inr out
      else if isTok tIdent ''import'' p \<or> isTok tIdent ''include'' p then
        (case advance False p of
           Inl e \<Rightarrow> Inl e
         | Inr p1 \<Rightarrow>
             (case advance False p1 of Inl e \<Rightarrow> Inl e | Inr p2 \<Rightarrow> parseLoop origin out p2))
      else
        (case ruleStep origin p of
           Inl e \<Rightarrow> Inl e
         | Inr (r, p') \<Rightarrow> parseLoop origin (out @ [r]) p'))"
  by pat_completeness auto
termination
proof (relation "measure (\<lambda>(origin, out, p). left_over p)", goal_cases)
  case 1
  show ?case by simp
next
  case (2 origin out p p1 p2)
  then have "left_over p1 < left_over p" "left_over p2 \<le> left_over p1"
    by (auto intro: advance_le)
  then show ?case by simp
next
  case (3 origin out p x r p')
  then show ?case using ruleStep_less by auto
qed

declare parseLoop.simps [simp del]

definition Parse :: "bytes \<Rightarrow> bytes \<Rightarrow> perror + Rule list" where
  "Parse src origin =
     andThen (wrapErr (InOrigin origin) (advance False (startParser src))) (\<lambda>p.
     andThen (parseLoop origin [] p) (\<lambda>out.
     if out = [] then Inl (NoRules origin) else Inr out))"

section \<open>What a parsed file satisfies\<close>

definition encodedString :: "StringDef \<Rightarrow> bool" where
  "encodedString sd \<longleftrightarrow> sd_ASCII sd \<or> sd_Wide sd"

definition parsedRule :: "Rule \<Rightarrow> bool" where
  "parsedRule r \<longleftrightarrow> freshRule r \<and> (\<forall>sd\<in>set (r_Strings r). encodedString sd)"

lemma encodedString_default [simp]: "encodedString (defaultASCII sd)"
  by (simp add: encodedString_def defaultASCII_def)

lemma stringStep_encoded: "stringStep p = Inr (sd, p') \<Longrightarrow> encodedString sd"
  by (auto simp: stringStep_def errf_def split: if_splits option.splits)

lemma metaStep_fields:
  "metaStep r p = Inr (r', p') \<Longrightarrow> r_Strings r' = r_Strings r \<and> r_matchers r' = r_matchers r \<and>
     r_literals r' = r_literals r"
  by (auto simp: metaStep_def Let_def errf_def split: if_splits)

lemma metaStep_parsed: "metaStep r p = Inr (r', p') \<Longrightarrow> parsedRule r \<Longrightarrow> parsedRule r'"
  using metaStep_fields [of r p r' p'] by (simp add: parsedRule_def freshRule_def)

lemma bodyLoop_parsed:
  "bodyLoop sec r cond p = Inr (r', cond') \<Longrightarrow> parsedRule r \<Longrightarrow> parsedRule r'"
proof (induction sec r cond p rule: bodyLoop.induct)
  case (1 sec r cond p)
  note step = bodyLoop.simps [of sec r cond p]
  let ?word = "tk_kind (ps_tok p) = tIdent \<and> tk_text (ps_tok p) \<in> set sectionWords"
  consider (eof) "tk_kind (ps_tok p) = tEOF" | (hdr) "tk_kind (ps_tok p) \<noteq> tEOF" ?word
    | (mt) "tk_kind (ps_tok p) \<noteq> tEOF" "\<not> ?word" "sec = ''meta''"
    | (st) "tk_kind (ps_tok p) \<noteq> tEOF" "\<not> ?word" "sec = ''strings''"
    | (no) "tk_kind (ps_tok p) \<noteq> tEOF" "\<not> ?word" "sec \<noteq> ''meta''" "sec \<noteq> ''strings''" by blast
  then show ?case
  proof cases
    case eof
    with "1.prems" show ?thesis by (simp add: step)
  next
    case hdr
    then obtain p1 where p1: "headerStep p = Inr p1"
      using "1.prems"(1) by (auto simp: step split: sum.splits)
    show ?thesis
    proof (cases "tk_text (ps_tok p) = ''condition''")
      case True
      then obtain node p2 where "parseCondition p1 = Inr (node, p2)"
        using "1.prems"(1) hdr p1 by (auto simp: step split: sum.splits)
      then show ?thesis
        using "1.IH"(1) [OF hdr p1 True] "1.prems" hdr p1 True by (simp add: step)
    next
      case False
      then show ?thesis using "1.IH"(2) [OF hdr p1 False] "1.prems" hdr p1 by (simp add: step)
    qed
  next
    case mt
    then obtain r1 p1 where m: "metaStep r p = Inr (r1, p1)"
      using "1.prems"(1) unfolding step by (cases "metaStep r p") auto
    have "bodyLoop sec r1 cond p1 = Inr (r', cond')"
      using "1.prems"(1) unfolding step using mt m by auto
    then show ?thesis
      using "1.IH"(3) [OF mt m refl] metaStep_parsed [OF m] "1.prems"(2) by blast
  next
    case st
    then obtain sd p1 where m: "stringStep p = Inr (sd, p1)"
      using "1.prems"(1) unfolding step by (cases "stringStep p") auto
    have "parsedRule (r\<lparr>r_Strings := r_Strings r @ [sd]\<rparr>)"
      using "1.prems"(2) stringStep_encoded [OF m] by (auto simp: parsedRule_def freshRule_def)
    moreover have "bodyLoop sec (r\<lparr>r_Strings := r_Strings r @ [sd]\<rparr>) cond p1 = Inr (r', cond')"
      using "1.prems"(1) unfolding step using st m by auto
    moreover have "sec \<noteq> ''meta''" using st(3) by simp
    ultimately show ?thesis using "1.IH"(4) [OF st(1,2) _ st(3) m refl] by blast
  next
    case no
    with "1.prems" show ?thesis by (simp add: step errf_def)
  qed
qed

lemma parsedRule_newRule [simp]: "parsedRule ((newRule name)\<lparr>r_Tags := tags\<rparr>)"
  by (simp add: parsedRule_def freshRule_def newRule_def)

lemma parsedRule_cond [simp]: "parsedRule (r\<lparr>r_Cond := c\<rparr>) = parsedRule r"
  by (simp add: parsedRule_def freshRule_def)

lemma parseBody_parsed: "parseBody body r = Inr r' \<Longrightarrow> parsedRule r \<Longrightarrow> parsedRule r'"
  by (auto simp: parseBody_def dest!: bodyLoop_parsed split: option.splits)

lemma parseRule_parsed: "parseRule p = Inr (r, p') \<Longrightarrow> parsedRule r"
  by (auto simp: parseRule_def Let_def errf_def dest!: parseBody_parsed split: if_splits sum.splits)

lemma ruleStep_parsed: "ruleStep origin p = Inr (r, p') \<Longrightarrow> parsedRule r \<and> r_Origin r = origin"
proof -
  assume "ruleStep origin p = Inr (r, p')"
  then obtain r0 q a b where "parseRule q = Inr (r0, p')"
    "r = r0\<lparr>r_Private := a, r_Global := b, r_Origin := origin\<rparr>"
    by (auto simp: ruleStep_def errf_def split: if_splits sum.splits)
  then show ?thesis using parseRule_parsed by (simp add: parsedRule_def freshRule_def)
qed

lemma parseLoop_parsed:
  "parseLoop origin out p = Inr rules \<Longrightarrow> \<forall>r\<in>set out. parsedRule r \<and> r_Origin r = origin \<Longrightarrow>
   \<forall>r\<in>set rules. parsedRule r \<and> r_Origin r = origin"
proof (induction origin out p rule: parseLoop.induct)
  case (1 origin out p)
  note step = parseLoop.simps [of origin out p]
  let ?imp = "isTok tIdent ''import'' p \<or> isTok tIdent ''include'' p"
  consider (eof) "tk_kind (ps_tok p) = tEOF" | (imp) "tk_kind (ps_tok p) \<noteq> tEOF" ?imp
    | (rule) "tk_kind (ps_tok p) \<noteq> tEOF" "\<not> ?imp" by blast
  then show ?case
  proof cases
    case eof
    with "1.prems" show ?thesis by (simp add: step)
  next
    case imp
    then obtain p1 p2 where p: "advance False p = Inr p1" "advance False p1 = Inr p2"
      using "1.prems"(1) by (auto simp: step split: sum.splits)
    have "parseLoop origin out p2 = Inr rules"
      using "1.prems"(1) unfolding step using imp p by simp
    with "1.IH"(1) [OF imp p] "1.prems"(2) show ?thesis by blast
  next
    case rule
    then obtain r p1 where r: "ruleStep origin p = Inr (r, p1)"
      using "1.prems"(1) unfolding step by (auto split: sum.splits)
    have "parseLoop origin (out @ [r]) p1 = Inr rules"
      using "1.prems"(1) unfolding step using rule r by simp
    moreover have "\<forall>q\<in>set (out @ [r]). parsedRule q \<and> r_Origin q = origin"
      using "1.prems"(2) ruleStep_parsed [OF r] by auto
    ultimately show ?thesis using "1.IH"(2) [OF rule r refl] by blast
  qed
qed

section \<open>Fuel through the rule parser\<close>

lemma reads_fuelled: "reads r p \<Longrightarrow> fuelled r" "readsLess r p \<Longrightarrow> fuelled r"
  by (simp_all add: reads_def readsLess_def)

lemma bodyLoop_fuelled: "fuelled (bodyLoop sec r cond p)"
proof (induction sec r cond p rule: bodyLoop.induct)
  case (1 sec r cond p)
  note step = bodyLoop.simps [of sec r cond p]
  let ?word = "tk_kind (ps_tok p) = tIdent \<and> tk_text (ps_tok p) \<in> set sectionWords"
  have hdr: "fuelled (headerStep p)" by (rule headerStep_no_fuel)
  have cond: "fuelled (parseCondition q)" for q by (rule reads_fuelled(1) [OF parseCondition_reads])
  have mt: "fuelled (metaStep r p)" by (rule reads_fuelled(2) [OF metaStep_reads])
  have st: "fuelled (stringStep p)" by (rule reads_fuelled(2) [OF stringStep_reads])
  show ?case
  proof (cases "tk_kind (ps_tok p) = tEOF")
    case eof: False
    show ?thesis
    proof (cases ?word)
      case w: True
      show ?thesis
      proof (cases "headerStep p")
        case (Inr p1)
        then show ?thesis
          using 1(1) [OF eof w Inr] 1(2) [OF eof w Inr] eof w cond [of p1] unfolding step
          by (auto split: sum.split)
      qed (use hdr eof w in \<open>simp add: step\<close>)
    next
      case w: False
      consider "sec = ''meta''" | "sec \<noteq> ''meta''" "sec = ''strings''" | "sec \<noteq> ''meta''" "sec \<noteq> ''strings''"
        by blast
      then show ?thesis
      proof cases
        case 1
        then show ?thesis
          using "1.IH"(3) [OF eof w 1] eof w mt unfolding step by (auto split: sum.split)
      next
        case 2
        then show ?thesis
          using "1.IH"(4) [OF eof w 2] eof w st unfolding step by (auto split: sum.split)
      qed (use eof w in \<open>auto simp: step\<close>)
    qed
  qed (simp add: step)
qed

lemma parseBody_fuelled: "fuelled (parseBody body r)"
  unfolding parseBody_def
  by (auto intro!: fuelled_andThen advance_no_fuel bodyLoop_fuelled split: option.split)

lemma parseRule_fuelled: "fuelled (parseRule p)"
  unfolding parseRule_def Let_def
  by (auto intro!: fuelled_andThen advance_no_fuel parseBody_fuelled reads_fuelled(1) [OF parseTags_reads])

lemma flagsLoop_fuelled: "fuelled (flagsLoop a b p)"
proof (induction a b p rule: flagsLoop.induct)
  case (1 a b p)
  then show ?case using advance_no_fuel [of False p]
    by (subst flagsLoop.simps) (auto split: sum.split)
qed

lemma ruleStep_fuelled: "fuelled (ruleStep origin p)"
  unfolding ruleStep_def
  by (auto intro!: fuelled_andThen flagsLoop_fuelled parseRule_fuelled)

lemma parseLoop_fuelled: "fuelled (parseLoop origin out p)"
proof (induction origin out p rule: parseLoop.induct)
  case (1 origin out p)
  then show ?case
    using advance_no_fuel [of False p] advance_no_fuel [of False] ruleStep_fuelled [of origin p]
    by (subst parseLoop.simps) (auto simp: fuelled_def split: sum.split)
qed

text \<open>The units of a size.\<close>

definition sizeUnits :: "(bytes \<times> int) list" where
  "sizeUnits = [([], 1), (''KB'', 1024), (''MB'', 1024 * 1024), (''GB'', 1024 * 1024 * 1024)]"

lemma digit_not_letter: "isDigitByte c \<Longrightarrow> \<not> CHR ''a'' \<le> c \<and> \<not> CHR ''A'' \<le> c"
proof -
  assume "isDigitByte c"
  then have "c \<le> CHR ''9''" by (simp add: isDigitByte_def)
  moreover have "\<not> CHR ''a'' \<le> CHR ''9''" "\<not> CHR ''A'' \<le> CHR ''9''" by code_simp+
  ultimately show ?thesis using order_trans by blast
qed

lemma digit_upper: "isDigitByte c \<Longrightarrow> asciiUpper c = c"
  using digit_not_letter by (simp add: asciiUpper_def)

lemma digit_lower: "isDigitByte c \<Longrightarrow> ascii_lower c = c"
  using digit_not_letter by (simp add: ascii_lower_def)

lemma hasSuffix_append: "length q = length p \<Longrightarrow> hasSuffix (s @ q) p \<longleftrightarrow> q = p"
  by (simp add: hasSuffix_def)

lemma digitVal_digits:
  "digitVal CHR ''0'' = Some 0" "digitVal CHR ''1'' = Some 1" "digitVal CHR ''2'' = Some 2"
  "digitVal CHR ''3'' = Some 3" "digitVal CHR ''4'' = Some 4" "digitVal CHR ''5'' = Some 5"
  "digitVal CHR ''6'' = Some 6" "digitVal CHR ''7'' = Some 7" "digitVal CHR ''8'' = Some 8"
  "digitVal CHR ''9'' = Some 9"
  by code_simp+

lemma digits_no_suffix: "list_all isDigitByte s \<Longrightarrow> \<not> hasSuffix s [a, CHR ''B'']"
proof
  assume s: "list_all isDigitByte s" "hasSuffix s [a, CHR ''B'']"
  then have "CHR ''B'' \<in> set s" by (auto simp: hasSuffix_suffix suffix_def)
  with s(1) have "isDigitByte (CHR ''B'')" by (simp add: list_all_iff)
  moreover have "\<not> isDigitByte (CHR ''B'')" by code_simp
  ultimately show False by simp
qed

lemma digits_no_hex: "list_all isDigitByte s \<Longrightarrow> \<not> hasPrefix (map ascii_lower s) ''0x''"
proof
  assume s: "list_all isDigitByte s" "hasPrefix (map ascii_lower s) ''0x''"
  then have "map ascii_lower s = s" by (simp add: list_all_iff digit_lower map_idI)
  with s(2) have "CHR ''x'' \<in> set s" by (auto simp: hasPrefix_prefix prefix_def)
  with s(1) have "isDigitByte (CHR ''x'')" by (simp add: list_all_iff)
  moreover have "\<not> isDigitByte (CHR ''x'')" by code_simp
  ultimately show False by simp
qed

section \<open>Properties\<close>

text \<open>
  C4. Parsing ends with rules or with an error of the source: the fuel of the model never runs
  out, whatever the file.
\<close>

theorem Parse_total: "fuelled (Parse src origin)"
  unfolding Parse_def
  by (auto intro!: fuelled_andThen advance_no_fuel parseLoop_fuelled)

text \<open>
  C5. A parsed file has at least one rule; every rule names its file, carries no matcher yet,
  and each of its strings has an encoding, so that compiling it never fails for the lack of one.
\<close>

theorem Parse_wellformed:
  assumes "Parse src origin = Inr rules"
  shows "rules \<noteq> [] \<and>
    (\<forall>r\<in>set rules. r_Origin r = origin \<and> r_matchers r = [] \<and> r_literals r = [] \<and>
       (\<forall>sd\<in>set (r_Strings r). (sd_ASCII sd \<or> sd_Wide sd) \<and>
          (\<forall>rx k. compileString rx sd \<noteq> Inl (ErrNoEncoding k))))"
proof -
  obtain p where p: "parseLoop origin [] p = Inr rules" "rules \<noteq> []"
    using assms by (auto simp: Parse_def split: if_splits)
  have enc: "compileString rx sd \<noteq> Inl (ErrNoEncoding k)" if "encodedString sd" for rx sd k
    using that by (auto simp: compileString_def encodedString_def Let_def
        split: StringKind.split sum.split option.split)
  show ?thesis
    using p(2) parseLoop_parsed [OF p(1)] enc by (auto simp: parsedRule_def freshRule_def encodedString_def)
qed

definition sampleSource :: bytes where
  "sampleSource = ''rule r { strings: $a = '' @ [CHR 0x22] @ ''x'' @ [CHR 0x22] @ '' condition: $a }''"

lemma Parse_wellformed_witness:
  "\<exists>rules. Parse sampleSource ''f'' = Inr rules \<and> rules \<noteq> []"
proof -
  have "\<not> isl (Parse sampleSource ''f'')" by code_simp
  then obtain rules where "Parse sampleSource ''f'' = Inr rules" by (cases "Parse sampleSource ''f''") auto
  with Parse_wellformed [OF this] show ?thesis by blast
qed

text \<open>
  The number of a condition is an \<open>int64\<close>; it is the decimal value times the unit when
  that fits, and wraps around silently when it does not.
\<close>

theorem parseNumber_value:
  assumes "list_all isDigitByte s" and "parseInt10 s = Some n" and "(suf, unit) \<in> set sizeUnits"
  shows "parseNumber (s @ suf) = Inr (wrap64 (n * unit))"
proof -
  have up: "map asciiUpper s = s" using assms(1) digit_upper by (simp add: list_all_iff map_idI)
  have upB: "map asciiUpper ''KB'' = ''KB''" "map asciiUpper ''MB'' = ''MB''" "map asciiUpper ''GB'' = ''GB''"
    by code_simp+
  from assms(3) consider "suf = [] \<and> unit = 1" | "suf = ''KB'' \<and> unit = 1024"
    | "suf = ''MB'' \<and> unit = 1024 * 1024" | "suf = ''GB'' \<and> unit = 1024 * 1024 * 1024"
    by (auto simp: sizeUnits_def)
  then show ?thesis
    using assms(2) up upB digits_no_suffix [OF assms(1)] digits_no_hex [OF assms(1)]
    by cases (simp_all add: parseNumber_def hasSuffix_append Let_def)
qed

lemma parseNumber_value_witness:
  "parseNumber ''200KB'' = Inr 204800 \<and> parseNumber ''9007199254740992KB'' = Inr (- (2 ^ 63))"
proof
  have "list_all isDigitByte ''200''" by code_simp
  moreover have "parseInt10 ''200'' = Some 200"
    by (simp add: parseInt10_def digitVal_digits int64_range_def)
  ultimately show "parseNumber ''200KB'' = Inr 204800"
    using parseNumber_value [of "''200''" 200 "''KB''" 1024]
    by (simp add: sizeUnits_def wrap64_def)
  have "list_all isDigitByte ''9007199254740992''" by code_simp
  moreover have "parseInt10 ''9007199254740992'' = Some 9007199254740992"
    by (simp add: parseInt10_def digitVal_digits int64_range_def)
  ultimately show "parseNumber ''9007199254740992KB'' = Inr (- (2 ^ 63))"
    using parseNumber_value [of "''9007199254740992''" 9007199254740992 "''KB''" 1024]
    by (simp add: sizeUnits_def wrap64_def)
qed

end
