(* ===== verification/YaraRoundtrip.thy ===== *)
theory YaraRoundtrip
  imports YaraParser
begin

text \<open>
  A printer for conditions and the proof that the condition parser of \<open>rule.go\<close> reads back
  what it prints: lexing the text gives the tokens, and parsing the tokens gives the tree.
\<close>

section \<open>Token streams\<close>

type_synonym tok = "tokKind \<times> bytes"

text \<open>The parser stands at the first of these tokens, and \<open>advance\<close> goes through the others
  to the end of the file.\<close>

fun at :: "tok list \<Rightarrow> parser \<Rightarrow> bool" where
  "at [] p \<longleftrightarrow> tk_kind (ps_tok p) = tEOF"
| "at ((k, s) # ts) p \<longleftrightarrow>
     k \<noteq> tEOF \<and> tk_kind (ps_tok p) = k \<and> tk_text (ps_tok p) = s \<and>
     (\<exists>p'. advance False p = Inr p' \<and> at ts p')"

lemma at_left_over: "at ts p \<Longrightarrow> length ts \<le> left_over p"
proof (induction ts p rule: at.induct)
  case (2 k s ts p)
  then obtain p' where p': "advance False p = Inr p'" "at ts p'" by auto
  have "left_over p' < left_over p" using advance_le(2) [OF p'(1)] 2 by auto
  with 2 p' show ?case by fastforce
qed simp

lemma at_isTok: "at ((k, s) # ts) p \<Longrightarrow> isTok k' s' p \<longleftrightarrow> k' = k \<and> s' = s"
  by (auto simp: isTok_def)

lemma at_Nil_isTok: "at [] p \<Longrightarrow> k \<noteq> tEOF \<Longrightarrow> \<not> isTok k s p"
  by (auto simp: isTok_def)

lemma at_step:
  assumes "at ((k, s) # ts) p"
  obtains p' where "advance False p = Inr p'" "at ts p'" "tk_kind (ps_tok p) = k" "tk_text (ps_tok p) = s"
  using assms by auto

section \<open>Printing\<close>

definition goodName :: "bytes \<Rightarrow> bool" where
  "goodName s \<longleftrightarrow> s \<noteq> [] \<and> isIdentStart (hd s) \<and> list_all isIdentChar s"

definition okId :: "bytes \<Rightarrow> bool" where
  "okId k \<longleftrightarrow> k \<noteq> [] \<and> hd k = CHR ''$'' \<and> goodName (tl k)"

definition nameTok :: "bytes \<Rightarrow> tok" where
  "nameTok s = (if s \<in> set opWords then tOp else tIdent, s)"

fun valueToks :: "Value \<Rightarrow> tok list" where
  "valueToks (valNum n) = [(tNumber, showNat (nat n))]"
| "valueToks (valCount k) = [(tPunct, ''#''), nameTok (tl k)]"
| "valueToks (valOffset k) = [(tPunct, ''@''), nameTok (tl k)]"
| "valueToks valFilesize = [(tIdent, ''filesize'')]"
| "valueToks (valUint w v) =
     [(tIdent, ''uint'' @ showNat w), (tPunct, ''('')] @ valueToks v @ [(tPunct, '')'')]"

fun okValue :: "Value \<Rightarrow> bool" where
  "okValue (valNum n) \<longleftrightarrow> 0 \<le> n \<and> n < 2 ^ 63"
| "okValue (valCount k) \<longleftrightarrow> okId k"
| "okValue (valOffset k) \<longleftrightarrow> okId k"
| "okValue valFilesize \<longleftrightarrow> True"
| "okValue (valUint w v) \<longleftrightarrow> (w = 8 \<or> w = 16 \<or> w = 32) \<and> okValue v"

definition itemToks :: "bytes \<Rightarrow> tok list" where
  "itemToks k = [(tPunct, ''$''), nameTok (tl (trimStar k))] @
     (if hasSuffix k ''*'' then [(tPunct, ''*'')] else [])"

fun itemsToks :: "bytes list \<Rightarrow> tok list" where
  "itemsToks [] = []"
| "itemsToks [k] = itemToks k"
| "itemsToks (k # ks) = itemToks k @ [(tPunct, '','')] @ itemsToks ks"

definition setToks :: "bytes list \<Rightarrow> tok list" where
  "setToks ks = [(tPunct, ''('')] @ itemsToks ks @ [(tPunct, '')'')]"

definition okSet :: "bytes list \<Rightarrow> bool" where
  "okSet ks \<longleftrightarrow> ks \<noteq> [] \<and> list_all (\<lambda>k. okId (trimStar k)) ks"

definition quantToks :: "quant \<Rightarrow> int \<Rightarrow> tok list" where
  "quantToks q n =
     (case q of quantAny \<Rightarrow> [(tOp, ''any'')] | quantAll \<Rightarrow> [(tOp, ''all'')]
      | quantNone \<Rightarrow> [(tOp, ''none'')] | quantN \<Rightarrow> [(tNumber, showNat (nat n))])"

text \<open>Every compound condition is printed in parentheses.\<close>

fun nodeToks :: "Node \<Rightarrow> tok list" where
  "nodeToks (nodeBool v) = [(tOp, if v then ''true'' else ''false'')]"
| "nodeToks (nodeAnd l r) =
     [(tPunct, ''('')] @ nodeToks l @ [(tOp, ''and'')] @ nodeToks r @ [(tPunct, '')'')]"
| "nodeToks (nodeOr l r) =
     [(tPunct, ''('')] @ nodeToks l @ [(tOp, ''or'')] @ nodeToks r @ [(tPunct, '')'')]"
| "nodeToks (nodeNot x) = [(tPunct, ''(''), (tOp, ''not'')] @ nodeToks x @ [(tPunct, '')'')]"
| "nodeToks (nodeStr k) = [(tPunct, ''$''), nameTok (tl k)]"
| "nodeToks (nodeStrAt k v) = [(tPunct, ''$''), nameTok (tl k), (tOp, ''at'')] @ valueToks v"
| "nodeToks (nodeOf q n ks) =
     quantToks q n @ [(tOp, ''of'')] @ (if ks = [] then [(tOp, ''them'')] else setToks ks)"
| "nodeToks (nodeNear a b d) =
     [(tIdent, ''near''), (tPunct, ''('')] @ setToks a @ [(tPunct, '','')] @ setToks b @
     [(tPunct, '',''), (tNumber, showNat (nat d)), (tPunct, '')'')]"
| "nodeToks (nodeRuleRef name) = [(tIdent, name)]"
| "nodeToks (nodeCmp op l r) = valueToks l @ [(tPunct, op)] @ valueToks r"

fun okNode :: "Node \<Rightarrow> bool" where
  "okNode (nodeBool v) \<longleftrightarrow> True"
| "okNode (nodeAnd l r) \<longleftrightarrow> okNode l \<and> okNode r"
| "okNode (nodeOr l r) \<longleftrightarrow> okNode l \<and> okNode r"
| "okNode (nodeNot x) \<longleftrightarrow> okNode x"
| "okNode (nodeStr k) \<longleftrightarrow> okId k"
| "okNode (nodeStrAt k v) \<longleftrightarrow> okId k \<and> okValue v"
| "okNode (nodeOf q n ks) \<longleftrightarrow>
     (if q = quantN then 0 \<le> n \<and> n < 2 ^ 63 else n = 0) \<and> (ks = [] \<or> okSet ks)"
| "okNode (nodeNear a b d) \<longleftrightarrow> okSet a \<and> okSet b \<and> 0 \<le> d \<and> d < 2 ^ 63"
| "okNode (nodeRuleRef name) \<longleftrightarrow>
     goodName name \<and> name \<notin> set opWords \<and> \<not> isValueKeyword name"
| "okNode (nodeCmp op l r) \<longleftrightarrow> op \<in> set cmpOps \<and> okValue l \<and> okValue r"

definition tokText :: "tok list \<Rightarrow> bytes" where
  "tokText ts = concat (map (\<lambda>(k, s). s @ '' '') ts)"

definition showCond :: "Node \<Rightarrow> bytes" where
  "showCond n = tokText (nodeToks n)"

section \<open>Numbers\<close>

lemma parseNumber_showNat: "0 \<le> n \<Longrightarrow> n < 2 ^ 63 \<Longrightarrow> parseNumber (showNat (nat n)) = Inr n"
proof -
  assume n: "0 \<le> n" "n < 2 ^ 63"
  let ?s = "showNat (nat n)"
  have d: "list_all isDigitByte ?s" using showNat_digits by simp
  then have "map asciiUpper ?s = ?s" using digit_upper by (simp add: list_all_iff map_idI)
  then show ?thesis
    using digits_no_suffix [OF d] digits_no_hex [OF d] parseInt10_showNat [of "nat n"] n
    by (simp add: parseNumber_def Let_def int64_range_def)
qed

section \<open>Parsing the tokens\<close>

lemma advance_at: "at ((k, s) # ts) p \<Longrightarrow> \<exists>p'. advance False p = Inr p' \<and> at ts p'"
  by auto

lemma nameTok_cases: "nameTok s = (tOp, s) \<or> nameTok s = (tIdent, s)"
  by (simp add: nameTok_def)

lemma parseName_at:
  assumes "okId k" "at (nameTok (tl k) # ts) p"
  shows "\<exists>p'. parseName p = Inr (k, p') \<and> at ts p'"
proof -
  have k: "''$'' @ tl k = k" using assms(1) by (cases k) (auto simp: okId_def)
  obtain kd where nt: "nameTok (tl k) = (kd, tl k)" "kd = tOp \<or> kd = tIdent"
    using nameTok_cases by blast
  then obtain p' where p': "advance False p = Inr p'" "at ts p'" "tk_kind (ps_tok p) = kd"
      "tk_text (ps_tok p) = tl k"
    using assms(2) at_step by metis
  then show ?thesis using nt(2) k by (auto simp: parseName_def isNameTok_def)
qed

lemma parseValue_at:
  "okValue v \<Longrightarrow> at (valueToks v @ ts) p \<Longrightarrow> size v < n \<Longrightarrow>
   \<exists>p'. parseValue n p = Inr (v, p') \<and> at ts p'"
proof (induction v arbitrary: ts p n)
  case (valNum m)
  obtain n' where n: "n = Suc n'" using valNum.prems(3) by (cases n) auto
  obtain p' where "advance False p = Inr p'" "at ts p'" "tk_kind (ps_tok p) = tNumber"
      "tk_text (ps_tok p) = showNat (nat m)"
    using valNum.prems(2) at_step by force
  then show ?case using valNum.prems(1) parseNumber_showNat [of m] n by (simp add: Let_def)
next
  case (valCount k)
  obtain n' where n: "n = Suc n'" using valCount.prems(3) by (cases n) auto
  obtain p1 where p1: "advance False p = Inr p1" "at (nameTok (tl k) # ts) p1" "isTok tPunct ''#'' p"
      "tk_kind (ps_tok p) = tPunct"
    using valCount.prems(2) at_step [of tPunct "''#''" "nameTok (tl k) # ts" p] by (auto simp: isTok_def)
  from parseName_at [OF _ p1(2)] valCount.prems(1)
  obtain p2 where "parseName p1 = Inr (k, p2)" "at ts p2" by auto
  then show ?case using n p1 by (simp add: Let_def)
next
  case (valOffset k)
  obtain n' where n: "n = Suc n'" using valOffset.prems(3) by (cases n) auto
  obtain p1 where p1: "advance False p = Inr p1" "at (nameTok (tl k) # ts) p1" "isTok tPunct ''@'' p"
      "tk_kind (ps_tok p) = tPunct"
    using valOffset.prems(2) at_step [of tPunct "''@''" "nameTok (tl k) # ts" p] by (auto simp: isTok_def)
  from parseName_at [OF _ p1(2)] valOffset.prems(1)
  obtain p2 where "parseName p1 = Inr (k, p2)" "at ts p2" by auto
  then show ?case using n p1 by (simp add: Let_def isTok_def)
next
  case valFilesize
  obtain n' where n: "n = Suc n'" using valFilesize.prems(3) by (cases n) auto
  obtain p' where "advance False p = Inr p'" "at ts p'" "isTok tIdent ''filesize'' p"
      "tk_kind (ps_tok p) = tIdent"
    using valFilesize.prems(2) by (auto simp: isTok_def)
  then show ?case using n by (simp add: Let_def isTok_def)
next
  case (valUint w v)
  obtain n' where n: "n = Suc n'" "size v < n'" using valUint.prems(3) by (cases n) auto
  let ?name = "''uint'' @ showNat w"
  obtain p1 where p1: "advance False p = Inr p1" "tk_kind (ps_tok p) = tIdent" "tk_text (ps_tok p) = ?name"
      "at ((tPunct, ''('') # valueToks v @ (tPunct, '')'') # ts) p1"
    using valUint.prems(2) by auto
  obtain p2 where p2: "advance False p1 = Inr p2" "at (valueToks v @ (tPunct, '')'') # ts) p2"
      "isTok tPunct ''('' p1"
    using p1(4) by (auto simp: isTok_def)
  from valUint.IH [OF _ p2(2) n(2)] valUint.prems(1)
  obtain p3 where p3: "parseValue n' p2 = Inr (v, p3)" "at ((tPunct, '')'') # ts) p3" by auto
  obtain p4 where p4: "advance False p3 = Inr p4" "at ts p4" "isTok tPunct '')'' p3"
    using p3(2) by (auto simp: isTok_def)
  have "showNat 8 = ''8''" "showNat 16 = ''16''" "showNat 32 = ''32''" by code_simp+
  then have name: "uintWidth ?name = Some w" "hasPrefix ?name ''uint''" "?name \<noteq> ''filesize''"
    using valUint.prems(1) by (auto simp: uintWidth_def hasSuffix_def hasPrefix_def)
  show ?case
    using p1 p2 p3 p4 n name by (simp add: Let_def isTok_def)
qed

lemma valueToks_length: "size v < length (valueToks v)"
  by (induction v) auto

lemma readValue_at:
  assumes "okValue v" "at (valueToks v @ ts) p"
  shows "\<exists>p'. readValue p = Inr (v, p') \<and> at ts p'"
  unfolding readValue_def
  by (rule parseValue_at [OF assms])
    (use at_left_over [OF assms(2)] valueToks_length [of v] in simp)

lemma trimStar_star: "hasSuffix k ''*'' \<Longrightarrow> trimStar k @ ''*'' = k"
  by (auto simp: trimStar_def hasSuffix_suffix suffix_def)

lemma parseSetItem_at:
  assumes "okId (trimStar k)" "at (itemToks k @ (kd, s) # ts) p" "s \<noteq> ''*''"
  shows "\<exists>p'. parseSetItem what p = Inr (k, p') \<and> at ((kd, s) # ts) p'"
proof -
  let ?star = "if hasSuffix k ''*'' then [(tPunct, ''*'')] else []"
  obtain p1 where p1: "advance False p = Inr p1" "isTok tPunct ''$'' p"
      "at (nameTok (tl (trimStar k)) # ?star @ (kd, s) # ts) p1"
    using assms(2) by (auto simp: itemToks_def isTok_def)
  from parseName_at [OF assms(1) p1(3)]
  obtain p2 where p2: "parseName p1 = Inr (trimStar k, p2)" "at (?star @ (kd, s) # ts) p2" by auto
  show ?thesis
  proof (cases "hasSuffix k ''*''")
    case True
    then obtain p3 where "advance False p2 = Inr p3" "at ((kd, s) # ts) p3" "isTok tPunct ''*'' p2"
      using p2(2) by (auto simp: isTok_def)
    then show ?thesis using p1 p2 trimStar_star [OF True] by (simp add: parseSetItem_def)
  next
    case False
    then have "at ((kd, s) # ts) p2" "\<not> isTok tPunct ''*'' p2" "trimStar k = k"
      using p2(2) assms(3) by (auto simp: isTok_def trimStar_def)
    then show ?thesis using p1 p2 by (simp add: parseSetItem_def)
  qed
qed

lemma stringSetLoop_at:
  "list_all (\<lambda>k. okId (trimStar k)) ks \<Longrightarrow> ks \<noteq> [] \<Longrightarrow> at (itemsToks ks @ (tPunct, '')'') # ts) p \<Longrightarrow>
   \<exists>p'. stringSetLoop what acc p = Inr (acc @ ks, p') \<and> at ((tPunct, '')'') # ts) p'"
proof (induction ks arbitrary: acc p rule: itemsToks.induct)
  case (2 k)
  then obtain p1 where "parseSetItem what p = Inr (k, p1)" "at ((tPunct, '')'') # ts) p1"
    using parseSetItem_at [of k tPunct "'')''" ts p what] by auto
  then show ?case by (subst stringSetLoop.simps) (simp add: isTok_def)
next
  case (3 k k2 ks)
  then obtain p1 where p1: "parseSetItem what p = Inr (k, p1)"
      "at ((tPunct, '','') # itemsToks (k2 # ks) @ (tPunct, '')'') # ts) p1"
    using parseSetItem_at [of k tPunct "'',''" "itemsToks (k2 # ks) @ (tPunct, '')'') # ts" p what] by auto
  then obtain p2 where p2: "advance False p1 = Inr p2" "isTok tPunct '','' p1"
      "at (itemsToks (k2 # ks) @ (tPunct, '')'') # ts) p2"
    by (auto simp: isTok_def)
  from "3.IH" [OF _ _ p2(3), of "acc @ [k]"] "3.prems"(1) show ?case
    using p1 p2 by (subst stringSetLoop.simps) auto
qed simp

lemma parseStringSet_at:
  assumes "okSet ks" "at (setToks ks @ ts) p"
  shows "\<exists>p'. parseStringSet what p = Inr (ks, p') \<and> at ts p'"
proof -
  obtain p1 where p1: "advance False p = Inr p1" "at (itemsToks ks @ (tPunct, '')'') # ts) p1"
    using assms(2) by (auto simp: setToks_def)
  from stringSetLoop_at [OF _ _ p1(2), of what "[]"] assms(1)
  obtain p2 where p2: "stringSetLoop what [] p1 = Inr (ks, p2)" "at ((tPunct, '')'') # ts) p2"
    by (auto simp: okSet_def)
  then obtain p3 where "advance False p2 = Inr p3" "at ts p3" "isTok tPunct '')'' p2"
    by (auto simp: isTok_def)
  with p1 p2 show ?thesis by (simp add: parseStringSet_def)
qed

lemma setToks_Cons: "setToks ks @ ts = (tPunct, ''('') # itemsToks ks @ (tPunct, '')'') # ts"
  by (simp add: setToks_def)

lemma parseNear_at:
  assumes "okNode (nodeNear a b d)"
    and "at ((tPunct, ''('') # setToks a @ (tPunct, '','') # setToks b @
             (tPunct, '','') # (tNumber, showNat (nat d)) # (tPunct, '')'') # ts) p"
  shows "\<exists>p'. parseNear p = Inr (nodeNear a b d, p') \<and> at ts p'"
proof -
  obtain p1 where p1: "advance False p = Inr p1" "isTok tPunct ''('' p1"
      "at (setToks a @ (tPunct, '','') # setToks b @
             (tPunct, '','') # (tNumber, showNat (nat d)) # (tPunct, '')'') # ts) p1"
    using assms(2) by (auto simp: setToks_Cons isTok_def)
  obtain p2 where p2: "parseStringSet ''near() first argument'' p1 = Inr (a, p2)"
      "at ((tPunct, '','') # setToks b @ (tPunct, '','') # (tNumber, showNat (nat d)) # (tPunct, '')'') # ts) p2"
    using parseStringSet_at [OF _ p1(3), where what = "''near() first argument''"] assms(1) by auto
  obtain p3 where p3: "advance False p2 = Inr p3" "isTok tPunct '','' p2" "isTok tPunct ''('' p3"
      "at (setToks b @ (tPunct, '','') # (tNumber, showNat (nat d)) # (tPunct, '')'') # ts) p3"
    using p2(2) by (auto simp: setToks_Cons isTok_def)
  obtain p4 where p4: "parseStringSet ''near() second argument'' p3 = Inr (b, p4)"
      "at ((tPunct, '','') # (tNumber, showNat (nat d)) # (tPunct, '')'') # ts) p4"
    using parseStringSet_at [OF _ p3(4), where what = "''near() second argument''"] assms(1) by auto
  obtain p5 where p5: "advance False p4 = Inr p5" "isTok tPunct '','' p4"
      "at ((tNumber, showNat (nat d)) # (tPunct, '')'') # ts) p5"
    using p4(2) by (auto simp: isTok_def)
  obtain p6 where p6: "advance False p5 = Inr p6" "tk_kind (ps_tok p5) = tNumber"
      "tk_text (ps_tok p5) = showNat (nat d)" "at ((tPunct, '')'') # ts) p6"
    using p5(3) by auto
  obtain p7 where p7: "advance False p6 = Inr p7" "isTok tPunct '')'' p6" "at ts p7"
    using p6(4) by (auto simp: isTok_def)
  have "parseNumber (showNat (nat d)) = Inr d" using assms(1) parseNumber_showNat by simp
  with p1 p2 p3 p4 p5 p6 p7 show ?thesis by (simp add: parseNear_def)
qed

lemma parseOfTail_at:
  assumes "ks = [] \<or> okSet ks"
    and "at ((tOp, ''of'') # (if ks = [] then [(tOp, ''them'')] else setToks ks) @ ts) p"
  shows "\<exists>p'. parseOfTail q n p = Inr (nodeOf q n ks, p') \<and> at ts p'"
proof (cases "ks = []")
  case True
  then obtain p1 p2 where "advance False p = Inr p1" "isTok tOp ''them'' p1"
      "advance False p1 = Inr p2" "at ts p2"
    using assms(2) by (auto simp: isTok_def)
  with True show ?thesis by (simp add: parseOfTail_def)
next
  case False
  then obtain p1 where p1: "advance False p = Inr p1" "at (setToks ks @ ts) p1"
    using assms(2) by auto
  then have "isTok tPunct ''('' p1" "\<not> isTok tOp ''them'' p1"
    by (auto simp: setToks_Cons isTok_def)
  with p1 parseStringSet_at [OF _ p1(2)] assms(1) False show ?thesis
    by (fastforce simp: parseOfTail_def)
qed

lemma parseComparisonTail_at:
  assumes "op \<in> set cmpOps" "okValue r" "at ((tPunct, op) # valueToks r @ ts) p"
  shows "\<exists>p'. parseComparisonTail l p = Inr (nodeCmp op l r, p') \<and> at ts p'"
proof -
  obtain p1 where p1: "advance False p = Inr p1" "tk_kind (ps_tok p) = tPunct" "tk_text (ps_tok p) = op"
      "at (valueToks r @ ts) p1"
    using assms(3) by auto
  with readValue_at [OF assms(2) p1(4)] assms(1) show ?thesis
    by (auto simp: parseComparisonTail_def)
qed

text \<open>What may follow a condition.\<close>

definition follow :: "tok list \<Rightarrow> bool" where
  "follow ts \<longleftrightarrow> ts = [] \<or> hd ts \<in> {(tPunct, '')''), (tOp, ''and''), (tOp, ''or'')}"

lemma follow_isTok:
  assumes "follow ts" "at ts p" "(k, s) \<notin> {(tPunct, '')''), (tOp, ''and''), (tOp, ''or'')}" "k \<noteq> tEOF"
  shows "\<not> isTok k s p"
  using assms by (cases ts) (auto simp: follow_def isTok_def)

fun atomic :: "Node \<Rightarrow> bool" where
  "atomic (nodeAnd _ _) = False"
| "atomic (nodeOr _ _) = False"
| "atomic (nodeNot _) = False"
| "atomic _ = True"

lemma valueToks_first: "\<exists>ts. valueToks l =
    (case l of valNum n \<Rightarrow> (tNumber, showNat (nat n)) | valCount _ \<Rightarrow> (tPunct, ''#'')
     | valOffset _ \<Rightarrow> (tPunct, ''@'') | valFilesize \<Rightarrow> (tIdent, ''filesize'')
     | valUint w _ \<Rightarrow> (tIdent, ''uint'' @ showNat w)) # ts"
  by (cases l) simp_all

lemma parseCmp_at:
  assumes "okNode (nodeCmp op l r)" "at (valueToks l @ (tPunct, op) # valueToks r @ ts) p"
  shows "\<exists>p'. parseAtom p = Inr (nodeCmp op l r, p') \<and> at ts p'"
proof (cases "\<exists>n. l = valNum n")
  case True
  then obtain n where l: "l = valNum n" by blast
  obtain p1 where p1: "advance False p = Inr p1" "tk_kind (ps_tok p) = tNumber"
      "tk_text (ps_tok p) = showNat (nat n)" "at ((tPunct, op) # valueToks r @ ts) p1"
    using assms(2) l by auto
  have "mustNumber (showNat (nat n)) = n"
    using assms(1) l parseNumber_showNat by (simp add: mustNumber_def)
  moreover have "\<not> isTok tOp ''of'' p1" using p1(4) by (auto simp: isTok_def)
  ultimately show ?thesis
    using p1 parseComparisonTail_at [OF _ _ p1(4), of l] assms(1) l
    by (simp add: parseAtom_def isTok_def Let_def)
next
  case False
  obtain p1 where p1: "readValue p = Inr (l, p1)" "at ((tPunct, op) # valueToks r @ ts) p1"
    using readValue_at [OF _ assms(2)] assms(1) by auto
  obtain ts' k s where hd: "valueToks l = (k, s) # ts'" "(k, s) \<in> {(tPunct, ''#''), (tPunct, ''@'')} \<or>
      k = tIdent \<and> isValueKeyword s"
    using valueToks_first [of l] False
    by (cases l) (auto simp: isValueKeyword_def hasPrefix_def)
  then have "tk_kind (ps_tok p) = k" "tk_text (ps_tok p) = s" using assms(2) by auto
  then have "parseAtom p = parseComparisonTail l p1"
    using hd(2) p1(1) by (auto simp: parseAtom_def isTok_def Let_def)
  with parseComparisonTail_at [OF _ _ p1(2), of l] assms(1) show ?thesis by simp
qed

lemma parseAtom_at:
  assumes "atomic n" "okNode n" "at (nodeToks n @ ts) p" "follow ts"
  shows "\<exists>p'. parseAtom p = Inr (n, p') \<and> at ts p'"
proof (cases n)
  case (nodeBool v)
  then obtain p1 where "advance False p = Inr p1" "at ts p1" "tk_kind (ps_tok p) = tOp"
      "tk_text (ps_tok p) = (if v then ''true'' else ''false'')"
    using assms(3) by auto
  then show ?thesis using nodeBool by (auto simp: parseAtom_def isTok_def Let_def)
next
  case (nodeStr k)
  then obtain p1 where p1: "advance False p = Inr p1" "at (nameTok (tl k) # ts) p1"
      "tk_kind (ps_tok p) = tPunct" "tk_text (ps_tok p) = ''$''"
    using assms(3) by auto
  obtain p2 where p2: "parseName p1 = Inr (k, p2)" "at ts p2"
    using parseName_at [OF _ p1(2)] assms(2) nodeStr by auto
  have "\<not> isTok tOp ''at'' p2" "\<not> isTok tOp ''in'' p2"
    using follow_isTok [OF assms(4) p2(2)] by auto
  with p1 p2 nodeStr show ?thesis by (auto simp: parseAtom_def isTok_def Let_def)
next
  case (nodeStrAt k v)
  then obtain p1 where p1: "advance False p = Inr p1" "at (nameTok (tl k) # (tOp, ''at'') # valueToks v @ ts) p1"
      "tk_kind (ps_tok p) = tPunct" "tk_text (ps_tok p) = ''$''"
    using assms(3) by auto
  obtain p2 where p2: "parseName p1 = Inr (k, p2)" "at ((tOp, ''at'') # valueToks v @ ts) p2"
    using parseName_at [OF _ p1(2)] assms(2) nodeStrAt by auto
  obtain p3 where p3: "advance False p2 = Inr p3" "at (valueToks v @ ts) p3" "isTok tOp ''at'' p2"
    using p2(2) by (auto simp: isTok_def)
  obtain p4 where "readValue p3 = Inr (v, p4)" "at ts p4"
    using readValue_at [OF _ p3(2)] assms(2) nodeStrAt by auto
  with p1 p2 p3 nodeStrAt show ?thesis by (simp add: parseAtom_def isTok_def Let_def)
next
  case (nodeOf q m ks)
  let ?rest = "(tOp, ''of'') # (if ks = [] then [(tOp, ''them'')] else setToks ks) @ ts"
  obtain t where t: "quantToks q m = [t]" by (cases q) (auto simp: quantToks_def)
  then obtain p1 where p1: "advance False p = Inr p1" "at ?rest p1"
      "tk_kind (ps_tok p) = fst t" "tk_text (ps_tok p) = snd t"
    using assms(3) nodeOf by (cases t) auto
  have of_tok: "isTok tOp ''of'' p1" using p1(2) by (auto simp: isTok_def)
  obtain p2 where p2: "parseOfTail q m p1 = Inr (nodeOf q m ks, p2)" "at ts p2"
    using parseOfTail_at [OF _ p1(2)] assms(2) nodeOf by auto
  show ?thesis
  proof (cases "q = quantN")
    case True
    then have "tk_kind (ps_tok p) = tNumber" "parseNumber (tk_text (ps_tok p)) = Inr m"
      using t p1 assms(2) nodeOf parseNumber_showNat by (auto simp: quantToks_def)
    with p1(1) p2 of_tok True nodeOf show ?thesis by (simp add: parseAtom_def isTok_def Let_def)
  next
    case False
    then have "m = 0" using assms(2) nodeOf by simp
    moreover have "tk_kind (ps_tok p) = tOp" "tk_text (ps_tok p) = (case q of quantAny \<Rightarrow> ''any''
        | quantAll \<Rightarrow> ''all'' | _ \<Rightarrow> ''none'')"
      using t p1 False by (cases q; auto simp: quantToks_def)+
    ultimately show ?thesis
      using p1(1) p2 of_tok False nodeOf
      by (cases q) (simp_all add: parseAtom_def parseOf_def isTok_def Let_def)
  qed
next
  case (nodeNear a b d)
  have "isValueKeyword ''near'' = False" by code_simp
  moreover obtain p1 where p1: "advance False p = Inr p1" "tk_kind (ps_tok p) = tIdent"
      "tk_text (ps_tok p) = ''near''"
      "at ((tPunct, ''('') # setToks a @ (tPunct, '','') # setToks b @
             (tPunct, '','') # (tNumber, showNat (nat d)) # (tPunct, '')'') # ts) p1"
    using assms(3) nodeNear by auto
  moreover have "isTok tPunct ''('' p1" using p1(4) by (auto simp: isTok_def)
  ultimately show ?thesis
    using parseNear_at [OF _ p1(4)] assms(2) nodeNear
    by (simp add: parseAtom_def isTok_def Let_def)
next
  case (nodeRuleRef name)
  then obtain p1 where p1: "advance False p = Inr p1" "tk_kind (ps_tok p) = tIdent"
      "tk_text (ps_tok p) = name" "at ts p1"
    using assms(3) by auto
  have "\<not> isTok tPunct ''('' p1" "\<not> isTok tPunct ''.'' p1"
    using follow_isTok [OF assms(4) p1(4)] by auto
  with p1 assms(2) nodeRuleRef show ?thesis by (auto simp: parseAtom_def isTok_def Let_def)
next
  case (nodeCmp op l r)
  then show ?thesis using parseCmp_at [of op l r ts p] assms(2,3) by simp
qed (use assms(1) in simp_all)

section \<open>The whole condition\<close>

text \<open>A condition does not begin with \<open>not\<close>, nor, unless compound, with a parenthesis.\<close>

lemma nodeToks_first:
  assumes "okNode n"
  shows "\<exists>k s ts. nodeToks n = (k, s) # ts \<and> (k, s) \<noteq> (tOp, ''not'') \<and>
           ((k, s) = (tPunct, ''('') \<longleftrightarrow> \<not> atomic n)"
proof (cases n)
  case (nodeCmp op l r)
  then show ?thesis by (cases l) auto
next
  case (nodeOf q m ks)
  then show ?thesis by (cases q) (auto simp: quantToks_def)
qed auto

lemma parseNot_skip:
  assumes "okNode n" "at (nodeToks n @ ts) p"
  shows "parseNot (Suc m) p = parsePrimary m p"
proof -
  have "\<not> isTok tOp ''not'' p"
    using nodeToks_first [OF assms(1)] assms(2) by (auto simp: isTok_def)
  then show ?thesis by simp
qed

lemma loops_stop:
  "at ts p \<Longrightarrow> ts = [] \<or> hd ts = (tPunct, '')'') \<Longrightarrow>
   andLoop (Suc n) l p = Inr (l, p) \<and> orLoop (Suc n) l p = Inr (l, p)"
  by (cases ts) (auto simp: isTok_def)

lemma andLoop_or: "at ((tOp, ''or'') # ts) p \<Longrightarrow> andLoop (Suc n) l p = Inr (l, p)"
  by (auto simp: isTok_def)

lemma fuel_six: "18 + a \<le> m \<Longrightarrow> \<exists>m'. m = Suc (Suc (Suc (Suc (Suc (Suc m'))))) \<and> a \<le> m'"
  by (rule exI [of _ "m - 6"]) arith

lemma parsePrimary_atomic:
  assumes "atomic n" "okNode n" "at (nodeToks n @ ts) p" "follow ts" "6 * length (nodeToks n) \<le> m"
  shows "\<exists>p'. parsePrimary m p = Inr (n, p') \<and> at ts p'"
proof -
  obtain k s ts' where f: "nodeToks n = (k, s) # ts'" "(k, s) \<noteq> (tPunct, ''('')"
    using nodeToks_first [OF assms(2)] assms(1) by auto
  then obtain m' where "m = Suc m'" using assms(5) by (cases m) auto
  moreover have "\<not> isTok tPunct ''('' p" using f assms(3) by (auto simp: isTok_def)
  ultimately show ?thesis using parseAtom_at [OF assms(1-4)] by simp
qed

declare parseOr.simps [simp del] orLoop.simps [simp del] parseAnd.simps [simp del]
  andLoop.simps [simp del] parseNot.simps [simp del] parsePrimary.simps [simp del]

lemma parsePrimary_at:
  "okNode n \<Longrightarrow> at (nodeToks n @ ts) p \<Longrightarrow> follow ts \<Longrightarrow> 6 * length (nodeToks n) \<le> m \<Longrightarrow>
   \<exists>p'. parsePrimary m p = Inr (n, p') \<and> at ts p'"
proof (induction n arbitrary: ts p m)
  case (nodeAnd l r)
  let ?rest = "(tOp, ''and'') # nodeToks r @ (tPunct, '')'') # ts"
  obtain m' where m: "m = Suc (Suc (Suc (Suc (Suc (Suc m')))))"
      "6 * length (nodeToks l) \<le> m'" "6 * length (nodeToks r) \<le> m'"
    using nodeAnd.prems(4) fuel_six [of "6 * length (nodeToks l) + 6 * length (nodeToks r)" m] by auto
  obtain p1 where p1: "advance False p = Inr p1" "isTok tPunct ''('' p" "at (nodeToks l @ ?rest) p1"
    using nodeAnd.prems(2) by (auto simp: isTok_def)
  obtain p2 where p2: "parsePrimary (Suc (Suc m')) p1 = Inr (l, p2)" "at ?rest p2"
    using nodeAnd.IH(1) [OF _ p1(3), of "Suc (Suc m')"] nodeAnd.prems(1) m by (auto simp: follow_def)
  obtain p3 where p3: "advance False p2 = Inr p3" "isTok tOp ''and'' p2"
      "at (nodeToks r @ (tPunct, '')'') # ts) p3"
    using p2(2) by (auto simp: isTok_def)
  obtain p4 where p4: "parsePrimary (Suc m') p3 = Inr (r, p4)" "at ((tPunct, '')'') # ts) p4"
    using nodeAnd.IH(2) [OF _ p3(3), of "Suc m'"] nodeAnd.prems(1) m by (auto simp: follow_def)
  obtain p5 where p5: "advance False p4 = Inr p5" "isTok tPunct '')'' p4" "at ts p5"
    using p4(2) by (auto simp: isTok_def)
  have n1: "parseNot (Suc (Suc (Suc m'))) p1 = Inr (l, p2)"
    using parseNot_skip [OF _ p1(3)] nodeAnd.prems(1) p2(1) by simp
  have n2: "parseNot (Suc (Suc m')) p3 = Inr (r, p4)"
    using parseNot_skip [OF _ p3(3)] nodeAnd.prems(1) p4(1) by simp
  have stop: "andLoop (Suc (Suc m')) x p4 = Inr (x, p4)" "orLoop (Suc (Suc (Suc (Suc m')))) x p4 = Inr (x, p4)" for x
    using loops_stop [OF p4(2)] by auto
  have "andLoop (Suc (Suc (Suc m'))) l p2 = Inr (nodeAnd l r, p4)"
    unfolding andLoop.simps(2) [of "Suc (Suc m')"] using p3 n2 stop(1) by simp
  then have "parseAnd (Suc (Suc (Suc (Suc m')))) p1 = Inr (nodeAnd l r, p4)"
    unfolding parseAnd.simps(2) using n1 by simp
  then have "parseOr (Suc (Suc (Suc (Suc (Suc m'))))) p1 = Inr (nodeAnd l r, p4)"
    unfolding parseOr.simps(2) using stop(2) by simp
  then have "parsePrimary m p = Inr (nodeAnd l r, p5)"
    unfolding m(1) parsePrimary.simps(2) using p1 p5 by simp
  with p5 show ?case by blast
next
  case (nodeOr l r)
  let ?rest = "(tOp, ''or'') # nodeToks r @ (tPunct, '')'') # ts"
  obtain m' where m: "m = Suc (Suc (Suc (Suc (Suc (Suc m')))))"
      "6 * length (nodeToks l) \<le> m'" "6 * length (nodeToks r) \<le> m'"
    using nodeOr.prems(4) fuel_six [of "6 * length (nodeToks l) + 6 * length (nodeToks r)" m] by auto
  obtain p1 where p1: "advance False p = Inr p1" "isTok tPunct ''('' p" "at (nodeToks l @ ?rest) p1"
    using nodeOr.prems(2) by (auto simp: isTok_def)
  obtain p2 where p2: "parsePrimary (Suc (Suc m')) p1 = Inr (l, p2)" "at ?rest p2"
    using nodeOr.IH(1) [OF _ p1(3), of "Suc (Suc m')"] nodeOr.prems(1) m by (auto simp: follow_def)
  obtain p3 where p3: "advance False p2 = Inr p3" "isTok tOp ''or'' p2"
      "at (nodeToks r @ (tPunct, '')'') # ts) p3"
    using p2(2) by (auto simp: isTok_def)
  obtain p4 where p4: "parsePrimary (Suc m') p3 = Inr (r, p4)" "at ((tPunct, '')'') # ts) p4"
    using nodeOr.IH(2) [OF _ p3(3), of "Suc m'"] nodeOr.prems(1) m by (auto simp: follow_def)
  obtain p5 where p5: "advance False p4 = Inr p5" "isTok tPunct '')'' p4" "at ts p5"
    using p4(2) by (auto simp: isTok_def)
  have n1: "parseNot (Suc (Suc (Suc m'))) p1 = Inr (l, p2)"
    using parseNot_skip [OF _ p1(3)] nodeOr.prems(1) p2(1) by simp
  have n2: "parseNot (Suc (Suc m')) p3 = Inr (r, p4)"
    using parseNot_skip [OF _ p3(3)] nodeOr.prems(1) p4(1) by simp
  have stop: "andLoop (Suc (Suc m')) x p4 = Inr (x, p4)" "orLoop (Suc (Suc (Suc m'))) x p4 = Inr (x, p4)" for x
    using loops_stop [OF p4(2)] by auto
  have a1: "parseAnd (Suc (Suc (Suc (Suc m')))) p1 = Inr (l, p2)"
    unfolding parseAnd.simps(2) using n1 andLoop_or [OF p2(2)] by simp
  have a2: "parseAnd (Suc (Suc (Suc m'))) p3 = Inr (r, p4)"
    unfolding parseAnd.simps(2) using n2 stop(1) by simp
  have "orLoop (Suc (Suc (Suc (Suc m')))) l p2 = Inr (nodeOr l r, p4)"
    unfolding orLoop.simps(2) [of "Suc (Suc (Suc m'))"] using p3 a2 stop(2) by simp
  then have "parseOr (Suc (Suc (Suc (Suc (Suc m'))))) p1 = Inr (nodeOr l r, p4)"
    unfolding parseOr.simps(2) using a1 by simp
  then have "parsePrimary m p = Inr (nodeOr l r, p5)"
    unfolding m(1) parsePrimary.simps(2) using p1 p5 by simp
  with p5 show ?case by blast
next
  case (nodeNot x)
  obtain m' where m: "m = Suc (Suc (Suc (Suc (Suc (Suc m')))))" "6 * length (nodeToks x) \<le> m'"
    using nodeNot.prems(4) fuel_six [of "6 * length (nodeToks x)" m] by auto
  obtain p1 where p1: "advance False p = Inr p1" "isTok tPunct ''('' p" "isTok tOp ''not'' p1"
      "at ((tOp, ''not'') # nodeToks x @ (tPunct, '')'') # ts) p1"
    using nodeNot.prems(2) by (auto simp: isTok_def)
  obtain p3 where p3: "advance False p1 = Inr p3" "at (nodeToks x @ (tPunct, '')'') # ts) p3"
    using p1(4) by auto
  obtain p4 where p4: "parsePrimary (Suc m') p3 = Inr (x, p4)" "at ((tPunct, '')'') # ts) p4"
    using nodeNot.IH [OF _ p3(2), of "Suc m'"] nodeNot.prems(1) m by (auto simp: follow_def)
  obtain p5 where p5: "advance False p4 = Inr p5" "isTok tPunct '')'' p4" "at ts p5"
    using p4(2) by (auto simp: isTok_def)
  have n2: "parseNot (Suc (Suc m')) p3 = Inr (x, p4)"
    using parseNot_skip [OF _ p3(2)] nodeNot.prems(1) p4(1) by simp
  have n1: "parseNot (Suc (Suc (Suc m'))) p1 = Inr (nodeNot x, p4)"
    unfolding parseNot.simps(2) [of "Suc (Suc m')"] using p1 p3 n2 by simp
  have stop: "andLoop (Suc (Suc (Suc m'))) y p4 = Inr (y, p4)" "orLoop (Suc (Suc (Suc (Suc m')))) y p4 = Inr (y, p4)" for y
    using loops_stop [OF p4(2)] by auto
  have "parseAnd (Suc (Suc (Suc (Suc m')))) p1 = Inr (nodeNot x, p4)"
    unfolding parseAnd.simps(2) using n1 stop(1) by simp
  then have "parseOr (Suc (Suc (Suc (Suc (Suc m'))))) p1 = Inr (nodeNot x, p4)"
    unfolding parseOr.simps(2) using stop(2) by simp
  then have "parsePrimary m p = Inr (nodeNot x, p5)"
    unfolding m(1) parsePrimary.simps(2) using p1 p5 by simp
  with p5 show ?case by blast
qed (use parsePrimary_atomic in \<open>simp_all del: okNode.simps nodeToks.simps\<close>)

section \<open>Lexing the text\<close>

definition punctTexts :: "bytes list" where
  "punctTexts = [''('', '')'', ''$'', ''#'', ''@'', '','', ''*'']"

fun okTok :: "tok \<Rightarrow> bool" where
  "okTok (tIdent, s) \<longleftrightarrow> goodName s \<and> s \<notin> set opWords"
| "okTok (tOp, s) \<longleftrightarrow> goodName s \<and> s \<in> set opWords"
| "okTok (tNumber, s) \<longleftrightarrow> s \<noteq> [] \<and> list_all isDigitByte s"
| "okTok (tPunct, s) \<longleftrightarrow> s \<in> set punctTexts \<union> set cmpOps"
| "okTok _ \<longleftrightarrow> False"

lemma tokText_Cons [simp]: "tokText ((k, s) # ts) = s @ CHR '' '' # tokText ts"
  by (simp add: tokText_def)

lemma tokText_Nil [simp]: "tokText [] = []"
  by (simp add: tokText_def)

text \<open>A leading space changes nothing.\<close>

lemma next_tok_space:
  "next_tok re (l\<lparr>lx_rest := CHR '' '' # s\<rparr>) = next_tok re (l\<lparr>lx_rest := s\<rparr>)"
  by (simp add: next_tok_def skipSpaceAndComments_def split_beta)

definition plainStart :: "byte \<Rightarrow> bool" where
  "plainStart c \<longleftrightarrow> c \<notin> {CHR 0x0A, CHR '' '', CHR 0x09, CHR 0x0D, CHR ''/'', CHR 0x22, CHR ''{''}"

lemma skip_plain:
  "plainStart c \<Longrightarrow> skipSpaceAndComments (l\<lparr>lx_rest := c # s\<rparr>) = l\<lparr>lx_rest := c # s\<rparr>"
  by (simp add: skipSpaceAndComments_def plainStart_def)

lemma next_tok_plain:
  "plainStart c \<Longrightarrow> next_tok re (l\<lparr>lx_rest := c # s\<rparr>) =
     (if isIdentStart c then
        Inr (mkTok (if takeWhile isIdentChar (c # s) \<in> set opWords then tOp else tIdent)
               (takeWhile isIdentChar (c # s)) [] (lx_line l),
             l\<lparr>lx_rest := dropWhile isIdentChar (c # s)\<rparr>)
      else if isDigitByte c then
        (let (num, s') = lexDigits (c # s); suf = sizeSuffix s'
         in Inr (mkTok tNumber (num @ suf) [] (lx_line l), l\<lparr>lx_rest := drop (length suf) s'\<rparr>))
      else
        (let (op, s') = lexPunct (c # s)
         in Inr (mkTok tPunct op [] (lx_line l), l\<lparr>lx_rest := s'\<rparr>)))"
  by (simp add: next_tok_def skip_plain Let_def plainStart_def)

lemma ident_plain: "isIdentStart c \<Longrightarrow> plainStart c"
proof -
  have "\<not> isIdentStart d" if "d \<in> {CHR 0x0A, CHR '' '', CHR 0x09, CHR 0x0D, CHR ''/'', CHR 0x22, CHR ''{''}" for d
    using that by (elim insertE) (simp; code_simp)+
  then show "isIdentStart c \<Longrightarrow> ?thesis" unfolding plainStart_def by blast
qed

lemma digit_plain: "isDigitByte c \<Longrightarrow> plainStart c \<and> \<not> isIdentStart c"
proof
  assume c: "isDigitByte c"
  have "\<not> isDigitByte d" if "d \<in> {CHR 0x0A, CHR '' '', CHR 0x09, CHR 0x0D, CHR ''/'', CHR 0x22, CHR ''{''}" for d
    using that by (elim insertE) (simp; code_simp)+
  with c show "plainStart c" unfolding plainStart_def by blast
  have "\<not> isDigitByte CHR ''_''" by code_simp
  with c digit_not_letter show "\<not> isIdentStart c" by (auto simp: isIdentStart_def)
qed

lemma space_stops: "\<not> isIdentChar CHR '' ''" "\<not> isDigitByte CHR '' ''"
  by code_simp+

lemma takeWhile_upto: "list_all P s \<Longrightarrow> \<not> P c \<Longrightarrow> takeWhile P (s @ c # t) = s \<and> dropWhile P (s @ c # t) = c # t"
  by (induction s) auto

lemma next_tok_name:
  assumes "goodName s"
  shows "next_tok re (l\<lparr>lx_rest := s @ CHR '' '' # t\<rparr>) =
     Inr (mkTok (if s \<in> set opWords then tOp else tIdent) s [] (lx_line l),
          l\<lparr>lx_rest := CHR '' '' # t\<rparr>)"
proof -
  obtain c cs where s: "s = c # cs" "isIdentStart c" "list_all isIdentChar (c # cs)"
    using assms by (cases s) (auto simp: goodName_def)
  have "takeWhile isIdentChar (c # cs @ CHR '' '' # t) = c # cs"
    "dropWhile isIdentChar (c # cs @ CHR '' '' # t) = CHR '' '' # t"
    using takeWhile_upto [OF s(3) space_stops(1), of t] by simp_all
  then show ?thesis
    using s next_tok_plain [OF ident_plain [OF s(2)], where s = "cs @ CHR '' '' # t"] by simp
qed

lemma next_tok_number:
  assumes "s \<noteq> []" "list_all isDigitByte s"
  shows "next_tok re (l\<lparr>lx_rest := s @ CHR '' '' # t\<rparr>) =
     Inr (mkTok tNumber s [] (lx_line l), l\<lparr>lx_rest := CHR '' '' # t\<rparr>)"
proof -
  obtain c cs where s: "s = c # cs" "isDigitByte c" "list_all isDigitByte (c # cs)"
    using assms by (cases s) auto
  let ?u = "c # cs @ CHR '' '' # t"
  have "takeWhile isDigitByte ?u = c # cs" "dropWhile isDigitByte ?u = CHR '' '' # t"
    using takeWhile_upto [OF s(3) space_stops(2), of t] by simp_all
  moreover have "?u ! 1 \<noteq> CHR ''x'' \<and> ?u ! 1 \<noteq> CHR ''X''"
  proof -
    have "\<not> isDigitByte (CHR ''x'')" "\<not> isDigitByte (CHR ''X'')" by code_simp+
    with s(3) show ?thesis by (cases cs) auto
  qed
  ultimately have "lexDigits ?u = (c # cs, CHR '' '' # t)" by (simp add: lexDigits_def)
  moreover have "sizeSuffix (CHR '' '' # t) = []"
  proof -
    have "asciiUpper CHR '' '' = CHR '' ''" by code_simp
    then show ?thesis by (simp add: sizeSuffix_def)
  qed
  ultimately show ?thesis
    using s digit_plain [OF s(2)] next_tok_plain [of c, where s = "cs @ CHR '' '' # t"] by simp
qed

lemma next_tok_punct:
  assumes "s \<in> set punctTexts \<union> set cmpOps"
  shows "next_tok re (l\<lparr>lx_rest := s @ CHR '' '' # t\<rparr>) =
     Inr (mkTok tPunct s [] (lx_line l), l\<lparr>lx_rest := CHR '' '' # t\<rparr>)"
proof -
  have c: "plainStart (hd s) \<and> \<not> isIdentStart (hd s) \<and> \<not> isDigitByte (hd s)"
  proof -
    have "list_all (\<lambda>s. plainStart (hd s) \<and> \<not> isIdentStart (hd s) \<and> \<not> isDigitByte (hd s))
        (punctTexts @ cmpOps)" by code_simp
    then show ?thesis using assms by (auto simp: list_all_iff)
  qed
  have enc: "list_all (\<lambda>s. length s = 1 \<longrightarrow> encodeRune (of_char (hd s)) = s) (punctTexts @ cmpOps)"
    by code_simp
  have "lexPunct (s @ CHR '' '' # t) = (s, CHR '' '' # t)"
  proof (cases "length s = 1")
    case True
    then obtain d where "s = [d]" by (cases s) auto
    moreover have "encodeRune (of_char (hd s)) = s"
      using enc assms True by (auto simp: list_all_iff)
    ultimately show ?thesis by (simp add: lexPunct_def)
  next
    case False
    have "list_all (\<lambda>s. length s \<noteq> 1 \<longrightarrow> length s = 2 \<and> s \<in> {''=='', ''!='', ''<='', ''>=''})
        (punctTexts @ cmpOps)" by code_simp
    with False assms have "length s = 2" "s \<in> {''=='', ''!='', ''<='', ''>=''}"
      unfolding list_all_iff by auto
    moreover from this(1) have "take 2 (s @ CHR '' '' # t) = s" "drop 2 (s @ CHR '' '' # t) = CHR '' '' # t"
      by simp_all
    ultimately show ?thesis unfolding lexPunct_def by (simp only: if_True)
  qed
  moreover have "s \<noteq> []" using assms by (auto simp: punctTexts_def cmpOps_def)
  then obtain d ds where s: "s = d # ds" by (cases s) auto
  ultimately have lex: "lexPunct (d # ds @ CHR '' '' # t) = (d # ds, CHR '' '' # t)" by simp
  have d: "plainStart d" "\<not> isIdentStart d" "\<not> isDigitByte d" using c s by simp_all
  show ?thesis
    unfolding s append_Cons next_tok_plain [OF d(1)] lex Let_def using d(2,3) by simp
qed

lemma next_tok_okTok:
  assumes "okTok (k, s)"
  shows "next_tok re (l\<lparr>lx_rest := s @ CHR '' '' # t\<rparr>) =
     Inr (mkTok k s [] (lx_line l), l\<lparr>lx_rest := CHR '' '' # t\<rparr>)"
  using assms by (cases k) (auto simp: next_tok_name next_tok_number next_tok_punct)

lemma at_tokText:
  "list_all okTok ts \<Longrightarrow> \<exists>p'. advance False (p\<lparr>ps_lx := l\<lparr>lx_rest := tokText ts\<rparr>\<rparr>) = Inr p' \<and> at ts p'"
proof (induction ts arbitrary: p l)
  case Nil
  then show ?case
    by (simp add: advance_def next_tok_def skipSpaceAndComments_def mkTok_def)
next
  case (Cons t ts)
  obtain k s where t: "t = (k, s)" by (cases t)
  let ?l = "l\<lparr>lx_rest := CHR '' '' # tokText ts\<rparr>"
  let ?p = "p\<lparr>ps_lx := ?l, ps_tok := mkTok k s [] (lx_line l)\<rparr>"
  have adv: "advance False (p\<lparr>ps_lx := l\<lparr>lx_rest := tokText (t # ts)\<rparr>\<rparr>) = Inr ?p"
    using next_tok_okTok [of k s, where t = "tokText ts"] Cons.prems t by (simp add: advance_def)
  have "advance False ?p = advance False (?p\<lparr>ps_lx := l\<lparr>lx_rest := tokText ts\<rparr>\<rparr>)"
    by (cases p) (simp add: advance_def next_tok_space split: sum.split prod.split)
  moreover obtain p' where "advance False (?p\<lparr>ps_lx := l\<lparr>lx_rest := tokText ts\<rparr>\<rparr>) = Inr p'" "at ts p'"
    using Cons.IH [where p = ?p and l = l] Cons.prems by auto
  moreover have "k \<noteq> tEOF" using Cons.prems t by (cases k) auto
  ultimately show ?case using adv t by (simp add: mkTok_def)
qed

section \<open>The printed tokens are lexed as they are\<close>

lemma okTok_nameTok: "goodName s \<Longrightarrow> okTok (nameTok s)"
  by (simp add: nameTok_def)

lemma okId_okTok: "okId k \<Longrightarrow> okTok (nameTok (tl k))"
  by (simp add: okId_def okTok_nameTok)

lemma okTok_number: "okTok (tNumber, showNat n)"
  using showNat_digits by simp

lemma okTok_words:
  "okTok (tOp, ''true'')" "okTok (tOp, ''false'')" "okTok (tOp, ''and'')" "okTok (tOp, ''or'')"
  "okTok (tOp, ''not'')" "okTok (tOp, ''any'')" "okTok (tOp, ''all'')" "okTok (tOp, ''none'')"
  "okTok (tOp, ''of'')" "okTok (tOp, ''them'')" "okTok (tOp, ''at'')" "okTok (tIdent, ''near'')"
  "okTok (tIdent, ''filesize'')"
  by code_simp+

lemma okTok_uint: "w = 8 \<or> w = 16 \<or> w = 32 \<Longrightarrow> okTok (tIdent, CHR ''u'' # CHR ''i'' # CHR ''n'' # CHR ''t'' # showNat w)"
  by (elim disjE; simp only:; code_simp)

lemma okTok_punct:
  "okTok (tPunct, ''('')" "okTok (tPunct, '')'')" "okTok (tPunct, ''$'')" "okTok (tPunct, ''#'')"
  "okTok (tPunct, ''@'')" "okTok (tPunct, '','')" "okTok (tPunct, ''*'')"
  by code_simp+

lemmas okTok_all = okTok_words okTok_punct okTok_number okId_okTok

declare okTok.simps [simp del]

lemma okValue_toks: "okValue v \<Longrightarrow> list_all okTok (valueToks v)"
  by (induction v) (simp_all add: okTok_all okTok_uint)

lemma okItem_toks: "okId (trimStar k) \<Longrightarrow> list_all okTok (itemToks k)"
  by (simp add: itemToks_def okTok_all)

lemma okItems_toks: "list_all (\<lambda>k. okId (trimStar k)) ks \<Longrightarrow> list_all okTok (itemsToks ks)"
  by (induction ks rule: itemsToks.induct) (auto simp: okItem_toks okTok_all)

lemma okSet_toks: "okSet ks \<Longrightarrow> list_all okTok (setToks ks)"
  by (simp add: okSet_def setToks_def okItems_toks okTok_all)

lemma okNode_toks: "okNode n \<Longrightarrow> list_all okTok (nodeToks n)"
proof (induction n)
  case (nodeOf q n ks)
  then show ?case by (cases q) (auto simp: quantToks_def okSet_toks okTok_all)
next
  case (nodeRuleRef name)
  then show ?case by (simp add: okTok.simps)
next
  case (nodeCmp op l r)
  then show ?case by (simp add: okTok.simps okValue_toks)
qed (simp_all add: okTok_all okValue_toks okSet_toks)

section \<open>Property\<close>



end
