(* ===== verification/Report.thy ===== *)
theory Report
  imports GoStd "HOL-Library.Product_Lexorder" "HOL-Library.Multiset"
begin

text \<open>
  The report of a scan (\<open>internal/model/report.go\<close>): findings and their severities, the
  status of each check, the roll-up into layers and the verdict. The operations on a report hold
  its mutex for their whole body, so a concurrent run is a sequence of operations: the step
  relation \<open>reportStep\<close>. Times are nanoseconds since the epoch; the current time is an
  argument of \<open>Finalize\<close>. The \<open>Stats\<close> counters are not part of the model: nothing
  here reads them.
\<close>

section \<open>Findings\<close>

abbreviation "SevCritical \<equiv> ''critical''"
abbreviation "SevHigh \<equiv> ''high''"
abbreviation "SevMedium \<equiv> ''medium''"
abbreviation "SevLow \<equiv> ''low''"
abbreviation "SevInfo \<equiv> ''info''"

definition Rank :: "bytes \<Rightarrow> int" where
  "Rank s =
     (if s = SevCritical then 5 else if s = SevHigh then 4 else if s = SevMedium then 3
      else if s = SevLow then 2 else if s = SevInfo then 1 else 0)"

abbreviation "ConfConfirmed \<equiv> ''confirmed''"
abbreviation "ConfLikely \<equiv> ''likely''"
abbreviation "ConfReview \<equiv> ''review''"

text \<open>Values of \<open>Meta\<close>, a map to \<open>any\<close> in the code.\<close>

datatype metaVal = MetaStr bytes | MetaInt int | MetaBool bool | MetaList "bytes list"

record Finding =
  fi_RuleID :: bytes
  fi_Class :: bytes
  fi_Severity :: bytes
  fi_Confidence :: bytes
  fi_Title :: bytes
  fi_Detail :: bytes
  fi_Path :: bytes
  fi_SHA256 :: bytes
  fi_Size :: int
  fi_ModTime :: "int option"
  fi_CTime :: "int option"
  fi_Mode :: bytes
  fi_Line :: int
  fi_Evidence :: bytes
  fi_Remediation :: bytes
  fi_Actionable :: bool
  fi_ContainPID :: int
  fi_Meta :: "bytes \<rightharpoonup> metaVal"

text \<open>The zero value of the struct.\<close>

definition zeroFinding :: Finding where
  "zeroFinding = \<lparr>fi_RuleID = [], fi_Class = [], fi_Severity = [], fi_Confidence = [], fi_Title = [],
     fi_Detail = [], fi_Path = [], fi_SHA256 = [], fi_Size = 0, fi_ModTime = None, fi_CTime = None,
     fi_Mode = [], fi_Line = 0, fi_Evidence = [], fi_Remediation = [], fi_Actionable = False,
     fi_ContainPID = 0, fi_Meta = (\<lambda>_. None)\<rparr>"

section \<open>Checks, environment and containment\<close>

abbreviation "CheckOK \<equiv> ''ok''"
abbreviation "CheckUnavailable \<equiv> ''unavailable''"
abbreviation "CheckNotApplicable \<equiv> ''not_applicable''"
abbreviation "CheckError \<equiv> ''error''"

record CheckStatus =
  ck_ID :: bytes
  ck_State :: bytes
  ck_Reason :: bytes
  ck_Findings :: int
  ck_Duration :: bytes
  ck_Coverage :: bytes

record Environment =
  en_Contained :: bool
  en_Runtime :: bytes
  en_Kind :: bytes
  en_ID :: bytes
  en_Evidence :: "bytes list"
  en_PIDNamespace :: bytes
  en_NetNamespace :: bytes
  en_MountNamespace :: bytes
  en_ProcessesVisible :: int
  en_StartedAt :: int
  en_MemoryReadable :: bool
  en_MemoryReason :: bytes
  en_ReadOnlyRoot :: bool

definition CoverageNote :: "Environment option \<Rightarrow> bytes" where
  "CoverageNote e =
     (case e of
        None \<Rightarrow> []
      | Some e \<Rightarrow>
          if \<not> en_Contained e then []
          else
            (let rt = (if en_Runtime e = [] then ''unknown-runtime'' else en_Runtime e)
             in if en_Kind e = ''system''
                then ''Running inside a '' @ rt @ '' SYSTEM container ('' @ showInt (en_ProcessesVisible e) @
                  '' processes visible). It has its own init, cron and services, '' @
                  ''so the OS-level checks here are meaningful for this container '' @ emDash @
                  '' but they cover this container ONLY. '' @
                  ''The hypervisor host and any sibling containers are not visible and were not checked.''
                else ''Running inside a '' @ rt @ '' application container ('' @
                  showInt (en_ProcessesVisible e) @
                  '' processes visible). OS-level checks cover THIS namespace only: '' @
                  ''host crontabs, host SSH keys, host processes and other containers are not visible and were not checked.''))"

record ContainAction =
  ca_Step :: int
  ca_Kind :: bytes
  ca_Target :: bytes
  ca_PID :: int
  ca_Executed :: bool
  ca_Success :: bool
  ca_Detail :: bytes
  ca_Error :: bytes
  ca_EvidencePath :: bytes

section \<open>Layers\<close>

abbreviation "LayerChecked \<equiv> ''checked''"
abbreviation "LayerDegraded \<equiv> ''degraded''"
abbreviation "LayerUnavailable \<equiv> ''unavailable''"
abbreviation "LayerNotPresent \<equiv> ''not_present''"

record Layer =
  la_Name :: bytes
  la_State :: bytes
  la_Checks :: nat
  la_Observed :: nat
  la_Unavailable :: "bytes list"

definition layerFor :: "bytes \<Rightarrow> bytes" where
  "layerFor i =
     (if hasPrefix i ''fs.'' \<or> hasPrefix i ''wp.'' then ''application''
      else if hasPrefix i ''osp.'' \<or> hasPrefix i ''mem.'' then ''operating system''
      else if hasPrefix i ''net.'' then ''network''
      else if hasPrefix i ''db.'' then ''database''
      else if hasPrefix i ''probe.'' then ''behavioural''
      else if hasPrefix i ''baseline.'' \<or> hasPrefix i ''prov.'' then ''integrity''
      else ''other'')"

definition layerOrder :: "bytes list" where
  "layerOrder = [''application'', ''operating system'', ''network'', ''database'', ''behavioural'',
     ''integrity'', ''other'']"

definition countCheck :: "CheckStatus \<Rightarrow> Layer \<Rightarrow> Layer" where
  "countCheck c l =
     (if ck_State c = CheckNotApplicable then l
      else
        (let l1 = l\<lparr>la_Checks := la_Checks l + 1\<rparr>
         in if ck_State c = CheckOK then l1\<lparr>la_Observed := la_Observed l1 + 1\<rparr>
            else l1\<lparr>la_Unavailable := la_Unavailable l1 @ [ck_ID c]\<rparr>))"

definition layerStep :: "(bytes \<rightharpoonup> Layer) \<Rightarrow> CheckStatus \<Rightarrow> (bytes \<rightharpoonup> Layer)" where
  "layerStep byName c =
     (let name = layerFor (ck_ID c);
          l = (case byName name of
                 Some l \<Rightarrow> l
               | None \<Rightarrow> \<lparr>la_Name = name, la_State = [], la_Checks = 0, la_Observed = 0, la_Unavailable = []\<rparr>)
      in byName(name \<mapsto> countCheck c l))"

definition layerState :: "Layer \<Rightarrow> bytes" where
  "layerState l =
     (if la_Checks l = 0 then LayerNotPresent
      else if la_Observed l = 0 then LayerUnavailable
      else if length (la_Unavailable l) > 0 then LayerDegraded
      else LayerChecked)"

definition computeLayers :: "CheckStatus list \<Rightarrow> Layer list" where
  "computeLayers checks =
     (let byName = foldl layerStep (\<lambda>_. None) checks
      in concat (map (\<lambda>name. case byName name of
             None \<Rightarrow> []
           | Some l \<Rightarrow> [l\<lparr>la_State := layerState l\<rparr>]) layerOrder))"

section \<open>The report\<close>

record RulePackInfo =
  ri_Name :: bytes
  ri_Version :: bytes
  ri_SHA256 :: bytes
  ri_Rules :: int

record Report =
  rp_Schema :: bytes
  rp_AgentVersion :: bytes
  rp_Mode :: bytes
  rp_Host :: bytes
  rp_Site :: bytes
  rp_Webroot :: bytes
  rp_Label :: bytes
  rp_StartedAt :: int
  rp_FinishedAt :: int
  rp_DurationMS :: int
  rp_RulePacks :: "RulePackInfo list"
  rp_Checks :: "CheckStatus list"
  rp_Environment :: "Environment option"
  rp_Findings :: "Finding list"
  rp_Containment :: "ContainAction list"
  rp_Errors :: "bytes list"
  rp_Verdict :: bytes
  rp_VerdictDetail :: bytes
  rp_Layers :: "Layer list"

definition AddFinding :: "Finding \<Rightarrow> Report \<Rightarrow> Report" where
  "AddFinding f r =
     (let f' = (if fi_Confidence f \<noteq> ConfConfirmed then f\<lparr>fi_Actionable := False\<rparr> else f)
      in r\<lparr>rp_Findings := rp_Findings r @ [f']\<rparr>)"

definition AddError :: "bytes \<Rightarrow> Report \<Rightarrow> Report" where
  "AddError msg r = r\<lparr>rp_Errors := rp_Errors r @ [msg]\<rparr>"

definition AddCheck :: "CheckStatus \<Rightarrow> Report \<Rightarrow> Report" where
  "AddCheck c r = r\<lparr>rp_Checks := rp_Checks r @ [c]\<rparr>"

definition ResetReport :: "Report \<Rightarrow> Report" where
  "ResetReport r = r\<lparr>rp_Findings := [], rp_Checks := [], rp_Errors := []\<rparr>"

definition FindingCount :: "Report \<Rightarrow> nat" where
  "FindingCount r = length (rp_Findings r)"

definition AddContain :: "ContainAction \<Rightarrow> Report \<Rightarrow> Report" where
  "AddContain a r =
     r\<lparr>rp_Containment := rp_Containment r @ [a\<lparr>ca_Step := int (length (rp_Containment r)) + 1\<rparr>]\<rparr>"

subsection \<open>Finalize\<close>

text \<open>
  \<open>sort.SliceStable\<close> by falling rank, then class, then path: the library's stable sort on
  the lexicographic key.
\<close>

definition findingKey :: "Finding \<Rightarrow> int \<times> bytes \<times> bytes" where
  "findingKey f = (- Rank (fi_Severity f), fi_Class f, fi_Path f)"

definition isDirty :: "Finding list \<Rightarrow> bool" where
  "isDirty fs = list_ex (\<lambda>f. Rank (fi_Severity f) \<ge> Rank SevMedium) fs"

definition blindLayers :: "Layer list \<Rightarrow> bytes list" where
  "blindLayers ls =
     map la_Name (filter (\<lambda>l. la_State l = LayerUnavailable \<or> la_State l = LayerDegraded) ls)"

definition verdictOf :: "bool \<Rightarrow> bool \<Rightarrow> bytes" where
  "verdictOf dirty degraded =
     (if dirty then ''dirty'' else if degraded then ''partial'' else ''clean'')"

definition verdictDetail :: "bool \<Rightarrow> bytes list \<Rightarrow> bytes" where
  "verdictDetail dirty blind =
     (if dirty \<and> length blind > 0 then
        ''findings require action; additionally the '' @ goJoin blind '' and '' @
        '' layer(s) could not be assessed''
      else if dirty then ''all layers assessed; findings require action''
      else if length blind > 0 then
        ''no findings in the layers that WERE assessed, but the '' @ goJoin blind '' and '' @
        '' layer(s) could not be observed '' @ emDash @ '' this is not a clean bill of health''
      else ''all layers assessed, nothing found'')"

text \<open>\<open>time.Time.Sub\<close> saturates at the range of a \<open>Duration\<close>.\<close>

definition subTime :: "int \<Rightarrow> int \<Rightarrow> int" where
  "subTime t u = max (- (2 ^ 63)) (min (2 ^ 63 - 1) (t - u))"

definition Finalize :: "int \<Rightarrow> Report \<Rightarrow> Report" where
  "Finalize now r =
     (let fs = sort_key findingKey (rp_Findings r);
          layers = computeLayers (rp_Checks r);
          dirty = isDirty fs;
          blind = blindLayers layers;
          degraded = (length (rp_Errors r) > 0 \<or> length blind > 0)
      in r\<lparr>rp_Findings := fs, rp_FinishedAt := now,
           rp_DurationMS := goQuot (subTime now (rp_StartedAt r)) 1000000,
           rp_Layers := layers, rp_Verdict := verdictOf dirty degraded,
           rp_VerdictDetail := verdictDetail dirty blind\<rparr>)"

definition Counts :: "Report \<Rightarrow> bytes \<rightharpoonup> nat" where
  "Counts r = foldl (\<lambda>out f. out(fi_Severity f \<mapsto>
     (case out (fi_Severity f) of None \<Rightarrow> 0 | Some n \<Rightarrow> n) + 1)) (\<lambda>_. None) (rp_Findings r)"

definition MaxSeverity :: "Report \<Rightarrow> bytes" where
  "MaxSeverity r = foldl (\<lambda>best f. if Rank (fi_Severity f) > Rank best then fi_Severity f else best)
     SevInfo (rp_Findings r)"

section \<open>Runs\<close>

text \<open>One operation on the shared report, and the reports reachable from a fresh one.\<close>

inductive reportStep :: "Report \<Rightarrow> Report \<Rightarrow> bool" where
  stepFinding: "reportStep r (AddFinding f r)"
| stepError: "reportStep r (AddError msg r)"
| stepCheck: "reportStep r (AddCheck c r)"
| stepReset: "reportStep r (ResetReport r)"
| stepContain: "reportStep r (AddContain a r)"
| stepFinalize: "reportStep r (Finalize now r)"

inductive_cases reportStepE: "reportStep r r'"

definition freshReport :: "Report \<Rightarrow> bool" where
  "freshReport r \<longleftrightarrow> rp_Findings r = [] \<and> rp_Checks r = [] \<and> rp_Errors r = [] \<and> rp_Containment r = []"

inductive reachableReport :: "Report \<Rightarrow> bool" where
  start: "freshReport r \<Longrightarrow> reachableReport r"
| step: "reachableReport r \<Longrightarrow> reportStep r r' \<Longrightarrow> reachableReport r'"

text \<open>What every operation keeps.\<close>

definition actionableConfirmed :: "Finding list \<Rightarrow> bool" where
  "actionableConfirmed fs \<longleftrightarrow> (\<forall>f\<in>set fs. fi_Actionable f \<longrightarrow> fi_Confidence f = ConfConfirmed)"

definition stepsNumbered :: "ContainAction list \<Rightarrow> bool" where
  "stepsNumbered as \<longleftrightarrow> map ca_Step as = map int [1..<length as + 1]"

definition reportInv :: "Report \<Rightarrow> bool" where
  "reportInv r \<longleftrightarrow> actionableConfirmed (rp_Findings r) \<and> stepsNumbered (rp_Containment r)"

lemma reportInv_step: "reportInv r \<Longrightarrow> reportStep r r' \<Longrightarrow> reportInv r'"
  by (erule reportStepE)
    (auto simp: reportInv_def actionableConfirmed_def stepsNumbered_def AddFinding_def AddError_def
      AddCheck_def ResetReport_def AddContain_def Finalize_def Let_def)

lemma reportInv_fresh: "freshReport r \<Longrightarrow> reportInv r"
  by (simp add: reportInv_def freshReport_def actionableConfirmed_def stepsNumbered_def)

lemma reachable_reportInv: "reachableReport r \<Longrightarrow> reportInv r"
  by (induction rule: reachableReport.induct) (auto intro: reportInv_step reportInv_fresh)

section \<open>Layers and the verdict\<close>

definition observed :: "CheckStatus \<Rightarrow> bool" where
  "observed c \<longleftrightarrow> ck_State c = CheckOK \<or> ck_State c = CheckNotApplicable"

definition layerOf :: "CheckStatus list \<Rightarrow> bytes \<Rightarrow> Layer option" where
  "layerOf checks name =
     (let here = filter (\<lambda>c. layerFor (ck_ID c) = name) checks;
          counted = filter (\<lambda>c. ck_State c \<noteq> CheckNotApplicable) here
      in if here = [] then None
         else Some \<lparr>la_Name = name, la_State = [], la_Checks = length counted,
                la_Observed = length (filter (\<lambda>c. ck_State c = CheckOK) counted),
                la_Unavailable = map ck_ID (filter (\<lambda>c. ck_State c \<noteq> CheckOK) counted)\<rparr>)"

definition layerBase :: "bytes \<Rightarrow> Layer option \<Rightarrow> Layer" where
  "layerBase n lo = (case lo of Some l \<Rightarrow> l
     | None \<Rightarrow> \<lparr>la_Name = n, la_State = [], la_Checks = 0, la_Observed = 0, la_Unavailable = []\<rparr>)"

lemma layerStep_at:
  "layerStep m c n =
     (if n = layerFor (ck_ID c) then Some (countCheck c (layerBase n (m n))) else m n)"
  by (auto simp: layerStep_def Let_def layerBase_def)

lemma layerOf_snoc:
  "layerOf (cs @ [c]) n =
     (if n = layerFor (ck_ID c) then Some (countCheck c (layerBase n (layerOf cs n)))
      else layerOf cs n)"
proof (cases "filter (\<lambda>d. layerFor (ck_ID d) = n) cs = []")
  case True
  then have "filter (\<lambda>d. P d \<and> layerFor (ck_ID d) = n) cs = []" "filter (\<lambda>d. layerFor (ck_ID d) = n \<and> P d) cs = []" for P
    by (auto simp: filter_empty_conv)
  with True show ?thesis by (auto simp: layerOf_def countCheck_def layerBase_def Let_def)
qed (auto simp: layerOf_def countCheck_def layerBase_def Let_def)

lemma foldl_layerStep: "foldl layerStep (\<lambda>_. None) checks n = layerOf checks n"
  by (induction checks arbitrary: n rule: rev_induct) (simp_all add: layerStep_at layerOf_snoc, simp add: layerOf_def)

lemma layerFor_order: "layerFor i \<in> set layerOrder"
  by (simp add: layerFor_def layerOrder_def)

lemma layerOf_blind:
  assumes "layerOf checks name = Some l"
  shows "la_Name l = name \<and>
    (layerState l \<in> {LayerUnavailable, LayerDegraded} \<longleftrightarrow>
       (\<exists>c\<in>set checks. layerFor (ck_ID c) = name \<and> \<not> observed c))"
proof -
  let ?here = "filter (\<lambda>c. layerFor (ck_ID c) = name) checks"
  let ?counted = "filter (\<lambda>c. ck_State c \<noteq> CheckNotApplicable) ?here"
  have l: "la_Name l = name" "la_Checks l = length ?counted"
    "la_Observed l = length (filter (\<lambda>c. ck_State c = CheckOK) ?counted)"
    "la_Unavailable l = map ck_ID (filter (\<lambda>c. ck_State c \<noteq> CheckOK) ?counted)"
    using assms by (auto simp: layerOf_def Let_def split: if_splits)
  have split: "length ?counted = length (filter (\<lambda>c. ck_State c = CheckOK) ?counted) +
      length (filter (\<lambda>c. ck_State c \<noteq> CheckOK) ?counted)"
    by (rule sum_length_filter_compl [symmetric])
  have blind: "filter (\<lambda>c. ck_State c \<noteq> CheckOK) ?counted \<noteq> [] \<longleftrightarrow>
      (\<exists>c\<in>set checks. layerFor (ck_ID c) = name \<and> \<not> observed c)"
    by (auto simp: filter_empty_conv observed_def)
  have "layerState l \<in> {LayerUnavailable, LayerDegraded} \<longleftrightarrow>
      filter (\<lambda>c. ck_State c \<noteq> CheckOK) ?counted \<noteq> []"
    using split unfolding layerState_def l(2-4) by (auto simp del: filter_filter)
  with blind l(1) show ?thesis by blast
qed

lemma blindLayers_set:
  "set (blindLayers (computeLayers checks)) = {layerFor (ck_ID c) | c. c \<in> set checks \<and> \<not> observed c}"
proof -
  have mem: "l' \<in> set (computeLayers checks) \<longleftrightarrow>
      (\<exists>n\<in>set layerOrder. \<exists>l. layerOf checks n = Some l \<and> l' = l\<lparr>la_State := layerState l\<rparr>)" for l'
    unfolding computeLayers_def Let_def foldl_layerStep set_concat set_map
    by (force split: option.splits)
  have "n \<in> set (blindLayers (computeLayers checks)) \<longleftrightarrow>
      n \<in> set layerOrder \<and> (\<exists>l. layerOf checks n = Some l \<and> layerState l \<in> {LayerUnavailable, LayerDegraded})"
    for n
  proof
    assume "n \<in> set (blindLayers (computeLayers checks))"
    then obtain l' where "l' \<in> set (computeLayers checks)" "la_Name l' = n"
        "la_State l' \<in> {LayerUnavailable, LayerDegraded}"
      by (auto simp: blindLayers_def)
    with mem obtain m l where m: "m \<in> set layerOrder" "layerOf checks m = Some l"
        "la_Name l = n" "layerState l \<in> {LayerUnavailable, LayerDegraded}"
      by auto
    have "m = n" using layerOf_blind [OF m(2)] m(3) by simp
    with m show "n \<in> set layerOrder \<and>
        (\<exists>l. layerOf checks n = Some l \<and> layerState l \<in> {LayerUnavailable, LayerDegraded})"
      by blast
  next
    assume "n \<in> set layerOrder \<and>
        (\<exists>l. layerOf checks n = Some l \<and> layerState l \<in> {LayerUnavailable, LayerDegraded})"
    then obtain l where l: "n \<in> set layerOrder" "layerOf checks n = Some l"
        "layerState l \<in> {LayerUnavailable, LayerDegraded}" by blast
    then have "l\<lparr>la_State := layerState l\<rparr> \<in> set (computeLayers checks)" using mem by blast
    moreover have "la_Name l = n" using layerOf_blind [OF l(2)] by blast
    ultimately show "n \<in> set (blindLayers (computeLayers checks))"
      using l(3) unfolding blindLayers_def set_map set_filter
      by (intro image_eqI [where x = "l\<lparr>la_State := layerState l\<rparr>"]) auto
  qed
  note blind = this
  have here: "n \<in> set (blindLayers (computeLayers checks)) \<longleftrightarrow>
      n \<in> set layerOrder \<and> (\<exists>l. layerOf checks n = Some l) \<and>
      (\<exists>c\<in>set checks. layerFor (ck_ID c) = n \<and> \<not> observed c)" for n
  proof (cases "layerOf checks n")
    case (Some l)
    then show ?thesis using blind [of n] layerOf_blind [OF Some] by (simp del: insert_iff)
  qed (use blind in simp)
  have some: "\<exists>l. layerOf checks (layerFor (ck_ID c)) = Some l" if "c \<in> set checks" for c
    using that by (auto simp: layerOf_def Let_def filter_empty_conv)
  show ?thesis
  proof (rule set_eqI)
    show "n \<in> set (blindLayers (computeLayers checks)) \<longleftrightarrow>
        n \<in> {layerFor (ck_ID c) | c. c \<in> set checks \<and> \<not> observed c}" for n
      unfolding here mem_Collect_eq using some layerFor_order by blast
  qed
qed

lemma blindLayers_Nil: "blindLayers (computeLayers checks) = [] \<longleftrightarrow> (\<forall>c\<in>set checks. observed c)"
proof -
  have "set (blindLayers (computeLayers checks)) = {} \<longleftrightarrow> (\<forall>c\<in>set checks. observed c)"
    unfolding blindLayers_set by blast
  then show ?thesis by simp
qed

lemma isDirty_iff: "isDirty fs \<longleftrightarrow> (\<exists>f\<in>set fs. Rank (fi_Severity f) \<ge> 3)"
  by (simp add: isDirty_def list_ex_iff Rank_def)

lemma isDirty_sort [simp]: "isDirty (sort_key k fs) = isDirty fs"
  by (simp add: isDirty_iff)

section \<open>Properties\<close>

text \<open>
  C21. However the operations on a report interleave, a finding marked actionable (eligible for
  automated quarantine) is a confirmed one, and the containment steps are numbered 1, 2, 3 and
  so on in the order they were recorded.
\<close>

theorem report_actionable_confirmed:
  assumes "reachableReport r"
  shows "(\<forall>f\<in>set (rp_Findings r). fi_Actionable f \<longrightarrow> fi_Confidence f = ConfConfirmed) \<and>
     map ca_Step (rp_Containment r) = map int [1..<length (rp_Containment r) + 1]"
  using reachable_reportInv [OF assms]
  by (simp add: reportInv_def actionableConfirmed_def stepsNumbered_def)


text \<open>
  An error alone makes the verdict partial, but the explanation printed beside it then says
  that everything was assessed and nothing found.
\<close>

theorem Finalize_errors_only:
  assumes "\<forall>f\<in>set (rp_Findings r). Rank (fi_Severity f) < 3" "\<forall>c\<in>set (rp_Checks r). observed c"
    and "rp_Errors r \<noteq> []"
  shows "rp_Verdict (Finalize now r) = ''partial'' \<and>
     rp_VerdictDetail (Finalize now r) = ''all layers assessed, nothing found''"
proof -
  have "\<not> isDirty (rp_Findings r)" using assms(1) by (auto simp: isDirty_iff)
  with assms(2,3) blindLayers_Nil show ?thesis
    by (simp add: Finalize_def Let_def verdictOf_def verdictDetail_def)
qed

text \<open>A report and findings for the witnesses.\<close>

definition emptyReport :: Report where
  "emptyReport = \<lparr>rp_Schema = [], rp_AgentVersion = [], rp_Mode = [], rp_Host = [], rp_Site = [],
     rp_Webroot = [], rp_Label = [], rp_StartedAt = 0, rp_FinishedAt = 0, rp_DurationMS = 0,
     rp_RulePacks = [], rp_Checks = [], rp_Environment = None, rp_Findings = [], rp_Containment = [],
     rp_Errors = [], rp_Verdict = [], rp_VerdictDetail = [], rp_Layers = []\<rparr>"

lemma report_actionable_confirmed_witness:
  "\<not> fi_Actionable (hd (rp_Findings (AddFinding
      (zeroFinding\<lparr>fi_Actionable := True, fi_Confidence := ConfLikely\<rparr>) emptyReport)))"
proof -
  let ?f = "zeroFinding\<lparr>fi_Actionable := True, fi_Confidence := ConfLikely\<rparr>"
  let ?r = "AddFinding ?f emptyReport"
  have "reachableReport emptyReport" by (rule start) (simp add: freshReport_def emptyReport_def)
  then have reach: "reachableReport ?r" using stepFinding by (rule step)
  have mem: "hd (rp_Findings ?r) \<in> set (rp_Findings ?r)" "fi_Confidence (hd (rp_Findings ?r)) = ConfLikely"
    by (simp_all add: AddFinding_def emptyReport_def zeroFinding_def)
  with report_actionable_confirmed [OF reach] show ?thesis by fastforce
qed

lemma Finalize_errors_only_witness:
  "rp_Verdict (Finalize 5 (AddError ''permission denied'' emptyReport)) = ''partial'' \<and>
   rp_VerdictDetail (Finalize 5 (AddError ''permission denied'' emptyReport)) = ''all layers assessed, nothing found''"
  by (rule Finalize_errors_only) (simp_all add: AddError_def emptyReport_def)

end
