(* ===== verification/Consensus.thy ===== *)
theory Consensus
  imports Report
begin

text \<open>
  Cross-estate consensus (\<open>internal/store/consensus.go\<close>, and \<open>Correlate\<close> of
  \<open>internal/store/store.go\<close>): which files an estate vouches for as vendor code. The tables the
  queries read are lists of rows; a query is the list function its SQL text denotes. Queries do
  not fail here: the error returns of the driver are left out. \<open>LIKE\<close> is modelled byte by
  byte with ASCII case folding, as SQLite does.
\<close>

section \<open>Tables\<close>

record agentRow =
  ar_id :: bytes
  ar_hostname :: bytes
  ar_webroot :: bytes
  ar_retired :: int
  ar_estate :: "int option"

record findingRow =
  fr_agent :: bytes
  fr_sha :: bytes
  fr_path :: bytes
  fr_title :: bytes
  fr_rule :: bytes
  fr_severity :: bytes
  fr_state :: bytes
  fr_first :: int
  fr_last :: int

record attestRow =
  at_estate :: int
  at_sha :: bytes
  at_path :: bytes
  at_note :: bytes
  at_created :: int
  at_by :: bytes

record estateDB =
  db_agents :: "agentRow list"
  db_findings :: "findingRow list"
  db_attestations :: "attestRow list"

text \<open>
  The common part of the queries: findings joined with the agents that are not retired, not
  dismissed, and of the estate when one is named (\<open>estateID != 0\<close>).
\<close>

definition inEstate :: "int \<Rightarrow> agentRow \<Rightarrow> bool" where
  "inEstate e a \<longleftrightarrow> e = 0 \<or> ar_estate a = Some e"

definition joined :: "estateDB \<Rightarrow> int \<Rightarrow> (findingRow \<times> agentRow) list" where
  "joined db e =
     [(f, a). f \<leftarrow> db_findings db, a \<leftarrow> db_agents db,
        ar_id a = fr_agent f \<and> ar_retired a = 0 \<and> fr_state f \<noteq> ''dismissed'' \<and> inEstate e a]"

definition correlationHost :: "findingRow \<times> agentRow \<Rightarrow> bytes" where
  "correlationHost = (\<lambda>(f, a). if ar_hostname a = [] then fr_agent f else ar_hostname a @ ''|'' @ ar_webroot a)"

section \<open>Correlation\<close>

record Correlation =
  co_SHA256 :: bytes
  co_Title :: bytes
  co_RuleID :: bytes
  co_Severity :: bytes
  co_Count :: nat
  co_FirstSeen :: int
  co_LastSeen :: int

definition hostsOf :: "(findingRow \<times> agentRow) list \<Rightarrow> bytes set" where
  "hostsOf rows = set (map correlationHost rows)"

definition correlationOf :: "(findingRow \<times> agentRow) list \<Rightarrow> bytes \<Rightarrow> Correlation" where
  "correlationOf rows sha =
     \<lparr>co_SHA256 = sha, co_Title = Min (set (map (fr_title \<circ> fst) rows)),
      co_RuleID = Min (set (map (fr_rule \<circ> fst) rows)),
      co_Severity = Min (set (map (fr_severity \<circ> fst) rows)), co_Count = card (hostsOf rows),
      co_FirstSeen = Min (set (map (fr_first \<circ> fst) rows)),
      co_LastSeen = Max (set (map (fr_last \<circ> fst) rows))\<rparr>"

text \<open>The lists of agents and paths (\<open>GROUP_CONCAT\<close>, in no fixed order) are left out.\<close>

definition Correlate :: "estateDB \<Rightarrow> int \<Rightarrow> int \<Rightarrow> Correlation list" where
  "Correlate db minHosts e =
     (let minHosts' = (if minHosts < 2 then 2 else minHosts);
          rows = filter (\<lambda>(f, a). fr_sha f \<noteq> []) (joined db e);
          groups = map (\<lambda>sha. correlationOf (filter (\<lambda>(f, a). fr_sha f = sha) rows) sha)
                     (remdups (map (fr_sha \<circ> fst) rows))
      in sort_key (\<lambda>c. (- int (co_Count c), - co_LastSeen c))
           (filter (\<lambda>c. int (co_Count c) \<ge> minHosts') groups))"

section \<open>Consensus\<close>

abbreviation "ConsensusVendor \<equiv> ''vendor''"
abbreviation "ConsensusSingleton \<equiv> ''singleton''"
abbreviation "ConsensusCampaign \<equiv> ''campaign''"
abbreviation "ConsensusInconclusive \<equiv> ''inconclusive''"

definition consensusMinSites :: nat where "consensusMinSites = 3"

definition consensusBurstWindow :: int where "consensusBurstWindow = 7 * 24 * 3600 * 1000000000"

text \<open>A \<open>time.Time\<close> is its seconds since the epoch; the zero time is 1 January of year 1.\<close>

definition zeroTime :: int where "zeroTime = - 62135596800"

definition unixOrZero :: "int \<Rightarrow> int" where
  "unixOrZero v = (if v = 0 then zeroTime else v)"

record Consensus =
  cs_SHA256 :: bytes
  cs_Sites :: nat
  cs_Paths :: "bytes list"
  cs_VendorTree :: bytes
  cs_FirstSeen :: int
  cs_LastSeen :: int
  cs_SitesRunningTree :: nat
  cs_Verdict :: bytes
  cs_Rationale :: bytes

definition Corroborates :: "Consensus \<Rightarrow> bool" where
  "Corroborates c \<longleftrightarrow> cs_Verdict c = ConsensusVendor"

definition vendorTreeOf :: "bytes \<Rightarrow> bytes" where
  "vendorTreeOf rel =
     (let rel' = trimPrefix (replaceByte (CHR 0x5C) (CHR ''/'') rel) ''./'';
          parts = goSplit (CHR ''/'') rel'
      in if length parts \<ge> 4 \<and> parts ! 0 = ''wp-content'' \<and>
            parts ! 1 \<in> {''plugins'', ''themes'', ''mu-plugins''}
         then goJoin (take 3 parts) ''/'' else [])"

text \<open>\<open>likeEscape\<close> and the pattern matching of \<open>LIKE ... ESCAPE\<close> with a backslash.\<close>

definition likeEscape :: "bytes \<Rightarrow> bytes" where
  "likeEscape s = concat (map (\<lambda>c. if c = CHR 0x5C \<or> c = CHR ''%'' \<or> c = CHR ''_'' then [CHR 0x5C, c] else [c]) s)"

function sqlLike :: "bytes \<Rightarrow> bytes \<Rightarrow> bool" where
  "sqlLike [] s = (s = [])"
| "sqlLike (p # ps) s =
     (if p = CHR 0x5C then
        (case ps of [] \<Rightarrow> False
         | q # qs \<Rightarrow> (case s of [] \<Rightarrow> False | c # cs \<Rightarrow> ascii_lower c = ascii_lower q \<and> sqlLike qs cs))
      else if p = CHR ''%'' then
        sqlLike ps s \<or> (case s of [] \<Rightarrow> False | c # cs \<Rightarrow> sqlLike (p # ps) cs)
      else
        (case s of [] \<Rightarrow> False
         | c # cs \<Rightarrow> (p = CHR ''_'' \<or> ascii_lower c = ascii_lower p) \<and> sqlLike ps cs))"
  by pat_completeness auto
termination by (relation "measure (\<lambda>(p, s). length p + length s)") auto

definition sitesRunningTree :: "estateDB \<Rightarrow> bytes \<Rightarrow> int \<Rightarrow> nat" where
  "sitesRunningTree db tree e =
     card (hostsOf (filter (\<lambda>(f, a). sqlLike (likeEscape tree @ ''/%'') (fr_path f)) (joined db e)))"

text \<open>The rationale; a \<open>Duration\<close> rounded to hours prints as, say, \<open>26h0m0s\<close>.\<close>

definition roundHours :: "int \<Rightarrow> int" where
  "roundHours d = (let h = 3600 * 1000000000; n = (\<bar>d\<bar> + h div 2) div h in if d < 0 then - n else n)"

definition showHours :: "int \<Rightarrow> bytes" where
  "showHours n = (if n = 0 then ''0s'' else showInt n @ ''h0m0s'')"

definition classifyConsensus :: "Consensus \<Rightarrow> bytes \<times> bytes" where
  "classifyConsensus c =
     (let sites = showInt (int (cs_Sites c)); running = showInt (int (cs_SitesRunningTree c));
          spread = subTime (cs_LastSeen c * 1000000000) (cs_FirstSeen c * 1000000000)
      in if cs_Sites c = 0 then (ConsensusInconclusive, ''no sightings recorded for this digest'')
         else if cs_VendorTree c = [] \<and> cs_Sites c \<ge> 2 then
           (ConsensusCampaign, ''identical bytes on '' @ sites @
              '' sites but not at a consistent plugin/theme path ('' @ goJoin (cs_Paths c) '', '' @ '') '' @
              emDash @ '' vendor code does not move between installations'')
         else if cs_VendorTree c = [] then
           (ConsensusInconclusive,
              ''seen on one site and not inside a plugin or theme directory, so the estate has no opinion'')
         else if length (cs_Paths c) > 1 then
           (ConsensusCampaign, ''same digest at '' @ showInt (int (length (cs_Paths c))) @
              '' different paths across '' @ sites @ '' sites '' @ emDash @
              '' a vendor ships a file to ONE location'')
         else if cs_Sites c = 1 \<and> cs_SitesRunningTree c \<ge> consensusMinSites then
           (ConsensusSingleton, running @ '' sites carry '' @ cs_VendorTree c @
              '', but only this one has this file '' @ emDash @ '' it is not part of the released package'')
         else if cs_Sites c = 1 then
           (ConsensusInconclusive, ''only '' @ running @ '' site in the estate reports anything under '' @
              cs_VendorTree c @ '', so there is nothing to compare against'')
         else if cs_Sites c < consensusMinSites then
           (ConsensusInconclusive, sites @ '' site(s) agree; '' @ showInt (int consensusMinSites) @
              '' are required before identical bytes are treated as vendor code'')
         else if cs_FirstSeen c \<noteq> zeroTime \<and> cs_LastSeen c \<noteq> zeroTime \<and> spread < consensusBurstWindow then
           (ConsensusCampaign, ''appeared on '' @ sites @ '' sites within '' @ showHours (roundHours spread) @
              '' '' @ emDash @ '' an installed base accrues over time, '' @
              ''a simultaneous arrival is a deployment'')
         else
           (ConsensusVendor, ''byte-identical at '' @ cs_VendorTree c @ '' on '' @ sites @
              '' independent sites '' @ emDash @ '' this is the published package''))"

subsection \<open>ConsensusFor\<close>

text \<open>Empty and repeated digests are dropped.\<close>

fun uniqueShas :: "bytes list \<Rightarrow> bytes list \<Rightarrow> bytes list" where
  "uniqueShas seen [] = []"
| "uniqueShas seen (s # ss) =
     (if s = [] \<or> s \<in> set seen then uniqueShas seen ss else s # uniqueShas (s # seen) ss)"

text \<open>One row of the query of sightings: digest, path, host, first and last sighting.\<close>

type_synonym sighting = "bytes \<times> bytes \<times> bytes \<times> int \<times> int"

definition sightings :: "estateDB \<Rightarrow> int \<Rightarrow> bytes list \<Rightarrow> sighting list" where
  "sightings db e shas =
     (let rows = filter (\<lambda>(f, a). fr_sha f \<in> set shas) (joined db e);
          key = (\<lambda>(f, a). (fr_sha f, fr_path f, correlationHost (f, a)))
      in map (\<lambda>k. let g = map fst (filter (\<lambda>r. key r = k) rows)
                  in (fst k, fst (snd k), snd (snd k), Min (set (map fr_first g)), Max (set (map fr_last g))))
           (remdups (map key rows)))"

record sightAcc =
  sa_agents :: "bytes set"
  sa_paths :: "bytes set"
  sa_first :: int
  sa_last :: int

definition addSighting :: "sightAcc \<Rightarrow> sighting \<Rightarrow> sightAcc" where
  "addSighting a s =
     (case s of (sha, p, host, fs, ls) \<Rightarrow>
        \<lparr>sa_agents = insert host (sa_agents a), sa_paths = insert p (sa_paths a),
         sa_first = (if sa_first a = 0 \<or> fs < sa_first a then fs else sa_first a),
         sa_last = (if ls > sa_last a then ls else sa_last a)\<rparr>)"

definition emptyAcc :: sightAcc where
  "emptyAcc = \<lparr>sa_agents = {}, sa_paths = {}, sa_first = 0, sa_last = 0\<rparr>"

definition byDigestStep :: "(bytes \<rightharpoonup> sightAcc) \<Rightarrow> sighting \<Rightarrow> (bytes \<rightharpoonup> sightAcc)" where
  "byDigestStep m s =
     m(fst s \<mapsto> addSighting (case m (fst s) of Some a \<Rightarrow> a | None \<Rightarrow> emptyAcc) s)"

text \<open>The vendor tree all paths agree on; \<open>None\<close> when they do not.\<close>

fun agreedTree :: "bytes list \<Rightarrow> bytes \<Rightarrow> bytes option" where
  "agreedTree [] tree = Some tree"
| "agreedTree (p # ps) tree =
     (let t = vendorTreeOf p
      in if t = [] then None
         else if tree = [] then agreedTree ps t
         else if tree \<noteq> t then None
         else agreedTree ps tree)"

definition consensusOf :: "estateDB \<Rightarrow> int \<Rightarrow> bytes \<Rightarrow> sightAcc \<Rightarrow> Consensus" where
  "consensusOf db e sha a =
     (let paths = sorted_list_of_set (sa_paths a);
          tree = (case agreedTree paths [] of Some t \<Rightarrow> t | None \<Rightarrow> []);
          c = \<lparr>cs_SHA256 = sha, cs_Sites = card (sa_agents a), cs_Paths = paths, cs_VendorTree = tree,
               cs_FirstSeen = unixOrZero (sa_first a), cs_LastSeen = unixOrZero (sa_last a),
               cs_SitesRunningTree = (if tree \<noteq> [] then sitesRunningTree db tree e else 0),
               cs_Verdict = [], cs_Rationale = []\<rparr>;
          v = classifyConsensus c
      in c\<lparr>cs_Verdict := fst v, cs_Rationale := snd v\<rparr>)"

definition noSightings :: "bytes \<Rightarrow> Consensus" where
  "noSightings sha =
     \<lparr>cs_SHA256 = sha, cs_Sites = 0, cs_Paths = [], cs_VendorTree = [], cs_FirstSeen = zeroTime,
      cs_LastSeen = zeroTime, cs_SitesRunningTree = 0, cs_Verdict = ConsensusInconclusive,
      cs_Rationale = ''no sightings recorded for this digest''\<rparr>"

definition ConsensusFor :: "estateDB \<Rightarrow> int \<Rightarrow> bytes list \<Rightarrow> bytes \<rightharpoonup> Consensus" where
  "ConsensusFor db e shas =
     (let uniq = uniqueShas [] shas;
          byDigest = foldl byDigestStep (\<lambda>_. None) (sightings db e uniq)
      in (\<lambda>sha. case byDigest sha of
             Some a \<Rightarrow> Some (consensusOf db e sha a)
           | None \<Rightarrow> if sha \<in> set uniq then Some (noSightings sha) else None))"

subsection \<open>Attestations\<close>

record Attestation =
  att_SHA256 :: bytes
  att_Path :: bytes
  att_Tree :: bytes
  att_Sites :: nat

definition OperatorAttestations :: "estateDB \<Rightarrow> int \<Rightarrow> Attestation list" where
  "OperatorAttestations db e =
     (if e = 0 then []
      else map (\<lambda>r. \<lparr>att_SHA256 = at_sha r, att_Path = at_path r, att_Tree = [], att_Sites = 0\<rparr>)
             (filter (\<lambda>r. at_estate r = e) (db_attestations db)))"

text \<open>
  The range over the map of verdicts visits the digests in some order; here it is that of the
  correlations. The result is sorted by path, so only entries with equal paths depend on it.
\<close>

definition attestedOf :: "(bytes \<rightharpoonup> Consensus) \<Rightarrow> bytes list \<Rightarrow> Attestation list" where
  "attestedOf verdicts shas =
     concat (map (\<lambda>sha. case verdicts sha of
         None \<Rightarrow> []
       | Some v \<Rightarrow> if cs_Verdict v \<noteq> ConsensusVendor \<or> length (cs_Paths v) \<noteq> 1 then []
                   else [\<lparr>att_SHA256 = sha, att_Path = cs_Paths v ! 0, att_Tree = cs_VendorTree v,
                          att_Sites = cs_Sites v\<rparr>]) shas)"

definition VendorAttestations :: "estateDB \<Rightarrow> int \<Rightarrow> Attestation list" where
  "VendorAttestations db e =
     (if e = 0 then []
      else
        (let cors = Correlate db 2 e;
             shas = map co_SHA256 cors;
             verdicts = ConsensusFor db e shas;
             out = attestedOf verdicts shas;
             seen = map (\<lambda>a. att_SHA256 a @ ''|'' @ att_Path a) out;
             manual = filter (\<lambda>a. att_SHA256 a @ ''|'' @ att_Path a \<notin> set seen) (OperatorAttestations db e)
         in if cors = [] then []
            else sort_key att_Path (out @ manual)))"

text \<open>\<open>AttestArtefact\<close> inserts or updates on the key (estate, digest, path); \<open>now\<close> is the time.\<close>

definition AttestArtefact :: "int \<Rightarrow> int \<Rightarrow> bytes \<Rightarrow> bytes \<Rightarrow> bytes \<Rightarrow> bytes \<Rightarrow> estateDB \<Rightarrow> bytes + estateDB" where
  "AttestArtefact now e sha path note by db =
     (if e = 0 then
        Inl (''an attestation must name an estate: exonerating a file across every '' @
             ''customer on one operator'' @ [CHR 0x27] @ ''s word is not a decision this console will make'')
      else if trimSpace sha = [] then
        Inl (''an attestation needs a digest; a path alone would exonerate whatever '' @
             ''later occupies that path'')
      else
        (let same = (\<lambda>r. at_estate r = e \<and> at_sha r = sha \<and> at_path r = path)
         in if list_ex same (db_attestations db)
            then Inr (db\<lparr>db_attestations :=
                   map (\<lambda>r. if same r then r\<lparr>at_note := note, at_created := now, at_by := by\<rparr> else r)
                     (db_attestations db)\<rparr>)
            else Inr (db\<lparr>db_attestations := db_attestations db @
                   [\<lparr>at_estate = e, at_sha = sha, at_path = path, at_note = note, at_created = now,
                     at_by = by\<rparr>]\<rparr>)))"

definition RevokeAttestation :: "int \<Rightarrow> bytes \<Rightarrow> bytes \<Rightarrow> estateDB \<Rightarrow> estateDB" where
  "RevokeAttestation e sha path db =
     db\<lparr>db_attestations :=
       filter (\<lambda>r. \<not> (at_estate r = e \<and> at_sha r = sha \<and> at_path r = path)) (db_attestations db)\<rparr>"

section \<open>Patterns\<close>

declare sqlLike.simps [simp del]

lemma sqlLike_escape:
  "sqlLike (likeEscape t @ ps) s \<longleftrightarrow>
     length t \<le> length s \<and> map ascii_lower (take (length t) s) = map ascii_lower t \<and>
     sqlLike ps (drop (length t) s)"
proof (induction t arbitrary: s)
  case (Cons c t)
  show ?case
  proof (cases s)
    case Nil
    then show ?thesis by (simp add: likeEscape_def sqlLike.simps)
  next
    case (Cons d s')
    show ?thesis
    proof (cases "c = CHR 0x5C \<or> c = CHR ''%'' \<or> c = CHR ''_''")
      case True
      then have eq: "likeEscape (c # t) @ ps = CHR 0x5C # c # (likeEscape t @ ps)" by (simp add: likeEscape_def)
      have "sqlLike (likeEscape (c # t) @ ps) s \<longleftrightarrow>
          ascii_lower d = ascii_lower c \<and> sqlLike (likeEscape t @ ps) s'"
        unfolding eq \<open>s = d # s'\<close> by (subst sqlLike.simps) simp
      with Cons.IH [of s'] Cons show ?thesis by auto
    next
      case False
      then have eq: "likeEscape (c # t) @ ps = c # (likeEscape t @ ps)" by (simp add: likeEscape_def)
      have "sqlLike (likeEscape (c # t) @ ps) s \<longleftrightarrow>
          ascii_lower d = ascii_lower c \<and> sqlLike (likeEscape t @ ps) s'"
        unfolding eq \<open>s = d # s'\<close> using False by (subst sqlLike.simps) simp
      with Cons.IH [of s'] Cons show ?thesis by auto
    qed
  qed
qed (simp add: likeEscape_def)

lemma sqlLike_any: "sqlLike ''%'' s"
  by (induction s) (subst sqlLike.simps, simp add: sqlLike.simps)+

lemma sqlLike_slash: "sqlLike ''/%'' s \<longleftrightarrow> s \<noteq> [] \<and> ascii_lower (hd s) = ascii_lower (CHR ''/'')"
  by (subst sqlLike.simps) (cases s; simp add: sqlLike_any)

section \<open>The accumulators\<close>

lemma foldl_byDigest:
  "foldl byDigestStep (\<lambda>_. None) ss sha =
     (let g = filter (\<lambda>s. fst s = sha) ss in if g = [] then None else Some (foldl addSighting emptyAcc g))"
proof (induction ss arbitrary: sha rule: rev_induct)
  case (snoc s ss)
  then show ?case by (auto simp: byDigestStep_def Let_def)
qed simp

abbreviation sgPath :: "sighting \<Rightarrow> bytes" where "sgPath s \<equiv> fst (snd s)"
abbreviation sgHost :: "sighting \<Rightarrow> bytes" where "sgHost s \<equiv> fst (snd (snd s))"
abbreviation sgFirst :: "sighting \<Rightarrow> int" where "sgFirst s \<equiv> fst (snd (snd (snd s)))"
abbreviation sgLast :: "sighting \<Rightarrow> int" where "sgLast s \<equiv> snd (snd (snd (snd s)))"

lemma foldl_addSighting_sets:
  "sa_agents (foldl addSighting a g) = sa_agents a \<union> sgHost ` set g \<and>
   sa_paths (foldl addSighting a g) = sa_paths a \<union> sgPath ` set g"
  by (induction g arbitrary: a) (auto simp: addSighting_def)

lemma foldl_addSighting_times:
  "\<forall>s\<in>set g. 0 < sgFirst s \<and> 0 < sgLast s \<Longrightarrow> g \<noteq> [] \<Longrightarrow>
   (\<exists>s\<in>set g. sa_first (foldl addSighting emptyAcc g) = sgFirst s) \<and>
   (\<exists>s\<in>set g. sa_last (foldl addSighting emptyAcc g) = sgLast s)"
proof (induction g rule: rev_induct)
  case (snoc s g)
  show ?case
  proof (cases "g = []")
    case True
    with snoc.prems show ?thesis by (auto simp: addSighting_def emptyAcc_def split: prod.split)
  next
    case False
    with snoc show ?thesis by (auto simp: addSighting_def split: prod.split)
  qed
qed simp

text \<open>The rows of one digest.\<close>

definition rowsOf :: "estateDB \<Rightarrow> int \<Rightarrow> bytes \<Rightarrow> (findingRow \<times> agentRow) list" where
  "rowsOf db e sha = filter (\<lambda>(f, a). fr_sha f = sha) (joined db e)"

lemma sighting_from_rows:
  assumes "s \<in> set (sightings db e uniq)"
  shows "fst s \<in> set uniq \<and>
    (\<exists>r\<in>set (rowsOf db e (fst s)). fr_path (fst r) = sgPath s \<and> correlationHost r = sgHost s) \<and>
    (\<exists>r\<in>set (rowsOf db e (fst s)). fr_first (fst r) = sgFirst s) \<and>
    (\<exists>r\<in>set (rowsOf db e (fst s)). fr_last (fst r) = sgLast s)"
proof -
  define rows where "rows = filter (\<lambda>(f, a). fr_sha f \<in> set uniq) (joined db e)"
  define key where "key = (\<lambda>(f, a). (fr_sha f, fr_path f, correlationHost (f, a)))"
  obtain r where r: "r \<in> set rows" "s = (let g = map fst (filter (\<lambda>x. key x = key r) rows)
      in (fst (key r), fst (snd (key r)), snd (snd (key r)), Min (set (map fr_first g)), Max (set (map fr_last g))))"
    using assms by (auto simp: sightings_def rows_def key_def Let_def)
  define g where "g = map fst (filter (\<lambda>x. key x = key r) rows)"
  have s: "fst s = fst (key r)" "sgPath s = fst (snd (key r))" "sgHost s = snd (snd (key r))"
    "sgFirst s = Min (set (map fr_first g))" "sgLast s = Max (set (map fr_last g))"
    using r(2) unfolding g_def Let_def by (simp_all only: fst_conv snd_conv)
  have ne: "fst r \<in> set g" using r(1) by (auto simp: g_def)
  then have "Min (set (map fr_first g)) \<in> set (map fr_first g)" "Max (set (map fr_last g)) \<in> set (map fr_last g)"
    by (intro Min_in Max_in; force)+
  then obtain f1 f2 where f: "f1 \<in> set g" "fr_first f1 = sgFirst s" "f2 \<in> set g" "fr_last f2 = sgLast s"
    unfolding s by auto
  have g_rows: "\<exists>x\<in>set (rowsOf db e (fst s)). fst x = f" if fg: "f \<in> set g" for f
  proof -
    obtain a where "(f, a) \<in> set rows" "key (f, a) = key r" using fg by (auto simp: g_def)
    then show ?thesis unfolding s(1) by (auto simp: rowsOf_def rows_def key_def split: prod.splits)
  qed
  have "r \<in> set (rowsOf db e (fst s))" "fst s \<in> set uniq"
    using r(1) unfolding s(1) by (auto simp: rowsOf_def rows_def key_def split: prod.splits)
  moreover have "fr_path (fst r) = sgPath s" "correlationHost r = sgHost s"
    unfolding s by (auto simp: key_def split: prod.splits)
  ultimately show ?thesis using g_rows [OF f(1)] g_rows [OF f(3)] f by blast
qed

lemma rows_have_sighting:
  assumes "r \<in> set (rowsOf db e sha)" "sha \<in> set uniq"
  shows "\<exists>s\<in>set (sightings db e uniq). fst s = sha \<and> sgPath s = fr_path (fst r) \<and> sgHost s = correlationHost r"
proof -
  obtain f a where fa: "r = (f, a)" by (metis surj_pair)
  have "r \<in> set (filter (\<lambda>(f, a). fr_sha f \<in> set uniq) (joined db e))" "fr_sha f = sha"
    using assms by (auto simp: rowsOf_def fa)
  then show ?thesis by (force simp: sightings_def Let_def fa)
qed

lemma agreedTree_all:
  "agreedTree ps tree = Some t \<Longrightarrow> (tree \<noteq> [] \<longrightarrow> t = tree) \<and> (t \<noteq> [] \<longrightarrow> (\<forall>p\<in>set ps. vendorTreeOf p = t))"
  by (induction ps arbitrary: tree) (auto simp: Let_def split: if_splits)

text \<open>What the verdict \<open>vendor\<close> means.\<close>

lemma classify_vendor:
  "fst (classifyConsensus c) = ConsensusVendor \<Longrightarrow>
   cs_VendorTree c \<noteq> [] \<and> length (cs_Paths c) \<le> 1 \<and> 3 \<le> cs_Sites c \<and>
   (cs_FirstSeen c = zeroTime \<or> cs_LastSeen c = zeroTime \<or>
    consensusBurstWindow \<le> subTime (cs_LastSeen c * 1000000000) (cs_FirstSeen c * 1000000000))"
  unfolding classifyConsensus_def Let_def by (auto simp: consensusMinSites_def split: if_splits)

definition timesOk :: "estateDB \<Rightarrow> int \<Rightarrow> bool" where
  "timesOk db e \<longleftrightarrow> (\<forall>r\<in>set (joined db e). 0 < fr_first (fst r) \<and> fr_first (fst r) \<le> fr_last (fst r))"

lemma rowsOf_joined: "r \<in> set (rowsOf db e sha) \<Longrightarrow> r \<in> set (joined db e)"
  by (simp add: rowsOf_def)

definition weekApart :: "(findingRow \<times> agentRow) list \<Rightarrow> bool" where
  "weekApart rows \<longleftrightarrow> (\<exists>r1\<in>set rows. \<exists>r2\<in>set rows. fr_last (fst r2) - fr_first (fst r1) \<ge> 7 * 24 * 3600)"

lemma burst_week: "consensusBurstWindow \<le> subTime (l * 1000000000) (f * 1000000000) \<Longrightarrow> l - f \<ge> 7 * 24 * 3600"
  by (simp add: consensusBurstWindow_def subTime_def max_def min_def split: if_splits)

lemma vendor_sound:
  assumes "ConsensusFor db e shas sha = Some c" "cs_Verdict c = ConsensusVendor" "timesOk db e"
  shows "\<exists>path. cs_Paths c = [path] \<and> vendorTreeOf path \<noteq> [] \<and>
    (\<forall>r\<in>set (rowsOf db e sha). fr_path (fst r) = path) \<and>
    3 \<le> card (hostsOf (rowsOf db e sha)) \<and> weekApart (rowsOf db e sha)"
proof -
  define uniq where "uniq = uniqueShas [] shas"
  define g where "g = filter (\<lambda>s. fst s = sha) (sightings db e uniq)"
  have "g \<noteq> []" and c: "c = consensusOf db e sha (foldl addSighting emptyAcc g)"
    using assms(1,2) by (auto simp: ConsensusFor_def foldl_byDigest Let_def uniq_def g_def noSightings_def
        split: if_splits)
  define a where "a = foldl addSighting emptyAcc g"
  have sets: "sa_agents a = sgHost ` set g" "sa_paths a = sgPath ` set g"
    using foldl_addSighting_sets [of emptyAcc g] by (simp_all add: a_def emptyAcc_def)
  have from_rows: "s \<in> set g \<Longrightarrow> sha \<in> set uniq \<and>
      (\<exists>r\<in>set (rowsOf db e sha). fr_path (fst r) = sgPath s \<and> correlationHost r = sgHost s) \<and>
      (\<exists>r\<in>set (rowsOf db e sha). fr_first (fst r) = sgFirst s) \<and>
      (\<exists>r\<in>set (rowsOf db e sha). fr_last (fst r) = sgLast s)" for s
    using sighting_from_rows [of s db e uniq] by (auto simp: g_def)
  then have sha: "sha \<in> set uniq" using \<open>g \<noteq> []\<close> by (meson hd_in_set)
  have have_sg: "r \<in> set (rowsOf db e sha) \<Longrightarrow> sgPath ` set g \<noteq> {} \<and> fr_path (fst r) \<in> sgPath ` set g \<and>
      correlationHost r \<in> sgHost ` set g" for r
    using rows_have_sighting [OF _ sha, of r db e] by (force simp: g_def)
  have hosts: "sa_agents a = hostsOf (rowsOf db e sha)"
    unfolding sets hostsOf_def using from_rows have_sg by (fastforce simp: image_iff)
  define paths where "paths = sorted_list_of_set (sa_paths a)"
  define tree where "tree = (case agreedTree paths [] of Some t \<Rightarrow> t | None \<Rightarrow> [])"
  define c0 where "c0 = \<lparr>cs_SHA256 = sha, cs_Sites = card (sa_agents a), cs_Paths = paths, cs_VendorTree = tree,
      cs_FirstSeen = unixOrZero (sa_first a), cs_LastSeen = unixOrZero (sa_last a),
      cs_SitesRunningTree = (if tree \<noteq> [] then sitesRunningTree db tree e else 0),
      cs_Verdict = [], cs_Rationale = []\<rparr>"
  have c_eq: "cs_Paths c = paths" "cs_Verdict c = fst (classifyConsensus c0)"
    unfolding c a_def [symmetric] by (simp_all add: consensusOf_def Let_def paths_def tree_def c0_def)
  have v: "tree \<noteq> []" "length paths \<le> 1" "3 \<le> card (sa_agents a)"
    "unixOrZero (sa_first a) = zeroTime \<or> unixOrZero (sa_last a) = zeroTime \<or>
     consensusBurstWindow \<le> subTime (unixOrZero (sa_last a) * 1000000000) (unixOrZero (sa_first a) * 1000000000)"
    using classify_vendor [OF c_eq(2) [symmetric, unfolded assms(2)]]
    by (simp_all add: c0_def)
  have "set paths = sgPath ` set g" unfolding paths_def sets by simp
  with \<open>g \<noteq> []\<close> v(2) obtain path where path: "paths = [path]" "sgPath ` set g = {path}"
    by (cases paths) auto
  have "vendorTreeOf path \<noteq> []"
  proof -
    obtain t where t: "agreedTree paths [] = Some t" "t = tree"
      using v(1) unfolding tree_def by (cases "agreedTree paths []") auto
    with agreedTree_all [OF t(1)] v(1) path(1) show ?thesis by simp
  qed
  moreover have "\<forall>r\<in>set (rowsOf db e sha). fr_path (fst r) = path" using have_sg path(2) by blast
  moreover have "weekApart (rowsOf db e sha)"
  proof -
    have row_pos: "0 < fr_first (fst r) \<and> 0 < fr_last (fst r)" if "r \<in> set (rowsOf db e sha)" for r
      using rowsOf_joined [OF that] assms(3) by (fastforce simp: timesOk_def)
    have pos: "\<forall>s\<in>set g. 0 < sgFirst s \<and> 0 < sgLast s"
    proof
      fix s assume s: "s \<in> set g"
      obtain r1 r2 where "r1 \<in> set (rowsOf db e sha)" "fr_first (fst r1) = sgFirst s"
          "r2 \<in> set (rowsOf db e sha)" "fr_last (fst r2) = sgLast s"
        using from_rows [OF s] by blast
      with row_pos [of r1] row_pos [of r2] show "0 < sgFirst s \<and> 0 < sgLast s" by simp
    qed
    obtain s1 s2 where s: "s1 \<in> set g" "sa_first a = sgFirst s1" "s2 \<in> set g" "sa_last a = sgLast s2"
      using foldl_addSighting_times [OF pos \<open>g \<noteq> []\<close>] unfolding a_def by blast
    have t: "unixOrZero (sa_first a) = sgFirst s1" "unixOrZero (sa_last a) = sgLast s2"
      "sgFirst s1 \<noteq> zeroTime" "sgLast s2 \<noteq> zeroTime"
      using pos s by (fastforce simp: unixOrZero_def zeroTime_def)+
    then have "sgLast s2 - sgFirst s1 \<ge> 7 * 24 * 3600" using v(4) burst_week by metis
    with from_rows [OF s(1)] from_rows [OF s(3)] show ?thesis unfolding weekApart_def by metis
  qed
  ultimately show ?thesis using c_eq(1) path(1) v(3) hosts by auto
qed

section \<open>Isolation\<close>

text \<open>The rows of one estate.\<close>

definition restrictEstate :: "int \<Rightarrow> estateDB \<Rightarrow> estateDB" where
  "restrictEstate e db =
     (let as = filter (\<lambda>a. ar_estate a = Some e) (db_agents db)
      in \<lparr>db_agents = as,
          db_findings = filter (\<lambda>f. \<exists>a\<in>set as. ar_id a = fr_agent f) (db_findings db),
          db_attestations = filter (\<lambda>r. at_estate r = e) (db_attestations db)\<rparr>)"

lemma concat_map_filter_empty:
  "(\<And>x. x \<in> set xs \<Longrightarrow> \<not> P x \<Longrightarrow> f x = []) \<Longrightarrow> concat (map f (filter P xs)) = concat (map f xs)"
  by (induction xs) auto

lemma joined_restrict:
  assumes "e \<noteq> 0"
  shows "joined (restrictEstate e db) e = joined db e"
proof -
  let ?as = "filter (\<lambda>a. ar_estate a = Some e) (db_agents db)"
  let ?row = "\<lambda>as f. concat (map (\<lambda>a. if ar_id a = fr_agent f \<and> ar_retired a = 0 \<and>
      fr_state f \<noteq> ''dismissed'' \<and> inEstate e a then [(f, a)] else []) as)"
  have row: "?row ?as f = ?row (db_agents db) f" for f
    by (rule concat_map_filter_empty) (use assms in \<open>auto simp: inEstate_def\<close>)
  have "concat (map (?row ?as) (filter (\<lambda>f. \<exists>a\<in>set ?as. ar_id a = fr_agent f) (db_findings db))) =
      concat (map (?row ?as) (db_findings db))"
    by (rule concat_map_filter_empty) auto
  then show ?thesis unfolding joined_def restrictEstate_def Let_def estateDB.simps row .
qed

lemma sightings_restrict: "e \<noteq> 0 \<Longrightarrow> sightings (restrictEstate e db) e shas = sightings db e shas"
  by (simp add: sightings_def joined_restrict)

lemma sitesRunningTree_restrict:
  "e \<noteq> 0 \<Longrightarrow> sitesRunningTree (restrictEstate e db) tree e = sitesRunningTree db tree e"
  by (simp add: sitesRunningTree_def joined_restrict)

lemma consensusOf_restrict: "e \<noteq> 0 \<Longrightarrow> consensusOf (restrictEstate e db) e sha a = consensusOf db e sha a"
  unfolding consensusOf_def by (simp only: sitesRunningTree_restrict Let_def not_False_eq_True if_cancel)

lemma ConsensusFor_restrict:
  assumes "e \<noteq> 0"
  shows "ConsensusFor (restrictEstate e db) e shas = ConsensusFor db e shas"
  unfolding ConsensusFor_def sightings_restrict [OF assms] consensusOf_restrict [OF assms] ..

lemma Correlate_restrict: "e \<noteq> 0 \<Longrightarrow> Correlate (restrictEstate e db) n e = Correlate db n e"
  by (simp add: Correlate_def joined_restrict)

lemma OperatorAttestations_restrict:
  "OperatorAttestations (restrictEstate e db) e = OperatorAttestations db e"
  by (simp add: OperatorAttestations_def restrictEstate_def Let_def)

section \<open>Properties\<close>

text \<open>
  \<open>likeEscape\<close> makes a reported directory name stand for itself: the pattern built from it
  matches exactly the paths below that directory (ASCII case aside), whatever wildcards the
  name contains, so a directory named \<open>%\<close> cannot inflate the count of sites running a plugin.
\<close>

theorem likeEscape_literal:
  "sqlLike (likeEscape tree @ ''/%'') path \<longleftrightarrow>
     hasPrefix (map ascii_lower path) (map ascii_lower (tree @ ''/''))"
proof -
  have "hasPrefix (map ascii_lower path) (map ascii_lower (tree @ ''/'')) \<longleftrightarrow>
      length tree \<le> length path \<and> map ascii_lower (take (length tree) path) = map ascii_lower tree \<and>
      drop (length tree) path \<noteq> [] \<and> ascii_lower (hd (drop (length tree) path)) = ascii_lower (CHR ''/'')"
    (is "?L \<longleftrightarrow> ?R")
  proof
    assume ?L
    then obtain rest where "map ascii_lower path = map ascii_lower tree @ ascii_lower (CHR ''/'') # rest"
      by (auto simp: hasPrefix_prefix prefix_def)
    then obtain p1 c p2 where p: "path = p1 @ c # p2" "map ascii_lower p1 = map ascii_lower tree"
        "ascii_lower c = ascii_lower (CHR ''/'')"
      by (auto simp: map_eq_append_conv)
    then have "length p1 = length tree" using map_eq_imp_length_eq by blast
    with p show ?R by simp
  next
    assume r: ?R
    then obtain c p2 where d: "drop (length tree) path = c # p2" by (cases "drop (length tree) path") auto
    have "path = take (length tree) path @ c # p2" by (metis append_take_drop_id d)
    then have "map ascii_lower path = map ascii_lower (take (length tree) path) @ ascii_lower c # map ascii_lower p2"
      by (metis list.simps(9) map_append)
    with r d show ?L by (auto simp: hasPrefix_prefix prefix_def)
  qed
  then show ?thesis by (simp add: sqlLike_escape sqlLike_slash)
qed

text \<open>
  C23. What an estate vouches for. Every attestation served for estate \<open>e\<close> names a real estate
  and either is one an operator of that estate recorded, or rests on the estate's own findings:
  at least three distinct hosts of it carry the digest, every one of them at this very path,
  the path lies in a plugin or theme directory, and the sightings span at least a week.
  Dismissed findings and retired agents do not count.
\<close>

theorem VendorAttestations_sound:
  assumes "att \<in> set (VendorAttestations db e)" and "timesOk db e"
  shows "e \<noteq> 0 \<and>
    ((\<exists>r\<in>set (db_attestations db). at_estate r = e \<and> at_sha r = att_SHA256 att \<and> at_path r = att_Path att) \<or>
     (vendorTreeOf (att_Path att) \<noteq> [] \<and>
      (\<forall>r\<in>set (rowsOf db e (att_SHA256 att)). fr_path (fst r) = att_Path att) \<and>
      3 \<le> card (hostsOf (rowsOf db e (att_SHA256 att))) \<and> weekApart (rowsOf db e (att_SHA256 att))))"
proof -
  have e: "e \<noteq> 0" using assms(1) by (auto simp: VendorAttestations_def)
  have "att \<in> set (attestedOf (ConsensusFor db e (map co_SHA256 (Correlate db 2 e))) (map co_SHA256 (Correlate db 2 e))) \<or>
      att \<in> set (OperatorAttestations db e)"
    using assms(1) by (auto simp: VendorAttestations_def Let_def split: if_splits)
  then show ?thesis
  proof
    assume "att \<in> set (attestedOf (ConsensusFor db e (map co_SHA256 (Correlate db 2 e))) (map co_SHA256 (Correlate db 2 e)))"
    then obtain v where v: "ConsensusFor db e (map co_SHA256 (Correlate db 2 e)) (att_SHA256 att) = Some v"
        "cs_Verdict v = ConsensusVendor" "length (cs_Paths v) = 1" "att_Path att = cs_Paths v ! 0"
      by (auto simp: attestedOf_def split: option.splits if_splits dest!: sym [of "Some _"])
    obtain path where "cs_Paths v = [path]" "vendorTreeOf path \<noteq> []"
        "\<forall>r\<in>set (rowsOf db e (att_SHA256 att)). fr_path (fst r) = path"
        "3 \<le> card (hostsOf (rowsOf db e (att_SHA256 att)))" "weekApart (rowsOf db e (att_SHA256 att))"
      using vendor_sound [OF v(1,2) assms(2)] by blast
    with v(4) e show ?thesis by simp
  next
    assume "att \<in> set (OperatorAttestations db e)"
    with e show ?thesis by (auto simp: OperatorAttestations_def)
  qed
qed

text \<open>
  C24. One customer's attestations never depend on another customer's hosts: what is served for
  estate \<open>e\<close> is computed from the rows of that estate alone.
\<close>

theorem VendorAttestations_isolated:
  "VendorAttestations db e = VendorAttestations (restrictEstate e db) e"
  by (cases "e = 0")
    (simp_all add: VendorAttestations_def ConsensusFor_restrict Correlate_restrict OperatorAttestations_restrict)

text \<open>
  An estate whose findings all come from one host gets no attestation at all: the operator's
  own attestations are dropped together with the empty list of correlations.
\<close>

theorem single_host_ignores_operator:
  assumes "card (hostsOf (joined db e)) \<le> 1"
  shows "VendorAttestations db e = []"
proof -
  have small: "card (hostsOf (filter P (joined db e))) < 2" for P
  proof -
    have "hostsOf (filter P (joined db e)) \<subseteq> hostsOf (joined db e)" by (auto simp: hostsOf_def)
    then have "card (hostsOf (filter P (joined db e))) \<le> card (hostsOf (joined db e))"
      by (rule card_mono [rotated]) (simp add: hostsOf_def)
    with assms show ?thesis by simp
  qed
  have "co_Count (correlationOf (filter P (filter Q (joined db e))) sha) < 2" for P Q sha
    using small [of "\<lambda>x. Q x \<and> P x"] by (simp add: correlationOf_def)
  then have "Correlate db 2 e = []"
    unfolding Correlate_def Let_def by (auto simp: filter_empty_conv not_le simp del: filter_filter)
  then show ?thesis by (simp add: VendorAttestations_def)
qed

text \<open>Three hosts that got the same plugin file at the same moment, a week ago.\<close>

definition sampleAgent :: "bytes \<Rightarrow> agentRow" where
  "sampleAgent i = \<lparr>ar_id = i, ar_hostname = i, ar_webroot = ''/w'', ar_retired = 0, ar_estate = Some 7\<rparr>"

definition sampleFinding :: "bytes \<Rightarrow> findingRow" where
  "sampleFinding i = \<lparr>fr_agent = i, fr_sha = ''d'', fr_path = ''wp-content/themes/Divi/a.php'', fr_title = [],
     fr_rule = [], fr_severity = [], fr_state = ''open'', fr_first = 1000, fr_last = 1000 + 7 * 24 * 3600\<rparr>"

definition sampleDB :: "bytes list \<Rightarrow> estateDB" where
  "sampleDB hosts = \<lparr>db_agents = map sampleAgent hosts, db_findings = map sampleFinding hosts,
     db_attestations = []\<rparr>"

lemma single_host_ignores_operator_witness:
  "\<exists>db. AttestArtefact 5 7 ''d'' ''p'' [] ''op'' (sampleDB [''h1'']) = Inr db \<and>
        OperatorAttestations db 7 \<noteq> [] \<and> VendorAttestations db 7 = []"
proof -
  let ?db = "(sampleDB [''h1''])\<lparr>db_attestations := [\<lparr>at_estate = 7, at_sha = ''d'', at_path = ''p'',
      at_note = [], at_created = 5, at_by = ''op''\<rparr>]\<rparr>"
  have a: "AttestArtefact 5 7 ''d'' ''p'' [] ''op'' (sampleDB [''h1'']) = Inr ?db"
    by code_simp
  have "card (hostsOf (joined ?db 7)) \<le> 1"
    by (simp add: joined_def sampleDB_def sampleAgent_def sampleFinding_def hostsOf_def inEstate_def)
  then have "VendorAttestations ?db 7 = []" by (rule single_host_ignores_operator)
  moreover have "OperatorAttestations ?db 7 \<noteq> []" by (simp add: OperatorAttestations_def)
  ultimately show ?thesis using a by blast
qed

lemma VendorAttestations_sound_witness:
  "\<exists>att\<in>set (VendorAttestations (sampleDB [''h1'', ''h2'', ''h3'']) 7).
     att_Path att = ''wp-content/themes/Divi/a.php'' \<and>
     weekApart (rowsOf (sampleDB [''h1'', ''h2'', ''h3'']) 7 (att_SHA256 att))"
proof -
  let ?db = "sampleDB [''h1'', ''h2'', ''h3'']"
  let ?att = "\<lparr>att_SHA256 = ''d'', att_Path = ''wp-content/themes/Divi/a.php'',
      att_Tree = ''wp-content/themes/Divi'', att_Sites = 3\<rparr>"
  have "VendorAttestations ?db 7 = [?att]" by code_simp
  then have att: "?att \<in> set (VendorAttestations ?db 7)" by simp
  have "timesOk ?db 7"
    by (simp add: timesOk_def joined_def sampleDB_def sampleAgent_def sampleFinding_def inEstate_def)
  from VendorAttestations_sound [OF att this] att show ?thesis by (auto simp: sampleDB_def intro!: bexI [of _ ?att])
qed

end
