(* ===== verification/Codec.thy ===== *)
theory Codec
  imports GoStd
begin

text \<open>
  The text encodings the payload analysis undoes, as Go's standard library decodes them: base64 in its
  four alphabets and paddings, upper-casing, and replacement of all occurrences. The encoder of base64 is
  the specification the decoder is proved against.
\<close>

section \<open>Base64\<close>

text \<open>The value of a byte in the standard alphabet, and in the one for URLs.\<close>

definition b64Std :: "byte \<Rightarrow> nat option" where
  "b64Std c =
     (let n = of_char c :: nat
      in if 65 \<le> n \<and> n \<le> 90 then Some (n - 65)
         else if 97 \<le> n \<and> n \<le> 122 then Some (n - 71)
         else if 48 \<le> n \<and> n \<le> 57 then Some (n + 4)
         else if n = 43 then Some 62 else if n = 47 then Some 63 else None)"

definition b64URL :: "byte \<Rightarrow> nat option" where
  "b64URL c =
     (if c = CHR ''-'' then Some 62 else if c = CHR ''_'' then Some 63
      else if c = CHR ''+'' \<or> c = CHR ''/'' then None else b64Std c)"

text \<open>The bytes of a quantum of 4, 3 or 2 digits; the spare bits of a short one are not checked.\<close>

definition quantum3 :: "nat \<Rightarrow> nat \<Rightarrow> nat \<Rightarrow> nat \<Rightarrow> bytes" where
  "quantum3 a b c d =
     [char_of (a * 4 + b div 16), char_of (b mod 16 * 16 + c div 4), char_of (c mod 4 * 64 + d)]"

definition quantum2 :: "nat \<Rightarrow> nat \<Rightarrow> nat \<Rightarrow> bytes" where
  "quantum2 a b c = [char_of (a * 4 + b div 16), char_of (b mod 16 * 16 + c div 4)]"

definition quantum1 :: "nat \<Rightarrow> nat \<Rightarrow> bytes" where
  "quantum1 a b = [char_of (a * 4 + b div 16)]"

text \<open>What follows the last full quantum: nothing, or a short one with its padding if any is used.\<close>

definition b64Tail :: "(byte \<Rightarrow> nat option) \<Rightarrow> bool \<Rightarrow> bytes \<Rightarrow> bytes option" where
  "b64Tail dv padded s =
     (case s of
        [] \<Rightarrow> Some []
      | [a, b] \<Rightarrow>
          (if padded then None
           else case (dv a, dv b) of (Some x, Some y) \<Rightarrow> Some (quantum1 x y) | _ \<Rightarrow> None)
      | [a, b, c] \<Rightarrow>
          (if padded then None
           else case (dv a, dv b, dv c) of (Some x, Some y, Some z) \<Rightarrow> Some (quantum2 x y z) | _ \<Rightarrow> None)
      | [a, b, c, d] \<Rightarrow>
          (if \<not> padded \<or> d \<noteq> CHR ''='' then None
           else case (dv a, dv b) of
                  (Some x, Some y) \<Rightarrow>
                    (if c = CHR ''='' then Some (quantum1 x y)
                     else case dv c of Some z \<Rightarrow> Some (quantum2 x y z) | None \<Rightarrow> None)
                | _ \<Rightarrow> None)
      | _ \<Rightarrow> None)"

text \<open>The loop over the quanta.\<close>

fun b64Loop :: "(byte \<Rightarrow> nat option) \<Rightarrow> bool \<Rightarrow> bytes \<Rightarrow> bytes option" where
  "b64Loop dv padded (a # b # c # d # s) =
     (case (dv a, dv b, dv c, dv d) of
        (Some w, Some x, Some y, Some z) \<Rightarrow> map_option (append (quantum3 w x y z)) (b64Loop dv padded s)
      | _ \<Rightarrow> b64Tail dv padded (a # b # c # d # s))"
| "b64Loop dv padded s = b64Tail dv padded s"

text \<open>\<open>DecodeString\<close>: carriage returns and newlines are passed over.\<close>

definition b64Decode :: "(byte \<Rightarrow> nat option) \<Rightarrow> bool \<Rightarrow> bytes \<Rightarrow> bytes option" where
  "b64Decode dv padded s = b64Loop dv padded (filter (\<lambda>c. c \<noteq> CHR 0x0A \<and> c \<noteq> CHR 0x0D) s)"

abbreviation "decodeStd \<equiv> b64Decode b64Std True"
abbreviation "decodeRawStd \<equiv> b64Decode b64Std False"
abbreviation "decodeURL \<equiv> b64Decode b64URL True"
abbreviation "decodeRawURL \<equiv> b64Decode b64URL False"

subsection \<open>The encoder, as a specification\<close>

definition b64Digit :: "nat \<Rightarrow> byte" where
  "b64Digit n =
     char_of (if n < 26 then n + 65 else if n < 52 then n + 71 else if n < 62 then n - 4
              else if n = 62 then 43 else 47)"

fun b64Encode :: "bytes \<Rightarrow> bytes" where
  "b64Encode (a # b # c # s) =
     (let x = of_char a; y = of_char b; z = of_char c :: nat
      in [b64Digit (x div 4), b64Digit (x mod 4 * 16 + y div 16), b64Digit (y mod 16 * 4 + z div 64),
          b64Digit (z mod 64)] @ b64Encode s)"
| "b64Encode [a, b] =
     (let x = of_char a; y = of_char b :: nat
      in [b64Digit (x div 4), b64Digit (x mod 4 * 16 + y div 16), b64Digit (y mod 16 * 4), CHR ''=''])"
| "b64Encode [a] =
     (let x = of_char a :: nat in [b64Digit (x div 4), b64Digit (x mod 4 * 16), CHR ''='', CHR ''=''])"
| "b64Encode [] = []"

lemma b64Std_Digit: "n < 64 \<Longrightarrow> b64Std (b64Digit n) = Some n"
  by (auto simp: b64Std_def b64Digit_def Let_def)

text \<open>The bytes of the encoding: of the alphabet, or padding.\<close>

definition b64Byte :: "byte \<Rightarrow> bool" where
  "b64Byte c \<longleftrightarrow> b64Std c \<noteq> None \<or> c = CHR ''=''"

lemma b64Byte_Digit: "n < 64 \<Longrightarrow> b64Byte (b64Digit n)"
  by (simp add: b64Byte_def b64Std_Digit)

lemma of_char_less: "(of_char c :: nat) < 256"
  using nat_of_char_less_256 [of c] by simp

lemma b64_parts:
  "x < 256 \<Longrightarrow> x div 4 < (64::nat)" "x < 256 \<Longrightarrow> y < 256 \<Longrightarrow> x mod 4 * 16 + y div 16 < (64::nat)"
  "y < 256 \<Longrightarrow> z < 256 \<Longrightarrow> y mod 16 * 4 + z div 64 < (64::nat)" "z mod 64 < (64::nat)"
  "x mod 4 * 16 < (64::nat)" "y mod 16 * 4 < (64::nat)"
  by linarith+

lemma b64Encode_bytes: "list_all b64Byte (b64Encode s)"
proof (induction s rule: b64Encode.induct)
  case 4
  then show ?case by simp
qed (simp_all add: Let_def b64Byte_Digit b64_parts of_char_less, simp_all add: b64Byte_def)

lemma radix_parts:
  "r < 16 \<Longrightarrow> (k * 16 + r) div 16 = (k::nat)" "r < 16 \<Longrightarrow> (k * 16 + r) mod 16 = r"
  "r < 4 \<Longrightarrow> (k * 4 + r) div 4 = (k::nat)" "r < 4 \<Longrightarrow> (k * 4 + r) mod 4 = r"
  "x < 256 \<Longrightarrow> x div 16 < (16::nat)" "x < 256 \<Longrightarrow> x div 64 < (4::nat)"
  by (simp_all add: div_less_iff_less_mult)

lemma quantum3_parts:
  assumes "x < 256" "y < 256" "z < 256"
  shows "quantum3 (x div 4) (x mod 4 * 16 + y div 16) (y mod 16 * 4 + z div 64) (z mod 64) =
    [char_of x, char_of y, char_of z]"
  using assms by (simp add: quantum3_def radix_parts)

lemma quantum2_parts:
  assumes "x < 256" "y < 256"
  shows "quantum2 (x div 4) (x mod 4 * 16 + y div 16) (y mod 16 * 4) = [char_of x, char_of y]"
  using assms by (simp add: quantum2_def radix_parts)

lemma quantum1_parts: "quantum1 (x div 4) (x mod 4 * 16) = [char_of (x::nat)]"
  by (simp add: quantum1_def)

lemma b64Std_pad: "b64Std (CHR ''='') = None"
  by code_simp

lemma b64Digit_pad: "n < 64 \<Longrightarrow> b64Digit n \<noteq> CHR ''=''"
  using b64Std_Digit b64Std_pad by fastforce

lemma b64Loop_Encode: "b64Loop b64Std True (b64Encode s) = Some s"
  by (induction s rule: b64Encode.induct)
    (simp_all add: Let_def b64Std_Digit b64_parts of_char_less quantum3_parts quantum2_parts quantum1_parts
      b64Tail_def b64Std_pad b64Digit_pad)

lemma b64Byte_no_newline: "b64Byte c \<Longrightarrow> c \<noteq> CHR 0x0A \<and> c \<noteq> CHR 0x0D \<and> c \<noteq> CHR 0x09 \<and> c \<noteq> CHR '' ''"
  by (auto simp: b64Byte_def b64Std_def)

lemma decode_encode: "decodeStd (b64Encode s) = Some s"
proof -
  have "filter (\<lambda>c. c \<noteq> CHR 0x0A \<and> c \<noteq> CHR 0x0D) (b64Encode s) = b64Encode s"
    using b64Encode_bytes [of s] b64Byte_no_newline by (simp add: list_all_iff filter_id_conv)
  then show ?thesis by (simp add: b64Decode_def b64Loop_Encode)
qed

lemma length_b64Encode: "length s \<le> length (b64Encode s)"
proof (induction s rule: b64Encode.induct)
  case (1 a b c s)
  then have "length s \<le> length (b64Encode s)" by blast
  then show ?case by (simp add: Let_def)
qed (simp_all add: Let_def)

lemma length_b64Encode_eq: "length (b64Encode s) = 4 * ((length s + 2) div 3)"
proof (induction s rule: b64Encode.induct)
  case (1 a b c s)
  have "length (a # b # c # s) + 2 = 3 + (length s + 2)" by simp
  then have "(length (a # b # c # s) + 2) div 3 = Suc ((length s + 2) div 3)"
    by (metis div_add_self1 add.commute add_2_eq_Suc' Suc_1 zero_neq_numeral plus_1_eq_Suc)
  moreover have "length (b64Encode s) = 4 * ((length s + 2) div 3)" using 1 by blast
  ultimately show ?case by (simp only: b64Encode.simps length_append Let_def) (simp del: add_2_eq_Suc')
qed (simp_all add: Let_def)

text \<open>A decoding is never longer than the text.\<close>

lemma b64Tail_length: "b64Tail dv p s = Some d \<Longrightarrow> length d \<le> length s"
  by (auto simp: b64Tail_def quantum1_def quantum2_def split: list.splits option.splits if_splits)

lemma b64Loop_length: "b64Loop dv p s = Some d \<Longrightarrow> length d \<le> length s"
proof (induction dv p s arbitrary: d rule: b64Loop.induct)
  case (1 dv p a b c e s)
  show ?case
  proof (cases "b64Tail dv p (a # b # c # e # s) = Some d")
    case True
    then show ?thesis by (rule b64Tail_length)
  next
    case False
    with 1(2) obtain w x y z r where "dv a = Some w" "dv b = Some x" "dv c = Some y" "dv e = Some z"
        "b64Loop dv p s = Some r" "d = quantum3 w x y z @ r"
      by (auto split: option.splits)
    moreover from this have "length r \<le> length s" by (intro 1(1)) simp_all
    ultimately show ?thesis by (simp add: quantum3_def)
  qed
qed (auto dest: b64Tail_length)

lemma b64Decode_length: "b64Decode dv p s = Some d \<Longrightarrow> length d \<le> length s"
  unfolding b64Decode_def using b64Loop_length le_trans length_filter_le by blast

section \<open>Upper case and replacement\<close>

definition ascii_upper :: "byte \<Rightarrow> byte" where
  "ascii_upper b =
     (if CHR ''a'' \<le> b \<and> b \<le> CHR ''z'' then char_of (of_char b - 32 :: nat) else b)"

definition goToUpper :: "(nat \<Rightarrow> nat) \<Rightarrow> bytes \<Rightarrow> bytes" where
  "goToUpper uup s =
     (if isASCII s then map ascii_upper s
      else concat (map (encodeRune \<circ> (\<lambda>r. if r < 128 then (if 97 \<le> r \<and> r \<le> 122 then r - 32 else r) else uup r))
                       (runes s)))"

text \<open>\<open>bytes.ReplaceAll\<close>: the occurrences from the left that do not overlap; an empty pattern matches
  before every rune and at the end.\<close>

function replaceLoop :: "bytes \<Rightarrow> bytes \<Rightarrow> bytes \<Rightarrow> bytes" where
  "replaceLoop old new s =
     (if old = [] then []
      else case s of
             [] \<Rightarrow> []
           | c # r \<Rightarrow> if hasPrefix s old then new @ replaceLoop old new (drop (length old) s)
                     else c # replaceLoop old new r)"
  by pat_completeness auto
termination by (relation "measure (\<lambda>(old, new, s). length s)") (auto simp: length_greater_0_conv [symmetric] simp del: length_greater_0_conv)

declare replaceLoop.simps [simp del]

definition replaceAll :: "bytes \<Rightarrow> bytes \<Rightarrow> bytes \<Rightarrow> bytes" where
  "replaceAll s old new =
     (if old = [] then concat (map (\<lambda>(r, b). new @ b) (chunks s)) @ new else replaceLoop old new s)"

section \<open>Hexadecimal\<close>

text \<open>\<open>hex.EncodeToString\<close> and \<open>hex.DecodeString\<close>.\<close>

definition hexDigit :: "nat \<Rightarrow> byte" where
  "hexDigit n = char_of (if n < 10 then 48 + n else 87 + n)"

definition hexEncode :: "bytes \<Rightarrow> bytes" where
  "hexEncode s = concat (map (\<lambda>b. [hexDigit (of_char b div 16), hexDigit (of_char b mod 16)]) s)"

fun hexDecode :: "bytes \<Rightarrow> bytes option" where
  "hexDecode [] = Some []"
| "hexDecode [c] = None"
| "hexDecode (a # b # s) =
     (case (hexVal a, hexVal b, hexDecode s) of
        (Some x, Some y, Some r) \<Rightarrow> Some (char_of (x * 16 + y) # r)
      | _ \<Rightarrow> None)"

end
