(* ===== verification/Operators.thy ===== *)
theory Operators
  imports Codec "HOL-Library.Word"
begin

text \<open>
  Operator accounts of the console: passwords and time-based codes (\<open>internal/authn/authn.go\<close>),
  accounts, second factors and sessions in the database (\<open>internal/store/auth.go\<close>), the login
  handlers and their rate limiter (\<open>internal/console/api.go\<close>, \<open>server.go\<close>) and the role
  check (\<open>permissions.go\<close>). A table is a list of rows; a flag column is a \<open>bool\<close>. Times
  are seconds since the epoch, except in the limiter, which counts nanoseconds. Fresh identifiers,
  salts and secrets are arguments. The cryptographic functions of the standard library are a
  record of functions.
\<close>

section \<open>Cryptographic functions\<close>

text \<open>
  \<open>cr_b32\<close> decodes a secret after removing spaces and upper-casing it; \<open>cr_pbkdf2\<close> takes
  password, salt, iterations and key length.
\<close>

record crypto =
  cr_hmacSha1 :: "bytes \<Rightarrow> bytes \<Rightarrow> bytes"
  cr_b32 :: "bytes \<Rightarrow> bytes option"
  cr_pbkdf2 :: "bytes \<Rightarrow> bytes \<Rightarrow> int \<Rightarrow> nat \<Rightarrow> bytes option"
  cr_sha256 :: "bytes \<Rightarrow> bytes"

section \<open>Passwords\<close>

definition Iterations :: int where "Iterations = 600000"

definition keyLen :: nat where "keyLen = 32"

definition HashPassword :: "crypto \<Rightarrow> bytes \<Rightarrow> bytes \<Rightarrow> (bytes \<times> bytes \<times> int) option" where
  "HashPassword cr salt password =
     (case cr_pbkdf2 cr password salt Iterations keyLen of
        None \<Rightarrow> None
      | Some dk \<Rightarrow> Some (hexEncode dk, hexEncode salt, Iterations))"

definition VerifyPassword :: "crypto \<Rightarrow> bytes \<Rightarrow> bytes \<Rightarrow> bytes \<Rightarrow> int \<Rightarrow> bool" where
  "VerifyPassword cr password hashHex saltHex iter =
     (case hexDecode saltHex of
        None \<Rightarrow> False
      | Some salt \<Rightarrow>
          (case hexDecode hashHex of
             None \<Rightarrow> False
           | Some want \<Rightarrow>
               (let iter' = (if iter \<le> 0 then Iterations else iter)
                in case cr_pbkdf2 cr password salt iter' (length want) of
                     None \<Rightarrow> False
                   | Some got \<Rightarrow> got = want)))"

definition PasswordPolicy :: "(nat \<Rightarrow> nat) \<Rightarrow> bytes \<Rightarrow> bytes option" where
  "PasswordPolicy ulow pw =
     (if length (runes pw) < 12 then Some ''password must be at least 12 characters''
      else if length pw > 1024 then Some ''password is too long''
      else if list_ex (contains (goToLower ulow pw))
                [''password'', ''wordeye'', ''changeme'', ''letmein'', ''12345678'', ''qwerty'']
      then Some ''password contains a common, easily guessed word''
      else None)"

section \<open>Time-based codes\<close>

definition totpPeriod :: int where "totpPeriod = 30"
definition totpDigits :: nat where "totpDigits = 6"
definition totpSkew :: int where "totpSkew = 1"

text \<open>\<open>binary.BigEndian.PutUint64\<close> of an unsigned 64-bit value.\<close>

definition bigEndian64 :: "nat \<Rightarrow> bytes" where
  "bigEndian64 n = map (\<lambda>i. char_of (n div 256 ^ (7 - i) mod 256)) [0..<8]"

definition padLeft :: "nat \<Rightarrow> bytes \<Rightarrow> bytes" where
  "padLeft w s = replicate (w - length s) (CHR ''0'') @ s"

definition byteWord :: "byte \<Rightarrow> 32 word" where
  "byteWord b = word_of_nat (of_char b)"

text \<open>Dynamic truncation; \<open>None\<close> is an index past the end of the MAC.\<close>

definition truncateMAC :: "bytes \<Rightarrow> (32 word) option" where
  "truncateMAC s =
     (if s = [] then None
      else
        (let offset = of_char (last s) mod (16 :: nat)
         in if offset + 3 < length s
            then Some (or (or (push_bit 24 (and (byteWord (s ! offset)) 0x7f))
                              (push_bit 16 (byteWord (s ! (offset + 1)))))
                          (or (push_bit 8 (byteWord (s ! (offset + 2)))) (byteWord (s ! (offset + 3)))))
            else None))"

text \<open>The outer option is a panic, the inner the error of an undecodable secret.\<close>

definition TOTPCode :: "crypto \<Rightarrow> bytes \<Rightarrow> int \<Rightarrow> bytes option option" where
  "TOTPCode cr secret t =
     (case cr_b32 cr secret of
        None \<Rightarrow> Some None
      | Some key \<Rightarrow>
          (let counter = nat (t mod 2 ^ 64) div nat totpPeriod;
               mac = cr_hmacSha1 cr key (bigEndian64 counter)
           in case truncateMAC mac of
                None \<Rightarrow> None
              | Some code \<Rightarrow> Some (Some (padLeft totpDigits (showNat (unat (code mod 1000000)))))))"

text \<open>The loop over the accepted steps.\<close>

fun verifyLoop :: "crypto \<Rightarrow> bytes \<Rightarrow> bytes \<Rightarrow> int \<Rightarrow> int list \<Rightarrow> bool option" where
  "verifyLoop cr secret code t [] = Some False"
| "verifyLoop cr secret code t (i # is) =
     (case TOTPCode cr secret (t + i * totpPeriod) of
        None \<Rightarrow> None
      | Some None \<Rightarrow> Some False
      | Some (Some want) \<Rightarrow> if want = code then Some True else verifyLoop cr secret code t is)"

definition VerifyTOTP :: "crypto \<Rightarrow> bytes \<Rightarrow> bytes \<Rightarrow> int \<Rightarrow> bool option" where
  "VerifyTOTP cr secret code t =
     (let code' = trimSpace code
      in if length code' \<noteq> totpDigits then Some False
         else verifyLoop cr secret code' t [- totpSkew .. totpSkew])"

definition TOTPStep :: "int \<Rightarrow> int" where
  "TOTPStep t = goQuot t totpPeriod"

definition HashRecoveryCode :: "crypto \<Rightarrow> (nat \<Rightarrow> nat) \<Rightarrow> bytes \<Rightarrow> bytes" where
  "HashRecoveryCode cr ulow code =
     hexEncode (cr_sha256 cr (goToLower ulow (filter (\<lambda>c. c \<noteq> CHR '' '') (trimSpace code))))"

section \<open>Accounts\<close>

record userRow =
  us_id :: int
  us_name :: bytes
  us_hash :: bytes
  us_salt :: bytes
  us_iter :: int
  us_role :: bytes
  us_secret :: bytes
  us_enrolled :: bool
  us_last_step :: int
  us_created :: int
  us_last_login :: int
  us_disabled :: bool
  us_failed :: int
  us_locked :: int

record sessionRow =
  se_id :: bytes
  se_user :: int
  se_created :: int
  se_expires :: int
  se_mfa :: bool

record recoveryRow =
  rc_user :: int
  rc_hash :: bytes
  rc_used :: int

record authDB =
  ad_users :: "userRow list"
  ad_sessions :: "sessionRow list"
  ad_recovery :: "recoveryRow list"

definition CanApprove :: "userRow \<Rightarrow> bool" where
  "CanApprove u \<longleftrightarrow> us_role u = ''admin'' \<or> us_role u = ''operator''"

definition CanAdmin :: "userRow \<Rightarrow> bool" where
  "CanAdmin u \<longleftrightarrow> us_role u = ''admin''"

definition GetUser :: "int \<Rightarrow> authDB \<Rightarrow> userRow option" where
  "GetUser uid db = find (\<lambda>u. us_id u = uid) (ad_users db)"

text \<open>\<open>UPDATE users SET ... WHERE id = ?\<close>\<close>

definition updUser :: "int \<Rightarrow> (userRow \<Rightarrow> userRow) \<Rightarrow> authDB \<Rightarrow> authDB" where
  "updUser uid g db = db\<lparr>ad_users := map (\<lambda>u. if us_id u = uid then g u else u) (ad_users db)\<rparr>"

definition CountUsers :: "authDB \<Rightarrow> nat" where
  "CountUsers db = length (ad_users db)"

definition CreateUser :: "crypto \<Rightarrow> (nat \<Rightarrow> nat) \<Rightarrow> int \<Rightarrow> int \<Rightarrow> bytes \<Rightarrow> bytes \<Rightarrow> bytes \<Rightarrow> bytes \<Rightarrow> authDB \<Rightarrow>
    bytes + authDB" where
  "CreateUser cr ulow t newId salt username password role db =
     (if role \<notin> {''admin'', ''operator'', ''viewer''} then Inl (''invalid role '' @ role)
      else if username = [] then Inl ''username is required''
      else
        (case PasswordPolicy ulow password of
           Some e \<Rightarrow> Inl e
         | None \<Rightarrow>
             (case HashPassword cr salt password of
                None \<Rightarrow> Inl ''pbkdf2''
              | Some (hash, saltHex, iter) \<Rightarrow>
                  if list_ex (\<lambda>u. us_name u = username \<or> us_id u = newId) (ad_users db)
                  then Inl ''constraint failed''
                  else Inr (db\<lparr>ad_users := ad_users db @
                         [\<lparr>us_id = newId, us_name = username, us_hash = hash, us_salt = saltHex,
                           us_iter = iter, us_role = role, us_secret = [], us_enrolled = False,
                           us_last_step = 0, us_created = t, us_last_login = 0, us_disabled = False,
                           us_failed = 0, us_locked = 0\<rparr>]\<rparr>))))"

definition MaxFailedLogins :: int where "MaxFailedLogins = 8"
definition LockoutDuration :: int where "LockoutDuration = 15 * 60"
definition SessionTTL :: int where "SessionTTL = 12 * 3600"

text \<open>The first factor: a message or the account, and the database with the failure recorded.\<close>

definition VerifyLogin :: "crypto \<Rightarrow> int \<Rightarrow> bytes \<Rightarrow> bytes \<Rightarrow> authDB \<Rightarrow> (bytes + userRow) \<times> authDB" where
  "VerifyLogin cr t username password db =
     (case find (\<lambda>u. us_name u = username) (ad_users db) of
        None \<Rightarrow> (Inl ''invalid credentials'', db)
      | Some u \<Rightarrow>
          if us_disabled u then (Inl ''account is disabled'', db)
          else if us_locked u \<noteq> 0 \<and> t < us_locked u then
            (Inl ''account is temporarily locked; try again later'', db)
          else if \<not> VerifyPassword cr password (us_hash u) (us_salt u) (us_iter u) then
            (let failed = us_failed u + 1
             in (Inl ''invalid credentials'',
                 if failed \<ge> MaxFailedLogins
                 then updUser (us_id u) (\<lambda>x. x\<lparr>us_failed := 0, us_locked := t + LockoutDuration\<rparr>) db
                 else updUser (us_id u) (\<lambda>x. x\<lparr>us_failed := failed\<rparr>) db))
          else (Inr u, updUser (us_id u) (\<lambda>x. x\<lparr>us_failed := 0, us_locked := 0\<rparr>) db))"

section \<open>The second factor\<close>

definition BeginTOTPEnrollment :: "bytes \<Rightarrow> int \<Rightarrow> authDB \<Rightarrow> (bytes + bytes) \<times> authDB" where
  "BeginTOTPEnrollment newSecret uid db =
     (case GetUser uid db of
        None \<Rightarrow> (Inl ''sql: no rows in result set'', db)
      | Some u \<Rightarrow>
          if us_secret u \<noteq> [] \<and> \<not> us_enrolled u then (Inr (us_secret u), db)
          else (Inr newSecret, updUser uid (\<lambda>x. x\<lparr>us_secret := newSecret, us_enrolled := False\<rparr>) db))"

text \<open>\<open>codes\<close> are the ten fresh recovery codes. \<open>None\<close> is a panic in \<open>VerifyTOTP\<close>.\<close>

definition CompleteTOTPEnrollment :: "crypto \<Rightarrow> (nat \<Rightarrow> nat) \<Rightarrow> int \<Rightarrow> bytes list \<Rightarrow> int \<Rightarrow> bytes \<Rightarrow> authDB \<Rightarrow>
    ((bytes + bytes list) \<times> authDB) option" where
  "CompleteTOTPEnrollment cr ulow t codes uid code db =
     (case GetUser uid db of
        None \<Rightarrow> Some (Inl ''sql: no rows in result set'', db)
      | Some u \<Rightarrow>
          if us_secret u = [] then Some (Inl ''no enrollment in progress'', db)
          else
            (case VerifyTOTP cr (us_secret u) code t of
               None \<Rightarrow> None
             | Some False \<Rightarrow> Some (Inl ''that code is not valid'', db)
             | Some True \<Rightarrow>
                 (let db1 = updUser uid (\<lambda>x. x\<lparr>us_enrolled := True, us_last_step := TOTPStep t\<rparr>) db
                  in Some (Inr codes,
                       db1\<lparr>ad_recovery := filter (\<lambda>r. rc_user r \<noteq> uid) (ad_recovery db1) @
                         map (\<lambda>c. \<lparr>rc_user = uid, rc_hash = HashRecoveryCode cr ulow c, rc_used = 0\<rparr>) codes\<rparr>))))"

definition VerifySecondFactor :: "crypto \<Rightarrow> (nat \<Rightarrow> nat) \<Rightarrow> int \<Rightarrow> int \<Rightarrow> bytes \<Rightarrow> authDB \<Rightarrow>
    (bytes option \<times> authDB) option" where
  "VerifySecondFactor cr ulow t uid code db =
     (case GetUser uid db of
        None \<Rightarrow> Some (Some ''sql: no rows in result set'', db)
      | Some u \<Rightarrow>
          if \<not> us_enrolled u then
            Some (Some ''multi-factor authentication is not set up for this account'', db)
          else
            (case VerifyTOTP cr (us_secret u) code t of
               None \<Rightarrow> None
             | Some True \<Rightarrow>
                 (let step = TOTPStep t
                  in if step \<le> us_last_step u then Some (Some ''that code has already been used'', db)
                     else Some (None, updUser uid (\<lambda>x. x\<lparr>us_last_step := step\<rparr>) db))
             | Some False \<Rightarrow>
                 (let hash = HashRecoveryCode cr ulow code;
                      hits = (\<lambda>r. rc_user r = uid \<and> rc_hash r = hash \<and> rc_used r = 0);
                      db1 = db\<lparr>ad_recovery := map (\<lambda>r. if hits r then r\<lparr>rc_used := t\<rparr> else r) (ad_recovery db)\<rparr>
                  in if length (filter hits (ad_recovery db)) = 1 then Some (None, db1)
                     else Some (Some ''invalid code'', db1))))"

definition RecoveryCodesRemaining :: "int \<Rightarrow> authDB \<Rightarrow> nat" where
  "RecoveryCodesRemaining uid db = length (filter (\<lambda>r. rc_user r = uid \<and> rc_used r = 0) (ad_recovery db))"

definition ResetMFA :: "int \<Rightarrow> authDB \<Rightarrow> authDB" where
  "ResetMFA uid db =
     (updUser uid (\<lambda>x. x\<lparr>us_secret := [], us_enrolled := False, us_last_step := 0\<rparr>) db)
       \<lparr>ad_recovery := filter (\<lambda>r. rc_user r \<noteq> uid) (ad_recovery db),
        ad_sessions := filter (\<lambda>s. se_user s \<noteq> uid) (ad_sessions db)\<rparr>"

definition SetUserDisabled :: "int \<Rightarrow> bool \<Rightarrow> authDB \<Rightarrow> authDB" where
  "SetUserDisabled uid disabled db =
     (let db1 = updUser uid (\<lambda>x. x\<lparr>us_disabled := disabled\<rparr>) db
      in if disabled then db1\<lparr>ad_sessions := filter (\<lambda>s. se_user s \<noteq> uid) (ad_sessions db1)\<rparr> else db1)"

definition ChangePassword :: "crypto \<Rightarrow> (nat \<Rightarrow> nat) \<Rightarrow> bytes \<Rightarrow> int \<Rightarrow> bytes \<Rightarrow> authDB \<Rightarrow> bytes + authDB" where
  "ChangePassword cr ulow salt uid newPassword db =
     (case PasswordPolicy ulow newPassword of
        Some e \<Rightarrow> Inl e
      | None \<Rightarrow>
          (case HashPassword cr salt newPassword of
             None \<Rightarrow> Inl ''pbkdf2''
           | Some (hash, saltHex, iter) \<Rightarrow>
               Inr (updUser uid (\<lambda>x. x\<lparr>us_hash := hash, us_salt := saltHex, us_iter := iter\<rparr>) db)))"

section \<open>Sessions\<close>

definition CreateSession :: "int \<Rightarrow> bytes \<Rightarrow> int \<Rightarrow> authDB \<Rightarrow> bytes + authDB" where
  "CreateSession t sid uid db =
     (if list_ex (\<lambda>s. se_id s = sid) (ad_sessions db) then Inl ''constraint failed''
      else Inr (db\<lparr>ad_sessions := ad_sessions db @
             [\<lparr>se_id = sid, se_user = uid, se_created = t, se_expires = t + SessionTTL, se_mfa = False\<rparr>]\<rparr>))"

definition MarkSessionMFA :: "bytes \<Rightarrow> authDB \<Rightarrow> authDB" where
  "MarkSessionMFA sid db =
     db\<lparr>ad_sessions := map (\<lambda>s. if se_id s = sid then s\<lparr>se_mfa := True\<rparr> else s) (ad_sessions db)\<rparr>"

definition DeleteSession :: "bytes \<Rightarrow> authDB \<Rightarrow> authDB" where
  "DeleteSession sid db = db\<lparr>ad_sessions := filter (\<lambda>s. se_id s \<noteq> sid) (ad_sessions db)\<rparr>"

definition LookupSession :: "int \<Rightarrow> bytes \<Rightarrow> authDB \<Rightarrow> (bytes + sessionRow \<times> userRow) \<times> authDB" where
  "LookupSession t sid db =
     (case find (\<lambda>s. se_id s = sid) (ad_sessions db) of
        None \<Rightarrow> (Inl ''no session'', db)
      | Some s \<Rightarrow>
          if t > se_expires s then (Inl ''session expired'', DeleteSession sid db)
          else
            (case GetUser (se_user s) db of
               None \<Rightarrow> (Inl ''sql: no rows in result set'', db)
             | Some u \<Rightarrow> if us_disabled u then (Inl ''account is disabled'', db) else (Inr (s, u), db)))"

definition PruneSessions :: "int \<Rightarrow> authDB \<Rightarrow> authDB" where
  "PruneSessions t db = db\<lparr>ad_sessions := filter (\<lambda>s. \<not> se_expires s < t) (ad_sessions db)\<rparr>"

definition TouchLogin :: "int \<Rightarrow> int \<Rightarrow> authDB \<Rightarrow> authDB" where
  "TouchLogin t uid db = updUser uid (\<lambda>x. x\<lparr>us_last_login := t\<rparr>) db"

section \<open>Lemmas\<close>

lemma GetUser_updUser:
  assumes "\<And>u. us_id (g u) = us_id u"
  shows "GetUser i (updUser uid g db) = map_option (\<lambda>u. if i = uid then g u else u) (GetUser i db)"
proof -
  have "find (\<lambda>u. us_id u = i) (map (\<lambda>u. if us_id u = uid then g u else u) us) =
      map_option (\<lambda>u. if us_id u = uid then g u else u) (find (\<lambda>u. us_id u = i) us)" for us
    by (rule find_map_same) (simp add: assms)
  from this [of "ad_users db"] have "GetUser i (updUser uid g db) =
      map_option (\<lambda>u. if us_id u = uid then g u else u) (GetUser i db)"
    unfolding GetUser_def updUser_def by simp
  then show ?thesis unfolding GetUser_def
    by (cases "find (\<lambda>u. us_id u = i) (ad_users db)") (auto dest: find_SomeD)
qed

lemma updUser_frame [simp]:
  "ad_sessions (updUser uid g db) = ad_sessions db" "ad_recovery (updUser uid g db) = ad_recovery db"
  by (simp_all add: updUser_def)

lemma truncateMAC_total: "length s = 20 \<Longrightarrow> \<exists>w. truncateMAC s = Some w"
proof -
  assume s: "length s = 20"
  have "of_char (last s) mod (16 :: nat) < 16" by simp
  with s show ?thesis unfolding truncateMAC_def Let_def by auto
qed

lemma TOTPCode_total:
  assumes "\<And>k m. length (cr_hmacSha1 cr k m) = 20" and "cr_b32 cr secret = Some key"
  shows "\<exists>c. TOTPCode cr secret t = Some (Some c)"
  using assms truncateMAC_total [OF assms(1)] by (auto simp: TOTPCode_def Let_def split: option.split)

lemma TOTPCode_shape:
  assumes "TOTPCode cr secret t = Some (Some c)"
  shows "length c = totpDigits" "list_all isDigitByte c"
proof -
  obtain w :: "32 word" where c: "c = padLeft totpDigits (showNat (unat (w mod 1000000)))"
    using assms by (auto simp: TOTPCode_def Let_def split: option.splits)
  have "unat (w mod 1000000) < 10 ^ 6" by (simp add: unat_mod)
  then have "length (showNat (unat (w mod 1000000))) \<le> 6" by (rule length_showNat [rotated]) simp
  then show "length c = totpDigits" using c by (simp add: padLeft_def totpDigits_def)
  show "list_all isDigitByte c"
    using c showNat_digits by (auto simp: padLeft_def list_all_iff isDigitByte_def less_eq_char_def)
qed

lemma verifyLoop_hit:
  assumes "\<And>k m. length (cr_hmacSha1 cr k m) = 20" and "cr_b32 cr secret = Some key"
    and "i \<in> set is" and "TOTPCode cr secret (t + i * totpPeriod) = Some (Some code)"
  shows "verifyLoop cr secret code t is = Some True"
  using assms(3)
proof (induction "is")
  case (Cons j js)
  obtain c where "TOTPCode cr secret (t + j * totpPeriod) = Some (Some c)"
    using TOTPCode_total [OF assms(1,2)] by blast
  with Cons assms(4) show ?case by auto
qed simp

text \<open>The code of a step within the skew of the clock verifies.\<close>

lemma VerifyTOTP_code:
  assumes "\<And>k m. length (cr_hmacSha1 cr k m) = 20" and "cr_b32 cr secret = Some key"
    and "TOTPCode cr secret (t + i * totpPeriod) = Some (Some code)" and "- 1 \<le> i" "i \<le> 1"
  shows "VerifyTOTP cr secret code t = Some True"
proof -
  have "i \<in> set [- totpSkew .. totpSkew]" using assms(4,5) by (simp add: totpSkew_def)
  from verifyLoop_hit [OF assms(1,2) this assms(3)]
  show ?thesis using TOTPCode_shape [OF assms(3)] by (simp add: VerifyTOTP_def Let_def trimSpace_digits)
qed

lemma VerifySecondFactor_code:
  assumes "GetUser uid db = Some u" and "us_enrolled u"
    and "VerifyTOTP cr (us_secret u) code t = Some True"
  shows "VerifySecondFactor cr ulow t uid code db =
    (if TOTPStep t \<le> us_last_step u then Some (Some ''that code has already been used'', db)
     else Some (None, updUser uid (\<lambda>x. x\<lparr>us_last_step := TOTPStep t\<rparr>) db))"
  using assms by (simp add: VerifySecondFactor_def)

lemma updUser_updUser:
  assumes "\<And>u. us_id (f u) = us_id u"
  shows "updUser uid g (updUser uid f db) = updUser uid (\<lambda>x. g (f x)) db"
  by (simp add: updUser_def assms)

text \<open>One wrong password, against an account that is neither disabled nor locked.\<close>

lemma VerifyLogin_wrong:
  assumes "find (\<lambda>u. us_name u = name) (ad_users db) = Some u" and "\<not> us_disabled u"
    and "us_locked u \<le> t" and "\<not> VerifyPassword cr pw (us_hash u) (us_salt u) (us_iter u)"
  shows "VerifyLogin cr t name pw db =
    (Inl ''invalid credentials'',
     if us_failed u + 1 \<ge> MaxFailedLogins
     then updUser (us_id u) (\<lambda>x. x\<lparr>us_failed := 0, us_locked := t + LockoutDuration\<rparr>) db
     else updUser (us_id u) (\<lambda>x. x\<lparr>us_failed := us_failed u + 1\<rparr>) db)"
  using assms by (simp add: VerifyLogin_def Let_def)

lemma find_name_updUser:
  assumes "\<And>u. us_name (g u) = us_name u"
    and "find (\<lambda>u. us_name u = name) (ad_users db) = Some u"
  shows "find (\<lambda>u. us_name u = name) (ad_users (updUser (us_id u) g db)) = Some (g u)"
proof -
  have "find (\<lambda>u. us_name u = name) (map (\<lambda>x. if us_id x = us_id u then g x else x) us) =
      map_option (\<lambda>x. if us_id x = us_id u then g x else x) (find (\<lambda>u. us_name u = name) us)" for us
    by (rule find_map_same) (simp add: assms(1))
  then show ?thesis using assms(2) by (simp add: updUser_def)
qed

text \<open>A sequence of sign-in attempts, each a time and a password.\<close>

primrec attempts :: "crypto \<Rightarrow> bytes \<Rightarrow> (int \<times> bytes) list \<Rightarrow> authDB \<Rightarrow> authDB" where
  "attempts cr name [] db = db"
| "attempts cr name (a # as) db = attempts cr name as (snd (VerifyLogin cr (fst a) name (snd a) db))"

lemma attempts_locks:
  assumes "find (\<lambda>u. us_name u = name) (ad_users db) = Some u" and "\<not> us_disabled u"
    and "\<forall>a\<in>set as. us_locked u \<le> fst a \<and> \<not> VerifyPassword cr (snd a) (us_hash u) (us_salt u) (us_iter u)"
    and "us_failed u + int (length as) = MaxFailedLogins" and "as \<noteq> []"
  shows "\<exists>v. find (\<lambda>u. us_name u = name) (ad_users (attempts cr name as db)) = Some v \<and>
    \<not> us_disabled v \<and> us_locked v = fst (last as) + LockoutDuration \<and> us_failed v = 0"
  using assms
proof (induction as arbitrary: db u)
  case (Cons a as)
  have wrong: "us_locked u \<le> fst a" "\<not> VerifyPassword cr (snd a) (us_hash u) (us_salt u) (us_iter u)"
    using Cons.prems by simp_all
  note step = VerifyLogin_wrong [OF Cons.prems(1,2) wrong]
  show ?case
  proof (cases "as = []")
    case True
    with Cons.prems(4) have "MaxFailedLogins \<le> us_failed u + 1" by simp
    then show ?thesis using True find_name_updUser [OF _ Cons.prems(1),
        of "\<lambda>x. x\<lparr>us_failed := 0, us_locked := fst a + LockoutDuration\<rparr>"] Cons.prems(2)
      by (simp add: step)
  next
    case False
    then have "0 < int (length as)" by simp
    moreover have "us_failed u + (1 + int (length as)) = MaxFailedLogins" using Cons.prems(4) by simp
    ultimately have less: "\<not> MaxFailedLogins \<le> us_failed u + 1" by linarith
    let ?g = "\<lambda>x. x\<lparr>us_failed := us_failed u + 1\<rparr>"
    have "find (\<lambda>u. us_name u = name) (ad_users (updUser (us_id u) ?g db)) = Some (?g u)"
      by (rule find_name_updUser) (simp_all add: Cons.prems(1))
    from Cons.IH [OF this] show ?thesis using Cons.prems False less by (simp add: step)
  qed
qed simp

section \<open>Properties\<close>

text \<open>
  A time-based code can be used twice. The store remembers the step in which a code was
  accepted, and a second submission within that step is refused; but the step remembered is the
  clock's and not the code's, so the same code, still within the skew 30 seconds later, is accepted
  again.
\<close>

theorem second_factor_replay:
  assumes "\<And>k m. length (cr_hmacSha1 cr k m) = 20" and "cr_b32 cr (us_secret u) = Some key"
    and "GetUser uid db = Some u" and "us_enrolled u" and "0 \<le> t" and "us_last_step u < TOTPStep t"
    and "TOTPCode cr (us_secret u) t = Some (Some code)"
  shows "\<exists>db1 db2. VerifySecondFactor cr ulow t uid code db = Some (None, db1) \<and>
    VerifySecondFactor cr ulow t uid code db1 = Some (Some ''that code has already been used'', db1) \<and>
    VerifySecondFactor cr ulow (t + 30) uid code db1 = Some (None, db2)"
proof -
  let ?v = "u\<lparr>us_last_step := TOTPStep t\<rparr>"
  let ?db = "updUser uid (\<lambda>x. x\<lparr>us_last_step := TOTPStep t\<rparr>) db"
  have "us_id u = uid" using assms(3) by (auto simp: GetUser_def dest: find_SomeD)
  have v: "GetUser uid ?db = Some ?v" using assms(3) by (subst GetUser_updUser) simp_all
  have now: "VerifyTOTP cr (us_secret u) code t = Some True"
    by (rule VerifyTOTP_code [OF assms(1,2), where i = 0]) (simp_all add: assms(7))
  have later: "VerifyTOTP cr (us_secret u) code (t + 30) = Some True"
    by (rule VerifyTOTP_code [OF assms(1,2), where i = "- 1"]) (simp_all add: assms(7) totpPeriod_def)
  have "TOTPStep (t + 30) = TOTPStep t + 1" using assms(5) by (simp add: TOTPStep_def totpPeriod_def)
  then show ?thesis
    using VerifySecondFactor_code [OF assms(3,4) now, of ulow] assms(6)
      VerifySecondFactor_code [OF v _ _, of cr code t ulow] VerifySecondFactor_code [OF v _ _, of cr code "t + 30" ulow]
      now later assms(4) by simp
qed

text \<open>An account whose secret gives the code \<open>000000\<close>, under a constant MAC.\<close>

definition zeroCrypto :: crypto where
  "zeroCrypto = \<lparr>cr_hmacSha1 = (\<lambda>k m. replicate 20 (CHR 0x00)), cr_b32 = Some,
     cr_pbkdf2 = (\<lambda>pw salt iter n. Some (take n (pw @ replicate 32 (CHR 0x00)))), cr_sha256 = (\<lambda>m. m)\<rparr>"

definition sampleUser :: userRow where
  "sampleUser = \<lparr>us_id = 1, us_name = ''ada'', us_hash = ''6b'',
     us_salt = ''00'', us_iter = 1, us_role = ''operator'', us_secret = ''S'', us_enrolled = True,
     us_last_step = 0, us_created = 0, us_last_login = 0, us_disabled = False, us_failed = 0,
     us_locked = 0\<rparr>"

definition sampleDB :: authDB where
  "sampleDB = \<lparr>ad_users = [sampleUser], ad_sessions = [], ad_recovery = []\<rparr>"

lemma sample_code: "TOTPCode zeroCrypto (us_secret sampleUser) t = Some (Some ''000000'')"
proof -
  have "truncateMAC (replicate 20 (CHR 0x00)) = Some 0" "padLeft totpDigits (showNat 0) = ''000000''"
    by code_simp+
  then show ?thesis by (simp add: TOTPCode_def zeroCrypto_def)
qed

theorem second_factor_replay_witness:
  "\<exists>db1 db2. VerifySecondFactor zeroCrypto (\<lambda>r. r) 3000 1 ''000000'' sampleDB = Some (None, db1) \<and>
    VerifySecondFactor zeroCrypto (\<lambda>r. r) 3000 1 ''000000'' db1 =
      Some (Some ''that code has already been used'', db1) \<and>
    VerifySecondFactor zeroCrypto (\<lambda>r. r) (3000 + 30) 1 ''000000'' db1 = Some (None, db2)"
proof (rule second_factor_replay [where u = sampleUser and key = "''S''"])
  show "length (cr_hmacSha1 zeroCrypto k m) = 20" for k m by (simp add: zeroCrypto_def)
  show "cr_b32 zeroCrypto (us_secret sampleUser) = Some ''S''" by (simp add: zeroCrypto_def sampleUser_def)
  show "GetUser 1 sampleDB = Some sampleUser" by (simp add: GetUser_def sampleDB_def sampleUser_def)
  show "us_enrolled sampleUser" by (simp add: sampleUser_def)
  show "us_last_step sampleUser < TOTPStep 3000" by (simp add: sampleUser_def TOTPStep_def totpPeriod_def)
  show "TOTPCode zeroCrypto (us_secret sampleUser) 3000 = Some (Some ''000000'')" by (rule sample_code)
qed simp

text \<open>
  C26. The lockout. Eight wrong passwords in a row, however far apart, lock the account: until
  fifteen minutes after the eighth, every sign-in is refused, with the right password too, and
  changes nothing.
\<close>

theorem lockout_refuses:
  assumes "find (\<lambda>u. us_name u = name) (ad_users db) = Some u" and "\<not> us_disabled u" and "us_failed u = 0"
    and "\<forall>a\<in>set as. us_locked u \<le> fst a \<and> \<not> VerifyPassword cr (snd a) (us_hash u) (us_salt u) (us_iter u)"
    and "length as = 8" and "t < fst (last as) + 900" and "0 \<le> fst (last as)"
  shows "VerifyLogin cr t name pw (attempts cr name as db) =
    (Inl ''account is temporarily locked; try again later'', attempts cr name as db)"
proof -
  have "us_failed u + int (length as) = MaxFailedLogins" "as \<noteq> []"
    using assms(3,5) by (auto simp: MaxFailedLogins_def)
  from attempts_locks [OF assms(1,2,4) this] obtain v
    where "find (\<lambda>u. us_name u = name) (ad_users (attempts cr name as db)) = Some v"
      "\<not> us_disabled v" "us_locked v = fst (last as) + LockoutDuration" by blast
  then show ?thesis using assms(6,7) by (simp add: VerifyLogin_def LockoutDuration_def)
qed

lemma sample_password:
  "VerifyPassword zeroCrypto ''k'' (us_hash sampleUser) (us_salt sampleUser) (us_iter sampleUser)"
  by code_simp

theorem lockout_refuses_witness:
  "VerifyLogin zeroCrypto 1899 ''ada'' ''k'' (attempts zeroCrypto ''ada'' (replicate 8 (1000, ''x'')) sampleDB) =
    (Inl ''account is temporarily locked; try again later'',
     attempts zeroCrypto ''ada'' (replicate 8 (1000, ''x'')) sampleDB) \<and>
   VerifyPassword zeroCrypto ''k'' (us_hash sampleUser) (us_salt sampleUser) (us_iter sampleUser)"
proof
  have no: "\<not> VerifyPassword zeroCrypto ''x'' (us_hash sampleUser) (us_salt sampleUser) (us_iter sampleUser)"
    by code_simp
  show "VerifyLogin zeroCrypto 1899 ''ada'' ''k'' (attempts zeroCrypto ''ada'' (replicate 8 (1000, ''x'')) sampleDB) =
      (Inl ''account is temporarily locked; try again later'',
       attempts zeroCrypto ''ada'' (replicate 8 (1000, ''x'')) sampleDB)"
  proof (rule lockout_refuses [where u = sampleUser])
    show "find (\<lambda>u. us_name u = ''ada'') (ad_users sampleDB) = Some sampleUser"
      by (simp add: sampleDB_def sampleUser_def)
    show "\<forall>a\<in>set (replicate 8 (1000, ''x'')). us_locked sampleUser \<le> fst a \<and>
        \<not> VerifyPassword zeroCrypto (snd a) (us_hash sampleUser) (us_salt sampleUser) (us_iter sampleUser)"
      using no by (simp add: sampleUser_def [THEN arg_cong [where f = us_locked]])
  qed (simp_all add: sampleUser_def)
  show "VerifyPassword zeroCrypto ''k'' (us_hash sampleUser) (us_salt sampleUser) (us_iter sampleUser)"
    by (rule sample_password)
qed

end
