(* ===== verification/ConsoleAuth.thy ===== *)
theory ConsoleAuth
  imports Operators
begin

text \<open>
  Signing in to the console (\<open>internal/console/api.go\<close>, \<open>server.go\<close>,
  \<open>permissions.go\<close>): the rate limiter, the guards in front of the handlers, the handlers of the
  login handshake, and the runs they make up. A request is already decoded; a response is its
  status and, where it matters, its content. Times are nanoseconds; the database is given seconds.
\<close>

section \<open>The limiter\<close>

record window =
  wi_start :: int
  wi_n :: int

record limiter =
  li_counts :: "bytes \<rightharpoonup> window"
  li_max :: int
  li_period :: int

definition newLimiter :: "int \<Rightarrow> int \<Rightarrow> limiter" where
  "newLimiter m period = \<lparr>li_counts = (\<lambda>_. None), li_max = m, li_period = period\<rparr>"

definition allow :: "int \<Rightarrow> bytes \<Rightarrow> limiter \<Rightarrow> bool \<times> limiter" where
  "allow t key l =
     (case li_counts l key of
        None \<Rightarrow> (True, l\<lparr>li_counts := (li_counts l)(key \<mapsto> \<lparr>wi_start = t, wi_n = 1\<rparr>)\<rparr>)
      | Some w \<Rightarrow>
          if t - wi_start w > li_period l then
            (True, l\<lparr>li_counts := (li_counts l)(key \<mapsto> \<lparr>wi_start = t, wi_n = 1\<rparr>)\<rparr>)
          else if wi_n w \<ge> li_max l then (False, l)
          else (True, l\<lparr>li_counts := (li_counts l)(key \<mapsto> w\<lparr>wi_n := wi_n w + 1\<rparr>)\<rparr>))"

definition sweepLimiter :: "int \<Rightarrow> limiter \<Rightarrow> limiter" where
  "sweepLimiter t l = l\<lparr>li_counts := (\<lambda>k. case li_counts l k of None \<Rightarrow> None
     | Some w \<Rightarrow> if t - wi_start w > 2 * li_period l then None else Some w)\<rparr>"

section \<open>Requests and guards\<close>

record request =
  rq_get :: bool
  rq_csrf :: bytes
  rq_cookie :: "bytes option"
  rq_ip :: bytes

text \<open>The audit log, newest entry last; the hook that forwards an entry is left out.\<close>

record auditRow =
  au_at :: int
  au_actor :: bytes
  au_action :: bytes
  au_target :: bytes
  au_detail :: bytes
  au_ip :: bytes
  au_result :: bytes

definition Audit :: "int \<Rightarrow> bytes \<Rightarrow> bytes \<Rightarrow> bytes \<Rightarrow> bytes \<Rightarrow> bytes \<Rightarrow> bytes \<Rightarrow> auditRow list \<Rightarrow>
    auditRow list" where
  "Audit t actor action target detail ip result log =
     log @ [\<lparr>au_at = t, au_actor = actor, au_action = action, au_target = target, au_detail = detail,
       au_ip = ip, au_result = (if result = [] then ''ok'' else result)\<rparr>]"

record console =
  cn_db :: authDB
  cn_limiter :: limiter
  cn_audit :: "auditRow list"

definition secs :: "int \<Rightarrow> int" where "secs t = t div 1000000000"

definition audit :: "int \<Rightarrow> userRow option \<Rightarrow> request \<Rightarrow> bytes \<Rightarrow> bytes \<Rightarrow> bytes \<Rightarrow> bytes \<Rightarrow> console \<Rightarrow> console" where
  "audit t u rq action target detail result cn =
     cn\<lparr>cn_audit := Audit (secs t) (case u of None \<Rightarrow> ''anonymous'' | Some u \<Rightarrow> us_name u) action target
       detail (rq_ip rq) result (cn_audit cn)\<rparr>"

text \<open>\<open>csrf\<close> is the token of a session, an HMAC under the console's key.\<close>

definition sessionFrom :: "int \<Rightarrow> request \<Rightarrow> console \<Rightarrow> (sessionRow \<times> userRow) option \<times> console" where
  "sessionFrom t rq cn =
     (case rq_cookie rq of
        None \<Rightarrow> (None, cn)
      | Some sid \<Rightarrow>
          (case LookupSession (secs t) sid (cn_db cn) of
             (Inl e, db) \<Rightarrow> (None, cn\<lparr>cn_db := db\<rparr>)
           | (Inr su, db) \<Rightarrow> (Some su, cn\<lparr>cn_db := db\<rparr>)))"

definition checkCSRF :: "(bytes \<Rightarrow> bytes) \<Rightarrow> request \<Rightarrow> sessionRow \<Rightarrow> bool" where
  "checkCSRF csrf rq s \<longleftrightarrow> rq_csrf rq = csrf (se_id s)"

text \<open>A guard returns the status of its refusal, or the session and user the handler runs with.\<close>

type_synonym guarded = "(int + sessionRow \<times> userRow) \<times> console"

definition partialAuth :: "(bytes \<Rightarrow> bytes) \<Rightarrow> int \<Rightarrow> request \<Rightarrow> console \<Rightarrow> guarded" where
  "partialAuth csrf t rq cn =
     (case sessionFrom t rq cn of
        (None, cn') \<Rightarrow> (Inl 401, cn')
      | (Some (s, u), cn') \<Rightarrow>
          if \<not> rq_get rq \<and> \<not> checkCSRF csrf rq s then (Inl 403, cn') else (Inr (s, u), cn'))"

definition authGuard :: "(bytes \<Rightarrow> bytes) \<Rightarrow> int \<Rightarrow> request \<Rightarrow> console \<Rightarrow> guarded" where
  "authGuard csrf t rq cn =
     (case sessionFrom t rq cn of
        (None, cn') \<Rightarrow> (Inl 401, cn')
      | (Some (s, u), cn') \<Rightarrow>
          if \<not> se_mfa s then (Inl 403, cn')
          else if \<not> rq_get rq \<and> \<not> checkCSRF csrf rq s then (Inl 403, cn')
          else (Inr (s, u), cn'))"

definition writeGuard :: "(bytes \<Rightarrow> bytes) \<Rightarrow> int \<Rightarrow> request \<Rightarrow> console \<Rightarrow> guarded" where
  "writeGuard csrf t rq cn =
     (case authGuard csrf t rq cn of
        (Inl e, cn') \<Rightarrow> (Inl e, cn')
      | (Inr (s, u), cn') \<Rightarrow> if \<not> CanApprove u then (Inl 403, cn') else (Inr (s, u), cn'))"

definition adminGuard :: "(bytes \<Rightarrow> bytes) \<Rightarrow> int \<Rightarrow> request \<Rightarrow> console \<Rightarrow> guarded" where
  "adminGuard csrf t rq cn =
     (case authGuard csrf t rq cn of
        (Inl e, cn') \<Rightarrow> (Inl e, cn')
      | (Inr (s, u), cn') \<Rightarrow> if \<not> CanAdmin u then (Inl 403, cn') else (Inr (s, u), cn'))"

text \<open>The role check; the estate is accepted and ignored, as in the code.\<close>

definition Permits :: "userRow option \<Rightarrow> bytes \<Rightarrow> int \<Rightarrow> bool" where
  "Permits u action estateID =
     (case u of
        None \<Rightarrow> False
      | Some u \<Rightarrow>
          if action \<in> {''fleet.view'', ''findings.view'', ''estates.view'', ''audit.view''} then True
          else if action \<in> {''findings.state'', ''commands.create'', ''commands.approve'', ''fleet.retire''}
          then CanApprove u
          else if action \<in> {''estates.manage'', ''installer.generate'', ''tokens.manage'', ''users.manage''}
          then CanAdmin u
          else False)"

definition permittedActions :: "userRow option \<Rightarrow> bytes \<rightharpoonup> bool" where
  "permittedActions u =
     map_of (map (\<lambda>a. (a, Permits u a 0))
       [''fleet.view'', ''findings.view'', ''findings.state'', ''commands.create'', ''commands.approve'',
        ''fleet.retire'', ''estates.view'', ''estates.manage'', ''installer.generate'', ''tokens.manage'',
        ''users.manage'', ''audit.view''])"

section \<open>Handlers of the handshake\<close>

text \<open>The status, and the session cookie when one is set. \<open>sid\<close> is the fresh session id.\<close>

definition handleLogin :: "crypto \<Rightarrow> int \<Rightarrow> bytes \<Rightarrow> request \<Rightarrow> bytes \<Rightarrow> bytes \<Rightarrow> console \<Rightarrow>
    (int \<times> bytes option) \<times> console" where
  "handleLogin cr t sid rq username password cn =
     (if rq_csrf rq = [] then ((403, None), cn)
      else
        (let (ok1, l1) = allow t (rq_ip rq) (cn_limiter cn);
             (ok2, l2) = (if ok1 then allow t (''u:'' @ username) l1 else (False, l1))
         in if \<not> ok1 \<or> \<not> ok2 then ((429, None), cn\<lparr>cn_limiter := l2\<rparr>)
            else
              (case VerifyLogin cr (secs t) username password (cn_db cn) of
                 (Inl e, db) \<Rightarrow>
                   ((401, None), cn\<lparr>cn_limiter := l2, cn_db := db,
                      cn_audit := Audit (secs t) username ''login.failed'' [] e (rq_ip rq) ''denied'' (cn_audit cn)\<rparr>)
               | (Inr u, db) \<Rightarrow>
                   (case CreateSession (secs t) sid (us_id u) db of
                      Inl e \<Rightarrow> ((500, None), cn\<lparr>cn_limiter := l2, cn_db := db\<rparr>)
                    | Inr db' \<Rightarrow>
                        ((200, Some sid), cn\<lparr>cn_limiter := l2, cn_db := db',
                           cn_audit := Audit (secs t) (us_name u) ''login.password_ok'' []
                             ''awaiting second factor'' (rq_ip rq) ''ok'' (cn_audit cn)\<rparr>)))))"

definition handleLogout :: "request \<Rightarrow> console \<Rightarrow> int \<times> console" where
  "handleLogout rq cn =
     (200, case rq_cookie rq of None \<Rightarrow> cn | Some sid \<Rightarrow> cn\<lparr>cn_db := DeleteSession sid (cn_db cn)\<rparr>)"

definition handleMFASetup :: "int \<Rightarrow> request \<Rightarrow> bytes \<Rightarrow> sessionRow \<times> userRow \<Rightarrow> console \<Rightarrow> (int \<times> bytes) \<times> console" where
  "handleMFASetup t rq newSecret c cn =
     (if us_enrolled (snd c) then ((403, []), cn)
      else
        (case BeginTOTPEnrollment newSecret (us_id (snd c)) (cn_db cn) of
           (Inl e, db) \<Rightarrow> ((500, []), cn\<lparr>cn_db := db\<rparr>)
         | (Inr secret, db) \<Rightarrow>
             ((200, secret), audit t (Some (snd c)) rq ''mfa.setup_started'' (us_name (snd c)) [] ''ok''
                (cn\<lparr>cn_db := db\<rparr>))))"

definition handleMFAConfirm :: "crypto \<Rightarrow> (nat \<Rightarrow> nat) \<Rightarrow> int \<Rightarrow> request \<Rightarrow> bytes list \<Rightarrow> sessionRow \<times> userRow \<Rightarrow> bytes \<Rightarrow>
    console \<Rightarrow> ((int \<times> bytes list) \<times> console) option" where
  "handleMFAConfirm cr ulow t rq codes c code cn =
     (case CompleteTOTPEnrollment cr ulow (secs t) codes (us_id (snd c)) code (cn_db cn) of
        None \<Rightarrow> None
      | Some (Inl e, db) \<Rightarrow>
          Some ((400, []), audit t (Some (snd c)) rq ''mfa.setup_failed'' (us_name (snd c)) e ''denied''
            (cn\<lparr>cn_db := db\<rparr>))
      | Some (Inr cs, db) \<Rightarrow>
          Some ((200, cs), audit t (Some (snd c)) rq ''mfa.enrolled'' (us_name (snd c))
            ''recovery codes issued'' ''ok''
            (cn\<lparr>cn_db := TouchLogin (secs t) (us_id (snd c)) (MarkSessionMFA (se_id (fst c)) db)\<rparr>)))"

definition handleMFAVerify :: "crypto \<Rightarrow> (nat \<Rightarrow> nat) \<Rightarrow> int \<Rightarrow> request \<Rightarrow> sessionRow \<times> userRow \<Rightarrow> bytes \<Rightarrow>
    console \<Rightarrow> (int \<times> console) option" where
  "handleMFAVerify cr ulow t rq c code cn =
     (case allow t (''mfa:'' @ us_name (snd c)) (cn_limiter cn) of
        (False, l) \<Rightarrow> Some (429, cn\<lparr>cn_limiter := l\<rparr>)
      | (True, l) \<Rightarrow>
          (case VerifySecondFactor cr ulow (secs t) (us_id (snd c)) code (cn_db cn) of
             None \<Rightarrow> None
           | Some (Some e, db) \<Rightarrow>
               Some (401, audit t (Some (snd c)) rq ''login.mfa_failed'' (us_name (snd c)) e ''denied''
                 (cn\<lparr>cn_limiter := l, cn_db := db\<rparr>))
           | Some (None, db) \<Rightarrow>
               Some (200, audit t (Some (snd c)) rq ''login.success'' (us_name (snd c)) [] ''ok''
                 (cn\<lparr>cn_limiter := l,
                   cn_db := TouchLogin (secs t) (us_id (snd c)) (MarkSessionMFA (se_id (fst c)) db)\<rparr>))))"

section \<open>Runs of the console\<close>

text \<open>
  Entries in the audit log by other handlers are steps too.
  What a run has established: a password of an account accepted for a new session at a time, a
  second factor of the account accepted for a session.
\<close>

datatype authEvent = PasswordOK bytes int int | FactorOK bytes int

type_synonym authTrace = "authEvent list"

inductive consoleStep ::
    "crypto \<Rightarrow> (nat \<Rightarrow> nat) \<Rightarrow> (bytes \<Rightarrow> bytes) \<Rightarrow> authTrace \<times> console \<Rightarrow> authTrace \<times> console \<Rightarrow> bool"
  for cr ulow csrf where
  stepLogin: "handleLogin cr t sid rq name pw cn = ((200, Some sid), cn') \<Longrightarrow>
     find (\<lambda>u. us_name u = name) (ad_users (cn_db cn)) = Some u \<Longrightarrow>
     consoleStep cr ulow csrf (tr, cn) (tr @ [PasswordOK sid (us_id u) (secs t)], cn')"
| stepRefused: "handleLogin cr t sid rq name pw cn = ((n, None), cn') \<Longrightarrow>
     consoleStep cr ulow csrf (tr, cn) (tr, cn')"
| stepLogout: "consoleStep cr ulow csrf (tr, cn) (tr, snd (handleLogout rq cn))"
| stepGuard: "partialAuth csrf t rq cn = (Inl n, cn') \<Longrightarrow> consoleStep cr ulow csrf (tr, cn) (tr, cn')"
| stepSetup: "partialAuth csrf t rq cn = (Inr c, cn1) \<Longrightarrow>
     consoleStep cr ulow csrf (tr, cn) (tr, snd (handleMFASetup t rq newSecret c cn1))"
| stepConfirm: "partialAuth csrf t rq cn = (Inr c, cn1) \<Longrightarrow>
     handleMFAConfirm cr ulow t rq codes c code cn1 = Some ((n, cs), cn') \<Longrightarrow>
     consoleStep cr ulow csrf (tr, cn)
       (if n = 200 then tr @ [FactorOK (se_id (fst c)) (us_id (snd c))] else tr, cn')"
| stepVerify: "partialAuth csrf t rq cn = (Inr c, cn1) \<Longrightarrow>
     handleMFAVerify cr ulow t rq c code cn1 = Some (n, cn') \<Longrightarrow>
     consoleStep cr ulow csrf (tr, cn)
       (if n = 200 then tr @ [FactorOK (se_id (fst c)) (us_id (snd c))] else tr, cn')"
| stepNewUser: "CreateUser cr ulow t i salt name pw role (cn_db cn) = Inr db \<Longrightarrow>
     consoleStep cr ulow csrf (tr, cn) (tr, cn\<lparr>cn_db := db\<rparr>)"
| stepNewPassword: "ChangePassword cr ulow salt i pw (cn_db cn) = Inr db \<Longrightarrow>
     consoleStep cr ulow csrf (tr, cn) (tr, cn\<lparr>cn_db := db\<rparr>)"
| stepReset: "consoleStep cr ulow csrf (tr, cn) (tr, cn\<lparr>cn_db := ResetMFA i (cn_db cn)\<rparr>)"
| stepDisable: "consoleStep cr ulow csrf (tr, cn) (tr, cn\<lparr>cn_db := SetUserDisabled i b (cn_db cn)\<rparr>)"
| stepAudit: "consoleStep cr ulow csrf (tr, cn) (tr, cn\<lparr>cn_audit := cn_audit cn @ es\<rparr>)"
| stepPrune: "consoleStep cr ulow csrf (tr, cn)
     (tr, cn\<lparr>cn_db := PruneSessions t (cn_db cn), cn_limiter := sweepLimiter t (cn_limiter cn)\<rparr>)"

inductive consoleRun :: "crypto \<Rightarrow> (nat \<Rightarrow> nat) \<Rightarrow> (bytes \<Rightarrow> bytes) \<Rightarrow> authTrace \<times> console \<Rightarrow> bool"
  for cr ulow csrf where
  runStart: "ad_sessions (cn_db cn) = [] \<Longrightarrow> consoleRun cr ulow csrf ([], cn)"
| runStep: "consoleRun cr ulow csrf x \<Longrightarrow> consoleStep cr ulow csrf x y \<Longrightarrow> consoleRun cr ulow csrf y"

inductive_cases consoleStepE: "consoleStep cr ulow csrf (tr, cn) y"

section \<open>Every session is vouched for by the trace\<close>

definition vouched :: "authTrace \<Rightarrow> sessionRow \<Rightarrow> bool" where
  "vouched tr s \<longleftrightarrow>
     PasswordOK (se_id s) (se_user s) (se_created s) \<in> set tr \<and> se_expires s = se_created s + SessionTTL \<and>
     (se_mfa s \<longrightarrow> (\<exists>a b c. tr = a @ PasswordOK (se_id s) (se_user s) (se_created s) # b @
        FactorOK (se_id s) (se_user s) # c))"

definition authInv :: "authTrace \<Rightarrow> authDB \<Rightarrow> bool" where
  "authInv tr db \<longleftrightarrow> distinct (map se_id (ad_sessions db)) \<and> (\<forall>s\<in>set (ad_sessions db). vouched tr s)"

lemma vouched_append: "vouched tr s \<Longrightarrow> vouched (tr @ es) s"
  unfolding vouched_def by (auto 0 4)

lemma authInv_append: "authInv tr db \<Longrightarrow> authInv (tr @ es) db"
  by (auto simp: authInv_def vouched_append)

lemma authInv_filter:
  "authInv tr db \<Longrightarrow> ad_sessions db' = filter P (ad_sessions db) \<Longrightarrow> authInv tr db'"
  by (auto simp: authInv_def distinct_map_filter)

lemma authInv_same: "ad_sessions db' = ad_sessions db \<Longrightarrow> authInv tr db \<Longrightarrow> authInv tr db'"
  by (simp add: authInv_def)

lemma VerifyLogin_sessions: "ad_sessions (snd (VerifyLogin cr t name pw db)) = ad_sessions db"
  by (auto simp: VerifyLogin_def Let_def split: option.splits)

lemma VerifyLogin_user:
  "VerifyLogin cr t name pw db = (Inr u, db') \<Longrightarrow> find (\<lambda>u. us_name u = name) (ad_users db) = Some u"
  by (auto simp: VerifyLogin_def Let_def split: option.splits if_splits)

lemma BeginTOTP_sessions: "ad_sessions (snd (BeginTOTPEnrollment new uid db)) = ad_sessions db"
  by (auto simp: BeginTOTPEnrollment_def split: option.splits)

lemma CompleteTOTP_sessions:
  "CompleteTOTPEnrollment cr ulow t codes uid code db = Some (r, db') \<Longrightarrow> ad_sessions db' = ad_sessions db"
  by (auto simp: CompleteTOTPEnrollment_def Let_def split: option.splits if_splits bool.splits)

lemma VerifySecondFactor_sessions:
  "VerifySecondFactor cr ulow t uid code db = Some (r, db') \<Longrightarrow> ad_sessions db' = ad_sessions db"
  by (auto simp: VerifySecondFactor_def Let_def split: option.splits if_splits bool.splits)

lemma filter_same: "\<exists>P. xs = filter P xs"
  by (rule exI [of _ "\<lambda>_. True"]) simp

lemma LookupSession_sessions: "\<exists>P. ad_sessions (snd (LookupSession t sid db)) = filter P (ad_sessions db)"
  using filter_same by (auto simp: LookupSession_def DeleteSession_def split: option.splits)

lemma LookupSession_ok:
  assumes "LookupSession t sid db = (Inr (s, u), db')"
  shows "s \<in> set (ad_sessions db)" "se_id s = sid" "t \<le> se_expires s" "us_id u = se_user s"
    "u \<in> set (ad_users db)" "\<not> us_disabled u" "db' = db"
  using assms by (auto simp: LookupSession_def GetUser_def split: option.splits if_splits dest: find_SomeD)

lemma sessionFrom_sessions:
  "sessionFrom t rq cn = (r, cn') \<Longrightarrow> \<exists>P. ad_sessions (cn_db cn') = filter P (ad_sessions (cn_db cn))"
proof -
  assume eq: "sessionFrom t rq cn = (r, cn')"
  show ?thesis
  proof (cases "rq_cookie rq")
    case None
    then show ?thesis using eq filter_same by (auto simp: sessionFrom_def)
  next
    case (Some sid)
    then have "cn_db cn' = snd (LookupSession (secs t) sid (cn_db cn))"
      using eq by (auto simp: sessionFrom_def split: prod.splits sum.splits)
    then show ?thesis using LookupSession_sessions by simp
  qed
qed

lemma sessionFrom_ok:
  assumes "sessionFrom t rq cn = (Some (s, u), cn')"
  shows "rq_cookie rq = Some (se_id s)" "s \<in> set (ad_sessions (cn_db cn))" "secs t \<le> se_expires s"
    "us_id u = se_user s" "u \<in> set (ad_users (cn_db cn))" "\<not> us_disabled u" "cn_db cn' = cn_db cn"
proof -
  obtain sid where sid: "rq_cookie rq = Some sid"
    using assms by (auto simp: sessionFrom_def split: option.splits)
  obtain db where look: "LookupSession (secs t) sid (cn_db cn) = (Inr (s, u), db)" and "cn_db cn' = db"
    using assms sid by (auto simp: sessionFrom_def split: prod.splits sum.splits)
  note ok = LookupSession_ok [OF look]
  show "rq_cookie rq = Some (se_id s)" "s \<in> set (ad_sessions (cn_db cn))" "secs t \<le> se_expires s"
    "us_id u = se_user s" "u \<in> set (ad_users (cn_db cn))" "\<not> us_disabled u" "cn_db cn' = cn_db cn"
    using ok sid \<open>cn_db cn' = db\<close> by auto
qed

lemma partialAuth_ok: "partialAuth csrf t rq cn = (Inr (s, u), cn') \<Longrightarrow> sessionFrom t rq cn = (Some (s, u), cn')"
  by (auto simp: partialAuth_def split: prod.splits option.splits if_splits)

lemma partialAuth_sessions:
  "partialAuth csrf t rq cn = (r, cn') \<Longrightarrow> \<exists>P. ad_sessions (cn_db cn') = filter P (ad_sessions (cn_db cn))"
  by (rule sessionFrom_sessions [of t rq cn "fst (sessionFrom t rq cn)"])
    (auto simp: partialAuth_def split: prod.splits option.splits if_splits)

lemma partialAuth_authInv: "partialAuth csrf t rq cn = (r, cn') \<Longrightarrow> authInv tr (cn_db cn) \<Longrightarrow> authInv tr (cn_db cn')"
  using partialAuth_sessions authInv_filter by metis

lemma authInv_create:
  assumes "authInv tr db" and "CreateSession t sid uid db = Inr db'"
  shows "authInv (tr @ [PasswordOK sid uid t]) db'"
  using assms vouched_append
  by (auto simp: authInv_def CreateSession_def vouched_def list_ex_iff split: if_splits)

lemma authInv_mark:
  assumes "authInv tr db" and "s \<in> set (ad_sessions db)"
  shows "authInv (tr @ [FactorOK (se_id s) (se_user s)]) (MarkSessionMFA (se_id s) db)"
proof -
  have dist: "distinct (map se_id (ad_sessions db))" and v: "\<forall>s\<in>set (ad_sessions db). vouched tr s"
    using assms(1) by (simp_all add: authInv_def)
  have ids: "map se_id (ad_sessions (MarkSessionMFA (se_id s) db)) = map se_id (ad_sessions db)"
    by (simp add: MarkSessionMFA_def comp_def if_distrib cong: if_cong)
  have "vouched (tr @ [FactorOK (se_id s) (se_user s)]) (if se_id x = se_id s then x\<lparr>se_mfa := True\<rparr> else x)"
    if x: "x \<in> set (ad_sessions db)" for x
  proof (cases "se_id x = se_id s")
    case True
    then have "x = s" using dist x assms(2) by (simp add: distinct_map inj_on_def)
    have vs: "PasswordOK (se_id s) (se_user s) (se_created s) \<in> set tr"
        "se_expires s = se_created s + SessionTTL" using v assms(2) by (auto simp: vouched_def)
    obtain a b where tr: "tr = a @ PasswordOK (se_id s) (se_user s) (se_created s) # b"
      using split_list [OF vs(1)] by blast
    then have "tr @ [FactorOK (se_id s) (se_user s)] =
        a @ PasswordOK (se_id s) (se_user s) (se_created s) # b @ FactorOK (se_id s) (se_user s) # []" by simp
    then show ?thesis using vs \<open>x = s\<close> unfolding vouched_def by auto
  qed (simp add: v x vouched_append)
  then show ?thesis using dist unfolding authInv_def ids
    by (simp add: MarkSessionMFA_def del: if_image_distrib split del: if_split)
qed

lemma TouchLogin_sessions [simp]: "ad_sessions (TouchLogin t uid db) = ad_sessions db"
  by (simp add: TouchLogin_def)

lemma handleLogin_ok:
  assumes "handleLogin cr t sid rq name pw cn = ((200, Some sid), cn')"
    and "find (\<lambda>u. us_name u = name) (ad_users (cn_db cn)) = Some u"
  shows "\<exists>db. ad_sessions db = ad_sessions (cn_db cn) \<and> CreateSession (secs t) sid (us_id u) db = Inr (cn_db cn')"
proof -
  obtain v db where v: "VerifyLogin cr (secs t) name pw (cn_db cn) = (Inr v, db)"
    and new: "CreateSession (secs t) sid (us_id v) db = Inr (cn_db cn')"
    using assms(1) by (auto simp: handleLogin_def Let_def split: prod.splits sum.splits if_splits)
  have "v = u" using VerifyLogin_user [OF v] assms(2) by simp
  then show ?thesis using new VerifyLogin_sessions [of cr "secs t" name pw "cn_db cn"] v by auto
qed

lemma handleLogin_refused:
  assumes "handleLogin cr t sid rq name pw cn = ((n, None), cn')"
  shows "ad_sessions (cn_db cn') = ad_sessions (cn_db cn)"
  using assms VerifyLogin_sessions [of cr "secs t" name pw "cn_db cn"]
  by (auto simp: handleLogin_def Let_def split: prod.splits sum.splits if_splits)

lemma handleMFASetup_sessions: "ad_sessions (cn_db (snd (handleMFASetup t rq new c cn))) = ad_sessions (cn_db cn)"
  using BeginTOTP_sessions [of new "us_id (snd c)" "cn_db cn"]
  by (auto simp: handleMFASetup_def audit_def split: prod.splits sum.splits)

lemma handleMFAConfirm_db:
  assumes "handleMFAConfirm cr ulow t rq codes c code cn = Some ((n, cs), cn')"
  shows "\<exists>db. ad_sessions db = ad_sessions (cn_db cn) \<and> ad_sessions (cn_db cn') =
    ad_sessions (if n = 200 then MarkSessionMFA (se_id (fst c)) db else db)"
  using assms by (auto simp: handleMFAConfirm_def audit_def split: option.splits prod.splits sum.splits
      dest: CompleteTOTP_sessions)

lemma handleMFAVerify_db:
  assumes "handleMFAVerify cr ulow t rq c code cn = Some (n, cn')"
  shows "\<exists>db. ad_sessions db = ad_sessions (cn_db cn) \<and> ad_sessions (cn_db cn') =
    ad_sessions (if n = 200 then MarkSessionMFA (se_id (fst c)) db else db)"
  using assms by (auto simp: handleMFAVerify_def audit_def split: option.splits prod.splits sum.splits bool.splits
      dest: VerifySecondFactor_sessions)

lemma authInv_factor:
  assumes inv: "authInv tr (cn_db cn)" and auth: "partialAuth csrf t rq cn = (Inr c, cn1)"
    and db: "\<exists>db. ad_sessions db = ad_sessions (cn_db cn1) \<and> ad_sessions (cn_db cn') =
      ad_sessions (if n = 200 then MarkSessionMFA (se_id (fst c)) db else db)"
  shows "authInv (if n = 200 then tr @ [FactorOK (se_id (fst c)) (us_id (snd c))] else tr) (cn_db cn')"
proof -
  have ok: "fst c \<in> set (ad_sessions (cn_db cn))" "us_id (snd c) = se_user (fst c)" "cn_db cn1 = cn_db cn"
    using sessionFrom_ok [of t rq cn "fst c" "snd c" cn1] partialAuth_ok [of csrf t rq cn "fst c" "snd c" cn1] auth
    by simp_all
  obtain db where db: "ad_sessions db = ad_sessions (cn_db cn)"
    "ad_sessions (cn_db cn') = ad_sessions (if n = 200 then MarkSessionMFA (se_id (fst c)) db else db)"
    using db ok(3) by auto
  have "authInv tr db" using inv db(1) by (simp add: authInv_def)
  then show ?thesis using authInv_mark [of tr db "fst c"] ok db authInv_same [OF db(2)] by auto
qed

lemma consoleStep_authInv:
  assumes "consoleStep cr ulow csrf (tr, cn) (tr', cn')" and "authInv tr (cn_db cn)"
  shows "authInv tr' (cn_db cn')"
  using assms(1)
proof (cases rule: consoleStep.cases)
  case (stepLogin t sid rq name pw u)
  from handleLogin_ok [OF stepLogin(2,3)] obtain db where
    "ad_sessions db = ad_sessions (cn_db cn)" "CreateSession (secs t) sid (us_id u) db = Inr (cn_db cn')" by blast
  then show ?thesis using authInv_create authInv_same assms(2) stepLogin(1) by metis
next
  case (stepConfirm t rq c cn1 codes code n cs)
  then show ?thesis using authInv_factor [OF assms(2) stepConfirm(2) handleMFAConfirm_db] by simp
next
  case (stepVerify t rq c cn1 code n)
  then show ?thesis using authInv_factor [OF assms(2) stepVerify(2) handleMFAVerify_db] by simp
next
  case (stepRefused t sid rq name pw n)
  then show ?thesis using handleLogin_refused authInv_same assms(2) by blast
next
  case (stepGuard t rq n)
  then show ?thesis using partialAuth_authInv assms(2) by blast
next
  case (stepSetup t rq c cn1 new)
  then show ?thesis using partialAuth_authInv [OF stepSetup(3) assms(2)] handleMFASetup_sessions
    by (simp add: authInv_def)
qed (use assms(2) authInv_filter [OF assms(2)] in
  \<open>auto simp: handleLogout_def DeleteSession_def ResetMFA_def SetUserDisabled_def PruneSessions_def Let_def
      CreateUser_def ChangePassword_def authInv_def distinct_map_filter split: option.splits if_splits prod.splits\<close>)

lemma consoleRun_authInv: "consoleRun cr ulow csrf x \<Longrightarrow> authInv (fst x) (cn_db (snd x))"
proof (induction rule: consoleRun.induct)
  case (runStep x y)
  then show ?case using consoleStep_authInv [of cr ulow csrf "fst x" "snd x" "fst y" "snd y"] by simp
qed (simp add: authInv_def)

lemma authGuard_ok:
  assumes "authGuard csrf t rq cn = (Inr (s, u), cn')"
  shows "sessionFrom t rq cn = (Some (s, u), cn')" "se_mfa s" "rq_get rq \<or> rq_csrf rq = csrf (se_id s)"
  using assms by (auto simp: authGuard_def checkCSRF_def split: prod.splits option.splits if_splits)

text \<open>What a trace establishes for a session of an account: its password at a time, then its factor.\<close>

definition bothFactors :: "authTrace \<Rightarrow> bytes \<Rightarrow> int \<Rightarrow> int \<Rightarrow> bool" where
  "bothFactors tr sid uid t0 \<longleftrightarrow> (\<exists>a b c. tr = a @ PasswordOK sid uid t0 # b @ FactorOK sid uid # c)"

lemma bothFactors_append: "bothFactors tr sid uid t0 \<Longrightarrow> bothFactors (tr @ es) sid uid t0"
  unfolding bothFactors_def by fastforce

lemma writeGuard_ok:
  assumes "consoleRun cr ulow csrf (tr, cn)" and "writeGuard csrf t rq cn = (Inr (s, u), cn')"
  shows "rq_cookie rq = Some (se_id s)" "rq_get rq \<or> rq_csrf rq = csrf (se_id s)" "u \<in> set (ad_users (cn_db cn))"
    "\<not> us_disabled u" "CanApprove u" "\<exists>t0. bothFactors tr (se_id s) (us_id u) t0 \<and> secs t \<le> t0 + 12 * 3600"
    "cn' = cn"
proof -
  have auth: "authGuard csrf t rq cn = (Inr (s, u), cn')" and role: "CanApprove u"
    using assms(2) by (auto simp: writeGuard_def split: prod.splits sum.splits if_splits)
  note sess = authGuard_ok(1) [OF auth]
  note ok = sessionFrom_ok [OF sess]
  have "vouched tr s" using consoleRun_authInv [OF assms(1)] ok(2) by (simp add: authInv_def)
  then have "bothFactors tr (se_id s) (us_id u) (se_created s)" and "se_expires s = se_created s + SessionTTL"
    using authGuard_ok(2) [OF auth] ok(4) by (simp_all add: vouched_def bothFactors_def)
  then show "\<exists>t0. bothFactors tr (se_id s) (us_id u) t0 \<and> secs t \<le> t0 + 12 * 3600"
    using ok(3) unfolding SessionTTL_def by (intro exI [of _ "se_created s"]) auto
  show "cn' = cn" using sess ok(7) by (auto simp: sessionFrom_def split: option.splits prod.splits sum.splits)
  show "rq_cookie rq = Some (se_id s)" "rq_get rq \<or> rq_csrf rq = csrf (se_id s)" "u \<in> set (ad_users (cn_db cn))"
    "\<not> us_disabled u" "CanApprove u"
    using ok role authGuard_ok(3) [OF auth] by simp_all
qed

text \<open>
  C25. Two factors and a role before anything is changed. Whenever the guard of the writing
  operations lets a request through, in any state a run of the console reaches, the session is the
  one of the request's cookie, the anti-forgery token matches on everything but a GET, the account
  exists, is not disabled and may approve, and the run contains a sign-in with that account's
  password for this session, at most twelve hours old, followed by an accepted second factor of the
  same account for the same session.
\<close>

theorem write_needs_both_factors:
  assumes "consoleRun cr ulow csrf (tr, cn)" and "writeGuard csrf t rq cn = (Inr (s, u), cn')"
  shows "rq_cookie rq = Some (se_id s) \<and> (rq_get rq \<or> rq_csrf rq = csrf (se_id s)) \<and>
    u \<in> set (ad_users (cn_db cn)) \<and> \<not> us_disabled u \<and> CanApprove u \<and>
    (\<exists>t0 a b c. tr = a @ PasswordOK (se_id s) (us_id u) t0 # b @ FactorOK (se_id s) (us_id u) # c \<and>
       secs t \<le> t0 + 12 * 3600)"
  using writeGuard_ok [OF assms] by (auto simp: bothFactors_def)

text \<open>A run: sign in with the password, give the code, then approve.\<close>

definition sampleConsole :: console where
  "sampleConsole = \<lparr>cn_db = sampleDB, cn_limiter = newLimiter 10 60000000000, cn_audit = []\<rparr>"

definition sampleRequest :: "bool \<Rightarrow> request" where
  "sampleRequest get = \<lparr>rq_get = get, rq_csrf = ''sid'', rq_cookie = Some ''sid'', rq_ip = ''ip''\<rparr>"

definition sampleLogin :: console where
  "sampleLogin = snd (handleLogin zeroCrypto 3000000000000 ''sid'' (sampleRequest False) ''ada'' ''k'' sampleConsole)"

lemmas sample_console_defs = sampleConsole_def sampleRequest_def sampleDB_def newLimiter_def allow_def secs_def

lemma sampleLogin_ok:
  "handleLogin zeroCrypto 3000000000000 ''sid'' (sampleRequest False) ''ada'' ''k'' sampleConsole =
     ((200, Some ''sid''), sampleLogin)"
  "ad_sessions (cn_db sampleLogin) =
     [\<lparr>se_id = ''sid'', se_user = 1, se_created = 3000, se_expires = 46200, se_mfa = False\<rparr>]"
  "ad_users (cn_db sampleLogin) = [sampleUser]"
  "li_counts (cn_limiter sampleLogin) ''mfa:ada'' = None"
  using sample_password unfolding sampleLogin_def
  by (simp_all add: handleLogin_def sample_console_defs VerifyLogin_def CreateSession_def SessionTTL_def
      updUser_def Let_def sampleUser_def)

definition sampleVerified :: console where
  "sampleVerified = snd (the (handleMFAVerify zeroCrypto (\<lambda>r. r) 3000000000000 (sampleRequest False)
     (hd (ad_sessions (cn_db sampleLogin)), sampleUser) ''000000'' sampleLogin))"

lemma sampleVerified_ok:
  "handleMFAVerify zeroCrypto (\<lambda>r. r) 3000000000000 (sampleRequest False) (hd (ad_sessions (cn_db sampleLogin)), sampleUser)
     ''000000'' sampleLogin = Some (200, sampleVerified)"
  "ad_sessions (cn_db sampleVerified) =
     [\<lparr>se_id = ''sid'', se_user = 1, se_created = 3000, se_expires = 46200, se_mfa = True\<rparr>]"
  "ad_users (cn_db sampleVerified) = [sampleUser\<lparr>us_last_step := 100, us_last_login := 3000\<rparr>]"
proof -
  let ?db = "updUser 1 (\<lambda>x. x\<lparr>us_last_step := TOTPStep 3000\<rparr>) (cn_db sampleLogin)"
  have get: "GetUser 1 (cn_db sampleLogin) = Some sampleUser"
    using sampleLogin_ok(3) by (simp add: GetUser_def sampleUser_def)
  have totp: "VerifyTOTP zeroCrypto (us_secret sampleUser) ''000000'' 3000 = Some True"
    by (rule VerifyTOTP_code [where i = 0]) (simp_all add: sample_code, simp_all add: zeroCrypto_def)
  have enrolled: "us_enrolled sampleUser" by (simp add: sampleUser_def)
  have factor: "VerifySecondFactor zeroCrypto (\<lambda>r. r) 3000 1 ''000000'' (cn_db sampleLogin) = Some (None, ?db)"
    using VerifySecondFactor_code [OF get enrolled totp, of "\<lambda>r. r"]
    by (simp add: sampleUser_def TOTPStep_def totpPeriod_def)
  have verify: "\<exists>l lg. handleMFAVerify zeroCrypto (\<lambda>r. r) 3000000000000 (sampleRequest False)
      (hd (ad_sessions (cn_db sampleLogin)), sampleUser) ''000000'' sampleLogin =
      Some (200, sampleLogin\<lparr>cn_limiter := l, cn_db := TouchLogin 3000 1 (MarkSessionMFA ''sid'' ?db), cn_audit := lg\<rparr>)"
    using factor sampleLogin_ok(2,4)
    by (simp add: handleMFAVerify_def allow_def audit_def secs_def sampleUser_def) (rule exI, rule exI, rule refl)
  then show "handleMFAVerify zeroCrypto (\<lambda>r. r) 3000000000000 (sampleRequest False) (hd (ad_sessions (cn_db sampleLogin)), sampleUser)
     ''000000'' sampleLogin = Some (200, sampleVerified)"
    unfolding sampleVerified_def by force
  have "cn_db sampleVerified = TouchLogin 3000 1 (MarkSessionMFA ''sid'' ?db)"
    using verify unfolding sampleVerified_def by force
  then show "ad_sessions (cn_db sampleVerified) =
     [\<lparr>se_id = ''sid'', se_user = 1, se_created = 3000, se_expires = 46200, se_mfa = True\<rparr>]"
    "ad_users (cn_db sampleVerified) = [sampleUser\<lparr>us_last_step := 100, us_last_login := 3000\<rparr>]"
    using sampleLogin_ok(2,3)
    by (simp_all add: MarkSessionMFA_def TouchLogin_def updUser_def sampleUser_def TOTPStep_def totpPeriod_def)
qed

lemma sample_run:
  "consoleRun zeroCrypto (\<lambda>r. r) (\<lambda>s. s) ([PasswordOK ''sid'' 1 3000, FactorOK ''sid'' 1], sampleVerified)"
proof -
  let ?s = "\<lparr>se_id = ''sid'', se_user = 1, se_created = 3000, se_expires = 46200, se_mfa = False\<rparr>"
  have "consoleRun zeroCrypto (\<lambda>r. r) (\<lambda>s. s) ([], sampleConsole)"
    by (rule consoleRun.runStart) (simp add: sample_console_defs)
  moreover have "consoleStep zeroCrypto (\<lambda>r. r) (\<lambda>s. s) ([], sampleConsole)
      ([] @ [PasswordOK ''sid'' (us_id sampleUser) (secs 3000000000000)], sampleLogin)"
    by (rule consoleStep.stepLogin [OF sampleLogin_ok(1)]) (simp add: sample_console_defs sampleUser_def)
  ultimately have one: "consoleRun zeroCrypto (\<lambda>r. r) (\<lambda>s. s) ([PasswordOK ''sid'' 1 3000], sampleLogin)"
    using consoleRun.runStep by (fastforce simp: sampleUser_def secs_def)
  have auth: "partialAuth (\<lambda>s. s) 3000000000000 (sampleRequest False) sampleLogin = (Inr (?s, sampleUser), sampleLogin)"
    using sampleLogin_ok(2,3)
    by (simp add: partialAuth_def sessionFrom_def checkCSRF_def sampleRequest_def LookupSession_def GetUser_def
        secs_def sampleUser_def)
  have "hd (ad_sessions (cn_db sampleLogin)) = ?s" using sampleLogin_ok(2) by simp
  from consoleStep.stepVerify [OF auth, where code = "''000000''", folded this, OF sampleVerified_ok(1),
      of "[PasswordOK ''sid'' 1 3000]"]
  have "consoleStep zeroCrypto (\<lambda>r. r) (\<lambda>s. s) ([PasswordOK ''sid'' 1 3000], sampleLogin)
      ([PasswordOK ''sid'' 1 3000, FactorOK ''sid'' 1], sampleVerified)"
    using sampleLogin_ok(2) by (simp add: sampleUser_def)
  with one show ?thesis by (rule consoleRun.runStep)
qed

theorem write_needs_both_factors_witness:
  "\<exists>s u cn'. writeGuard (\<lambda>s. s) 3100000000000 (sampleRequest False) sampleVerified = (Inr (s, u), cn') \<and>
    CanApprove u \<and>
    (\<exists>t0 a b c. [PasswordOK ''sid'' 1 3000, FactorOK ''sid'' 1] =
       a @ PasswordOK (se_id s) (us_id u) t0 # b @ FactorOK (se_id s) (us_id u) # c \<and>
       secs 3100000000000 \<le> t0 + 12 * 3600)"
proof -
  obtain s u cn' where w: "writeGuard (\<lambda>s. s) 3100000000000 (sampleRequest False) sampleVerified = (Inr (s, u), cn')"
    using sampleVerified_ok(2,3)
    by (simp add: writeGuard_def authGuard_def sessionFrom_def checkCSRF_def sampleRequest_def LookupSession_def
        GetUser_def CanApprove_def secs_def sampleUser_def)
  show ?thesis
    using write_needs_both_factors [OF sample_run w] w by (intro exI [of _ s] exI [of _ u] exI [of _ cn']) simp
qed

end
