(* ===== verification/Fleet.thy ===== *)
theory Fleet
  imports Consensus ConsoleAuth
begin

text \<open>
  The fleet as the console stores it (\<open>internal/store/store.go\<close>, \<open>estates.go\<close>) and the
  agent-facing handlers that fill it (\<open>internal/console/ingest.go\<close>): enrolment tokens, agents,
  heartbeats, findings and reports. The rows of agents and findings extend the columns the
  consensus reads. Bodies are already decoded; errors of the driver other than constraint
  violations are left out. The hash of tokens and credentials (SHA-256 in hexadecimal) is an
  argument, as are fresh secrets and the formatting of audit details that quote a string.
\<close>

section \<open>Tables\<close>

record tokenRow =
  tk_id :: int
  tk_hash :: bytes
  tk_prefix :: bytes
  tk_label :: bytes
  tk_by :: bytes
  tk_created :: int
  tk_expires :: int
  tk_allowed :: int
  tk_consumed :: int
  tk_contain :: bool
  tk_revoked :: bool
  tk_revoked_by :: bytes
  tk_revoked_at :: int
  tk_estate :: "int option"

record fleetAgent = agentRow +
  fa_label :: bytes
  fa_site :: bytes
  fa_version :: bytes
  fa_os :: bytes
  fa_arch :: bytes
  fa_cred :: bytes
  fa_enrolled :: int
  fa_token :: int
  fa_last_seen :: int
  fa_last_ip :: bytes
  fa_contain :: bool
  fa_opts_in :: bool
  fa_monitor :: bool

record heartbeatRow =
  hb_agent :: bytes
  hb_at :: int
  hb_monitor :: bool
  hb_open :: int
  hb_version :: bytes

text \<open>A finding as sent, and as stored. The free-form \<open>meta\<close> is its JSON text.\<close>

record FindingInput =
  in_RuleID :: bytes
  in_Class :: bytes
  in_Severity :: bytes
  in_Confidence :: bytes
  in_Title :: bytes
  in_Detail :: bytes
  in_Path :: bytes
  in_SHA256 :: bytes
  in_Size :: int
  in_Line :: int
  in_Evidence :: bytes
  in_Remediation :: bytes
  in_Actionable :: bool
  in_ContainPID :: int
  in_Meta :: "bytes option"

record storedFinding = findingRow +
  sf_id :: int
  sf_key :: bytes
  sf_seen :: int
  sf_input :: FindingInput
  sf_state_by :: bytes
  sf_state_at :: int
  sf_state_note :: bytes

record ReportSummary =
  rs_AgentID :: bytes
  rs_ReceivedAt :: int
  rs_Mode :: bytes
  rs_Verdict :: bytes
  rs_DurationMS :: int
  rs_FilesSeen :: int
  rs_FilesRead :: int
  rs_NCritical :: nat
  rs_NHigh :: nat
  rs_NMedium :: nat
  rs_NLow :: nat
  rs_NInfo :: nat
  rs_NErrors :: nat
  rs_StartedAt :: int
  rs_Raw :: bytes

record fleetDB =
  fl_tokens :: "tokenRow list"
  fl_agents :: "fleetAgent list"
  fl_heartbeats :: "heartbeatRow list"
  fl_findings :: "storedFinding list"
  fl_reports :: "ReportSummary list"
  fl_audit :: "auditRow list"

section \<open>Enrolment tokens\<close>

text \<open>\<open>t\<close> and \<open>ttl\<close> are nanoseconds; a time to live of 0 never expires.\<close>

definition CreateEnrollToken :: "(bytes \<Rightarrow> bytes) \<Rightarrow> int \<Rightarrow> bytes \<Rightarrow> int \<Rightarrow> bytes \<Rightarrow> bytes \<Rightarrow> int \<Rightarrow> int \<Rightarrow> bool \<Rightarrow>
    fleetDB \<Rightarrow> bytes + (bytes \<times> tokenRow) \<times> fleetDB" where
  "CreateEnrollToken hash newId secret t label by ttl uses contain db =
     (let uses' = (if uses \<le> 0 then 1 else uses);
          plain = ''wek_'' @ secret;
          expires = (if ttl \<noteq> 0 then secs (t + ttl) else 0);
          tk = \<lparr>tk_id = newId, tk_hash = hash plain, tk_prefix = take 12 plain, tk_label = label, tk_by = by,
                tk_created = secs t, tk_expires = expires, tk_allowed = uses', tk_consumed = 0,
                tk_contain = contain, tk_revoked = False, tk_revoked_by = [], tk_revoked_at = 0,
                tk_estate = None\<rparr>
      in if list_ex (\<lambda>x. tk_hash x = hash plain \<or> tk_id x = newId) (fl_tokens db) then Inl ''constraint failed''
         else Inr ((plain, tk), db\<lparr>fl_tokens := fl_tokens db @ [tk]\<rparr>))"

definition updToken :: "int \<Rightarrow> (tokenRow \<Rightarrow> tokenRow) \<Rightarrow> fleetDB \<Rightarrow> fleetDB" where
  "updToken i g db = db\<lparr>fl_tokens := map (\<lambda>x. if tk_id x = i then g x else x) (fl_tokens db)\<rparr>"

definition ConsumeEnrollToken :: "(bytes \<Rightarrow> bytes) \<Rightarrow> int \<Rightarrow> bytes \<Rightarrow> fleetDB \<Rightarrow> (bytes + tokenRow) \<times> fleetDB" where
  "ConsumeEnrollToken hash t plain db =
     (case find (\<lambda>x. tk_hash x = hash plain) (fl_tokens db) of
        None \<Rightarrow> (Inl ''unknown enrollment token'', db)
      | Some tk \<Rightarrow>
          if tk_revoked tk then (Inl ''enrollment token has been revoked'', db)
          else if tk_expires tk \<noteq> 0 \<and> t > tk_expires tk then (Inl ''enrollment token has expired'', db)
          else if tk_consumed tk \<ge> tk_allowed tk then (Inl ''enrollment token has no uses remaining'', db)
          else (Inr (tk\<lparr>tk_consumed := tk_consumed tk + 1\<rparr>),
                updToken (tk_id tk) (\<lambda>x. x\<lparr>tk_consumed := tk_consumed x + 1\<rparr>) db))"

definition RevokeEnrollToken :: "int \<Rightarrow> int \<Rightarrow> bytes \<Rightarrow> fleetDB \<Rightarrow> fleetDB" where
  "RevokeEnrollToken t i by = updToken i (\<lambda>x. x\<lparr>tk_revoked := True, tk_revoked_by := by, tk_revoked_at := t\<rparr>)"

definition SetTokenEstate :: "int \<Rightarrow> int \<Rightarrow> fleetDB \<Rightarrow> fleetDB" where
  "SetTokenEstate i e = updToken i (\<lambda>x. x\<lparr>tk_estate := Some e\<rparr>)"

text \<open>The duration in hours of a request, as an \<open>int64\<close> of nanoseconds.\<close>

definition ttlOfHours :: "int \<Rightarrow> int" where
  "ttlOfHours hours = (if hours \<le> 0 then 24 * 3600000000000 else wrap64 (hours * 3600000000000))"

section \<open>Agents\<close>

definition ContainAllowed :: "fleetAgent \<Rightarrow> bool" where
  "ContainAllowed a \<longleftrightarrow> fa_contain a \<and> fa_opts_in a"

text \<open>\<open>t\<close> is in nanoseconds, the column in seconds.\<close>

definition statusFor :: "int \<Rightarrow> int \<Rightarrow> bytes" where
  "statusFor t lastSeen =
     (if lastSeen = 0 then ''never''
      else (let age = t - lastSeen * 1000000000
            in if age \<le> 3 * 60 * 1000000000 then ''online''
               else if age \<le> 20 * 60 * 1000000000 then ''stale''
               else ''offline''))"

record EnrollRequest =
  er_Hostname :: bytes
  er_Label :: bytes
  er_Site :: bytes
  er_Webroot :: bytes
  er_Version :: bytes
  er_OS :: bytes
  er_Arch :: bytes
  er_OptInContain :: bool

text \<open>\<open>NULL\<close> for an estate of 0, and the reading of \<open>NULL\<close> as 0.\<close>

definition nullIfZero :: "int \<Rightarrow> int option" where
  "nullIfZero e = (if e = 0 then None else Some e)"

definition coalesce0 :: "int option \<Rightarrow> int" where
  "coalesce0 e = (case e of None \<Rightarrow> 0 | Some i \<Rightarrow> i)"

definition newAgent :: "(bytes \<Rightarrow> bytes) \<Rightarrow> int \<Rightarrow> bytes \<Rightarrow> bytes \<Rightarrow> EnrollRequest \<Rightarrow> tokenRow \<Rightarrow> bytes \<Rightarrow> fleetAgent" where
  "newAgent hash t aid cred req tok ip =
     \<lparr>ar_id = aid, ar_hostname = er_Hostname req, ar_webroot = er_Webroot req, ar_retired = 0,
      ar_estate = nullIfZero (coalesce0 (tk_estate tok)), fa_label = er_Label req, fa_site = er_Site req,
      fa_version = er_Version req, fa_os = er_OS req, fa_arch = er_Arch req, fa_cred = hash cred,
      fa_enrolled = t, fa_token = tk_id tok, fa_last_seen = t, fa_last_ip = ip,
      fa_contain = tk_contain tok, fa_opts_in = er_OptInContain req, fa_monitor = False\<rparr>"

definition EnrollAgent :: "(bytes \<Rightarrow> bytes) \<Rightarrow> int \<Rightarrow> bytes \<Rightarrow> bytes \<Rightarrow> EnrollRequest \<Rightarrow> tokenRow \<Rightarrow> bytes \<Rightarrow> fleetDB \<Rightarrow>
    bytes + (bytes \<times> bytes) \<times> fleetDB" where
  "EnrollAgent hash t rawID credSecret req tok ip db =
     (let aid = ''ag_'' @ rawID; cred = ''wac_'' @ credSecret
      in if list_ex (\<lambda>a. ar_id a = aid) (fl_agents db) then Inl ''constraint failed''
         else Inr ((aid, cred), db\<lparr>fl_agents := fl_agents db @ [newAgent hash t aid cred req tok ip]\<rparr>))"

definition updAgent :: "bytes \<Rightarrow> (fleetAgent \<Rightarrow> fleetAgent) \<Rightarrow> fleetDB \<Rightarrow> fleetDB" where
  "updAgent i g db = db\<lparr>fl_agents := map (\<lambda>a. if ar_id a = i then g a else a) (fl_agents db)\<rparr>"

definition AuthAgent :: "(bytes \<Rightarrow> bytes) \<Rightarrow> int \<Rightarrow> bytes \<Rightarrow> bytes \<Rightarrow> bytes \<Rightarrow> fleetDB \<Rightarrow>
    (bytes + fleetAgent) \<times> fleetDB" where
  "AuthAgent hash t aid cred ip db =
     (case find (\<lambda>a. ar_id a = aid) (fl_agents db) of
        None \<Rightarrow> (Inl ''unknown agent'', db)
      | Some a \<Rightarrow>
          if fa_cred a \<noteq> hash cred then (Inl ''invalid agent credential'', db)
          else if ar_retired a \<noteq> 0 then (Inl ''agent has been retired'', db)
          else (Inr a, if ip \<noteq> [] then updAgent aid (\<lambda>a. a\<lparr>fa_last_seen := t, fa_last_ip := ip\<rparr>) db else db))"

text \<open>The load average, a float, is left out.\<close>

definition RecordHeartbeat :: "int \<Rightarrow> bytes \<Rightarrow> bool \<Rightarrow> int \<Rightarrow> bytes \<Rightarrow> fleetDB \<Rightarrow> fleetDB" where
  "RecordHeartbeat t aid monitor openFindings version db =
     updAgent aid (\<lambda>a. a\<lparr>fa_last_seen := t, fa_monitor := monitor,
         fa_version := (if version \<noteq> [] then version else fa_version a)\<rparr>)
       (db\<lparr>fl_heartbeats := fl_heartbeats db @
          [\<lparr>hb_agent = aid, hb_at = t, hb_monitor = monitor, hb_open = openFindings, hb_version = version\<rparr>]\<rparr>)"

definition PruneHeartbeats :: "int \<Rightarrow> fleetDB \<Rightarrow> fleetDB" where
  "PruneHeartbeats cutoff db = db\<lparr>fl_heartbeats := filter (\<lambda>h. \<not> hb_at h < cutoff) (fl_heartbeats db)\<rparr>"

definition GetAgent :: "bytes \<Rightarrow> fleetDB \<Rightarrow> fleetAgent option" where
  "GetAgent aid db = find (\<lambda>a. ar_id a = aid) (fl_agents db)"

definition RetireAgent :: "bytes \<Rightarrow> fleetDB \<Rightarrow> fleetDB" where
  "RetireAgent aid = updAgent aid (\<lambda>a. a\<lparr>ar_retired := 1\<rparr>)"

definition SetAgentLabel :: "bytes \<Rightarrow> bytes \<Rightarrow> fleetDB \<Rightarrow> fleetDB" where
  "SetAgentLabel aid label = updAgent aid (\<lambda>a. a\<lparr>fa_label := label\<rparr>)"

definition EstateOfAgent :: "bytes \<Rightarrow> fleetDB \<Rightarrow> int" where
  "EstateOfAgent aid db = (case GetAgent aid db of None \<Rightarrow> 0 | Some a \<Rightarrow> coalesce0 (ar_estate a))"

section \<open>Estates\<close>

text \<open>
  \<open>Slugify\<close>: after lower-casing, every maximal run of bytes outside \<open>a-z0-9\<close> becomes one
  dash; dashes are trimmed, the rest cut to 48 bytes and trimmed again.
\<close>

definition slugByte :: "byte \<Rightarrow> bool" where
  "slugByte c \<longleftrightarrow> (CHR ''a'' \<le> c \<and> c \<le> CHR ''z'') \<or> isDigitByte c"

fun slugStrip :: "bool \<Rightarrow> bytes \<Rightarrow> bytes" where
  "slugStrip inRun [] = []"
| "slugStrip inRun (c # cs) =
     (if slugByte c then c # slugStrip False cs
      else if inRun then slugStrip True cs
      else CHR ''-'' # slugStrip True cs)"

definition trimDash :: "bytes \<Rightarrow> bytes" where
  "trimDash = trimBoth (\<lambda>c. c = CHR ''-'')"

definition Slugify :: "(nat \<Rightarrow> nat) \<Rightarrow> bytes \<Rightarrow> bytes" where
  "Slugify ulow s =
     (let out = trimDash (slugStrip False (goToLower ulow (trimSpace s)))
      in if length out > 48 then trimDash (take 48 out) else out)"

section \<open>Findings\<close>

text \<open>\<open>fmt.Sprint\<close> of an integer is \<open>showInt\<close>.\<close>

definition DedupeKey :: "FindingInput \<Rightarrow> bytes" where
  "DedupeKey f = goJoin [in_RuleID f, in_Path f, in_SHA256 f, showInt (in_ContainPID f)] ''|''"

text \<open>The text of the \<open>meta\<close> column: a missing map is \<open>null\<close>.\<close>

definition metaText :: "FindingInput \<Rightarrow> bytes" where
  "metaText f = (case in_Meta f of None \<Rightarrow> ''null'' | Some m \<Rightarrow> m)"

definition refreshed :: "int \<Rightarrow> FindingInput \<Rightarrow> storedFinding \<Rightarrow> storedFinding" where
  "refreshed t f r =
     r\<lparr>fr_last := t, sf_seen := sf_seen r + 1,
       fr_state := (if fr_state r = ''resolved'' then ''open'' else fr_state r),
       fr_severity := in_Severity f, fr_title := in_Title f,
       sf_input := (sf_input r)\<lparr>in_Severity := in_Severity f, in_Confidence := in_Confidence f,
         in_Title := in_Title f, in_Detail := in_Detail f, in_Evidence := in_Evidence f,
         in_Remediation := in_Remediation f, in_Actionable := in_Actionable f,
         in_Meta := Some (metaText f)\<rparr>\<rparr>"

definition newFinding :: "int \<Rightarrow> int \<Rightarrow> bytes \<Rightarrow> FindingInput \<Rightarrow> storedFinding" where
  "newFinding newId t aid f =
     \<lparr>fr_agent = aid, fr_sha = in_SHA256 f, fr_path = in_Path f, fr_title = in_Title f, fr_rule = in_RuleID f,
      fr_severity = in_Severity f, fr_state = ''open'', fr_first = t, fr_last = t, sf_id = newId,
      sf_key = DedupeKey f, sf_seen = 1, sf_input = f\<lparr>in_Meta := Some (metaText f)\<rparr>, sf_state_by = [],
      sf_state_at = 0, sf_state_note = []\<rparr>"

text \<open>The next value of the \<open>AUTOINCREMENT\<close> key.\<close>

definition nextFindingId :: "fleetDB \<Rightarrow> int" where
  "nextFindingId db = foldr (\<lambda>r m. max (sf_id r) m) (fl_findings db) 0 + 1"

definition UpsertFinding :: "int \<Rightarrow> bytes \<Rightarrow> FindingInput \<Rightarrow> fleetDB \<Rightarrow> bytes + fleetDB" where
  "UpsertFinding t aid f db =
     (let key = DedupeKey f; hits = (\<lambda>r. fr_agent r = aid \<and> sf_key r = key)
      in if list_ex hits (fl_findings db)
         then Inr (db\<lparr>fl_findings := map (\<lambda>r. if hits r then refreshed t f r else r) (fl_findings db)\<rparr>)
         else if \<not> list_ex (\<lambda>a. ar_id a = aid) (fl_agents db) then Inl ''FOREIGN KEY constraint failed''
         else Inr (db\<lparr>fl_findings := fl_findings db @ [newFinding (nextFindingId db) t aid f]\<rparr>))"

definition findingStates :: "bytes list" where
  "findingStates = [''open'', ''contained'', ''dismissed'', ''resolved'']"

definition SetFindingState :: "int \<Rightarrow> int \<Rightarrow> bytes \<Rightarrow> bytes \<Rightarrow> bytes \<Rightarrow> fleetDB \<Rightarrow> bytes + fleetDB" where
  "SetFindingState t i state by note db =
     (if \<not> List.member findingStates state then Inl (''invalid finding state '' @ state)
      else Inr (db\<lparr>fl_findings := map (\<lambda>r. if sf_id r = i
             then r\<lparr>fr_state := state, sf_state_by := by, sf_state_at := t, sf_state_note := note\<rparr> else r)
             (fl_findings db)\<rparr>))"

definition InsertReport :: "int \<Rightarrow> ReportSummary \<Rightarrow> fleetDB \<Rightarrow> fleetDB" where
  "InsertReport t r db = db\<lparr>fl_reports := fl_reports db @ [r\<lparr>rs_ReceivedAt := t\<rparr>]\<rparr>"

section \<open>What agents send is bounded\<close>

definition clamp :: "bytes \<Rightarrow> nat \<Rightarrow> bytes" where
  "clamp s n =
     take n (filter (\<lambda>c. \<not> ((of_char c :: nat) < 0x20 \<and> c \<noteq> CHR ''\<newline>'' \<and> c \<noteq> CHR 0x09))
       (toValidUTF8 (trimSpace s)))"

definition clampSeverity :: "bytes \<Rightarrow> bytes" where
  "clampSeverity s =
     (if List.member [''critical'', ''high'', ''medium'', ''low'', ''info''] s then s else ''info'')"

definition clampConfidence :: "(nat \<Rightarrow> nat) \<Rightarrow> bytes \<Rightarrow> bytes" where
  "clampConfidence ulow c =
     (let l = goToLower ulow (trimSpace c)
      in if l = ''confirmed'' then ''confirmed''
         else if l = ''likely'' then ''likely''
         else ''review'')"

definition maxFindingMeta :: nat where "maxFindingMeta = 16 * 1024"

text \<open>The marshalled \<open>meta\<close>, its marshalling being always possible.\<close>

definition clampMeta :: "bytes option \<Rightarrow> bytes option" where
  "clampMeta m =
     (case m of
        None \<Rightarrow> None
      | Some b \<Rightarrow>
          if length b > maxFindingMeta
          then Some (CHR 0x7B # CHR 0x22 # ''wordeye_note'' @ [CHR 0x22, CHR '':'', CHR 0x22] @
                 ''metadata omitted: '' @ showNat (length b) @ '' bytes exceeds the '' @
                 showNat maxFindingMeta @ ''-byte limit'' @ [CHR 0x22, CHR 0x7D])
          else Some b)"

definition sanitizeFinding :: "(nat \<Rightarrow> nat) \<Rightarrow> FindingInput \<Rightarrow> FindingInput" where
  "sanitizeFinding ulow f =
     f\<lparr>in_RuleID := clamp (in_RuleID f) 128, in_Class := clamp (in_Class f) 32,
       in_Severity := clampSeverity (in_Severity f), in_Confidence := clampConfidence ulow (in_Confidence f),
       in_Title := clamp (in_Title f) 512, in_Detail := clamp (in_Detail f) 8192,
       in_Path := clamp (in_Path f) 1024, in_SHA256 := clamp (in_SHA256 f) 64,
       in_Evidence := clamp (in_Evidence f) 4096, in_Remediation := clamp (in_Remediation f) 2048,
       in_Meta := clampMeta (in_Meta f)\<rparr>"

section \<open>Handlers of the agents' requests\<close>

text \<open>\<open>strings.Cut\<close> at a dot; \<open>None\<close> when there is none.\<close>

definition cutDot :: "bytes \<Rightarrow> (bytes \<times> bytes) option" where
  "cutDot s = (case goIndex s ''.'' of None \<Rightarrow> None | Some i \<Rightarrow> Some (take i s, drop (i + 1) s))"

text \<open>The guard of the authenticated routes, given the \<open>Authorization\<close> header: 401, or the agent.\<close>

definition agentAuth :: "(bytes \<Rightarrow> bytes) \<Rightarrow> int \<Rightarrow> bytes \<Rightarrow> bytes \<Rightarrow> fleetDB \<Rightarrow> (int + fleetAgent) \<times> fleetDB" where
  "agentAuth hash t hdr ip db =
     (if \<not> hasPrefix hdr ''Bearer '' then (Inl 401, db)
      else case cutDot (trimSpace (trimPrefix hdr ''Bearer '')) of
             None \<Rightarrow> (Inl 401, db)
           | Some (aid, cred) \<Rightarrow>
               if aid = [] \<or> cred = [] then (Inl 401, db)
               else (case AuthAgent hash t aid cred ip db of
                       (Inl e, db') \<Rightarrow> (Inl 401, db')
                     | (Inr a, db') \<Rightarrow> (Inr a, db')))"

record enrollResponse =
  en_AgentID :: bytes
  en_Credential :: bytes
  en_AllowRemoteContain :: bool
  en_HeartbeatSeconds :: int

text \<open>\<open>detail\<close> is the text of the audit entry of an accepted enrolment.\<close>

definition handleEnroll :: "(bytes \<Rightarrow> bytes) \<Rightarrow> (EnrollRequest \<Rightarrow> tokenRow \<Rightarrow> bytes) \<Rightarrow> int \<Rightarrow> bytes \<Rightarrow> bytes \<Rightarrow> bytes \<Rightarrow>
    bytes \<Rightarrow> EnrollRequest \<Rightarrow> fleetDB \<Rightarrow> (int + enrollResponse) \<times> fleetDB" where
  "handleEnroll hash detail t rawID credSecret ip token req db =
     (if token = [] then (Inl 400, db)
      else
        (case ConsumeEnrollToken hash t token db of
           (Inl e, db1) \<Rightarrow>
             (Inl 403, db1\<lparr>fl_audit := Audit t (''agent:'' @ er_Hostname req) ''enroll.rejected''
                (er_Hostname req) e ip ''denied'' (fl_audit db1)\<rparr>)
         | (Inr tok, db1) \<Rightarrow>
             (let label = clamp (er_Label req) 128;
                  req' = \<lparr>er_Hostname = clamp (er_Hostname req) 128,
                    er_Label = (if label = [] then tk_label tok else label),
                    er_Site = clamp (er_Site req) 128, er_Webroot = clamp (er_Webroot req) 512,
                    er_Version = clamp (er_Version req) 64, er_OS = clamp (er_OS req) 32,
                    er_Arch = clamp (er_Arch req) 32, er_OptInContain = er_OptInContain req\<rparr>
              in case EnrollAgent hash t rawID credSecret req' tok ip db1 of
                   Inl e \<Rightarrow> (Inl 500, db1)
                 | Inr ((aid, cred), db2) \<Rightarrow>
                     (Inr \<lparr>en_AgentID = aid, en_Credential = cred,
                        en_AllowRemoteContain = tk_contain tok \<and> er_OptInContain req,
                        en_HeartbeatSeconds = 60\<rparr>,
                      db2\<lparr>fl_audit := Audit t (''agent:'' @ aid) ''enroll.accepted'' aid
                        (detail req' tok) ip ''ok'' (fl_audit db2)\<rparr>))))"

text \<open>The loop over streamed findings: accepted, failed.\<close>

fun eventsLoop :: "(nat \<Rightarrow> nat) \<Rightarrow> int \<Rightarrow> bytes \<Rightarrow> FindingInput list \<Rightarrow> nat \<Rightarrow> nat \<Rightarrow> fleetDB \<Rightarrow> (nat \<times> nat) \<times> fleetDB" where
  "eventsLoop ulow t aid [] accepted failed db = ((accepted, failed), db)"
| "eventsLoop ulow t aid (f # fs) accepted failed db =
     (let g = sanitizeFinding ulow f
      in if in_RuleID g = [] then eventsLoop ulow t aid fs accepted failed db
         else case UpsertFinding t aid g db of
                Inl e \<Rightarrow> eventsLoop ulow t aid fs accepted (failed + 1) db
              | Inr db' \<Rightarrow> eventsLoop ulow t aid fs (accepted + 1) failed db')"

definition handleEvents :: "(nat \<Rightarrow> nat) \<Rightarrow> int \<Rightarrow> fleetAgent \<Rightarrow> FindingInput list \<Rightarrow> fleetDB \<Rightarrow> (nat \<times> nat) \<times> fleetDB" where
  "handleEvents ulow t agent fs db = eventsLoop ulow t (ar_id agent) (take 2000 fs) 0 0 db"

definition maxFindingsPerReport :: nat where "maxFindingsPerReport = 5000"

text \<open>The loop of a report, which stops at the cap: accepted, dropped, failed.\<close>

fun reportLoop :: "(nat \<Rightarrow> nat) \<Rightarrow> int \<Rightarrow> bytes \<Rightarrow> nat \<Rightarrow> FindingInput list \<Rightarrow> nat \<Rightarrow> nat \<Rightarrow> fleetDB \<Rightarrow>
    (nat \<times> nat \<times> nat) \<times> fleetDB" where
  "reportLoop ulow t aid n [] accepted failed db = ((accepted, 0, failed), db)"
| "reportLoop ulow t aid n (f # fs) accepted failed db =
     (if accepted \<ge> maxFindingsPerReport then ((accepted, n - accepted, failed), db)
      else
        (let g = sanitizeFinding ulow f
         in if in_RuleID g = [] then reportLoop ulow t aid n fs accepted failed db
            else case UpsertFinding t aid g db of
                   Inl e \<Rightarrow> reportLoop ulow t aid n fs accepted (failed + 1) db
                 | Inr db' \<Rightarrow> reportLoop ulow t aid n fs (accepted + 1) failed db'))"

record reportEnvelope =
  re_raw :: bytes
  re_Mode :: bytes
  re_Verdict :: bytes
  re_StartedAt :: "int option"
  re_DurationMS :: int
  re_FilesSeen :: int
  re_FilesRead :: int
  re_NErrors :: nat
  re_Findings :: "FindingInput list"

definition maxRawRetained :: nat where "maxRawRetained = 2 ^ 20"

definition countSeverity :: "bytes \<Rightarrow> FindingInput list \<Rightarrow> nat" where
  "countSeverity s fs = length (filter (\<lambda>f. in_Severity f = s) fs)"

definition summaryOf :: "bytes \<Rightarrow> reportEnvelope \<Rightarrow> ReportSummary" where
  "summaryOf aid env =
     (let fs = re_Findings env;
          crit = countSeverity ''critical'' fs; high = countSeverity ''high'' fs;
          med = countSeverity ''medium'' fs; low = countSeverity ''low'' fs
      in \<lparr>rs_AgentID = aid, rs_ReceivedAt = 0, rs_Mode = clamp (re_Mode env) 32,
          rs_Verdict = clamp (re_Verdict env) 32, rs_DurationMS = re_DurationMS env,
          rs_FilesSeen = re_FilesSeen env, rs_FilesRead = re_FilesRead env, rs_NCritical = crit,
          rs_NHigh = high, rs_NMedium = med, rs_NLow = low,
          rs_NInfo = length fs - (crit + high + med + low), rs_NErrors = re_NErrors env,
          rs_StartedAt = (case re_StartedAt env of None \<Rightarrow> 0 | Some s \<Rightarrow> s),
          rs_Raw = (if length (re_raw env) \<le> maxRawRetained then re_raw env
            else CHR 0x7B # CHR 0x22 # ''note'' @ [CHR 0x22, CHR '':'', CHR 0x22] @
              ''verbatim report omitted ('' @ showNat (length (re_raw env)) @
              '' bytes); findings were indexed'' @ [CHR 0x22, CHR 0x7D])\<rparr>)"

text \<open>A report: 429, or accepted, dropped and failed. \<open>lim\<close> is the limiter of reports.\<close>

definition handleReport :: "(nat \<Rightarrow> nat) \<Rightarrow> int \<Rightarrow> fleetAgent \<Rightarrow> reportEnvelope \<Rightarrow> limiter \<Rightarrow> fleetDB \<Rightarrow>
    (int + nat \<times> nat \<times> nat) \<times> limiter \<times> fleetDB" where
  "handleReport ulow t agent env lim db =
     (case allow t (ar_id agent) lim of
        (False, lim') \<Rightarrow> (Inl 429, lim', db)
      | (True, lim') \<Rightarrow>
          (let db1 = InsertReport (secs t) (summaryOf (ar_id agent) env) db;
               n = length (re_Findings env)
           in case reportLoop ulow (secs t) (ar_id agent) n (re_Findings env) 0 0 db1 of
                ((accepted, dropped, failed), db2) \<Rightarrow>
                  (Inr (accepted, dropped, failed), lim',
                   if dropped > 0
                   then db2\<lparr>fl_audit := Audit (secs t) (''agent:'' @ ar_id agent) ''report.truncated'' (ar_id agent)
                     (showNat n @ '' findings offered, '' @ showNat accepted @ '' stored'') [] ''warn''
                     (fl_audit db2)\<rparr>
                   else db2)))"

end
