(* ===== verification/Commands.thy ===== *)
theory Commands
  imports Fleet
begin

text \<open>
  Orders for the agents (\<open>internal/store/store.go\<close>) and the handlers that create, approve,
  cancel, hand out and complete them (\<open>internal/console/api.go\<close>, \<open>ingest.go\<close>). A command
  is created approved, or pending when it is destructive; it is handed to its agent once, on a poll.
  The parameters are their JSON text. The entries of operators in the audit log go to the console's
  list and those of agents to the fleet's.
\<close>

section \<open>Commands\<close>

record Command =
  cm_id :: bytes
  cm_agent :: bytes
  cm_kind :: bytes
  cm_params :: bytes
  cm_created :: int
  cm_by :: bytes
  cm_requires :: bool
  cm_approved_by :: bytes
  cm_approved_at :: int
  cm_status :: bytes
  cm_sent :: int
  cm_completed :: int
  cm_expires :: int
  cm_result :: bytes
  cm_error :: bytes
  cm_not_before :: int

record opState =
  os_console :: console
  os_fleet :: fleetDB
  os_cmds :: "Command list"

abbreviation "StPending \<equiv> ''pending''"
abbreviation "StApproved \<equiv> ''approved''"
abbreviation "StSent \<equiv> ''sent''"
abbreviation "StRunning \<equiv> ''running''"
abbreviation "StDone \<equiv> ''done''"
abbreviation "StFailed \<equiv> ''failed''"
abbreviation "StCancelled \<equiv> ''cancelled''"
abbreviation "StExpired \<equiv> ''expired''"

definition DestructiveKinds :: "bytes \<Rightarrow> bool" where
  "DestructiveKinds k \<longleftrightarrow> List.member [''contain'', ''uninstall'', ''upgrade''] k"

definition commandKinds :: "bytes list" where
  "commandKinds = [''scan'', ''baseline'', ''verify'', ''contain'', ''contain_dryrun'', ''update_packs'',
     ''uninstall'', ''upgrade'']"

definition hours :: "int \<Rightarrow> int" where "hours n = n * 3600 * 1000000000"

definition GetCommand :: "bytes \<Rightarrow> Command list \<Rightarrow> Command option" where
  "GetCommand i cs = find (\<lambda>c. cm_id c = i) cs"

text \<open>\<open>t\<close> and \<open>ttl\<close> are nanoseconds; \<open>secret\<close> is the fresh part of the identifier.\<close>

definition CreateCommand :: "int \<Rightarrow> bytes \<Rightarrow> bytes \<Rightarrow> bytes \<Rightarrow> bytes \<Rightarrow> bytes \<Rightarrow> int \<Rightarrow> opState \<Rightarrow>
    bytes + Command \<times> opState" where
  "CreateCommand t secret agentID kind params createdBy ttl st =
     (if \<not> List.member commandKinds kind then Inl (''unknown command kind '' @ kind)
      else
        (let cid = ''cmd_'' @ secret;
             ttl' = (if ttl \<le> 0 then hours 6 else ttl);
             needsApproval = DestructiveKinds kind;
             c = \<lparr>cm_id = cid, cm_agent = agentID, cm_kind = kind, cm_params = params, cm_created = secs t,
                  cm_by = createdBy, cm_requires = needsApproval, cm_approved_by = [], cm_approved_at = 0,
                  cm_status = (if needsApproval then StPending else StApproved), cm_sent = 0,
                  cm_completed = 0, cm_expires = secs (t + ttl'), cm_result = [], cm_error = [],
                  cm_not_before = 0\<rparr>
         in if list_ex (\<lambda>x. cm_id x = cid) (os_cmds st) \<or> \<not> list_ex (\<lambda>a. ar_id a = agentID) (fl_agents (os_fleet st))
            then Inl ''constraint failed''
            else Inr (c, st\<lparr>os_cmds := os_cmds st @ [c]\<rparr>)))"

definition updCmds :: "(Command \<Rightarrow> bool) \<Rightarrow> (Command \<Rightarrow> Command) \<Rightarrow> Command list \<Rightarrow> Command list" where
  "updCmds P g cs = map (\<lambda>c. if P c then g c else c) cs"

text \<open>The second statement of \<open>CreateCommandAt\<close> runs after the command is in the table.\<close>

definition SetNotBefore :: "int \<Rightarrow> bytes \<Rightarrow> opState \<Rightarrow> opState" where
  "SetNotBefore t cid st = st\<lparr>os_cmds := updCmds (\<lambda>c. cm_id c = cid) (\<lambda>c. c\<lparr>cm_not_before := t\<rparr>) (os_cmds st)\<rparr>"

definition CreateCommandAt :: "int \<Rightarrow> bytes \<Rightarrow> bytes \<Rightarrow> bytes \<Rightarrow> bytes \<Rightarrow> bytes \<Rightarrow> int \<Rightarrow> int option \<Rightarrow> opState \<Rightarrow>
    bytes + Command \<times> opState" where
  "CreateCommandAt t secret agentID kind params createdBy ttl notBefore st =
     (case CreateCommand t secret agentID kind params createdBy ttl st of
        Inl e \<Rightarrow> Inl e
      | Inr (c, st') \<Rightarrow>
          (case notBefore of
             None \<Rightarrow> Inr (c, st')
           | Some n \<Rightarrow> Inr (c, SetNotBefore (secs n) (cm_id c) st')))"

definition CountApprovers :: "authDB \<Rightarrow> nat" where
  "CountApprovers db = length (filter (\<lambda>u. \<not> us_disabled u \<and> CanApprove u) (ad_users db))"

definition ApproveCommand :: "int \<Rightarrow> bytes \<Rightarrow> bytes \<Rightarrow> opState \<Rightarrow> bytes + opState" where
  "ApproveCommand t cid by st =
     (case GetCommand cid (os_cmds st) of
        None \<Rightarrow> Inl ''no such command''
      | Some c \<Rightarrow>
          if cm_status c \<noteq> StPending then Inl ''command is not awaiting approval''
          else if cm_by c = by \<and> CountApprovers (cn_db (os_console st)) > 1 then
            Inl (by @ '' created this command; a different operator must approve it'')
          else Inr (st\<lparr>os_cmds := updCmds (\<lambda>c. cm_id c = cid \<and> cm_status c = StPending)
                 (\<lambda>c. c\<lparr>cm_status := StApproved, cm_approved_by := by, cm_approved_at := t\<rparr>) (os_cmds st)\<rparr>))"

definition CancelCommand :: "int \<Rightarrow> bytes \<Rightarrow> bytes \<Rightarrow> opState \<Rightarrow> opState" where
  "CancelCommand t cid by st =
     st\<lparr>os_cmds := updCmds (\<lambda>c. cm_id c = cid \<and> (cm_status c = StPending \<or> cm_status c = StApproved))
         (\<lambda>c. c\<lparr>cm_status := StCancelled, cm_completed := t, cm_error := ''cancelled by '' @ by\<rparr>) (os_cmds st)\<rparr>"

definition expireStale :: "int \<Rightarrow> bytes \<Rightarrow> Command list \<Rightarrow> Command list" where
  "expireStale t aid cs =
     updCmds (\<lambda>c. cm_agent c = aid \<and> (cm_status c = StPending \<or> cm_status c = StApproved) \<and> cm_expires c < t)
       (\<lambda>c. c\<lparr>cm_status := StExpired\<rparr>) cs"

text \<open>\<open>ORDER BY created_at LIMIT 1\<close>: the earliest, the first inserted of equal ones.\<close>

definition nextDue :: "int \<Rightarrow> bytes \<Rightarrow> Command list \<Rightarrow> Command option" where
  "nextDue t aid cs =
     (case sort_key cm_created
             (filter (\<lambda>c. cm_agent c = aid \<and> cm_status c = StApproved \<and> cm_not_before c \<le> t) cs) of
        [] \<Rightarrow> None | c # _ \<Rightarrow> Some c)"

definition NextCommandForAgent :: "int \<Rightarrow> bytes \<Rightarrow> opState \<Rightarrow> Command option \<times> opState" where
  "NextCommandForAgent t aid st =
     (let cs = expireStale t aid (os_cmds st)
      in case nextDue t aid cs of
           None \<Rightarrow> (None, st\<lparr>os_cmds := cs\<rparr>)
         | Some c \<Rightarrow>
             (let cs' = updCmds (\<lambda>x. cm_id x = cm_id c) (\<lambda>x. x\<lparr>cm_status := StSent, cm_sent := t\<rparr>) cs
              in (GetCommand (cm_id c) cs', st\<lparr>os_cmds := cs'\<rparr>)))"

definition CompleteCommand :: "int \<Rightarrow> bytes \<Rightarrow> bytes \<Rightarrow> bytes \<Rightarrow> bytes \<Rightarrow> opState \<Rightarrow> bytes + opState" where
  "CompleteCommand t cid status result errMsg st =
     (if \<not> List.member [StDone, StFailed, StRunning] status then Inl (''invalid completion status '' @ status)
      else
        (let completed = (if status = StRunning then 0 else t);
             hit = (\<lambda>c. cm_id c = cid \<and> (cm_status c = StSent \<or> cm_status c = StRunning))
         in if \<not> list_ex hit (os_cmds st) then Inl ''command is not in a dispatched state''
            else Inr (st\<lparr>os_cmds := updCmds hit (\<lambda>c. c\<lparr>cm_status := status, cm_result := result,
                   cm_error := errMsg, cm_completed := completed\<rparr>) (os_cmds st)\<rparr>)))"

section \<open>Operators' handlers\<close>

text \<open>Each runs with the session's user, after the guard; the status of a refusal is on the left.\<close>

definition auditOp :: "int \<Rightarrow> userRow \<Rightarrow> request \<Rightarrow> bytes \<Rightarrow> bytes \<Rightarrow> bytes \<Rightarrow> bytes \<Rightarrow> opState \<Rightarrow> opState" where
  "auditOp t u rq action target detail result st =
     st\<lparr>os_console := audit t (Some u) rq action target detail result (os_console st)\<rparr>"

definition handleCreateCommand :: "int \<Rightarrow> bytes \<Rightarrow> userRow \<Rightarrow> request \<Rightarrow> bytes \<Rightarrow> bytes \<Rightarrow> bytes \<Rightarrow> opState \<Rightarrow>
    (int + Command) \<times> opState" where
  "handleCreateCommand t secret u rq agentID kind params st =
     (case GetAgent agentID (os_fleet st) of
        None \<Rightarrow> (Inl 404, st)
      | Some a \<Rightarrow>
          if kind = ''contain'' \<and> \<not> ContainAllowed a then
            (Inl 403, auditOp t u rq ''command.rejected'' agentID
               (if \<not> fa_contain a then ''the enrollment token used by this agent did not grant remote containment''
                else ''this agent did not enroll with remote containment enabled'') ''denied'' st)
          else
            (case CreateCommand t secret agentID kind params (us_name u) (hours 6) st of
               Inl e \<Rightarrow> (Inl 400, st)
             | Inr (c, st') \<Rightarrow>
                 (Inr c, auditOp t u rq (''command.create.'' @ kind) agentID (cm_id c) ''ok'' st')))"

definition handleApproveCommand :: "int \<Rightarrow> userRow \<Rightarrow> request \<Rightarrow> bytes \<Rightarrow> opState \<Rightarrow> (int + Command) \<times> opState" where
  "handleApproveCommand t u rq cid st =
     (case GetCommand cid (os_cmds st) of
        None \<Rightarrow> (Inl 404, st)
      | Some c \<Rightarrow>
          (case ApproveCommand (secs t) cid (us_name u) st of
             Inl e \<Rightarrow> (Inl 400, st)
           | Inr st' \<Rightarrow>
               (Inr c, auditOp t u rq ''command.approve'' cid
                  (''kind='' @ cm_kind c @ '' agent='' @ cm_agent c @ '' created_by='' @ cm_by c) ''ok'' st')))"

definition handleCancelCommand :: "int \<Rightarrow> userRow \<Rightarrow> request \<Rightarrow> bytes \<Rightarrow> opState \<Rightarrow> opState" where
  "handleCancelCommand t u rq cid st =
     auditOp t u rq ''command.cancel'' cid [] ''ok'' (CancelCommand (secs t) cid (us_name u) st)"

text \<open>The loop of a bulk order: the commands queued and how many failed.\<close>

fun bulkLoop :: "int \<Rightarrow> bytes list \<Rightarrow> userRow \<Rightarrow> bytes \<Rightarrow> bytes list \<Rightarrow> Command list \<Rightarrow> nat \<Rightarrow> opState \<Rightarrow>
    (Command list \<times> nat) \<times> opState" where
  "bulkLoop t secrets u kind [] queued failed st = ((queued, failed), st)"
| "bulkLoop t secrets u kind (a # as) queued failed st =
     (case CreateCommand t (hd secrets) a kind (CHR 0x7B # CHR 0x22 # ''bulk'' @ [CHR 0x22] @ '':true'' @ [CHR 0x7D])
             (us_name u) (hours 12) st of
        Inl e \<Rightarrow> bulkLoop t (tl secrets) u kind as queued (failed + 1) st
      | Inr (c, st') \<Rightarrow> bulkLoop t (tl secrets) u kind as (queued @ [c]) failed st')"

definition handleBulkCommand :: "int \<Rightarrow> bytes list \<Rightarrow> userRow \<Rightarrow> request \<Rightarrow> bytes list \<Rightarrow> bytes \<Rightarrow> opState \<Rightarrow>
    (int + Command list \<times> nat) \<times> opState" where
  "handleBulkCommand t secrets u rq agents kind st =
     (if \<not> List.member [''scan'', ''baseline'', ''verify'', ''upgrade''] kind then (Inl 400, st)
      else if agents = [] then (Inl 400, st)
      else if length agents > 1000 then (Inl 400, st)
      else
        (case bulkLoop t secrets u kind agents [] 0 st of
           ((queued, failed), st') \<Rightarrow>
             (Inr (queued, failed),
              auditOp t u rq (''command.bulk.'' @ kind) (showNat (length agents) @ '' host(s)'')
                (''queued='' @ showNat (length queued) @ '' failed='' @ showNat failed) ''ok'' st')))"

section \<open>Agents' handlers\<close>

definition auditAgent :: "int \<Rightarrow> bytes \<Rightarrow> bytes \<Rightarrow> bytes \<Rightarrow> bytes \<Rightarrow> bytes \<Rightarrow> bytes \<Rightarrow> opState \<Rightarrow> opState" where
  "auditAgent t aid action target detail ip result st =
     st\<lparr>os_fleet := (os_fleet st)\<lparr>fl_audit := Audit t (''agent:'' @ aid) action target detail ip result
         (fl_audit (os_fleet st))\<rparr>\<rparr>"

text \<open>A heartbeat answers with at most one command; \<open>t\<close> is in seconds.\<close>

definition handleHeartbeat :: "int \<Rightarrow> fleetAgent \<Rightarrow> bytes \<Rightarrow> bool \<Rightarrow> int \<Rightarrow> bytes \<Rightarrow> opState \<Rightarrow>
    Command option \<times> opState" where
  "handleHeartbeat t a ip monitor openFindings version st =
     (let st0 = st\<lparr>os_fleet := RecordHeartbeat t (ar_id a) monitor openFindings (clamp version 64) (os_fleet st)\<rparr>
      in case NextCommandForAgent t (ar_id a) st0 of
           (None, st1) \<Rightarrow> (None, st1)
         | (Some c, st1) \<Rightarrow>
             if cm_kind c = ''contain'' \<and> \<not> ContainAllowed a then
               (let st2 = (case CompleteCommand t (cm_id c) StFailed []
                             ''agent refused: this host did not enroll with remote containment enabled'' st1 of
                             Inl e \<Rightarrow> st1 | Inr s \<Rightarrow> s)
                in (None, auditAgent t (ar_id a) ''command.refused'' (cm_id c)
                      ''remote containment not permitted for this agent'' ip ''denied'' st2))
             else (Some c, st1))"

definition handleCommandResult :: "int \<Rightarrow> fleetAgent \<Rightarrow> bytes \<Rightarrow> bytes \<Rightarrow> bytes \<Rightarrow> bytes \<Rightarrow> bytes \<Rightarrow> opState \<Rightarrow>
    int \<times> opState" where
  "handleCommandResult t a ip cid status result errMsg st =
     (case GetCommand cid (os_cmds st) of
        None \<Rightarrow> (404, st)
      | Some c \<Rightarrow>
          if cm_agent c \<noteq> ar_id a then (403, st)
          else
            (case CompleteCommand t cid status (clamp result (256 * 1024)) (clamp errMsg 4096) st of
               Inl e \<Rightarrow> (400, st)
             | Inr st1 \<Rightarrow>
                 (let st2 = (if cm_kind c = ''uninstall'' \<and> status = StDone
                             then auditAgent t (ar_id a) ''agent.uninstalled'' (ar_id a)
                               ''agent confirmed uninstall and was retired'' ip ''ok''
                               (st1\<lparr>os_fleet := RetireAgent (ar_id a) (os_fleet st1)\<rparr>)
                             else st1)
                  in (200, auditAgent t (ar_id a) (''command.'' @ status) cid (clamp errMsg 512) ip status st2))))"

end
