(* ===== verification/Orders.thy ===== *)
theory Orders
  imports Commands
begin

text \<open>
  Runs of the whole command channel: operators sign in, order and approve, the scheduler orders,
  agents poll and report back, in any order. A trace records who authenticated, created, approved
  and what was handed out; the invariant relates it to the table of commands.
\<close>

section \<open>Steps\<close>

datatype opEvent =
    Auth authEvent
  | Created bytes bytes int bytes
  | Approved bytes bytes int bytes nat
  | HandedOut bytes bytes bytes bool

text \<open>
  \<open>Created\<close> and \<open>Approved\<close> carry the command, the session, the account and its name;
  \<open>Approved\<close> also how many accounts could have approved. \<open>HandedOut\<close> carries the command,
  the agent, the kind and whether the agent accepts containment.
\<close>

type_synonym opTrace = "opEvent list"

definition authOf :: "opTrace \<Rightarrow> authTrace" where
  "authOf tr = concat (map (\<lambda>e. case e of Auth x \<Rightarrow> [x] | _ \<Rightarrow> []) tr)"

definition schedulable :: "bytes list" where
  "schedulable = [''scan'', ''baseline'', ''verify'']"

inductive opsStep ::
    "crypto \<Rightarrow> (nat \<Rightarrow> nat) \<Rightarrow> (bytes \<Rightarrow> bytes) \<Rightarrow> (bytes \<Rightarrow> bytes) \<Rightarrow> opTrace \<times> opState \<Rightarrow> opTrace \<times> opState \<Rightarrow> bool"
  for cr ulow csrf hash where
  stepConsole: "consoleStep cr ulow csrf (authOf tr, os_console st) (authOf tr @ es, cn') \<Longrightarrow>
     opsStep cr ulow csrf hash (tr, st) (tr @ map Auth es, st\<lparr>os_console := cn'\<rparr>)"
| stepCreate: "writeGuard csrf t rq (os_console st) = (Inr (s, u), cn1) \<Longrightarrow>
     handleCreateCommand t secret u rq aid kind params (st\<lparr>os_console := cn1\<rparr>) = (r, st') \<Longrightarrow>
     opsStep cr ulow csrf hash (tr, st)
       (case r of Inl e \<Rightarrow> tr | Inr c \<Rightarrow> tr @ [Created (cm_id c) (se_id s) (us_id u) (us_name u)], st')"
| stepBulk: "writeGuard csrf t rq (os_console st) = (Inr (s, u), cn1) \<Longrightarrow>
     handleBulkCommand t secrets u rq agents kind (st\<lparr>os_console := cn1\<rparr>) = (r, st') \<Longrightarrow>
     opsStep cr ulow csrf hash (tr, st)
       (case r of Inl e \<Rightarrow> tr
        | Inr (cs, n) \<Rightarrow> tr @ map (\<lambda>c. Created (cm_id c) (se_id s) (us_id u) (us_name u)) cs, st')"
| stepApprove: "writeGuard csrf t rq (os_console st) = (Inr (s, u), cn1) \<Longrightarrow>
     handleApproveCommand t u rq cid (st\<lparr>os_console := cn1\<rparr>) = (r, st') \<Longrightarrow>
     opsStep cr ulow csrf hash (tr, st)
       (case r of Inl e \<Rightarrow> tr
        | Inr c \<Rightarrow> tr @ [Approved cid (se_id s) (us_id u) (us_name u) (CountApprovers (cn_db cn1))], st')"
| stepCancel: "writeGuard csrf t rq (os_console st) = (Inr (s, u), cn1) \<Longrightarrow>
     opsStep cr ulow csrf hash (tr, st) (tr, handleCancelCommand t u rq cid (st\<lparr>os_console := cn1\<rparr>))"
| stepSchedule: "List.member schedulable kind \<Longrightarrow>
     CreateCommandAt t secret aid kind params ''scheduler'' ttl notBefore st = Inr (c, st') \<Longrightarrow>
     opsStep cr ulow csrf hash (tr, st) (tr, st')"
| stepPoll: "agentAuth hash (secs t) hdr ip (os_fleet st) = (Inr a, fl) \<Longrightarrow>
     handleHeartbeat (secs t) a ip monitor openFindings version (st\<lparr>os_fleet := fl\<rparr>) = (r, st') \<Longrightarrow>
     opsStep cr ulow csrf hash (tr, st)
       (case r of None \<Rightarrow> tr
        | Some c \<Rightarrow> tr @ [HandedOut (cm_id c) (ar_id a) (cm_kind c) (ContainAllowed a)], st')"
| stepResult: "agentAuth hash (secs t) hdr ip (os_fleet st) = (Inr a, fl) \<Longrightarrow>
     opsStep cr ulow csrf hash (tr, st)
       (tr, snd (handleCommandResult (secs t) a ip cid status result errMsg (st\<lparr>os_fleet := fl\<rparr>)))"
| stepFleet: "opsStep cr ulow csrf hash (tr, st) (tr, st\<lparr>os_fleet := fl\<rparr>)"

text \<open>\<open>stepFleet\<close> stands for every other operation on the fleet: whatever it does to that part of the state.\<close>

inductive opsRun :: "crypto \<Rightarrow> (nat \<Rightarrow> nat) \<Rightarrow> (bytes \<Rightarrow> bytes) \<Rightarrow> (bytes \<Rightarrow> bytes) \<Rightarrow> opTrace \<times> opState \<Rightarrow> bool"
  for cr ulow csrf hash where
  opsStart: "os_cmds st = [] \<Longrightarrow> ad_sessions (cn_db (os_console st)) = [] \<Longrightarrow> opsRun cr ulow csrf hash ([], st)"
| opsMore: "opsRun cr ulow csrf hash x \<Longrightarrow> opsStep cr ulow csrf hash x y \<Longrightarrow> opsRun cr ulow csrf hash y"

section \<open>Traces\<close>

definition factors :: "opTrace \<Rightarrow> bytes \<Rightarrow> int \<Rightarrow> bool" where
  "factors past sid uid \<longleftrightarrow> (\<exists>t0. bothFactors (authOf past) sid uid t0)"

definition isHandOut :: "bytes \<Rightarrow> opEvent \<Rightarrow> bool" where
  "isHandOut cid e \<longleftrightarrow> (case e of HandedOut i a k ok \<Rightarrow> i = cid | _ \<Rightarrow> False)"

text \<open>A destructive command was ordered by one account and approved by another, or by the only one that can.\<close>

definition authorised :: "opTrace \<Rightarrow> bytes \<Rightarrow> bool" where
  "authorised past cid \<longleftrightarrow>
     (\<exists>sid uid by n sid' uid' cb. Approved cid sid uid by n \<in> set past \<and> Created cid sid' uid' cb \<in> set past \<and>
        (by \<noteq> cb \<or> n \<le> 1))"

definition isCreation :: "bytes \<Rightarrow> opEvent \<Rightarrow> bool" where
  "isCreation cid e \<longleftrightarrow> (case e of Created i sid uid name \<Rightarrow> i = cid | _ \<Rightarrow> False)"

fun goodEvent :: "opTrace \<Rightarrow> opEvent \<Rightarrow> bool" where
  "goodEvent past (Auth e) = True"
| "goodEvent past (Created cid sid uid name) = (factors past sid uid \<and> \<not> list_ex (isCreation cid) past)"
| "goodEvent past (Approved cid sid uid name n) = factors past sid uid"
| "goodEvent past (HandedOut cid aid k ok) =
     ((k = ''contain'' \<longrightarrow> ok) \<and> \<not> list_ex (isHandOut cid) past \<and> (DestructiveKinds k \<longrightarrow> authorised past cid))"

definition goodTrace :: "opTrace \<Rightarrow> bool" where
  "goodTrace tr \<longleftrightarrow> (\<forall>a e b. tr = a @ e # b \<longrightarrow> goodEvent a e)"

lemma authOf_simps [simp]:
  "authOf [] = []" "authOf (a @ b) = authOf a @ authOf b" "authOf (map Auth es) = es"
  "authOf [Created cid sid uid name] = []" "authOf [Approved cid sid uid name n] = []"
  "authOf [HandedOut cid aid k ok] = []"
  by (simp_all add: authOf_def comp_def)

lemma goodTrace_snoc: "goodTrace (tr @ [e]) \<longleftrightarrow> goodTrace tr \<and> goodEvent tr e"
proof
  assume "goodTrace (tr @ [e])"
  then show "goodTrace tr \<and> goodEvent tr e" unfolding goodTrace_def by auto
next
  assume g: "goodTrace tr \<and> goodEvent tr e"
  show "goodTrace (tr @ [e])" unfolding goodTrace_def
  proof (intro allI impI)
    fix a x b
    assume eq: "tr @ [e] = a @ x # b"
    show "goodEvent a x"
    proof (cases b rule: rev_cases)
      case Nil
      then show ?thesis using eq g by simp
    next
      case (snoc c y)
      then show ?thesis using eq g by (simp add: goodTrace_def)
    qed
  qed
qed

lemma goodTrace_auth: "goodTrace (tr @ map Auth es) \<longleftrightarrow> goodTrace tr"
proof (induction es rule: rev_induct)
  case (snoc e es)
  then show ?case using goodTrace_snoc [of "tr @ map Auth es" "Auth e"] by simp
qed simp

lemma factors_append: "factors past sid uid \<Longrightarrow> factors (past @ es) sid uid"
  by (auto simp: factors_def intro: bothFactors_append)

lemma goodTrace_created:
  assumes "goodTrace tr" and "factors tr sid uid" and "distinct (map f cs)"
    and "\<And>c. c \<in> set cs \<Longrightarrow> \<not> list_ex (isCreation (f c)) tr"
  shows "goodTrace (tr @ map (\<lambda>c. Created (f c) sid uid name) cs)"
  using assms(3,4)
proof (induction cs rule: rev_induct)
  case Nil
  then show ?case using assms(1) by simp
next
  case (snoc c cs)
  have "\<not> list_ex (isCreation (f c)) (tr @ map (\<lambda>c. Created (f c) sid uid name) cs)"
    using snoc.prems by (auto simp: list_ex_iff isCreation_def image_iff)
  then show ?case
    using snoc goodTrace_snoc [of "tr @ map (\<lambda>c. Created (f c) sid uid name) cs" "Created (f c) sid uid name"]
      factors_append [OF assms(2)] by simp
qed

section \<open>The table of commands\<close>

definition unhanded :: "bytes \<Rightarrow> bool" where
  "unhanded s \<longleftrightarrow> List.member [StPending, StApproved, StCancelled, StExpired] s"

definition unapproved :: "bytes \<Rightarrow> bool" where
  "unapproved s \<longleftrightarrow> List.member [StPending, StCancelled, StExpired] s"

definition cmdOk :: "opTrace \<Rightarrow> Command \<Rightarrow> bool" where
  "cmdOk tr c \<longleftrightarrow>
     (unhanded (cm_status c) \<longrightarrow> \<not> list_ex (isHandOut (cm_id c)) tr) \<and>
     (DestructiveKinds (cm_kind c) \<longrightarrow> (\<exists>sid uid. Created (cm_id c) sid uid (cm_by c) \<in> set tr)) \<and>
     (DestructiveKinds (cm_kind c) \<longrightarrow> \<not> unapproved (cm_status c) \<longrightarrow> authorised tr (cm_id c))"

definition cmdsInv :: "opTrace \<Rightarrow> Command list \<Rightarrow> bool" where
  "cmdsInv tr cs \<longleftrightarrow> distinct (map cm_id cs) \<and> (\<forall>c\<in>set cs. cmdOk tr c) \<and>
     (\<forall>cid. list_ex (isHandOut cid) tr \<or> list_ex (isCreation cid) tr \<longrightarrow> cid \<in> cm_id ` set cs)"

lemma authorised_append: "authorised tr cid \<Longrightarrow> authorised (tr @ es) cid"
  unfolding authorised_def set_append by blast

lemma cmdOk_append: "cmdOk tr c \<Longrightarrow> \<not> list_ex (isHandOut (cm_id c)) es \<Longrightarrow> cmdOk (tr @ es) c"
  unfolding cmdOk_def by (auto intro: authorised_append)

lemma cmdsInv_append:
  assumes "cmdsInv tr cs" and "\<And>cid. \<not> list_ex (isHandOut cid) es"
    and "\<And>cid. list_ex (isCreation cid) es \<Longrightarrow> cid \<in> cm_id ` set cs"
  shows "cmdsInv (tr @ es) cs"
  using assms by (auto simp: cmdsInv_def cmdOk_append)

lemma cmdsInv_upd:
  assumes "cmdsInv tr cs" and "\<And>c. cm_id (g c) = cm_id c"
    and "\<And>c. c \<in> set cs \<Longrightarrow> P c \<Longrightarrow> cmdOk tr c \<Longrightarrow> cmdOk tr (g c)"
  shows "cmdsInv tr (updCmds P g cs)"
proof -
  have ids: "map cm_id (updCmds P g cs) = map cm_id cs"
    using assms(2) by (simp add: updCmds_def comp_def if_distrib cong: if_cong)
  then have "cm_id ` set (updCmds P g cs) = cm_id ` set cs" by (metis list.set_map)
  have "\<forall>c\<in>set (updCmds P g cs). cmdOk tr c"
    using assms(1,3) by (auto simp: updCmds_def cmdsInv_def)
  with ids show ?thesis using assms(1) \<open>cm_id ` set (updCmds P g cs) = cm_id ` set cs\<close>
    by (simp add: cmdsInv_def)
qed

lemma fresh_command:
  "cmdsInv tr cs \<Longrightarrow> cid \<notin> cm_id ` set cs \<Longrightarrow> \<not> list_ex (isHandOut cid) tr \<and> \<not> list_ex (isCreation cid) tr"
  by (auto simp: cmdsInv_def)

lemma GetCommand_mem: "GetCommand cid cs = Some c \<Longrightarrow> c \<in> set cs \<and> cm_id c = cid"
  by (auto simp: GetCommand_def dest: find_SomeD)

text \<open>Commands as created, and what creation adds.\<close>

definition created :: "bytes \<Rightarrow> Command \<Rightarrow> bool" where
  "created by c \<longleftrightarrow> cm_by c = by \<and>
     (cm_status c = StPending \<or> cm_status c = StApproved \<and> \<not> DestructiveKinds (cm_kind c))"

lemma CreateCommand_ok:
  assumes "CreateCommand t secret aid kind params by ttl st = Inr (c, st')"
  shows "st' = st\<lparr>os_cmds := os_cmds st @ [c]\<rparr>" "cm_id c \<notin> cm_id ` set (os_cmds st)" "created by c" "cm_kind c = kind"
  using assms by (auto simp: CreateCommand_def Let_def created_def list_ex_iff image_iff split: if_splits)

lemma bulkLoop_ok:
  "bulkLoop t secrets u kind as queued failed st = ((queued', failed'), st') \<Longrightarrow>
   \<exists>cs. queued' = queued @ cs \<and> st' = st\<lparr>os_cmds := os_cmds st @ cs\<rparr> \<and> distinct (map cm_id cs) \<and>
     cm_id ` set cs \<inter> cm_id ` set (os_cmds st) = {} \<and> list_all (created (us_name u)) cs"
proof (induction t secrets u kind "as" queued failed st rule: bulkLoop.induct)
  case (1 t secrets u kind queued failed st)
  then show ?case by (intro exI [of _ "[]"]) simp
next
  case (2 t secrets u kind a as queued failed st)
  let ?c = "CreateCommand t (hd secrets) a kind (CHR 0x7B # CHR 0x22 # ''bulk'' @ [CHR 0x22] @ '':true'' @ [CHR 0x7D])
      (us_name u) (hours 12) st"
  show ?case
  proof (cases ?c)
    case (Inl e)
    from 2(1) [OF Inl] 2(3) show ?thesis unfolding bulkLoop.simps Inl by simp
  next
    case (Inr r)
    obtain c st1 where r: "r = (c, st1)" by (cases r)
    note ok = CreateCommand_ok [OF Inr [unfolded r]]
    from 2(2) [OF Inr r [symmetric]] 2(3) obtain cs where
      cs: "queued' = (queued @ [c]) @ cs" "st' = st1\<lparr>os_cmds := os_cmds st1 @ cs\<rparr>" "distinct (map cm_id cs)"
      "cm_id ` set cs \<inter> cm_id ` set (os_cmds st1) = {}" "list_all (created (us_name u)) cs"
      unfolding bulkLoop.simps Inr r by auto
    then show ?thesis using ok by (intro exI [of _ "c # cs"]) auto
  qed
qed

lemma cmdsInv_created:
  assumes inv: "cmdsInv tr cs" and new: "distinct (map cm_id ds)" "cm_id ` set ds \<inter> cm_id ` set cs = {}"
    "list_all (created by) ds"
  shows "cmdsInv (tr @ map (\<lambda>c. Created (cm_id c) sid uid by) ds) (cs @ ds)"
proof -
  let ?es = "map (\<lambda>c. Created (cm_id c) sid uid by) ds"
  have no: "\<not> list_ex (isHandOut cid) ?es" for cid by (auto simp: list_ex_iff isHandOut_def)
  have old: "cmdOk (tr @ ?es) c" if "c \<in> set cs" for c
    using inv that no by (auto simp: cmdsInv_def intro: cmdOk_append)
  have "cmdOk (tr @ ?es) d" if d: "d \<in> set ds" for d
  proof -
    have "\<not> list_ex (isHandOut (cm_id d)) tr" using fresh_command [OF inv] new(2) d by blast
    moreover have "created by d" using new(3) d by (simp add: list_all_iff)
    ultimately show ?thesis using d no
      by (auto simp: cmdOk_def created_def unapproved_def)
  qed
  then show ?thesis using inv new old by (auto simp: cmdsInv_def list_ex_iff isCreation_def isHandOut_def)
qed

lemma cmdsInv_silent:
  assumes "cmdsInv tr cs" and "cm_id c \<notin> cm_id ` set cs" and "\<not> DestructiveKinds (cm_kind c)"
  shows "cmdsInv tr (cs @ [c])"
proof -
  have "cmdOk tr c" using fresh_command [OF assms(1,2)] assms(3) by (simp add: cmdOk_def)
  then show ?thesis using assms(1,2) by (auto simp: cmdsInv_def)
qed

section \<open>Every step keeps the invariant\<close>

definition opsInv :: "crypto \<Rightarrow> (nat \<Rightarrow> nat) \<Rightarrow> (bytes \<Rightarrow> bytes) \<Rightarrow> opTrace \<times> opState \<Rightarrow> bool" where
  "opsInv cr ulow csrf x \<longleftrightarrow> goodTrace (fst x) \<and> cmdsInv (fst x) (os_cmds (snd x)) \<and>
     consoleRun cr ulow csrf (authOf (fst x), os_console (snd x))"

lemma consoleRun_audit:
  "consoleRun cr ulow csrf (tr, cn) \<Longrightarrow> consoleRun cr ulow csrf (tr, audit t u rq action target detail result cn)"
  unfolding audit_def Audit_def by (erule consoleRun.runStep) (rule consoleStep.stepAudit)

lemma auditOp_simps [simp]:
  "os_cmds (auditOp t u rq action target detail result st) = os_cmds st"
  "os_fleet (auditOp t u rq action target detail result st) = os_fleet st"
  "os_console (auditOp t u rq action target detail result st) =
     audit t (Some u) rq action target detail result (os_console st)"
  by (simp_all add: auditOp_def)

lemma auditAgent_simps [simp]:
  "os_cmds (auditAgent t aid action target detail ip result st) = os_cmds st"
  "os_console (auditAgent t aid action target detail ip result st) = os_console st"
  by (simp_all add: auditAgent_def)

lemma factors_of_guard:
  assumes "opsInv cr ulow csrf (tr, st)" and "writeGuard csrf t rq (os_console st) = (Inr (s, u), cn1)"
  shows "factors tr (se_id s) (us_id u)" "st\<lparr>os_console := cn1\<rparr> = st"
proof -
  have run: "consoleRun cr ulow csrf (authOf tr, os_console st)" using assms(1) by (simp add: opsInv_def)
  note ok = writeGuard_ok [OF run assms(2)]
  show "factors tr (se_id s) (us_id u)" using ok(6) by (auto simp: factors_def)
  show "st\<lparr>os_console := cn1\<rparr> = st" using ok(7) by simp
qed

lemma opsInv_created:
  assumes inv: "opsInv cr ulow csrf (tr, st)" and f: "factors tr sid uid"
    and new: "distinct (map cm_id cs)" "cm_id ` set cs \<inter> cm_id ` set (os_cmds st) = {}" "list_all (created name) cs"
    and st': "os_cmds st' = os_cmds st @ cs" "consoleRun cr ulow csrf (authOf tr, os_console st')"
  shows "opsInv cr ulow csrf (tr @ map (\<lambda>c. Created (cm_id c) sid uid name) cs, st')"
proof -
  have inv': "goodTrace tr" "cmdsInv tr (os_cmds st)" using inv by (simp_all add: opsInv_def)
  have "\<not> list_ex (isCreation (cm_id c)) tr" if "c \<in> set cs" for c
    using fresh_command [OF inv'(2)] new(2) that by blast
  then have "goodTrace (tr @ map (\<lambda>c. Created (cm_id c) sid uid name) cs)"
    by (rule goodTrace_created [OF inv'(1) f new(1)])
  moreover have "authOf (map (\<lambda>c. Created (cm_id c) sid uid name) cs) = []"
    by (simp add: authOf_def)
  ultimately show ?thesis using cmdsInv_created [OF inv'(2) new] st' by (simp add: opsInv_def)
qed

lemma approve_ok:
  assumes "ApproveCommand t cid by st = Inr st'"
  obtains c where "GetCommand cid (os_cmds st) = Some c" "cm_status c = StPending"
    "cm_by c \<noteq> by \<or> CountApprovers (cn_db (os_console st)) \<le> 1"
    "st' = st\<lparr>os_cmds := updCmds (\<lambda>c. cm_id c = cid \<and> cm_status c = StPending)
        (\<lambda>c. c\<lparr>cm_status := StApproved, cm_approved_by := by, cm_approved_at := t\<rparr>) (os_cmds st)\<rparr>"
proof -
  obtain c where c: "GetCommand cid (os_cmds st) = Some c"
    using assms by (cases "GetCommand cid (os_cmds st)") (simp_all add: ApproveCommand_def)
  have "cm_status c = StPending"
    using assms unfolding ApproveCommand_def c by (simp split: if_splits)
  moreover have "cm_by c \<noteq> by \<or> CountApprovers (cn_db (os_console st)) \<le> 1"
    using assms unfolding ApproveCommand_def c by (simp split: if_splits) linarith
  moreover have "st' = st\<lparr>os_cmds := updCmds (\<lambda>c. cm_id c = cid \<and> cm_status c = StPending)
        (\<lambda>c. c\<lparr>cm_status := StApproved, cm_approved_by := by, cm_approved_at := t\<rparr>) (os_cmds st)\<rparr>"
    using assms calculation unfolding ApproveCommand_def c by (simp split: if_splits)
  ultimately show ?thesis using that c by blast
qed

lemma cmdsInv_approved:
  assumes inv: "cmdsInv tr cs" and c: "GetCommand cid cs = Some c" "cm_by c \<noteq> by \<or> n \<le> 1"
  shows "cmdsInv (tr @ [Approved cid sid uid by n])
    (updCmds (\<lambda>c. cm_id c = cid \<and> cm_status c = StPending)
       (\<lambda>c. c\<lparr>cm_status := StApproved, cm_approved_by := by, cm_approved_at := t\<rparr>) cs)"
proof (rule cmdsInv_upd)
  let ?tr = "tr @ [Approved cid sid uid by n]"
  show "cmdsInv ?tr cs" using inv by (rule cmdsInv_append) (simp_all add: isHandOut_def isCreation_def)
  fix x
  assume x: "x \<in> set cs" "cm_id x = cid \<and> cm_status x = StPending" "cmdOk ?tr x"
  have "x = c" using inv x GetCommand_mem [OF c(1)] by (auto simp: cmdsInv_def distinct_map inj_on_def)
  then have "authorised ?tr cid" if "DestructiveKinds (cm_kind x)"
    using x c(2) that unfolding cmdOk_def authorised_def by fastforce
  then show "cmdOk ?tr (x\<lparr>cm_status := StApproved, cm_approved_by := by, cm_approved_at := t\<rparr>)"
    using x by (auto simp: cmdOk_def unhanded_def)
qed simp

text \<open>Steps that record nothing: a change of status that needs no new authority.\<close>

lemma cmdsInv_status:
  assumes "cmdsInv tr cs" and "\<And>c. cm_id (g c) = cm_id c \<and> cm_by (g c) = cm_by c \<and> cm_kind (g c) = cm_kind c"
    and "\<And>c. P c \<Longrightarrow> (unhanded (cm_status (g c)) \<longrightarrow> unhanded (cm_status c)) \<and>
      (unapproved (cm_status c) \<longrightarrow> unapproved (cm_status (g c)))"
  shows "cmdsInv tr (updCmds P g cs)"
  using assms by (intro cmdsInv_upd) (auto simp: cmdOk_def)

lemma CancelCommand_inv: "cmdsInv tr (os_cmds st) \<Longrightarrow> cmdsInv tr (os_cmds (CancelCommand t cid by st))"
  unfolding CancelCommand_def by (simp, rule cmdsInv_status) (auto simp: unhanded_def unapproved_def)

lemma expireStale_inv: "cmdsInv tr cs \<Longrightarrow> cmdsInv tr (expireStale t aid cs)"
  unfolding expireStale_def by (rule cmdsInv_status) (auto simp: unhanded_def unapproved_def)

lemma SetNotBefore_inv: "cmdsInv tr (os_cmds st) \<Longrightarrow> cmdsInv tr (os_cmds (SetNotBefore t cid st))"
  unfolding SetNotBefore_def by (simp, rule cmdsInv_status) auto

lemma CompleteCommand_inv:
  assumes "CompleteCommand t cid status result errMsg st = Inr st'" and "cmdsInv tr (os_cmds st)"
  shows "cmdsInv tr (os_cmds st')" "os_console st' = os_console st"
proof -
  have status: "\<not> unhanded status"
    using assms(1) by (auto simp: CompleteCommand_def unhanded_def split: if_splits)
  have st': "st' = st\<lparr>os_cmds := updCmds (\<lambda>c. cm_id c = cid \<and> (cm_status c = StSent \<or> cm_status c = StRunning))
      (\<lambda>c. c\<lparr>cm_status := status, cm_result := result, cm_error := errMsg,
             cm_completed := (if status = StRunning then 0 else t)\<rparr>) (os_cmds st)\<rparr>"
  proof -
    have "List.member [StDone, StFailed, StRunning] status"
      and "list_ex (\<lambda>c. cm_id c = cid \<and> (cm_status c = StSent \<or> cm_status c = StRunning)) (os_cmds st)"
      using assms(1) by (auto simp: CompleteCommand_def Let_def split: if_splits)
    then show ?thesis using assms(1) unfolding CompleteCommand_def Let_def by simp
  qed
  show "os_console st' = os_console st" by (simp add: st')
  show "cmdsInv tr (os_cmds st')"
  proof -
    let ?g = "\<lambda>c. c\<lparr>cm_status := status, cm_result := result, cm_error := errMsg,
        cm_completed := (if status = StRunning then 0 else t)\<rparr>"
    have "cmdsInv tr (updCmds (\<lambda>c. cm_id c = cid \<and> (cm_status c = StSent \<or> cm_status c = StRunning)) ?g (os_cmds st))"
      by (rule cmdsInv_status [OF assms(2)]) (use status in \<open>auto simp: unapproved_def\<close>)
    then show ?thesis by (simp add: st' del: if_split)
  qed
qed

lemma nextDue_mem:
  "nextDue t aid cs = Some c \<Longrightarrow> c \<in> set cs \<and> cm_agent c = aid \<and> cm_status c = StApproved \<and> cm_not_before c \<le> t"
proof -
  assume n: "nextDue t aid cs = Some c"
  let ?xs = "filter (\<lambda>c. cm_agent c = aid \<and> cm_status c = StApproved \<and> cm_not_before c \<le> t) cs"
  have "c \<in> set (sort_key cm_created ?xs)"
    using n unfolding nextDue_def by (cases "sort_key cm_created ?xs") simp_all
  then show ?thesis by simp
qed

lemma NextCommand_cases:
  assumes "NextCommandForAgent t aid st = (r, st')" and "cmdsInv tr (os_cmds st)"
  obtains (none) "nextDue t aid (expireStale t aid (os_cmds st)) = None" "r = None" "st' = st\<lparr>os_cmds := expireStale t aid (os_cmds st)\<rparr>"
    | (sent) c where "nextDue t aid (expireStale t aid (os_cmds st)) = Some c"
      "r = Some (c\<lparr>cm_status := StSent, cm_sent := t\<rparr>)"
      "st' = st\<lparr>os_cmds := updCmds (\<lambda>x. cm_id x = cm_id c) (\<lambda>x. x\<lparr>cm_status := StSent, cm_sent := t\<rparr>)
          (expireStale t aid (os_cmds st))\<rparr>"
proof (cases "nextDue t aid (expireStale t aid (os_cmds st))")
  case None
  then show ?thesis using assms(1) none [OF None] by (simp add: NextCommandForAgent_def)
next
  case (Some c)
  let ?cs = "expireStale t aid (os_cmds st)"
  let ?g = "\<lambda>x. if cm_id x = cm_id c then x\<lparr>cm_status := StSent, cm_sent := t\<rparr> else x"
  have c: "c \<in> set ?cs" and dist: "distinct (map cm_id ?cs)"
    using nextDue_mem [OF Some] expireStale_inv [OF assms(2)] by (auto simp: cmdsInv_def)
  have "find (\<lambda>x. cm_id x = cm_id c) ?cs = Some c"
  proof (cases "find (\<lambda>x. cm_id x = cm_id c) ?cs")
    case None
    then show ?thesis using c by (auto simp: find_None_iff)
  next
    case (Some d)
    then show ?thesis using find_SomeD [OF Some] c dist by (auto simp: distinct_map inj_on_def)
  qed
  moreover have "find (\<lambda>x. cm_id x = cm_id c) (map ?g ?cs) = map_option ?g (find (\<lambda>x. cm_id x = cm_id c) ?cs)"
    by (rule find_map_same) simp
  ultimately have "GetCommand (cm_id c) (updCmds (\<lambda>x. cm_id x = cm_id c) (\<lambda>x. x\<lparr>cm_status := StSent, cm_sent := t\<rparr>) ?cs) =
      Some (c\<lparr>cm_status := StSent, cm_sent := t\<rparr>)"
    by (simp add: GetCommand_def updCmds_def)
  then show ?thesis using assms(1) sent [OF Some] Some by (simp add: NextCommandForAgent_def Let_def)
qed

lemma sent_inv:
  assumes "cmdsInv tr cs" and c: "c \<in> set cs" "cm_status c = StApproved"
  shows "cmdsInv tr (updCmds (\<lambda>x. cm_id x = cm_id c) (\<lambda>x. x\<lparr>cm_status := StSent, cm_sent := t\<rparr>) cs)"
proof (rule cmdsInv_upd [OF assms(1)])
  fix x
  assume x: "x \<in> set cs" "cm_id x = cm_id c" "cmdOk tr x"
  have "x = c" using assms(1) x c by (auto simp: cmdsInv_def distinct_map inj_on_def)
  then show "cmdOk tr (x\<lparr>cm_status := StSent, cm_sent := t\<rparr>)"
    using x c by (simp add: cmdOk_def unhanded_def unapproved_def)
qed simp

lemma handedOut_inv:
  fixes t :: int
  assumes inv: "cmdsInv tr cs" and good: "goodTrace tr" and c: "c \<in> set cs" "cm_status c = StApproved"
    and ok: "cm_kind c = ''contain'' \<longrightarrow> ok"
  defines "cs' \<equiv> updCmds (\<lambda>x. cm_id x = cm_id c) (\<lambda>x. x\<lparr>cm_status := StSent, cm_sent := t\<rparr>) cs"
  shows "cmdsInv (tr @ [HandedOut (cm_id c) aid (cm_kind c) ok]) cs'"
    and "goodTrace (tr @ [HandedOut (cm_id c) aid (cm_kind c) ok])"
proof -
  let ?e = "HandedOut (cm_id c) aid (cm_kind c) ok"
  have cok: "cmdOk tr c" using inv c by (simp add: cmdsInv_def)
  show "goodTrace (tr @ [?e])"
    unfolding goodTrace_snoc using good ok cok c by (simp add: cmdOk_def unhanded_def unapproved_def)
  have sent: "cmdsInv tr cs'" unfolding cs'_def by (rule sent_inv [OF inv c])
  have same: "cm_id ` set cs' = cm_id ` set cs"
  proof -
    have "map cm_id cs' = map cm_id cs" by (simp add: cs'_def updCmds_def comp_def if_distrib cong: if_cong)
    then show ?thesis by (metis list.set_map)
  qed
  have "cmdOk (tr @ [?e]) x" if x: "x \<in> set cs'" for x
  proof -
    have xok: "cmdOk tr x" using sent x by (simp add: cmdsInv_def)
    have "\<not> unhanded (cm_status x)" if "cm_id x = cm_id c"
      using x that by (auto simp: cs'_def updCmds_def unhanded_def)
    then show ?thesis using xok by (auto simp: cmdOk_def isHandOut_def intro: authorised_append)
  qed
  moreover have "distinct (map cm_id cs')" using sent by (simp add: cmdsInv_def)
  moreover have "cid \<in> cm_id ` set cs'" if "list_ex (isHandOut cid) (tr @ [?e]) \<or> list_ex (isCreation cid) (tr @ [?e])" for cid
    using that inv c same by (auto simp: cmdsInv_def isHandOut_def isCreation_def)
  ultimately show "cmdsInv (tr @ [?e]) cs'" by (simp add: cmdsInv_def)
qed

lemma handleHeartbeat_inv:
  assumes "handleHeartbeat t a ip monitor openFindings version st = (r, st')"
    and inv: "cmdsInv tr (os_cmds st)" "goodTrace tr"
  defines "tr' \<equiv> (case r of None \<Rightarrow> tr | Some c \<Rightarrow> tr @ [HandedOut (cm_id c) (ar_id a) (cm_kind c) (ContainAllowed a)])"
  shows "cmdsInv tr' (os_cmds st') \<and> goodTrace tr' \<and> os_console st' = os_console st"
proof -
  let ?st0 = "st\<lparr>os_fleet := RecordHeartbeat t (ar_id a) monitor openFindings (clamp version 64) (os_fleet st)\<rparr>"
  obtain q st1 where nxt: "NextCommandForAgent t (ar_id a) ?st0 = (q, st1)" by (cases "NextCommandForAgent t (ar_id a) ?st0")
  have inv0: "cmdsInv tr (os_cmds ?st0)" using inv by simp
  note ex = expireStale_inv [OF inv(1), of t "ar_id a"]
  from nxt inv0 show ?thesis
  proof (cases rule: NextCommand_cases)
    case none
    then show ?thesis using assms(1) nxt ex inv by (auto simp: handleHeartbeat_def tr'_def)
  next
    case (sent c)
    have c: "c \<in> set (expireStale t (ar_id a) (os_cmds st))" "cm_status c = StApproved"
      using nextDue_mem [OF sent(1)] by simp_all
    show ?thesis
    proof (cases "cm_kind c = ''contain'' \<and> \<not> ContainAllowed a")
      case True
      have "cmdsInv tr (os_cmds st1)" unfolding sent(3) using sent_inv [OF ex c] by simp
      define e where "e = ''agent refused: this host did not enroll with remote containment enabled''"
      define st2 where "st2 = (case CompleteCommand t (cm_id c) StFailed [] e st1 of Inl _ \<Rightarrow> st1 | Inr s \<Rightarrow> s)"
      have "cmdsInv tr (os_cmds st2) \<and> os_console st2 = os_console st1"
      proof (cases "CompleteCommand t (cm_id c) StFailed [] e st1")
        case (Inl x)
        then show ?thesis using \<open>cmdsInv tr (os_cmds st1)\<close> by (simp add: st2_def)
      next
        case (Inr s)
        then show ?thesis using CompleteCommand_inv [OF Inr \<open>cmdsInv tr (os_cmds st1)\<close>] by (simp add: st2_def)
      qed
      moreover have "os_console st1 = os_console st" unfolding sent(3) by simp
      moreover have "r = None \<and> os_cmds st' = os_cmds st2 \<and> os_console st' = os_console st2"
        using assms(1) nxt True sent(2) unfolding handleHeartbeat_def Let_def st2_def e_def by auto
      ultimately show ?thesis using inv by (simp add: tr'_def)
    next
      case False
      then have "r = Some (c\<lparr>cm_status := StSent, cm_sent := t\<rparr>)" "st' = st1"
        using assms(1) nxt sent(2) by (auto simp: handleHeartbeat_def)
      then show ?thesis using handedOut_inv(1) [OF ex inv(2) c, where ok = "ContainAllowed a" and t = t and aid = "ar_id a"]
          handedOut_inv(2) [OF ex inv(2) c, where ok = "ContainAllowed a" and aid = "ar_id a"] False
        unfolding sent(3) tr'_def by simp
    qed
  qed
qed

lemma handleCommandResult_inv:
  assumes "cmdsInv tr (os_cmds st)"
  shows "cmdsInv tr (os_cmds (snd (handleCommandResult t a ip cid status result errMsg st))) \<and>
    os_console (snd (handleCommandResult t a ip cid status result errMsg st)) = os_console st"
proof (cases "GetCommand cid (os_cmds st)")
  case None
  then show ?thesis using assms by (simp add: handleCommandResult_def)
next
  case (Some c)
  show ?thesis
  proof (cases "CompleteCommand t cid status (clamp result (256 * 1024)) (clamp errMsg 4096) st")
    case (Inl e)
    then show ?thesis using assms Some unfolding handleCommandResult_def by simp
  next
    case (Inr st1)
    from CompleteCommand_inv [OF Inr assms] show ?thesis
      using assms unfolding handleCommandResult_def Some option.case Inr sum.case Let_def by simp
  qed
qed

lemma handleCreateCommand_cases:
  assumes "handleCreateCommand t secret u rq aid kind params st = (r, st')"
  shows "(\<exists>e. r = Inl e) \<and> os_cmds st' = os_cmds st \<and>
      (st' = st \<or> (\<exists>x y z w. os_console st' = audit t (Some u) rq x y z w (os_console st))) \<or>
    (\<exists>c st1 x y z w. r = Inr c \<and> CreateCommand t secret aid kind params (us_name u) (hours 6) st = Inr (c, st1) \<and>
      os_cmds st' = os_cmds st1 \<and> os_console st' = audit t (Some u) rq x y z w (os_console st1))"
proof (cases "GetAgent aid (os_fleet st)")
  case None
  then show ?thesis using assms by (auto simp: handleCreateCommand_def)
next
  case (Some a)
  show ?thesis
  proof (cases "kind = ''contain'' \<and> \<not> ContainAllowed a")
    case True
    then show ?thesis using assms unfolding handleCreateCommand_def Some by fastforce
  next
    case False
    show ?thesis
    proof (cases "CreateCommand t secret aid kind params (us_name u) (hours 6) st")
      case (Inl e)
      then show ?thesis using assms False unfolding handleCreateCommand_def Some by auto
    next
      case (Inr p)
      then show ?thesis using assms False unfolding handleCreateCommand_def Some
        by (cases p) fastforce
    qed
  qed
qed

lemma handleBulkCommand_cases:
  assumes "handleBulkCommand t secrets u rq agents kind st = (r, st')"
  shows "(\<exists>e. r = Inl e) \<and> st' = st \<or>
    (\<exists>cs n x y z w. r = Inr (cs, n) \<and> os_cmds st' = os_cmds st @ cs \<and> distinct (map cm_id cs) \<and>
      cm_id ` set cs \<inter> cm_id ` set (os_cmds st) = {} \<and> list_all (created (us_name u)) cs \<and>
      os_console st' = audit t (Some u) rq x y z w (os_console st))"
proof (cases "r")
  case (Inl e)
  then show ?thesis using assms by (auto simp: handleBulkCommand_def split: if_splits prod.splits)
next
  case (Inr p)
  obtain cs n where p: "p = (cs, n)" by (cases p)
  obtain st1 x y z w where loop: "bulkLoop t secrets u kind agents [] 0 st = ((cs, n), st1)"
    and st': "st' = auditOp t u rq x y z w st1"
    using assms Inr p by (auto simp: handleBulkCommand_def split: if_splits prod.splits)
  from bulkLoop_ok [OF loop] show ?thesis using Inr p st' by auto
qed

lemma opsInv_audit:
  "opsInv cr ulow csrf (tr, st) \<Longrightarrow> os_cmds st' = os_cmds st \<Longrightarrow>
   os_console st' = audit t u rq x y z w (os_console st) \<Longrightarrow> opsInv cr ulow csrf (tr, st')"
  by (simp add: opsInv_def consoleRun_audit)

lemma opsStep_inv:
  assumes "opsStep cr ulow csrf hash (tr, st) y" and inv: "opsInv cr ulow csrf (tr, st)"
  shows "opsInv cr ulow csrf y"
  using assms(1)
proof (cases rule: opsStep.cases)
  case (stepConsole es cn')
  have "consoleRun cr ulow csrf (authOf tr @ es, cn')"
    using consoleRun.runStep [OF _ stepConsole(2)] inv by (simp add: opsInv_def)
  moreover have "cmdsInv (tr @ map Auth es) (os_cmds st)"
    using inv by (intro cmdsInv_append) (auto simp: opsInv_def list_ex_iff isHandOut_def isCreation_def)
  ultimately show ?thesis using inv stepConsole(1) by (simp add: opsInv_def goodTrace_auth)
next
  case (stepCreate t rq s u cn1 secret aid kind params r st')
  note f = factors_of_guard [OF inv stepCreate(2)]
  note h = stepCreate(3) [unfolded f(2)]
  from handleCreateCommand_cases [OF h] show ?thesis
  proof (elim disjE conjE exE)
    fix e
    assume "r = Inl e" "os_cmds st' = os_cmds st" "st' = st"
    then show ?thesis using stepCreate(1) inv by simp
  next
    fix e x y z w
    assume "r = Inl e" "os_cmds st' = os_cmds st" "os_console st' = audit t (Some u) rq x y z w (os_console st)"
    then show ?thesis using stepCreate(1) opsInv_audit [OF inv] by simp
  next
    fix c st1 x y z w
    assume r: "r = Inr c" and c: "CreateCommand t secret aid kind params (us_name u) (hours 6) st = Inr (c, st1)"
      and st': "os_cmds st' = os_cmds st1" "os_console st' = audit t (Some u) rq x y z w (os_console st1)"
    note ok = CreateCommand_ok [OF c]
    have "opsInv cr ulow csrf (tr @ map (\<lambda>c. Created (cm_id c) (se_id s) (us_id u) (us_name u)) [c], st')"
      by (rule opsInv_created [OF inv f(1)]) (use ok st' inv in \<open>auto simp: opsInv_def consoleRun_audit\<close>)
    then show ?thesis using stepCreate(1) r by simp
  qed
next
  case (stepBulk t rq s u cn1 secrets agents kind r st')
  note f = factors_of_guard [OF inv stepBulk(2)]
  note h = stepBulk(3) [unfolded f(2)]
  from handleBulkCommand_cases [OF h] show ?thesis
  proof (elim disjE conjE exE)
    fix e
    assume "r = Inl e" "st' = st"
    then show ?thesis using stepBulk(1) inv by simp
  next
    fix cs n x y z w
    assume r: "r = Inr (cs, n)" and new: "os_cmds st' = os_cmds st @ cs" "distinct (map cm_id cs)"
      "cm_id ` set cs \<inter> cm_id ` set (os_cmds st) = {}" "list_all (created (us_name u)) cs"
      "os_console st' = audit t (Some u) rq x y z w (os_console st)"
    have "opsInv cr ulow csrf (tr @ map (\<lambda>c. Created (cm_id c) (se_id s) (us_id u) (us_name u)) cs, st')"
      by (rule opsInv_created [OF inv f(1) new(2,3,4,1)]) (use new(5) inv in \<open>simp add: opsInv_def consoleRun_audit\<close>)
    then show ?thesis using stepBulk(1) r by simp
  qed
next
  case (stepApprove t rq s u cn1 cid r st')
  note f = factors_of_guard [OF inv stepApprove(2)]
  note h = stepApprove(3) [unfolded f(2)]
  have cn1: "cn1 = os_console st" using f(2) by (metis opState.select_convs(1) opState.surjective opState.update_convs(1))
  show ?thesis
  proof (cases r)
    case (Inl e)
    then have "st' = st" using h by (auto simp: handleApproveCommand_def split: option.splits sum.splits)
    then show ?thesis using stepApprove(1) Inl inv by simp
  next
    case (Inr c)
    obtain st1 x y z w where a: "ApproveCommand (secs t) cid (us_name u) st = Inr st1"
      and st': "st' = auditOp t u rq x y z w st1"
      using h Inr by (auto simp: handleApproveCommand_def split: option.splits sum.splits)
    obtain d where d: "GetCommand cid (os_cmds st) = Some d" "cm_status d = StPending"
      "cm_by d \<noteq> us_name u \<or> CountApprovers (cn_db (os_console st)) \<le> 1"
      "st1 = st\<lparr>os_cmds := updCmds (\<lambda>c. cm_id c = cid \<and> cm_status c = StPending)
        (\<lambda>c. c\<lparr>cm_status := StApproved, cm_approved_by := us_name u, cm_approved_at := secs t\<rparr>) (os_cmds st)\<rparr>"
      by (rule approve_ok [OF a])
    have i: "cmdsInv tr (os_cmds st)" "goodTrace tr" using inv by (simp_all add: opsInv_def)
    from cmdsInv_approved [OF i(1) d(1,3)] have
      "cmdsInv (tr @ [Approved cid (se_id s) (us_id u) (us_name u) (CountApprovers (cn_db cn1))]) (os_cmds st')"
      by (simp add: st' d(4) cn1)
    moreover have "goodTrace (tr @ [Approved cid (se_id s) (us_id u) (us_name u) (CountApprovers (cn_db cn1))])"
      using i(2) f(1) by (simp add: goodTrace_snoc)
    moreover have "consoleRun cr ulow csrf (authOf tr, os_console st')"
      using inv by (simp add: st' d(4) opsInv_def consoleRun_audit)
    ultimately show ?thesis using stepApprove(1) Inr by (simp add: opsInv_def)
  qed
next
  case (stepCancel t rq s u cn1 cid)
  note f = factors_of_guard [OF inv stepCancel(2)]
  show ?thesis using inv CancelCommand_inv [of tr st] unfolding stepCancel(1) f(2)
    by (simp add: opsInv_def handleCancelCommand_def consoleRun_audit) (simp add: CancelCommand_def consoleRun_audit)
next
  case (stepSchedule kind t secret aid params ttl notBefore c st')
  obtain st1 where c: "CreateCommand t secret aid kind params ''scheduler'' ttl st = Inr (c, st1)"
    and st': "st' = st1 \<or> (\<exists>n. st' = SetNotBefore n (cm_id c) st1)"
  proof (cases "CreateCommand t secret aid kind params ''scheduler'' ttl st")
    case (Inl e)
    then show ?thesis using stepSchedule(3) by (simp add: CreateCommandAt_def)
  next
    case (Inr p)
    then show ?thesis using stepSchedule(3) that
      by (cases p, cases notBefore) (auto simp: CreateCommandAt_def)
  qed
  note ok = CreateCommand_ok [OF c]
  have "\<not> DestructiveKinds kind" using stepSchedule(2) by (auto simp: schedulable_def DestructiveKinds_def)
  then have "cmdsInv tr (os_cmds st1)"
    using cmdsInv_silent [of tr "os_cmds st" c] inv ok by (simp add: opsInv_def)
  then have "cmdsInv tr (os_cmds st')" using st' SetNotBefore_inv by auto
  moreover have "os_console st' = os_console st" using st' ok(1) by (auto simp: SetNotBefore_def)
  ultimately show ?thesis using stepSchedule(1) inv by (simp add: opsInv_def)
next
  case (stepPoll t hdr ip a fl monitor openFindings version r st')
  have "cmdsInv tr (os_cmds (st\<lparr>os_fleet := fl\<rparr>))" "goodTrace tr" using inv by (simp_all add: opsInv_def)
  from handleHeartbeat_inv [OF stepPoll(3) this] show ?thesis
    using stepPoll(1) inv by (auto simp: opsInv_def split: option.splits)
next
  case (stepResult t hdr ip a fl cid status result errMsg)
  have "cmdsInv tr (os_cmds (st\<lparr>os_fleet := fl\<rparr>))" using inv by (simp add: opsInv_def)
  from handleCommandResult_inv [OF this] show ?thesis using stepResult(1) inv by (simp add: opsInv_def)
next
  case (stepFleet fl)
  then show ?thesis using inv by (simp add: opsInv_def)
qed

lemma opsRun_inv: "opsRun cr ulow csrf hash x \<Longrightarrow> opsInv cr ulow csrf x"
proof (induction rule: opsRun.induct)
  case (opsStart st)
  then show ?case by (simp add: opsInv_def goodTrace_def cmdsInv_def consoleRun.runStart)
next
  case (opsMore x y)
  then show ?case using opsStep_inv [of cr ulow csrf hash "fst x" "snd x" y] by simp
qed

section \<open>The life of a command\<close>

text \<open>
  The abstract machine of one command: awaiting approval, released, handed out, running, or ended in
  one of four ways. Nothing leaves an end state.
\<close>

inductive phase :: "bytes \<Rightarrow> bytes \<Rightarrow> bool" where
  release: "phase StPending StApproved"
| handOut: "phase StApproved StSent"
| report: "s = StSent \<or> s = StRunning \<Longrightarrow> s' = StRunning \<or> s' = StDone \<or> s' = StFailed \<Longrightarrow> phase s s'"
| withdraw: "s = StPending \<or> s = StApproved \<Longrightarrow> s' = StCancelled \<or> s' = StExpired \<Longrightarrow> phase s s'"

abbreviation "phases \<equiv> phase\<^sup>*\<^sup>*"

inductive_cases phaseE: "phase s s'"

definition sameOrder :: "Command \<Rightarrow> Command \<Rightarrow> bool" where
  "sameOrder c d \<longleftrightarrow> cm_id d = cm_id c \<and> cm_agent d = cm_agent c \<and> cm_kind d = cm_kind c \<and> cm_params d = cm_params c \<and>
     cm_by d = cm_by c \<and> cm_created d = cm_created c \<and> cm_expires d = cm_expires c \<and> cm_requires d = cm_requires c \<and>
     phases (cm_status c) (cm_status d)"

text \<open>The table grows at its end; every earlier row stays the same order further along its life.\<close>

definition evolves :: "Command list \<Rightarrow> Command list \<Rightarrow> bool" where
  "evolves cs cs' \<longleftrightarrow> length cs \<le> length cs' \<and> list_all2 sameOrder cs (take (length cs) cs')"

lemma sameOrder_refl [simp]: "sameOrder c c"
  by (simp add: sameOrder_def)

lemma sameOrder_trans: "sameOrder c d \<Longrightarrow> sameOrder d e \<Longrightarrow> sameOrder c e"
  by (auto simp: sameOrder_def)

lemma evolves_refl [simp]: "evolves cs cs"
  by (simp add: evolves_def list_all2_refl)

lemma evolves_trans: "evolves as bs \<Longrightarrow> evolves bs cs \<Longrightarrow> evolves as cs"
  unfolding evolves_def list_all2_conv_all_nth by (auto intro: sameOrder_trans)

lemma evolves_add: "evolves cs (cs @ ds)"
  by (simp add: evolves_def list_all2_refl)

lemma evolves_upd:
  assumes "\<And>c. c \<in> set cs \<Longrightarrow> P c \<Longrightarrow> sameOrder c (g c)"
  shows "evolves cs (updCmds P g cs)"
  using assms by (auto simp: evolves_def updCmds_def list_all2_conv_all_nth)

lemma expireStale_evolves: "evolves cs (expireStale t aid cs)"
  unfolding expireStale_def by (rule evolves_upd) (auto simp: sameOrder_def intro: phase.withdraw)

lemma CancelCommand_evolves: "evolves (os_cmds st) (os_cmds (CancelCommand t cid by st))"
  unfolding CancelCommand_def by (simp, rule evolves_upd) (auto simp: sameOrder_def intro: phase.withdraw)

lemma SetNotBefore_evolves: "evolves (os_cmds st) (os_cmds (SetNotBefore t cid st))"
  unfolding SetNotBefore_def by (simp, rule evolves_upd) (auto simp: sameOrder_def)

lemma ApproveCommand_evolves: "ApproveCommand t cid by st = Inr st' \<Longrightarrow> evolves (os_cmds st) (os_cmds st')"
  by (erule approve_ok) (auto intro!: evolves_upd simp: sameOrder_def intro: r_into_rtranclp [of phase, OF phase.release])

lemma CompleteCommand_evolves:
  assumes "CompleteCommand t cid status result errMsg st = Inr st'"
  shows "evolves (os_cmds st) (os_cmds st')"
proof -
  let ?P = "\<lambda>c. cm_id c = cid \<and> (cm_status c = StSent \<or> cm_status c = StRunning)"
  let ?g = "\<lambda>c. c\<lparr>cm_status := status, cm_result := result, cm_error := errMsg,
      cm_completed := (if status = StRunning then 0 else t)\<rparr>"
  have status: "List.member [StDone, StFailed, StRunning] status" and "list_ex ?P (os_cmds st)"
    using assms by (auto simp: CompleteCommand_def Let_def split: if_splits)
  then have "os_cmds st' = updCmds ?P ?g (os_cmds st)"
    using assms unfolding CompleteCommand_def Let_def by auto
  moreover have "sameOrder c (?g c)" if "?P c" for c
  proof -
    have "phase (cm_status c) status" using that status by (intro phase.report) auto
    then show ?thesis by (simp add: sameOrder_def)
  qed
  ultimately show ?thesis by (simp add: evolves_upd)
qed

lemma sent_evolves:
  assumes "cmdsInv tr cs" and "nextDue t aid cs = Some c"
  shows "evolves cs (updCmds (\<lambda>x. cm_id x = cm_id c) (\<lambda>x. x\<lparr>cm_status := StSent, cm_sent := t\<rparr>) cs)"
proof (rule evolves_upd)
  fix x
  assume "x \<in> set cs" "cm_id x = cm_id c"
  then have "x = c" using nextDue_mem [OF assms(2)] assms(1) by (auto simp: cmdsInv_def distinct_map inj_on_def)
  then show "sameOrder x (x\<lparr>cm_status := StSent, cm_sent := t\<rparr>)"
    using nextDue_mem [OF assms(2)] phase.handOut by (auto simp: sameOrder_def)
qed

lemma NextCommand_evolves:
  assumes "NextCommandForAgent t aid st = (r, st')" and "cmdsInv tr (os_cmds st)"
  shows "evolves (os_cmds st) (os_cmds st')"
  using assms
proof (cases rule: NextCommand_cases)
  case none
  then show ?thesis using expireStale_evolves by simp
next
  case (sent c)
  then show ?thesis
    using evolves_trans [OF expireStale_evolves sent_evolves [OF expireStale_inv [OF assms(2)] sent(1)]] by simp
qed

lemma handleHeartbeat_evolves:
  assumes "cmdsInv tr (os_cmds st)"
  shows "evolves (os_cmds st) (os_cmds (snd (handleHeartbeat t a ip monitor openFindings version st)))"
proof -
  let ?st0 = "st\<lparr>os_fleet := RecordHeartbeat t (ar_id a) monitor openFindings (clamp version 64) (os_fleet st)\<rparr>"
  obtain q st1 where nxt: "NextCommandForAgent t (ar_id a) ?st0 = (q, st1)" by (cases "NextCommandForAgent t (ar_id a) ?st0")
  have one: "evolves (os_cmds st) (os_cmds st1)" using NextCommand_evolves [OF nxt] assms by simp
  show ?thesis
  proof (cases q)
    case None
    then show ?thesis using one nxt by (simp add: handleHeartbeat_def)
  next
    case (Some c)
    define e where "e = ''agent refused: this host did not enroll with remote containment enabled''"
    show ?thesis
    proof (cases "CompleteCommand t (cm_id c) StFailed [] e st1")
      case (Inl x)
      then show ?thesis using one nxt Some unfolding handleHeartbeat_def Let_def e_def by simp
    next
      case (Inr s)
      have "evolves (os_cmds st) (os_cmds s)" using evolves_trans [OF one CompleteCommand_evolves [OF Inr]] .
      then show ?thesis using one nxt Some Inr unfolding handleHeartbeat_def Let_def e_def by simp
    qed
  qed
qed

lemma handleCommandResult_evolves:
  "evolves (os_cmds st) (os_cmds (snd (handleCommandResult t a ip cid status result errMsg st)))"
proof (cases "GetCommand cid (os_cmds st)")
  case None
  then show ?thesis by (simp add: handleCommandResult_def)
next
  case (Some c)
  show ?thesis
  proof (cases "CompleteCommand t cid status (clamp result (256 * 1024)) (clamp errMsg 4096) st")
    case (Inl e)
    then show ?thesis using Some unfolding handleCommandResult_def by simp
  next
    case (Inr st1)
    from CompleteCommand_evolves [OF Inr] show ?thesis
      unfolding handleCommandResult_def Some option.case Inr sum.case Let_def by simp
  qed
qed

lemma CreateCommand_evolves:
  "CreateCommand t secret aid kind params by ttl st = Inr (c, st') \<Longrightarrow> evolves (os_cmds st) (os_cmds st')"
  by (drule CreateCommand_ok(1)) (simp add: evolves_add)

lemma opsStep_evolves:
  assumes "opsStep cr ulow csrf hash (tr, st) (tr', st')" and inv: "opsInv cr ulow csrf (tr, st)"
  shows "evolves (os_cmds st) (os_cmds st')"
  using assms(1)
proof (cases rule: opsStep.cases)
  case (stepCreate t rq s u cn1 secret aid kind params r)
  note h = stepCreate(3) [unfolded factors_of_guard(2) [OF inv stepCreate(2)]]
  from handleCreateCommand_cases [OF h] show ?thesis
    by (elim disjE conjE exE) (auto dest: CreateCommand_evolves)
next
  case (stepBulk t rq s u cn1 secrets agents kind r)
  note h = stepBulk(3) [unfolded factors_of_guard(2) [OF inv stepBulk(2)]]
  from handleBulkCommand_cases [OF h] show ?thesis by (elim disjE conjE exE) (simp_all add: evolves_add)
next
  case (stepApprove t rq s u cn1 cid r)
  note h = stepApprove(3) [unfolded factors_of_guard(2) [OF inv stepApprove(2)]]
  show ?thesis
  proof (cases "ApproveCommand (secs t) cid (us_name u) st")
    case (Inl e)
    then show ?thesis using h by (auto simp: handleApproveCommand_def split: option.splits)
  next
    case (Inr st1)
    then show ?thesis using h ApproveCommand_evolves [OF Inr] by (auto simp: handleApproveCommand_def split: option.splits)
  qed
next
  case (stepCancel t rq s u cn1 cid)
  then show ?thesis using CancelCommand_evolves [of st] factors_of_guard(2) [OF inv stepCancel(3)]
    by (simp add: handleCancelCommand_def)
next
  case (stepSchedule kind t secret aid params ttl notBefore c)
  show ?thesis
  proof (cases "CreateCommand t secret aid kind params ''scheduler'' ttl st")
    case (Inl e)
    then show ?thesis using stepSchedule(3) by (simp add: CreateCommandAt_def)
  next
    case (Inr p)
    obtain d st1 where p: "p = (d, st1)" by (cases p)
    have "evolves (os_cmds st) (os_cmds st1)" using CreateCommand_ok(1) [OF Inr [unfolded p]] by (simp add: evolves_add)
    then show ?thesis using stepSchedule(3) Inr p evolves_trans [OF _ SetNotBefore_evolves]
      by (cases notBefore) (auto simp: CreateCommandAt_def)
  qed
next
  case (stepPoll t hdr ip a fl monitor openFindings version r)
  have "cmdsInv tr (os_cmds (st\<lparr>os_fleet := fl\<rparr>))" using inv by (simp add: opsInv_def)
  from handleHeartbeat_evolves [OF this, of "secs t" a ip monitor openFindings version] stepPoll(3)
  show ?thesis by simp
next
  case (stepResult t hdr ip a fl cid status result errMsg)
  then show ?thesis using handleCommandResult_evolves [of "st\<lparr>os_fleet := fl\<rparr>"] by simp
qed auto

section \<open>Draining\<close>

text \<open>The commands an agent is handed by polling again and again at a time.\<close>

primrec polls :: "nat \<Rightarrow> int \<Rightarrow> bytes \<Rightarrow> opState \<Rightarrow> bytes list" where
  "polls 0 t aid st = []"
| "polls (Suc n) t aid st =
     (case NextCommandForAgent t aid st of
        (None, st') \<Rightarrow> polls n t aid st'
      | (Some c, st') \<Rightarrow> cm_id c # polls n t aid st')"

definition due :: "int \<Rightarrow> bytes \<Rightarrow> Command list \<Rightarrow> Command list" where
  "due t aid cs = sort_key cm_created
     (filter (\<lambda>c. cm_agent c = aid \<and> cm_status c = StApproved \<and> cm_not_before c \<le> t \<and> \<not> cm_expires c < t) cs)"

definition dueNow :: "int \<Rightarrow> bytes \<Rightarrow> Command list \<Rightarrow> Command list" where
  "dueNow t aid cs = sort_key cm_created
     (filter (\<lambda>c. cm_agent c = aid \<and> cm_status c = StApproved \<and> cm_not_before c \<le> t) cs)"

lemma filter_updCmds_skip:
  assumes "\<And>c. P c \<Longrightarrow> \<not> Q (g c)"
  shows "filter Q (updCmds P g cs) = filter (\<lambda>c. Q c \<and> \<not> P c) cs"
  using assms by (induction cs) (auto simp: updCmds_def)

lemma dueNow_expire: "dueNow t aid (expireStale t aid cs) = due t aid cs"
proof -
  have "filter (\<lambda>c. cm_agent c = aid \<and> cm_status c = StApproved \<and> cm_not_before c \<le> t) (expireStale t aid cs) =
      filter (\<lambda>c. (cm_agent c = aid \<and> cm_status c = StApproved \<and> cm_not_before c \<le> t) \<and>
        \<not> (cm_agent c = aid \<and> (cm_status c = StPending \<or> cm_status c = StApproved) \<and> cm_expires c < t)) cs"
    unfolding expireStale_def by (rule filter_updCmds_skip) simp
  also have "\<dots> = filter (\<lambda>c. cm_agent c = aid \<and> cm_status c = StApproved \<and> cm_not_before c \<le> t \<and> \<not> cm_expires c < t) cs"
    by (rule filter_cong) auto
  finally show ?thesis by (simp add: dueNow_def due_def)
qed

lemma due_expire: "due t aid (expireStale t aid cs) = due t aid cs"
proof -
  have "expireStale t aid (expireStale t aid cs) = expireStale t aid cs"
    by (auto simp: expireStale_def updCmds_def)
  then show ?thesis using dueNow_expire [of t aid "expireStale t aid cs"] dueNow_expire [of t aid cs] by simp
qed

lemma due_sent:
  assumes "distinct (map cm_id cs)" and "due t aid cs = c # rest"
  shows "due t aid (updCmds (\<lambda>x. cm_id x = cm_id c) (\<lambda>x. x\<lparr>cm_status := StSent, cm_sent := t'\<rparr>) cs) = rest"
proof -
  let ?Q = "\<lambda>c. cm_agent c = aid \<and> cm_status c = StApproved \<and> cm_not_before c \<le> t \<and> \<not> cm_expires c < t"
  have "filter ?Q (updCmds (\<lambda>x. cm_id x = cm_id c) (\<lambda>x. x\<lparr>cm_status := StSent, cm_sent := t'\<rparr>) cs) =
      filter (\<lambda>x. ?Q x \<and> cm_id x \<noteq> cm_id c) cs"
    by (rule filter_updCmds_skip) simp
  also have "\<dots> = filter (\<lambda>x. cm_id x \<noteq> cm_id c) (filter ?Q cs)" by (simp add: conj_commute)
  finally have "due t aid (updCmds (\<lambda>x. cm_id x = cm_id c) (\<lambda>x. x\<lparr>cm_status := StSent, cm_sent := t'\<rparr>) cs) =
      filter (\<lambda>x. cm_id x \<noteq> cm_id c) (due t aid cs)"
    unfolding due_def filter_sort by (rule arg_cong)
  moreover have "cm_id c \<notin> cm_id ` set rest"
  proof -
    have "distinct (map cm_id (filter ?Q cs))" using assms(1) by (rule distinct_map_filter)
    then have "distinct (map cm_id (due t aid cs))" by (simp add: due_def distinct_map)
    then show ?thesis using assms(2) by simp
  qed
  ultimately show ?thesis using assms(2) by (auto simp: filter_id_conv image_iff)
qed

lemma polls_due:
  "cmdsInv tr (os_cmds st) \<Longrightarrow> polls n t aid st = take n (map cm_id (due t aid (os_cmds st)))"
proof (induction n arbitrary: st)
  case (Suc n)
  let ?cs = "expireStale t aid (os_cmds st)"
  have inv: "cmdsInv tr ?cs" by (rule expireStale_inv [OF Suc.prems])
  obtain r st' where nxt: "NextCommandForAgent t aid st = (r, st')" by (cases "NextCommandForAgent t aid st")
  have nd: "nextDue t aid ?cs = (case due t aid (os_cmds st) of [] \<Rightarrow> None | c # _ \<Rightarrow> Some c)"
    unfolding dueNow_expire [symmetric] by (simp add: nextDue_def dueNow_def)
  show ?case
  proof (cases "due t aid (os_cmds st)")
    case Nil
    then have "r = None" "st' = st\<lparr>os_cmds := ?cs\<rparr>" using nxt nd by (auto simp: NextCommandForAgent_def)
    then show ?thesis using Suc.IH [of st'] inv nxt Nil by (simp add: due_expire)
  next
    case (Cons c rest)
    then have some: "nextDue t aid ?cs = Some c" using nd by simp
    from nxt Suc.prems have "r = Some (c\<lparr>cm_status := StSent, cm_sent := t\<rparr>) \<and>
      st' = st\<lparr>os_cmds := updCmds (\<lambda>x. cm_id x = cm_id c) (\<lambda>x. x\<lparr>cm_status := StSent, cm_sent := t\<rparr>) ?cs\<rparr>"
    proof (cases rule: NextCommand_cases)
      case none
      then show ?thesis using some by simp
    next
      case (sent d)
      then show ?thesis using some by simp
    qed
    then have r: "r = Some (c\<lparr>cm_status := StSent, cm_sent := t\<rparr>)"
      "st' = st\<lparr>os_cmds := updCmds (\<lambda>x. cm_id x = cm_id c) (\<lambda>x. x\<lparr>cm_status := StSent, cm_sent := t\<rparr>) ?cs\<rparr>"
      by (rule conjunct1, rule conjunct2)
    have "due t aid (os_cmds st') = rest"
      using due_sent [of ?cs t aid c rest t] inv Cons unfolding r(2) by (simp add: due_expire cmdsInv_def)
    moreover have "cmdsInv tr (os_cmds st')"
      using sent_inv [OF inv, of c t] nextDue_mem [OF some] unfolding r(2) by simp
    ultimately show ?thesis using Suc.IH [of st'] nxt r(1) Cons by simp
  qed
qed simp

section \<open>Properties\<close>

lemma goodTrace_at: "goodTrace tr \<Longrightarrow> tr = a @ e # b \<Longrightarrow> goodEvent a e"
  by (simp add: goodTrace_def)

lemma created_unique:
  assumes "goodTrace tr" and "Created cid s1 u1 n1 \<in> set tr" and "Created cid s2 u2 n2 \<in> set tr"
  shows "n1 = n2"
proof -
  obtain a b where one: "tr = a @ Created cid s1 u1 n1 # b" using split_list [OF assms(2)] by blast
  have "\<not> list_ex (isCreation cid) a" using goodTrace_at [OF assms(1) one] by simp
  then have "Created cid s2 u2 n2 \<notin> set a" by (auto simp: list_ex_iff isCreation_def)
  then consider "n1 = n2" | "Created cid s2 u2 n2 \<in> set b" using assms(3) one by auto
  then show ?thesis
  proof cases
    case 2
    then obtain c d where "b = c @ Created cid s2 u2 n2 # d" using split_list by metis
    then have "tr = (a @ Created cid s1 u1 n1 # c) @ Created cid s2 u2 n2 # d" using one by simp
    from goodTrace_at [OF assms(1) this] show ?thesis by (simp add: isCreation_def)
  qed
qed

lemma goodTrace_prefix: "goodTrace (a @ b) \<Longrightarrow> goodTrace a"
  unfolding goodTrace_def by fastforce

text \<open>
  C27. Nothing that destroys, blinds or replaces is sent on one person's word. If in a run a
  containment, an uninstallation or an upgrade was handed to an agent, then before that an account
  that had signed in with its password and its second factor created it; likewise an account
  approved it, which is not the one named as the creator unless at that moment at most one account
  could approve; and a containment only went to a host that accepts it on both sides.
\<close>

theorem destructive_needs_approval:
  assumes "opsRun cr ulow csrf hash (tr, st)" and "tr = past @ HandedOut cid aid kind ok # rest"
    and "DestructiveKinds kind"
  shows "\<exists>a sid uid by n b c sid' uid' cb d.
    past = a @ Approved cid sid uid by n # b \<and> factors a sid uid \<and>
    past = c @ Created cid sid' uid' cb # d \<and> factors c sid' uid' \<and> (by \<noteq> cb \<or> n \<le> 1) \<and>
    (\<forall>s i name. Created cid s i name \<in> set past \<longrightarrow> name = cb) \<and> (kind = ''contain'' \<longrightarrow> ok)"
proof -
  have good: "goodTrace tr" using opsRun_inv [OF assms(1)] by (simp add: opsInv_def)
  then have e: "goodEvent past (HandedOut cid aid kind ok)" using assms(2) by (rule goodTrace_at)
  have gp: "goodTrace past" using good assms(2) goodTrace_prefix by blast
  obtain sid uid nm n sid' uid' cb where ap: "Approved cid sid uid nm n \<in> set past"
    and cr: "Created cid sid' uid' cb \<in> set past" and four: "nm \<noteq> cb \<or> n \<le> 1"
    using e assms(3) by (auto simp: authorised_def)
  obtain a b where a: "past = a @ Approved cid sid uid nm n # b" using split_list [OF ap] by blast
  obtain c d where c: "past = c @ Created cid sid' uid' cb # d" using split_list [OF cr] by blast
  have "factors a sid uid" "factors c sid' uid'" using goodTrace_at [OF gp a] goodTrace_at [OF gp c] by simp_all
  moreover have "\<forall>s i name. Created cid s i name \<in> set past \<longrightarrow> name = cb"
    using created_unique [OF gp _ cr] by blast
  moreover have "kind = ''contain'' \<longrightarrow> ok" using e by simp
  ultimately show ?thesis using a c four by (intro exI conjI) assumption+
qed

lemma handed_once: "goodTrace tr \<Longrightarrow> length (filter (isHandOut cid) tr) \<le> 1"
proof (induction tr rule: rev_induct)
  case (snoc e tr)
  then have g: "goodTrace tr" "goodEvent tr e" by (simp_all add: goodTrace_snoc)
  show ?case
  proof (cases "isHandOut cid e")
    case True
    then have "\<not> list_ex (isHandOut cid) tr" using g(2) by (cases e) (auto simp: isHandOut_def)
    then have "filter (isHandOut cid) tr = []" by (auto simp: list_ex_iff filter_empty_conv)
    then show ?thesis by simp
  next
    case False
    then show ?thesis using snoc.IH [OF g(1)] by simp
  qed
qed simp

text \<open>
  C28. The table refines the machine of one command. Each step of the system leaves every command
  the same order, at most further along its life: a pending one is released, handed out, reported on,
  or withdrawn, and an ended one stays as it is. Over a whole run no command is handed out twice.
\<close>

theorem command_lifecycle:
  assumes "opsRun cr ulow csrf hash (tr, st)" and "opsStep cr ulow csrf hash (tr, st) (tr', st')"
  shows "evolves (os_cmds st) (os_cmds st') \<and> length (filter (isHandOut cid) tr') \<le> 1"
proof -
  have inv: "opsInv cr ulow csrf (tr, st)" by (rule opsRun_inv [OF assms(1)])
  have "opsInv cr ulow csrf (tr', st')" by (rule opsStep_inv [OF assms(2) inv])
  then have "goodTrace tr'" by (simp add: opsInv_def)
  then show ?thesis using opsStep_evolves [OF assms(2) inv] handed_once by blast
qed


section \<open>A run\<close>

lemma consoleStep_extends: "consoleStep cr ulow csrf (tr, cn) (tr', cn') \<Longrightarrow> \<exists>es. tr' = tr @ es"
  by (cases rule: consoleStep.cases) auto

lemma opsRun_console:
  "consoleRun cr ulow csrf x \<Longrightarrow>
   opsRun cr ulow csrf hash (map Auth (fst x), \<lparr>os_console = snd x, os_fleet = fl, os_cmds = []\<rparr>)"
proof (induction rule: consoleRun.induct)
  case (runStart cn)
  then show ?case by (simp add: opsRun.opsStart)
next
  case (runStep x y)
  have step: "consoleStep cr ulow csrf (fst x, snd x) (fst y, snd y)" using runStep.hyps(2) by simp
  then obtain es where es: "fst y = fst x @ es" using consoleStep_extends by blast
  let ?st = "\<lparr>os_console = snd x, os_fleet = fl, os_cmds = []\<rparr>"
  have "consoleStep cr ulow csrf (authOf (map Auth (fst x)), os_console ?st) (authOf (map Auth (fst x)) @ es, snd y)"
    using step es by simp
  from opsRun.opsMore [OF runStep.IH opsStep.stepConsole [OF this]]
  show ?case by (simp add: es)
qed

definition channelAgent :: fleetAgent where
  "channelAgent = \<lparr>ar_id = ''a'', ar_hostname = [], ar_webroot = [], ar_retired = 0, ar_estate = None,
     fa_label = [], fa_site = [], fa_version = [], fa_os = [], fa_arch = [], fa_cred = ''c'', fa_enrolled = 0,
     fa_token = 1, fa_last_seen = 0, fa_last_ip = [], fa_contain = True, fa_opts_in = True,
     fa_monitor = False\<rparr>"

definition channelStart :: opState where
  "channelStart = \<lparr>os_console = sampleVerified, os_fleet = \<lparr>fl_tokens = [], fl_agents = [channelAgent],
     fl_heartbeats = [], fl_findings = [], fl_reports = [], fl_audit = []\<rparr>, os_cmds = []\<rparr>"

definition channelUser :: userRow where
  "channelUser = sampleUser\<lparr>us_last_step := 100, us_last_login := 3000\<rparr>"

definition channelSession :: sessionRow where
  "channelSession = \<lparr>se_id = ''sid'', se_user = 1, se_created = 3000, se_expires = 46200, se_mfa = True\<rparr>"

definition channelCommand :: Command where
  "channelCommand = \<lparr>cm_id = ''cmd_x'', cm_agent = ''a'', cm_kind = ''contain'', cm_params = [], cm_created = 3100,
     cm_by = ''ada'', cm_requires = True, cm_approved_by = [], cm_approved_at = 0, cm_status = StPending,
     cm_sent = 0, cm_completed = 0, cm_expires = 24700, cm_result = [], cm_error = [], cm_not_before = 0\<rparr>"

definition channelCreated :: opState where
  "channelCreated = snd (handleCreateCommand 3100000000000 ''x'' channelUser (sampleRequest False) ''a''
     ''contain'' [] channelStart)"

definition channelApproved :: opState where
  "channelApproved = snd (handleApproveCommand 3100000000000 channelUser (sampleRequest False) ''cmd_x'' channelCreated)"

lemma channel_guard:
  assumes "ad_sessions (cn_db cn) = [channelSession]" and "ad_users (cn_db cn) = [channelUser]"
  shows "writeGuard (\<lambda>s. s) 3100000000000 (sampleRequest False) cn = (Inr (channelSession, channelUser), cn)"
  using assms
  by (simp add: writeGuard_def authGuard_def sessionFrom_def checkCSRF_def sampleRequest_def LookupSession_def
      GetUser_def CanApprove_def secs_def sampleUser_def channelSession_def channelUser_def)

lemma channel_db:
  "ad_sessions (cn_db sampleVerified) = [channelSession]" "ad_users (cn_db sampleVerified) = [channelUser]"
  using sampleVerified_ok(2,3) by (simp_all add: channelSession_def channelUser_def)

lemma channelCreated_ok:
  "handleCreateCommand 3100000000000 ''x'' channelUser (sampleRequest False) ''a'' ''contain'' [] channelStart =
     (Inr channelCommand, channelCreated)"
  "os_cmds channelCreated = [channelCommand]" "cn_db (os_console channelCreated) = cn_db sampleVerified"
  "os_fleet channelCreated = os_fleet channelStart"
  unfolding channelCreated_def
  by (simp_all add: handleCreateCommand_def GetAgent_def channelStart_def channelAgent_def ContainAllowed_def
      CreateCommand_def commandKinds_def DestructiveKinds_def hours_def secs_def channelCommand_def channelUser_def
      sampleUser_def Let_def audit_def)

lemma channelApproved_ok:
  "handleApproveCommand 3100000000000 channelUser (sampleRequest False) ''cmd_x'' channelCreated =
     (Inr channelCommand, channelApproved)"
  "os_cmds channelApproved = [channelCommand\<lparr>cm_status := StApproved, cm_approved_by := ''ada'', cm_approved_at := 3100\<rparr>]"
  "os_fleet channelApproved = os_fleet channelStart"
  using channelCreated_ok(2-4) channel_db(2) unfolding channelApproved_def
  by (simp_all add: handleApproveCommand_def GetCommand_def ApproveCommand_def channelCommand_def CountApprovers_def
      updCmds_def secs_def channelUser_def sampleUser_def CanApprove_def)

lemma channel_run:
  "opsRun zeroCrypto (\<lambda>r. r) (\<lambda>s. s) (\<lambda>s. s)
     ([Auth (PasswordOK ''sid'' 1 3000), Auth (FactorOK ''sid'' 1), Created ''cmd_x'' ''sid'' 1 ''ada'',
       Approved ''cmd_x'' ''sid'' 1 ''ada'' 1], channelApproved)"
proof -
  let ?tr = "[Auth (PasswordOK ''sid'' 1 3000), Auth (FactorOK ''sid'' 1)]"
  have start: "opsRun zeroCrypto (\<lambda>r. r) (\<lambda>s. s) (\<lambda>s. s) (?tr, channelStart)"
    using opsRun_console [OF sample_run, of "\<lambda>s. s" "os_fleet channelStart"] by (simp add: channelStart_def)
  have g1: "writeGuard (\<lambda>s. s) 3100000000000 (sampleRequest False) (os_console channelStart) =
      (Inr (channelSession, channelUser), os_console channelStart)"
    using channel_db by (intro channel_guard) (simp_all add: channelStart_def)
  have "opsStep zeroCrypto (\<lambda>r. r) (\<lambda>s. s) (\<lambda>s. s) (?tr, channelStart)
      (?tr @ [Created ''cmd_x'' ''sid'' 1 ''ada''], channelCreated)"
    using opsStep.stepCreate [OF g1, of "''x''" "''a''" "''contain''" "[]" "Inr channelCommand" channelCreated
        zeroCrypto "\<lambda>r. r" "\<lambda>s. s" ?tr] channelCreated_ok(1)
    by (simp add: channelCommand_def channelSession_def channelUser_def sampleUser_def)
  then have two: "opsRun zeroCrypto (\<lambda>r. r) (\<lambda>s. s) (\<lambda>s. s) (?tr @ [Created ''cmd_x'' ''sid'' 1 ''ada''], channelCreated)"
    by (rule opsRun.opsMore [OF start])
  have db: "cn_db (os_console channelCreated) = cn_db sampleVerified" by (rule channelCreated_ok(3))
  have g2: "writeGuard (\<lambda>s. s) 3100000000000 (sampleRequest False) (os_console channelCreated) =
      (Inr (channelSession, channelUser), os_console channelCreated)"
    using channel_db by (intro channel_guard) (simp_all add: db)
  have "CountApprovers (cn_db (os_console channelCreated)) = 1"
    using channel_db(2) by (simp add: db CountApprovers_def channelUser_def sampleUser_def CanApprove_def)
  then have "opsStep zeroCrypto (\<lambda>r. r) (\<lambda>s. s) (\<lambda>s. s) (?tr @ [Created ''cmd_x'' ''sid'' 1 ''ada''], channelCreated)
      ((?tr @ [Created ''cmd_x'' ''sid'' 1 ''ada'']) @ [Approved ''cmd_x'' ''sid'' 1 ''ada'' 1], channelApproved)"
    using opsStep.stepApprove [OF g2, of "''cmd_x''" "Inr channelCommand" channelApproved zeroCrypto "\<lambda>r. r" "\<lambda>s. s"
        "?tr @ [Created ''cmd_x'' ''sid'' 1 ''ada'']"] channelApproved_ok(1)
    by (simp add: channelSession_def channelUser_def sampleUser_def)
  from opsRun.opsMore [OF two this] show ?thesis by simp
qed

definition channelSent :: opState where
  "channelSent = snd (handleHeartbeat 3200 channelAgent [] False 0 [] channelApproved)"

abbreviation "channelTrace \<equiv> [Auth (PasswordOK ''sid'' 1 3000), Auth (FactorOK ''sid'' 1),
  Created ''cmd_x'' ''sid'' 1 ''ada'', Approved ''cmd_x'' ''sid'' 1 ''ada'' 1]"

text \<open>The poll of the agent, which is handed the containment.\<close>

lemma channel_auth:
  "agentAuth (\<lambda>s. s) (secs 3200000000000) ''Bearer a.c'' [] (os_fleet channelApproved) =
     (Inr channelAgent, os_fleet channelApproved)"
proof -
  have "hasPrefix ''Bearer a.c'' ''Bearer ''"
    "cutDot (trimSpace (trimPrefix ''Bearer a.c'' ''Bearer '')) = Some (''a'', ''c'')" by code_simp+
  then show ?thesis
    unfolding channelApproved_ok(3) by (simp add: agentAuth_def AuthAgent_def channelStart_def channelAgent_def)
qed

lemma channel_poll:
  "opsStep zeroCrypto (\<lambda>r. r) (\<lambda>s. s) (\<lambda>s. s) (channelTrace, channelApproved)
     (channelTrace @ [HandedOut ''cmd_x'' ''a'' ''contain'' True], channelSent)"
proof -
  let ?c = "channelCommand\<lparr>cm_status := StSent, cm_approved_by := ''ada'', cm_approved_at := 3100, cm_sent := 3200\<rparr>"
  have "fst (handleHeartbeat 3200 channelAgent [] False 0 [] channelApproved) = Some ?c"
    using channelApproved_ok(2)
    by (simp add: handleHeartbeat_def NextCommandForAgent_def expireStale_def updCmds_def nextDue_def GetCommand_def
        channelCommand_def channelAgent_def ContainAllowed_def Let_def)
  then have h: "handleHeartbeat (secs 3200000000000) channelAgent [] False 0 []
      (channelApproved\<lparr>os_fleet := os_fleet channelApproved\<rparr>) = (Some ?c, channelSent)"
    by (simp add: channelSent_def secs_def prod_eq_iff)
  from opsStep.stepPoll [OF channel_auth h, of zeroCrypto "\<lambda>r. r" "\<lambda>s. s" channelTrace]
  show ?thesis by (simp add: channelCommand_def channelAgent_def ContainAllowed_def)
qed

theorem destructive_needs_approval_witness:
  "\<exists>a sid uid by n b c sid' uid' cb d.
    channelTrace = a @ Approved ''cmd_x'' sid uid by n # b \<and> factors a sid uid \<and>
    channelTrace = c @ Created ''cmd_x'' sid' uid' cb # d \<and> factors c sid' uid' \<and> (by \<noteq> cb \<or> n \<le> 1)"
proof -
  have run: "opsRun zeroCrypto (\<lambda>r. r) (\<lambda>s. s) (\<lambda>s. s)
      (channelTrace @ [HandedOut ''cmd_x'' ''a'' ''contain'' True], channelSent)"
    by (rule opsRun.opsMore [OF channel_run channel_poll])
  have d: "DestructiveKinds ''contain''" by (simp add: DestructiveKinds_def)
  from destructive_needs_approval [OF run refl d] show ?thesis by (elim exE conjE) (intro exI conjI)
qed

theorem command_lifecycle_witness:
  "evolves (os_cmds channelApproved) (os_cmds channelSent) \<and>
   length (filter (isHandOut ''cmd_x'') (channelTrace @ [HandedOut ''cmd_x'' ''a'' ''contain'' True])) \<le> 1"
  by (rule command_lifecycle [OF channel_run channel_poll])


end
