(* ===== verification/FleetTokens.thy ===== *)
theory FleetTokens
  imports Fleet
begin

text \<open>Enrolment: what a token admits, and that an enrolled agent can authenticate.\<close>

section \<open>Runs of token operations\<close>

datatype tokenOp =
    Mint int bytes int bytes bytes int int bool
  | Burn int bytes
  | Revoke int int bytes
  | Scope int int

text \<open>Whether a use was granted, and the database after the operation.\<close>

fun tokenStep :: "(bytes \<Rightarrow> bytes) \<Rightarrow> tokenOp \<Rightarrow> fleetDB \<Rightarrow> bool \<times> fleetDB" where
  "tokenStep hash (Mint i secret t label by ttl uses contain) db =
     (case CreateEnrollToken hash i secret t label by ttl uses contain db of
        Inl e \<Rightarrow> (False, db) | Inr (r, db') \<Rightarrow> (False, db'))"
| "tokenStep hash (Burn t plain) db =
     (case ConsumeEnrollToken hash t plain db of (Inl e, db') \<Rightarrow> (False, db') | (Inr tk, db') \<Rightarrow> (True, db'))"
| "tokenStep hash (Revoke t i by) db = (False, RevokeEnrollToken t i by db)"
| "tokenStep hash (Scope i e) db = (False, SetTokenEstate i e db)"

text \<open>Whether an operation grants a use of the token with a given hash, and how often a run does.\<close>

definition granted :: "(bytes \<Rightarrow> bytes) \<Rightarrow> bytes \<Rightarrow> tokenOp \<Rightarrow> fleetDB \<Rightarrow> nat" where
  "granted hash h op db =
     (if fst (tokenStep hash op db) \<and> (case op of Burn t p \<Rightarrow> hash p = h | _ \<Rightarrow> False) then 1 else 0)"

primrec grants :: "(bytes \<Rightarrow> bytes) \<Rightarrow> bytes \<Rightarrow> tokenOp list \<Rightarrow> fleetDB \<Rightarrow> nat" where
  "grants hash h [] db = 0"
| "grants hash h (op # ops) db = granted hash h op db + grants hash h ops (snd (tokenStep hash op db))"

primrec tokenRun :: "(bytes \<Rightarrow> bytes) \<Rightarrow> tokenOp list \<Rightarrow> fleetDB \<Rightarrow> fleetDB" where
  "tokenRun hash [] db = db"
| "tokenRun hash (op # ops) db = tokenRun hash ops (snd (tokenStep hash op db))"

section \<open>Lemmas\<close>

definition tokensOk :: "fleetDB \<Rightarrow> bool" where
  "tokensOk db \<longleftrightarrow> distinct (map tk_hash (fl_tokens db)) \<and> distinct (map tk_id (fl_tokens db))"

text \<open>A row descends from another: same key, same limits, no fewer uses, revocation kept.\<close>

definition descends :: "tokenRow \<Rightarrow> nat \<Rightarrow> tokenRow \<Rightarrow> bool" where
  "descends tk n x \<longleftrightarrow> tk_id x = tk_id tk \<and> tk_hash x = tk_hash tk \<and> tk_allowed x = tk_allowed tk \<and>
     tk_expires x = tk_expires tk \<and> tk_consumed x = tk_consumed tk + int n \<and> (tk_revoked tk \<longrightarrow> tk_revoked x)"

lemma updToken_keys:
  assumes "\<And>x. tk_id (g x) = tk_id x" "\<And>x. tk_hash (g x) = tk_hash x"
  shows "tokensOk (updToken i g db) \<longleftrightarrow> tokensOk db"
  using assms by (simp add: tokensOk_def updToken_def comp_def if_distrib cong: if_cong)

lemma mem_updToken: "x \<in> set (fl_tokens db) \<Longrightarrow> (if tk_id x = i then g x else x) \<in> set (fl_tokens (updToken i g db))"
  by (simp add: updToken_def)

lemma find_hash:
  assumes "tokensOk db" and "x \<in> set (fl_tokens db)"
  shows "find (\<lambda>y. tk_hash y = tk_hash x) (fl_tokens db) = Some x"
proof -
  have "inj_on tk_hash (set (fl_tokens db))" using assms(1) by (simp add: tokensOk_def distinct_map)
  moreover obtain y where y: "find (\<lambda>y. tk_hash y = tk_hash x) (fl_tokens db) = Some y"
    using assms(2) by (cases "find (\<lambda>y. tk_hash y = tk_hash x) (fl_tokens db)") (auto simp: find_None_iff)
  ultimately show ?thesis using find_SomeD [OF y] assms(2) by (auto dest: inj_onD)
qed

lemma Consume_granted:
  assumes "ConsumeEnrollToken hash t plain db = (Inr tk', db')"
  obtains tk where "find (\<lambda>x. tk_hash x = hash plain) (fl_tokens db) = Some tk" "\<not> tk_revoked tk"
    "tk_expires tk = 0 \<or> t \<le> tk_expires tk" "tk_consumed tk < tk_allowed tk"
    "db' = updToken (tk_id tk) (\<lambda>x. x\<lparr>tk_consumed := tk_consumed x + 1\<rparr>) db"
  using assms by (fastforce simp: ConsumeEnrollToken_def split: option.splits if_splits)

lemma Consume_refused: "ConsumeEnrollToken hash t plain db = (Inl e, db') \<Longrightarrow> db' = db"
  by (auto simp: ConsumeEnrollToken_def split: option.splits if_splits)

lemma tokenStep_ok: "tokensOk db \<Longrightarrow> tokensOk (snd (tokenStep hash op db))"
proof (cases op)
  case (Burn t plain)
  assume ok: "tokensOk db"
  show ?thesis
  proof (cases "ConsumeEnrollToken hash t plain db")
    case (Pair r db')
    show ?thesis
    proof (cases r)
      case (Inl e)
      with Pair have "db' = db" using Consume_refused by blast
      then show ?thesis using ok Pair Inl Burn by simp
    next
      case (Inr tk')
      with Pair have c: "ConsumeEnrollToken hash t plain db = (Inr tk', db')" by simp
      obtain tk where "find (\<lambda>x. tk_hash x = hash plain) (fl_tokens db) = Some tk" "\<not> tk_revoked tk"
        "tk_expires tk = 0 \<or> t \<le> tk_expires tk" "tk_consumed tk < tk_allowed tk"
        "db' = updToken (tk_id tk) (\<lambda>x. x\<lparr>tk_consumed := tk_consumed x + 1\<rparr>) db"
        by (rule Consume_granted [OF c])
      then show ?thesis using ok Pair Inr Burn by (simp add: updToken_keys)
    qed
  qed
next
  case (Mint i secret t label by' ttl uses contain)
  assume ok: "tokensOk db"
  then show ?thesis using Mint
    by (auto simp: CreateEnrollToken_def Let_def tokensOk_def list_ex_iff)
qed (simp_all add: RevokeEnrollToken_def SetTokenEstate_def updToken_keys)

lemma tokenStep_descends:
  assumes ok: "tokensOk db" and x: "x \<in> set (fl_tokens db)" and bound: "tk_consumed x \<le> tk_allowed x"
  shows "(\<exists>y\<in>set (fl_tokens (snd (tokenStep hash op db))).
      descends x (granted hash (tk_hash x) op db) y \<and> tk_consumed y \<le> tk_allowed y) \<and>
    (tk_revoked x \<longrightarrow> granted hash (tk_hash x) op db = 0)"
proof -
  have upd: "\<exists>y\<in>set (fl_tokens (updToken i g db)). descends x 0 y \<and> tk_consumed y \<le> tk_allowed y"
    if "descends x 0 (g x)" for i g
    using mem_updToken [OF x, of i g] bound that
    by (intro bexI [of _ "if tk_id x = i then g x else x"]) (auto simp: descends_def)
  show ?thesis
  proof (cases op)
    case (Mint i secret t label by' ttl uses contain)
    then show ?thesis using x bound
      by (auto simp: granted_def CreateEnrollToken_def Let_def descends_def)
  next
    case (Revoke t i by')
    then show ?thesis using upd by (simp add: granted_def RevokeEnrollToken_def descends_def)
  next
    case (Scope i e)
    then show ?thesis using upd by (simp add: granted_def SetTokenEstate_def descends_def)
  next
    case (Burn t plain)
    show ?thesis
    proof (cases "ConsumeEnrollToken hash t plain db")
      case (Pair r db')
      show ?thesis
      proof (cases r)
        case (Inl e)
        with Pair have "db' = db" using Consume_refused by blast
        then show ?thesis using x bound Pair Inl Burn by (auto simp: granted_def descends_def)
      next
        case (Inr tk')
        with Pair have c: "ConsumeEnrollToken hash t plain db = (Inr tk', db')" by simp
        obtain z where z: "find (\<lambda>x. tk_hash x = hash plain) (fl_tokens db) = Some z" "\<not> tk_revoked z"
          "tk_expires z = 0 \<or> t \<le> tk_expires z" "tk_consumed z < tk_allowed z"
          "db' = updToken (tk_id z) (\<lambda>x. x\<lparr>tk_consumed := tk_consumed x + 1\<rparr>) db"
          by (rule Consume_granted [OF c])
        note zz = find_SomeD [OF z(1)]
        have k: "granted hash (tk_hash x) op db = (if z = x then 1 else 0)"
          using Inr Pair Burn zz find_hash [OF ok x] z(1) by (auto simp: granted_def)
        have ids: "tk_id x = tk_id z \<longleftrightarrow> z = x"
          using ok x zz by (auto simp: tokensOk_def distinct_map dest: inj_onD)
        let ?y = "if tk_id x = tk_id z then x\<lparr>tk_consumed := tk_consumed x + 1\<rparr> else x"
        have "?y \<in> set (fl_tokens db')" unfolding z(5) by (rule mem_updToken [OF x])
        moreover have "descends x (if z = x then 1 else 0) ?y \<and> tk_consumed ?y \<le> tk_allowed ?y"
          using bound z(4) ids by (auto simp: descends_def)
        ultimately have "\<exists>y\<in>set (fl_tokens db'). descends x (if z = x then 1 else 0) y \<and> tk_consumed y \<le> tk_allowed y"
          by blast
        moreover have "snd (tokenStep hash op db) = db'" using Inr Pair Burn by simp
        ultimately show ?thesis using k z(2) by (cases "z = x") simp_all
      qed
    qed
  qed
qed

lemma descends_trans: "descends x n y \<Longrightarrow> descends y m z \<Longrightarrow> descends x (n + m) z"
  by (simp add: descends_def)

lemma run_descends:
  assumes "tokensOk db" and "x \<in> set (fl_tokens db)" "tk_consumed x \<le> tk_allowed x"
  shows "(\<exists>y\<in>set (fl_tokens (tokenRun hash ops db)). descends x (grants hash (tk_hash x) ops db) y \<and>
      tk_consumed y \<le> tk_allowed y) \<and> (tk_revoked x \<longrightarrow> grants hash (tk_hash x) ops db = 0)"
  using assms
proof (induction ops arbitrary: db x)
  case Nil
  then show ?case by (auto simp: descends_def)
next
  case (Cons op ops)
  let ?k = "granted hash (tk_hash x) op db"
  obtain y where y: "y \<in> set (fl_tokens (snd (tokenStep hash op db)))" "descends x ?k y"
    "tk_consumed y \<le> tk_allowed y" and k: "tk_revoked x \<longrightarrow> ?k = 0"
    using tokenStep_descends [OF Cons.prems, of hash op] by blast
  have eq: "tk_hash y = tk_hash x" "tk_revoked x \<longrightarrow> tk_revoked y" using y(2) by (simp_all add: descends_def)
  from Cons.IH [OF tokenStep_ok [OF Cons.prems(1), of hash op] y(1,3), unfolded eq(1)]
  show ?case using descends_trans [OF y(2)] k eq(2) by auto
qed

section \<open>Enrolled agents\<close>

lemma handleEnroll_accepted:
  assumes "handleEnroll hash detail t rawID credSecret ip token req db = (Inr resp, db')"
  shows "\<exists>tok db1 (req' :: EnrollRequest). ConsumeEnrollToken hash t token db = (Inr tok, db1) \<and>
    en_AgentID resp = ''ag_'' @ rawID \<and> en_Credential resp = ''wac_'' @ credSecret \<and>
    (en_AllowRemoteContain resp \<longleftrightarrow> tk_contain tok \<and> er_OptInContain req) \<and>
    (\<forall>a\<in>set (fl_agents db1). ar_id a \<noteq> ''ag_'' @ rawID) \<and> er_OptInContain req' = er_OptInContain req \<and>
    fl_agents db' = fl_agents db1 @ [newAgent hash t (''ag_'' @ rawID) (''wac_'' @ credSecret) req' tok ip]"
proof -
  obtain r1 db1 where c: "ConsumeEnrollToken hash t token db = (r1, db1)" by (cases "ConsumeEnrollToken hash t token db")
  with assms obtain tok where tok: "r1 = Inr tok" by (cases r1) (auto simp: handleEnroll_def split: if_splits)
  define req' :: EnrollRequest where
    "req' = \<lparr>er_Hostname = clamp (er_Hostname req) 128,
       er_Label = (if clamp (er_Label req) 128 = [] then tk_label tok else clamp (er_Label req) 128),
       er_Site = clamp (er_Site req) 128, er_Webroot = clamp (er_Webroot req) 512,
       er_Version = clamp (er_Version req) 64, er_OS = clamp (er_OS req) 32,
       er_Arch = clamp (er_Arch req) 32, er_OptInContain = er_OptInContain req\<rparr>"
  have eq: "(case EnrollAgent hash t rawID credSecret req' tok ip db1 of
       Inl e \<Rightarrow> (Inl (500 :: int), db1)
     | Inr ((aid, cred), db2) \<Rightarrow>
         (Inr \<lparr>en_AgentID = aid, en_Credential = cred, en_AllowRemoteContain = tk_contain tok \<and> er_OptInContain req,
            en_HeartbeatSeconds = 60\<rparr>,
          db2\<lparr>fl_audit := Audit t (''agent:'' @ aid) ''enroll.accepted'' aid (detail req' tok) ip ''ok''
            (fl_audit db2)\<rparr>)) = (Inr resp, db')"
  proof -
    have "token \<noteq> []" using assms by (auto simp: handleEnroll_def)
    then show ?thesis using assms unfolding handleEnroll_def Let_def c tok req'_def
      by (simp only: if_False prod.case sum.case)
  qed
  have new: "\<not> list_ex (\<lambda>a. ar_id a = ''ag_'' @ rawID) (fl_agents db1)"
  proof
    assume "list_ex (\<lambda>a. ar_id a = ''ag_'' @ rawID) (fl_agents db1)"
    then show False using eq by (simp add: EnrollAgent_def Let_def)
  qed
  have opt: "er_OptInContain req' = er_OptInContain req" by (simp add: req'_def)
  have "\<lparr>en_AgentID = ''ag_'' @ rawID, en_Credential = ''wac_'' @ credSecret,
      en_AllowRemoteContain = tk_contain tok \<and> er_OptInContain req, en_HeartbeatSeconds = 60\<rparr> = resp"
    and "fl_agents db' = fl_agents db1 @ [newAgent hash t (''ag_'' @ rawID) (''wac_'' @ credSecret) req' tok ip]"
    using eq unfolding EnrollAgent_def Let_def if_not_P [OF new] by auto
  then show ?thesis using new c tok opt by (auto simp: list_ex_iff)
qed

lemma AuthAgent_last:
  assumes "fl_agents db = as @ [a]" and "\<forall>x\<in>set as. ar_id x \<noteq> ar_id a"
    and "fa_cred a = hash cred" and "ar_retired a = 0"
  shows "fst (AuthAgent hash t (ar_id a) cred ip db) = Inr a"
proof -
  have "find (\<lambda>x. ar_id x = ar_id a) as = None" using assms(2) by (auto simp: find_None_iff)
  then have "find (\<lambda>x. ar_id x = ar_id a) (as @ [a]) = Some a" by (induction as) (auto split: if_splits)
  then show ?thesis using assms by (simp add: AuthAgent_def)
qed

lemma updAgent_mem: "x \<in> set (fl_agents (updAgent i g db)) \<Longrightarrow> \<exists>y. x = (if ar_id y = i then g y else y)"
  unfolding updAgent_def by (simp add: image_iff) blast

lemma AuthAgent_retired: "fst (AuthAgent hash t aid cred ip (RetireAgent aid db)) \<noteq> Inr a"
proof (cases "find (\<lambda>a. ar_id a = aid) (fl_agents (RetireAgent aid db))")
  case (Some x)
  have id: "ar_id x = aid" and mem: "x \<in> set (fl_agents (RetireAgent aid db))" using find_SomeD [OF Some] by simp_all
  obtain y where "x = (if ar_id y = aid then y\<lparr>ar_retired := 1\<rparr> else y)"
    using updAgent_mem [OF mem [unfolded RetireAgent_def]] by (elim exE)
  with id have "ar_retired x = 1" by (cases "ar_id y = aid") simp_all
  then show ?thesis unfolding AuthAgent_def Some by simp
next
  case None
  then show ?thesis unfolding AuthAgent_def None by simp
qed

section \<open>Properties\<close>

text \<open>
  C30. The uses of an enrolment token are bounded. In any sequence of minting, consuming, revoking
  and scoping, however interleaved, the uses granted to a token never exceed what its row still
  allows; the row counts exactly the uses granted; and a token that is revoked grants none.
\<close>

theorem token_uses_bounded:
  assumes "tokensOk db" and "tk \<in> set (fl_tokens db)" and "tk_consumed tk \<le> tk_allowed tk"
  shows "int (grants hash (tk_hash tk) ops db) \<le> tk_allowed tk - tk_consumed tk \<and>
    (tk_revoked tk \<longrightarrow> grants hash (tk_hash tk) ops db = 0) \<and>
    (\<exists>y\<in>set (fl_tokens (tokenRun hash ops db)). tk_id y = tk_id tk \<and>
       tk_consumed y = tk_consumed tk + int (grants hash (tk_hash tk) ops db))"
  using run_descends [OF assms, of hash ops] by (auto simp: descends_def)

definition sampleToken :: tokenRow where
  "sampleToken = \<lparr>tk_id = 1, tk_hash = ''wek_x'', tk_prefix = ''wek_x'', tk_label = ''lab'', tk_by = ''ada'',
     tk_created = 0, tk_expires = 100, tk_allowed = 2, tk_consumed = 0, tk_contain = True, tk_revoked = False,
     tk_revoked_by = [], tk_revoked_at = 0, tk_estate = Some 7\<rparr>"

definition sampleFleet :: fleetDB where
  "sampleFleet = \<lparr>fl_tokens = [sampleToken], fl_agents = [], fl_heartbeats = [], fl_findings = [],
     fl_reports = [], fl_audit = []\<rparr>"

text \<open>An attempt after the expiry is not granted; of three in time at most two are.\<close>

theorem token_uses_bounded_witness:
  "grants (\<lambda>s. s) (tk_hash sampleToken) [Burn 101 ''wek_x'', Burn 5 ''wek_x''] sampleFleet = 1 \<and>
   int (grants (\<lambda>s. s) (tk_hash sampleToken) (replicate 3 (Burn 5 ''wek_x'')) sampleFleet) \<le> 2"
proof
  show "grants (\<lambda>s. s) (tk_hash sampleToken) [Burn 101 ''wek_x'', Burn 5 ''wek_x''] sampleFleet = 1"
    by code_simp
  have "int (grants (\<lambda>s. s) (tk_hash sampleToken) (replicate 3 (Burn 5 ''wek_x'')) sampleFleet) \<le>
      tk_allowed sampleToken - tk_consumed sampleToken"
    by (rule token_uses_bounded [THEN conjunct1]) (simp_all add: tokensOk_def sampleFleet_def sampleToken_def)
  then show "int (grants (\<lambda>s. s) (tk_hash sampleToken) (replicate 3 (Burn 5 ''wek_x'')) sampleFleet) \<le> 2"
    by (simp add: sampleToken_def)
qed


definition sampleEnroll :: EnrollRequest where
  "sampleEnroll = \<lparr>er_Hostname = ''web1'', er_Label = [], er_Site = [], er_Webroot = ''/w'', er_Version = ''1'',
     er_OS = ''linux'', er_Arch = ''amd64'', er_OptInContain = False\<rparr>"


end
