(* ===== verification/FleetFindings.thy ===== *)
theory FleetFindings
  imports Fleet
begin

text \<open>Findings as the console keeps them: one row per artefact, bounded content.\<close>

section \<open>One row per agent and key\<close>

definition rowKey :: "storedFinding \<Rightarrow> bytes \<times> bytes" where
  "rowKey r = (fr_agent r, sf_key r)"

definition findingsOk :: "fleetDB \<Rightarrow> bool" where
  "findingsOk db \<longleftrightarrow> distinct (map rowKey (fl_findings db))"

lemma rowKey_refreshed [simp]: "rowKey (refreshed t f r) = rowKey r"
  by (simp add: rowKey_def refreshed_def)

lemma rowKey_new [simp]: "rowKey (newFinding i t aid f) = (aid, DedupeKey f)"
  by (simp add: rowKey_def newFinding_def)

lemma hits_rowKey: "(\<lambda>r. fr_agent r = aid \<and> sf_key r = k) = (\<lambda>r. rowKey r = (aid, k))"
  by (auto simp: rowKey_def)

text \<open>The two outcomes of an upsert, over the keys.\<close>

lemma UpsertFinding_cases:
  assumes "UpsertFinding t aid f db = Inr db'"
  obtains (old) r where "find (\<lambda>r. rowKey r = (aid, DedupeKey f)) (fl_findings db) = Some r"
      "db' = db\<lparr>fl_findings := map (\<lambda>r. if rowKey r = (aid, DedupeKey f) then refreshed t f r else r) (fl_findings db)\<rparr>"
    | (new) "find (\<lambda>r. rowKey r = (aid, DedupeKey f)) (fl_findings db) = None"
      "db' = db\<lparr>fl_findings := fl_findings db @ [newFinding (nextFindingId db) t aid f]\<rparr>"
proof (cases "list_ex (\<lambda>r. rowKey r = (aid, DedupeKey f)) (fl_findings db)")
  case True
  then obtain r where "find (\<lambda>r. rowKey r = (aid, DedupeKey f)) (fl_findings db) = Some r"
    by (cases "find (\<lambda>r. rowKey r = (aid, DedupeKey f)) (fl_findings db)") (auto simp: find_None_iff list_ex_iff)
  with True assms show ?thesis by (intro old) (simp_all add: UpsertFinding_def hits_rowKey)
next
  case False
  then have "find (\<lambda>r. rowKey r = (aid, DedupeKey f)) (fl_findings db) = None"
    by (auto simp: find_None_iff list_ex_iff)
  with False assms show ?thesis
    by (intro new) (simp_all add: UpsertFinding_def hits_rowKey split: if_splits)
qed

lemma UpsertFinding_ok: "UpsertFinding t aid f db = Inr db' \<Longrightarrow> findingsOk db \<Longrightarrow> findingsOk db'"
proof (erule UpsertFinding_cases)
  fix r
  assume ok: "findingsOk db"
    and db': "db' = db\<lparr>fl_findings := map (\<lambda>r. if rowKey r = (aid, DedupeKey f) then refreshed t f r else r) (fl_findings db)\<rparr>"
  have "map rowKey (fl_findings db') = map rowKey (fl_findings db)" unfolding db' by simp
  then show "findingsOk db'" using ok by (simp add: findingsOk_def)
next
  assume "findingsOk db" and "find (\<lambda>r. rowKey r = (aid, DedupeKey f)) (fl_findings db) = None"
    and "db' = db\<lparr>fl_findings := fl_findings db @ [newFinding (nextFindingId db) t aid f]\<rparr>"
  then show "findingsOk db'" by (auto simp: findingsOk_def find_None_iff)
qed

lemma UpsertFinding_length: "UpsertFinding t aid f db = Inr db' \<Longrightarrow> length (fl_findings db') \<le> length (fl_findings db) + 1"
  by (erule UpsertFinding_cases) simp_all

section \<open>Bounded content\<close>

definition clean :: "nat \<Rightarrow> bytes \<Rightarrow> bool" where
  "clean n s \<longleftrightarrow> length s \<le> n \<and>
     list_all (\<lambda>c. 0x20 \<le> (of_char c :: nat) \<or> c = CHR ''\<newline>'' \<or> c = CHR 0x09) s"

lemma clean_clamp: "clean n (clamp s n)"
  by (auto simp: clean_def clamp_def list_all_iff dest!: in_set_takeD)

definition boundedInput :: "FindingInput \<Rightarrow> bool" where
  "boundedInput f \<longleftrightarrow> clean 128 (in_RuleID f) \<and> clean 32 (in_Class f) \<and> clean 512 (in_Title f) \<and>
     clean 8192 (in_Detail f) \<and> clean 1024 (in_Path f) \<and> clean 64 (in_SHA256 f) \<and>
     clean 4096 (in_Evidence f) \<and> clean 2048 (in_Remediation f) \<and>
     in_Severity f \<in> {''critical'', ''high'', ''medium'', ''low'', ''info''} \<and>
     in_Confidence f \<in> {''confirmed'', ''likely'', ''review''}"

definition boundedFindings :: "fleetDB \<Rightarrow> bool" where
  "boundedFindings db \<longleftrightarrow> list_all (\<lambda>r. boundedInput (sf_input r)) (fl_findings db)"

lemma clampSeverity_mem: "clampSeverity s \<in> {''critical'', ''high'', ''medium'', ''low'', ''info''}"
  by (simp add: clampSeverity_def)

lemma clampConfidence_mem: "clampConfidence ulow s \<in> {''confirmed'', ''likely'', ''review''}"
  by (simp add: clampConfidence_def Let_def)

lemma sanitizeFinding_bounded: "boundedInput (sanitizeFinding ulow f)"
  using clampSeverity_mem clampConfidence_mem
  by (simp add: boundedInput_def sanitizeFinding_def clean_clamp del: insert_iff)

lemma refreshed_bounded: "boundedInput f \<Longrightarrow> boundedInput (sf_input r) \<Longrightarrow> boundedInput (sf_input (refreshed t f r))"
  by (simp add: boundedInput_def refreshed_def del: insert_iff)

lemma new_bounded: "boundedInput f \<Longrightarrow> boundedInput (sf_input (newFinding i t aid f))"
  by (simp add: boundedInput_def newFinding_def del: insert_iff)

lemma UpsertFinding_bounded:
  "UpsertFinding t aid f db = Inr db' \<Longrightarrow> boundedInput f \<Longrightarrow> boundedFindings db \<Longrightarrow> boundedFindings db'"
  by (erule UpsertFinding_cases)
    (auto simp: boundedFindings_def list_all_iff refreshed_bounded new_bounded)

text \<open>What the loops of the two handlers do: all rows stay bounded, one new row at most per finding accepted.\<close>

definition grown :: "fleetDB \<Rightarrow> fleetDB \<Rightarrow> nat \<Rightarrow> bool" where
  "grown db db' n \<longleftrightarrow> (boundedFindings db \<longrightarrow> boundedFindings db') \<and> (findingsOk db \<longrightarrow> findingsOk db') \<and>
     length (fl_findings db') \<le> length (fl_findings db) + n"

lemma grown_upsert:
  assumes "UpsertFinding t aid (sanitizeFinding ulow f) db = Inr db1" and "grown db1 db' n"
  shows "grown db db' (Suc n)"
proof -
  have "length (fl_findings db1) \<le> length (fl_findings db) + 1" using UpsertFinding_length [OF assms(1)] .
  moreover have "boundedFindings db \<Longrightarrow> boundedFindings db1"
    using UpsertFinding_bounded [OF assms(1) sanitizeFinding_bounded] .
  moreover have "findingsOk db \<Longrightarrow> findingsOk db1" using UpsertFinding_ok [OF assms(1)] .
  ultimately show ?thesis using assms(2) by (simp add: grown_def)
qed

lemma eventsLoop_grown:
  "eventsLoop ulow t aid fs a b db = ((a', b'), db') \<Longrightarrow>
     a \<le> a' \<and> a' + b' \<le> a + b + length fs \<and> grown db db' (a' - a)"
proof (induction ulow t aid fs a b db rule: eventsLoop.induct)
  case (2 ulow t aid f fs a b db)
  let ?g = "sanitizeFinding ulow f"
  show ?case
  proof (cases "in_RuleID ?g = []")
    case True
    with 2(1) [OF refl] 2(4) show ?thesis by (simp add: Let_def)
  next
    case False
    show ?thesis
    proof (cases "UpsertFinding t aid ?g db")
      case (Inl e)
      with 2(2) [OF refl False Inl] 2(4) False show ?thesis by (simp add: Let_def)
    next
      case (Inr db1)
      with 2(3) [OF refl False Inr] 2(4) False
      have ih: "a + 1 \<le> a'" "a' + b' \<le> a + 1 + b + length fs" "grown db1 db' (a' - (a + 1))" by (simp_all add: Let_def)
      have "Suc (a' - (a + 1)) = a' - a" using ih(1) by simp
      then show ?thesis using grown_upsert [OF Inr ih(3)] ih by simp
    qed
  qed
qed (simp add: grown_def)

lemma reportLoop_grown:
  "reportLoop ulow t aid n fs a b db = ((a', d, b'), db') \<Longrightarrow> a \<le> maxFindingsPerReport \<Longrightarrow>
     a \<le> a' \<and> a' \<le> maxFindingsPerReport \<and> grown db db' (a' - a) \<and> (d = 0 \<or> d = n - a' \<and> a' = maxFindingsPerReport)"
proof (induction ulow t aid n fs a b db rule: reportLoop.induct)
  case (2 ulow t aid n f fs a b db)
  let ?g = "sanitizeFinding ulow f"
  show ?case
  proof (cases "a \<ge> maxFindingsPerReport")
    case True
    then show ?thesis using 2(4,5) by (auto simp: grown_def)
  next
    case cap: False
    show ?thesis
    proof (cases "in_RuleID ?g = []")
      case True
      with 2(1) [OF cap refl True] 2(4,5) cap show ?thesis by (simp add: Let_def)
    next
      case False
      show ?thesis
      proof (cases "UpsertFinding t aid ?g db")
        case (Inl e)
        with 2(2) [OF cap refl False Inl] 2(4,5) cap False show ?thesis by (simp add: Let_def)
      next
        case (Inr db1)
        with 2(3) [OF cap refl False Inr] 2(4) cap False
        have ih: "a + 1 \<le> a'" "a' \<le> maxFindingsPerReport" "grown db1 db' (a' - (a + 1))"
          "d = 0 \<or> d = n - a' \<and> a' = maxFindingsPerReport" by (simp_all add: Let_def)
        have "Suc (a' - (a + 1)) = a' - a" using ih(1) by simp
        then show ?thesis using grown_upsert [OF Inr ih(3)] ih by simp
      qed
    qed
  qed
qed (simp add: grown_def)

text \<open>The counters of a summary add up, so the subtraction in it is exact.\<close>

lemma summary_total:
  "rs_NCritical (summaryOf aid env) + rs_NHigh (summaryOf aid env) + rs_NMedium (summaryOf aid env) +
   rs_NLow (summaryOf aid env) + rs_NInfo (summaryOf aid env) = length (re_Findings env)"
proof -
  let ?c = "\<lambda>s. countSeverity s (re_Findings env)"
  have "countSeverity ''critical'' fs + countSeverity ''high'' fs + countSeverity ''medium'' fs +
      countSeverity ''low'' fs \<le> length fs" for fs
    by (induction fs) (auto simp: countSeverity_def)
  then have "?c ''critical'' + ?c ''high'' + ?c ''medium'' + ?c ''low'' \<le> length (re_Findings env)" .
  then show ?thesis by (simp add: summaryOf_def Let_def)
qed

section \<open>Properties\<close>

text \<open>
  C32. Recording a finding. There stays one row per agent and key. If there was none, a new open
  row; otherwise the same row with the first sighting kept, the last set and the count advanced,
  reopened if it was resolved and in its state if an operator had contained or dismissed it. The
  rows of other findings are not touched.
\<close>

theorem UpsertFinding_exact:
  assumes "findingsOk db" and "UpsertFinding t aid f db = Inr db'"
  defines "key \<equiv> (\<lambda>r. rowKey r = (aid, DedupeKey f))"
  shows "findingsOk db' \<and> filter (Not \<circ> key) (fl_findings db') = filter (Not \<circ> key) (fl_findings db) \<and>
    (\<exists>r'. find key (fl_findings db') = Some r' \<and> fr_last r' = t \<and> fr_severity r' = in_Severity f \<and>
       (case find key (fl_findings db) of
          None \<Rightarrow> fr_state r' = ''open'' \<and> fr_first r' = t \<and> sf_seen r' = 1
        | Some r \<Rightarrow> fr_state r' = (if fr_state r = ''resolved'' then ''open'' else fr_state r) \<and>
            fr_first r' = fr_first r \<and> sf_seen r' = sf_seen r + 1 \<and> sf_id r' = sf_id r))"
proof -
  have "findingsOk db'" by (rule UpsertFinding_ok [OF assms(2,1)])
  from assms(2) show ?thesis
  proof (cases rule: UpsertFinding_cases)
    case (old r)
    let ?g = "\<lambda>r. if key r then refreshed t f r else r"
    have rows: "fl_findings db' = map ?g (fl_findings db)" unfolding old(2) key_def by simp
    have same: "key (?g x) = key x" for x by (simp add: key_def)
    have "find key (fl_findings db') = map_option ?g (find key (fl_findings db))"
      unfolding rows by (rule find_map_same) (rule same)
    moreover have "find key (fl_findings db) = Some r" using old(1) by (simp add: key_def)
    moreover have "key r" using find_SomeD [OF calculation(2)] by simp
    moreover have "filter (Not \<circ> key) (map ?g rs) = filter (Not \<circ> key) rs" for rs
      by (induction rs) (simp_all add: same)
    ultimately show ?thesis using \<open>findingsOk db'\<close> by (simp add: rows refreshed_def)
  next
    case new
    have rows: "fl_findings db' = fl_findings db @ [newFinding (nextFindingId db) t aid f]" unfolding new(2) by simp
    have none: "find key (fl_findings db) = None" using new(1) by (simp add: key_def)
    have k: "key (newFinding (nextFindingId db) t aid f)" by (simp add: key_def)
    have "find key (rs @ [x]) = Some x" if "find key rs = None" "key x" for rs x
      using that by (induction rs) (auto split: if_splits)
    then have "find key (fl_findings db') = Some (newFinding (nextFindingId db) t aid f)"
      unfolding rows using none k by blast
    then show ?thesis using \<open>findingsOk db'\<close> none k by (simp add: rows newFinding_def)
  qed
qed

definition sampleInput :: FindingInput where
  "sampleInput = \<lparr>in_RuleID = ''r'', in_Class = ''C'', in_Severity = ''high'', in_Confidence = ''likely'',
     in_Title = ''t'', in_Detail = [], in_Path = ''p'', in_SHA256 = ''s'', in_Size = 1, in_Line = 1,
     in_Evidence = [], in_Remediation = [], in_Actionable = True, in_ContainPID = 0, in_Meta = None\<rparr>"

definition sampleRows :: fleetDB where
  "sampleRows = \<lparr>fl_tokens = [], fl_agents = [], fl_heartbeats = [],
     fl_findings = [(newFinding 1 5 ''a'' sampleInput)\<lparr>fr_state := ''resolved''\<rparr>], fl_reports = [], fl_audit = []\<rparr>"

text \<open>A resolved finding comes back.\<close>

theorem UpsertFinding_exact_witness:
  "\<exists>db' r'. UpsertFinding 9 ''a'' sampleInput sampleRows = Inr db' \<and> findingsOk db' \<and>
     find (\<lambda>r. rowKey r = (''a'', DedupeKey sampleInput)) (fl_findings db') = Some r' \<and>
     fr_last r' = 9 \<and> fr_first r' = 5 \<and> fr_state r' = ''open'' \<and> sf_seen r' = 2"
proof -
  let ?key = "\<lambda>r. rowKey r = (''a'', DedupeKey sampleInput)"
  let ?r = "(newFinding 1 5 ''a'' sampleInput)\<lparr>fr_state := ''resolved''\<rparr>"
  have key: "?key ?r" by (simp add: rowKey_def newFinding_def)
  have ok: "findingsOk sampleRows" by (simp add: findingsOk_def sampleRows_def)
  have found: "find ?key (fl_findings sampleRows) = Some ?r" using key by (simp add: sampleRows_def)
  obtain db' where up: "UpsertFinding 9 ''a'' sampleInput sampleRows = Inr db'"
    using key by (simp add: UpsertFinding_def hits_rowKey sampleRows_def Let_def)
  from UpsertFinding_exact [OF ok up] found up show ?thesis by (auto simp: newFinding_def)
qed

text \<open>
  A report is bounded work and bounded content, whatever an agent sends. At most 5000 findings
  of a report are accepted and it adds at most as many rows; when it holds more, the rest is counted
  as dropped; and every stored string keeps its limit and is free of control characters, every
  severity and confidence is one of the known ones.
\<close>

theorem handleReport_bounded:
  assumes "handleReport ulow t agent env lim db = (Inr (accepted, dropped, failed), lim', db')"
    and "boundedFindings db" and "findingsOk db"
  shows "boundedFindings db' \<and> findingsOk db' \<and> accepted \<le> 5000 \<and>
    length (fl_findings db') \<le> length (fl_findings db) + accepted \<and>
    (dropped = 0 \<or> accepted = 5000 \<and> dropped = length (re_Findings env) - 5000)"
proof -
  let ?db1 = "InsertReport (secs t) (summaryOf (ar_id agent) env) db"
  obtain db2 where loop: "reportLoop ulow (secs t) (ar_id agent) (length (re_Findings env)) (re_Findings env) 0 0 ?db1 =
      ((accepted, dropped, failed), db2)" and db': "fl_findings db' = fl_findings db2"
    using assms(1) by (auto simp: handleReport_def Let_def split: prod.splits bool.splits if_splits)
  have "fl_findings ?db1 = fl_findings db" by (simp add: InsertReport_def)
  with reportLoop_grown [OF loop] db' assms(2,3) show ?thesis
    by (auto simp: grown_def boundedFindings_def findingsOk_def maxFindingsPerReport_def)
qed

definition sampleAgent :: fleetAgent where
  "sampleAgent = \<lparr>ar_id = ''a'', ar_hostname = [], ar_webroot = [], ar_retired = 0, ar_estate = None,
     fa_label = [], fa_site = [], fa_version = [], fa_os = [], fa_arch = [], fa_cred = [], fa_enrolled = 0,
     fa_token = 1, fa_last_seen = 0, fa_last_ip = [], fa_contain = False, fa_opts_in = False,
     fa_monitor = False\<rparr>"

definition sampleReport :: reportEnvelope where
  "sampleReport = \<lparr>re_raw = [], re_Mode = [], re_Verdict = [], re_StartedAt = None, re_DurationMS = 0,
     re_FilesSeen = 0, re_FilesRead = 0, re_NErrors = 0, re_Findings = [sampleInput]\<rparr>"

theorem handleReport_bounded_witness:
  "\<exists>accepted dropped failed lim' db'.
     handleReport (\<lambda>r. r) 0 sampleAgent sampleReport (newLimiter 6 60) sampleRows =
       (Inr (accepted, dropped, failed), lim', db') \<and> boundedFindings db' \<and> accepted \<le> 5000"
proof -
  have "\<exists>r. fst (handleReport (\<lambda>r. r) 0 sampleAgent sampleReport (newLimiter 6 60) sampleRows) = Inr r"
    by (simp add: handleReport_def allow_def newLimiter_def Let_def split: prod.split)
  then obtain accepted dropped failed lim' db' where h:
    "handleReport (\<lambda>r. r) 0 sampleAgent sampleReport (newLimiter 6 60) sampleRows =
       (Inr (accepted, dropped, failed), lim', db')"
    by (cases "handleReport (\<lambda>r. r) 0 sampleAgent sampleReport (newLimiter 6 60) sampleRows") auto
  have "boundedInput sampleInput" by code_simp
  then have "boundedFindings sampleRows" by (simp add: boundedFindings_def sampleRows_def new_bounded)
  moreover have "findingsOk sampleRows" by (simp add: findingsOk_def sampleRows_def)
  ultimately show ?thesis using handleReport_bounded [OF h] h by blast
qed

end
