(* ===== verification/QueryLang.thy ===== *)
theory QueryLang
  imports Consensus
begin

text \<open>
  The query language for findings (\<open>internal/store/query.go\<close>): lexer, recursive-descent compiler to
  a \<open>WHERE\<close> fragment with bound arguments, the meaning of such fragments over a row, and the
  meaning of the queries themselves. Floating-point numbers, their parsing and SQL's cast and
  comparison are a parameter (the record \<open>floats\<close>); a value of the metadata is read by a function of
  its JSON path. The texts of errors are named by constructors.
\<close>

section \<open>Fields\<close>

definition queryField :: "bytes \<rightharpoonup> bytes" where
  "queryField = map_of
     [(''severity'', ''f.severity''), (''rule'', ''f.rule_id''), (''class'', ''f.class''),
      (''confidence'', ''f.confidence''), (''state'', ''f.state''), (''path'', ''f.path''),
      (''sha256'', ''f.sha256''), (''title'', ''f.title''), (''detail'', ''f.detail''),
      (''evidence'', ''f.evidence''), (''agent'', ''f.agent_id''), (''host'', ''a.hostname''),
      (''label'', ''a.label''), (''site'', ''a.site''), (''webroot'', ''a.webroot''),
      (''estate'', ''a.estate_id''), (''line'', ''f.line''), (''size'', ''f.size''),
      (''seen'', ''f.seen_count'')]"

text \<open>The regular expression \<open>^[A-Za-z0-9_]+(\.[A-Za-z0-9_]+)*$\<close>.\<close>

definition metaKeyByte :: "byte \<Rightarrow> bool" where
  "metaKeyByte c \<longleftrightarrow> (CHR ''A'' \<le> c \<and> c \<le> CHR ''Z'') \<or> (CHR ''a'' \<le> c \<and> c \<le> CHR ''z'') \<or>
     (CHR ''0'' \<le> c \<and> c \<le> CHR ''9'') \<or> c = CHR ''_''"

definition metaKeyRe :: "bytes \<Rightarrow> bool" where
  "metaKeyRe s \<longleftrightarrow> list_all (\<lambda>p. p \<noteq> [] \<and> list_all metaKeyByte p) (goSplit (CHR ''.'') s)"

definition maxQueryTerms :: nat where "maxQueryTerms = 40"

section \<open>Tokens\<close>

datatype qtoken = tokTerm bytes | tokAnd | tokOr | tokNot | tokLParen | tokRParen

text \<open>The inner loop over one word; the flag is \<open>inQuote\<close>.\<close>

fun lexWord :: "bool \<Rightarrow> bytes \<Rightarrow> bytes \<times> bytes" where
  "lexWord inQuote [] = ([], [])"
| "lexWord inQuote (ch # s) =
     (if ch = CHR 0x22 then lexWord (\<not> inQuote) s
      else if \<not> inQuote \<and> (ch = CHR '' '' \<or> ch = CHR 0x09 \<or> ch = CHR ''('' \<or> ch = CHR '')'') then ([], ch # s)
      else (case lexWord inQuote s of (w, r) \<Rightarrow> (ch # w, r)))"

text \<open>
  The operators are compared after \<open>strings.ToUpper\<close>. No character outside ASCII has one of their
  letters as its upper case, so the comparison is one of ASCII letters.
\<close>

definition wordToken :: "bytes \<Rightarrow> qtoken" where
  "wordToken word =
     (let up = map ascii_lower word
      in if up = ''and'' then tokAnd
         else if up = ''or'' then tokOr
         else if up = ''not'' \<or> up = ''-'' then tokNot
         else tokTerm word)"

lemma lexWord_length: "lexWord q s = (w, r) \<Longrightarrow> length w + length r \<le> length s"
  by (induction q s arbitrary: w r rule: lexWord.induct) (auto split: if_splits prod.splits intro: le_SucI)

lemma lexWord_suffix: "lexWord q s = (w, r) \<Longrightarrow> r = drop (length s - length r) s"
  by (induction q s arbitrary: w r rule: lexWord.induct)
    (use lexWord_length in \<open>force split: if_splits prod.splits simp: Suc_diff_le\<close>)+

lemma lexWord_less:
  assumes "lexWord False (c # s) = (w, r)" and "w = [] \<longrightarrow> r \<noteq> c # s"
  shows "length r < Suc (length s)"
proof -
  have "length r \<noteq> length (c # s)"
  proof
    assume e: "length r = length (c # s)"
    with lexWord_suffix [OF assms(1)] have "r = c # s" by simp
    moreover have "w = []" using lexWord_length [OF assms(1)] e by simp
    ultimately show False using assms(2) by simp
  qed
  with lexWord_length [OF assms(1)] show ?thesis by simp
qed

function lexQuery :: "bytes \<Rightarrow> qtoken list" where
  "lexQuery [] = []"
| "lexQuery (c # s) =
     (if c = CHR '' '' \<or> c = CHR 0x09 \<or> c = CHR ''\<newline>'' then lexQuery s
      else if c = CHR ''('' then tokLParen # lexQuery s
      else if c = CHR '')'' then tokRParen # lexQuery s
      else (case lexWord False (c # s) of (word, r) \<Rightarrow>
              if word = [] \<and> r = c # s then lexQuery s else wordToken word # lexQuery r))"
  by pat_completeness auto
termination
  by (relation "measure length") (auto simp del: lexWord.simps dest!: lexWord_less [OF sym])

section \<open>Terms\<close>

datatype qError = MissingValue | NotANumber bytes | InvalidMetaKey bytes | UnknownField bytes
  | EndsAfterAnd | UnexpectedEnd | Unbalanced | TooManyTerms | UnexpectedOperator | TooLong | TrailingInput

datatype 'f arg = ArgText bytes | ArgNum 'f

text \<open>
  Floating point: \<open>strconv.ParseFloat\<close> (\<open>None\<close> is an error), SQL's \<open>CAST(... AS REAL)\<close> of a text, and the
  comparisons by the name of the operator.
\<close>

record 'f floats =
  fl_parse :: "bytes \<Rightarrow> 'f option"
  fl_cast :: "bytes \<Rightarrow> 'f"
  fl_cmp :: "bytes \<Rightarrow> 'f \<Rightarrow> 'f \<Rightarrow> bool"

definition cmpOps :: "bytes list" where
  "cmpOps = [''>='', ''<='', ''>'', ''<'']"

definition likeQ :: bytes where
  "likeQ = '' LIKE ? ESCAPE '' @ [CHR 0x27, CHR 0x5C, CHR 0x27]"

text \<open>The pattern of a value with wildcards, rune by rune.\<close>

definition globPattern :: "bytes \<Rightarrow> bytes" where
  "globPattern value =
     concat (map (\<lambda>r. if r = of_char (CHR ''*'') then ''%'' else likeEscape (encodeRune r)) (runes value))"

definition compileComparison :: "'f floats \<Rightarrow> bytes \<Rightarrow> bytes \<Rightarrow> 'f arg list \<Rightarrow> qError + bytes \<times> 'f arg list" where
  "compileComparison nu col value lead =
     (if value = [] then Inl MissingValue
      else case find (hasPrefix value) cmpOps of
             Some op \<Rightarrow>
               (let num = trimPrefix value op
                in case fl_parse nu num of
                     None \<Rightarrow> Inl (NotANumber num)
                   | Some n \<Rightarrow> Inr (''(CAST('' @ col @ '' AS REAL) '' @ op @ '' ?)'', lead @ [ArgNum n]))
           | None \<Rightarrow>
               if List.member value (CHR ''*'') then
                 Inr (''('' @ col @ likeQ @ '')'', lead @ [ArgText (globPattern value)])
               else Inr (''('' @ col @ likeQ @ '')'', lead @ [ArgText (''%'' @ likeEscape value @ ''%'')]))"

text \<open>\<open>strings.Cut\<close> at the first colon.\<close>

fun cutColon :: "bytes \<Rightarrow> (bytes \<times> bytes) option" where
  "cutColon [] = None"
| "cutColon (c # s) = (if c = CHR '':'' then Some ([], s) else map_option (\<lambda>(a, b). (c # a, b)) (cutColon s))"

definition bareColumns :: "bytes list" where
  "bareColumns = [''f.path'', ''f.title'', ''f.rule_id'', ''f.sha256'']"

definition compileTerm :: "'f floats \<Rightarrow> (nat \<Rightarrow> nat) \<Rightarrow> bytes \<Rightarrow> qError + bytes \<times> 'f arg list" where
  "compileTerm nu ulow raw =
     (let bare = (let like = ''%'' @ likeEscape raw @ ''%''
                  in Inr (''(f.path'' @ likeQ @ '' OR f.title'' @ likeQ @ '' OR '' @
                          ''f.rule_id'' @ likeQ @ '' OR f.sha256'' @ likeQ @ '')'',
                          [ArgText like, ArgText like, ArgText like, ArgText like]))
      in case cutColon raw of
           None \<Rightarrow> bare
         | Some (fld, value) \<Rightarrow>
             if fld = [] then bare
             else
               (let field = goToLower ulow fld
                in if hasPrefix field ''meta.'' then
                     (let key = trimPrefix field ''meta.''
                      in if \<not> metaKeyRe key then Inl (InvalidMetaKey key)
                         else compileComparison nu ''json_extract(f.meta, ?)'' value [ArgText (''$.'' @ key)])
                   else (case queryField field of
                           None \<Rightarrow> Inl (UnknownField field)
                         | Some col \<Rightarrow> compileComparison nu col value [])))"

section \<open>The parser\<close>

text \<open>
  The recursive descent over the tokens left and the number of terms so far; each loop is a function of
  its own. The first argument bounds the depth of the recursion; \<open>None\<close> means it was too small, which
  \<open>parseOr_enough\<close> excludes.
\<close>

type_synonym 'f frag = "bytes \<times> 'f arg list"

type_synonym qparser = "qtoken list \<times> nat"

type_synonym 'f qres = "(qError + 'f frag \<times> qparser) option"

definition qbind :: "'f qres \<Rightarrow> ('f frag \<Rightarrow> qparser \<Rightarrow> 'f qres) \<Rightarrow> 'f qres" where
  "qbind r f =
     (case r of None \<Rightarrow> None | Some (Inl e) \<Rightarrow> Some (Inl e) | Some (Inr (sa, p)) \<Rightarrow> f sa p)"

definition peekIs :: "qtoken \<Rightarrow> qparser \<Rightarrow> bool" where
  "peekIs t p \<longleftrightarrow> fst p \<noteq> [] \<and> hd (fst p) = t"

definition advance :: "qparser \<Rightarrow> qparser" where
  "advance p = (tl (fst p), snd p)"

definition joinSql :: "bytes \<Rightarrow> 'f frag \<Rightarrow> 'f frag \<Rightarrow> 'f frag" where
  "joinSql op l r = (''('' @ fst l @ op @ fst r @ '')'', snd l @ snd r)"

text \<open>A term, whose compilation is the first argument.\<close>

definition parseTerm :: "(bytes \<Rightarrow> qError + 'f frag) \<Rightarrow> bytes \<Rightarrow> qparser \<Rightarrow> 'f qres" where
  "parseTerm ct raw p =
     (if snd p + 1 > maxQueryTerms then Some (Inl TooManyTerms)
      else (case ct raw of Inl e \<Rightarrow> Some (Inl e) | Inr sa \<Rightarrow> Some (Inr (sa, fst p, snd p + 1))))"

function (sequential) parseOr :: "(bytes \<Rightarrow> qError + 'f frag) \<Rightarrow> nat \<Rightarrow> qparser \<Rightarrow> 'f qres"
and orLoop :: "(bytes \<Rightarrow> qError + 'f frag) \<Rightarrow> nat \<Rightarrow> 'f frag \<Rightarrow> qparser \<Rightarrow> 'f qres"
and parseAnd :: "(bytes \<Rightarrow> qError + 'f frag) \<Rightarrow> nat \<Rightarrow> qparser \<Rightarrow> 'f qres"
and andLoop :: "(bytes \<Rightarrow> qError + 'f frag) \<Rightarrow> nat \<Rightarrow> 'f frag \<Rightarrow> qparser \<Rightarrow> 'f qres"
and parseUnary :: "(bytes \<Rightarrow> qError + 'f frag) \<Rightarrow> nat \<Rightarrow> qparser \<Rightarrow> 'f qres" where
  "parseOr ct 0 p = None"
| "parseOr ct (Suc n) p = qbind (parseAnd ct n p) (orLoop ct n)"
| "orLoop ct 0 l p = None"
| "orLoop ct (Suc n) l p =
     (if \<not> peekIs tokOr p then Some (Inr (l, p))
      else qbind (parseAnd ct n (advance p)) (\<lambda>r. orLoop ct n (joinSql '' OR '' l r)))"
| "parseAnd ct 0 p = None"
| "parseAnd ct (Suc n) p = qbind (parseUnary ct n p) (andLoop ct n)"
| "andLoop ct 0 l p = None"
| "andLoop ct (Suc n) l p =
     (if fst p = [] \<or> peekIs tokOr p \<or> peekIs tokRParen p then Some (Inr (l, p))
      else if peekIs tokAnd p \<and> fst (advance p) = [] then Some (Inl EndsAfterAnd)
      else qbind (parseUnary ct n (if peekIs tokAnd p then advance p else p))
             (\<lambda>r. andLoop ct n (joinSql '' AND '' l r)))"
| "parseUnary ct 0 p = None"
| "parseUnary ct (Suc n) p =
     (if fst p = [] then Some (Inl UnexpectedEnd)
      else (case hd (fst p) of
              tokNot \<Rightarrow>
                qbind (parseUnary ct n (advance p)) (\<lambda>sa q. Some (Inr ((''(NOT '' @ fst sa @ '')'', snd sa), q)))
            | tokLParen \<Rightarrow>
                qbind (parseOr ct n (advance p)) (\<lambda>sa q.
                  if \<not> peekIs tokRParen q then Some (Inl Unbalanced)
                  else Some (Inr ((''('' @ fst sa @ '')'', snd sa), advance q)))
            | tokTerm raw \<Rightarrow> parseTerm ct raw (advance p)
            | _ \<Rightarrow> Some (Inl UnexpectedOperator)))"
  by pat_completeness auto
termination
  by (relation "measure (\<lambda>x. case x of
        Inl (Inl (ct, n, p)) \<Rightarrow> n | Inl (Inr (ct, n, l, p)) \<Rightarrow> n
      | Inr (Inl (ct, n, p)) \<Rightarrow> n | Inr (Inr (Inl (ct, n, l, p))) \<Rightarrow> n
      | Inr (Inr (Inr (ct, n, p))) \<Rightarrow> n)") simp_all

definition CompileQuery :: "'f floats \<Rightarrow> (nat \<Rightarrow> nat) \<Rightarrow> bytes \<Rightarrow> (qError + bytes \<times> 'f arg list) option" where
  "CompileQuery nu ulow query =
     (let q = trimSpace query
      in if q = [] then Some (Inr ([], []))
         else if length q > 2000 then Some (Inl TooLong)
         else
           (let toks = lexQuery q
            in if toks = [] then Some (Inr ([], []))
               else (case parseOr (compileTerm nu ulow) (4 * length toks + 3) (toks, 0) of
                       None \<Rightarrow> None
                     | Some (Inl e) \<Rightarrow> Some (Inl e)
                     | Some (Inr (sa, rest)) \<Rightarrow>
                         if fst rest \<noteq> [] then Some (Inl TrailingInput) else Some (Inr sa))))"

end
