(* ===== verification/QuerySem.thy ===== *)
theory QuerySem
  imports QueryLang
begin

text \<open>
  What a query means and what its compiled fragment means: the fragments as an expression type with the
  texts it prints to, their three-valued evaluation over a row with the arguments bound in the order of
  the placeholders, the queries as derivations of a grammar over the tokens, and the proof that the
  compiler of \<open>QueryLang\<close> agrees with both.
\<close>

section \<open>Fragments\<close>

datatype sqlCol = Plain bytes | MetaCol

datatype sqlExpr = SLike sqlCol | SCmp bytes sqlCol | SBare
  | SNot sqlExpr | SGroup sqlExpr | SBin bytes sqlExpr sqlExpr

fun colText :: "sqlCol \<Rightarrow> bytes" where
  "colText (Plain c) = c"
| "colText MetaCol = ''json_extract(f.meta, ?)''"

fun showSql :: "sqlExpr \<Rightarrow> bytes" where
  "showSql (SLike c) = ''('' @ colText c @ likeQ @ '')''"
| "showSql (SCmp op c) = ''(CAST('' @ colText c @ '' AS REAL) '' @ op @ '' ?)''"
| "showSql SBare = ''('' @ goJoin (map (\<lambda>c. c @ likeQ) bareColumns) '' OR '' @ '')''"
| "showSql (SNot e) = ''(NOT '' @ showSql e @ '')''"
| "showSql (SGroup e) = ''('' @ showSql e @ '')''"
| "showSql (SBin op l r) = ''('' @ showSql l @ op @ showSql r @ '')''"

fun okCol :: "sqlCol \<Rightarrow> bool" where
  "okCol (Plain c) \<longleftrightarrow> c \<in> ran queryField"
| "okCol MetaCol \<longleftrightarrow> True"

fun okSql :: "sqlExpr \<Rightarrow> bool" where
  "okSql (SLike c) \<longleftrightarrow> okCol c"
| "okSql (SCmp op c) \<longleftrightarrow> op \<in> set cmpOps \<and> okCol c"
| "okSql SBare \<longleftrightarrow> True"
| "okSql (SNot e) \<longleftrightarrow> okSql e"
| "okSql (SGroup e) \<longleftrightarrow> okSql e"
| "okSql (SBin op l r) \<longleftrightarrow> op \<in> {'' AND '', '' OR ''} \<and> okSql l \<and> okSql r"

subsection \<open>Evaluation\<close>

text \<open>A row gives the text of a column and of a path of the metadata; \<open>None\<close> is NULL.\<close>

record dbRow =
  row_col :: "bytes \<Rightarrow> bytes option"
  row_meta :: "bytes \<Rightarrow> bytes option"

definition and3 :: "bool option \<Rightarrow> bool option \<Rightarrow> bool option" where
  "and3 a b = (if a = Some False \<or> b = Some False then Some False
     else if a = Some True \<and> b = Some True then Some True else None)"

definition or3 :: "bool option \<Rightarrow> bool option \<Rightarrow> bool option" where
  "or3 a b = (if a = Some True \<or> b = Some True then Some True
     else if a = Some False \<and> b = Some False then Some False else None)"

definition not3 :: "bool option \<Rightarrow> bool option" where
  "not3 = map_option Not"

text \<open>The value of a column takes the JSON path from the arguments when it has a placeholder of its own.\<close>

fun colValue :: "dbRow \<Rightarrow> sqlCol \<Rightarrow> 'f arg list \<Rightarrow> (bytes option \<times> 'f arg list) option" where
  "colValue row (Plain c) args = Some (row_col row c, args)"
| "colValue row MetaCol (ArgText p # args) = Some (row_meta row p, args)"
| "colValue row MetaCol _ = None"

fun likeValue :: "bytes option \<Rightarrow> 'f arg list \<Rightarrow> (bool option \<times> 'f arg list) option" where
  "likeValue v (ArgText p # args) = Some (map_option (sqlLike p) v, args)"
| "likeValue v _ = None"

fun cmpValue :: "'f floats \<Rightarrow> bytes \<Rightarrow> bytes option \<Rightarrow> 'f arg list \<Rightarrow> (bool option \<times> 'f arg list) option" where
  "cmpValue nu op v (ArgNum n # args) = Some (map_option (\<lambda>t. fl_cmp nu op (fl_cast nu t) n) v, args)"
| "cmpValue nu op v _ = None"

fun bareValue :: "dbRow \<Rightarrow> bytes list \<Rightarrow> 'f arg list \<Rightarrow> (bool option \<times> 'f arg list) option" where
  "bareValue row [] args = Some (Some False, args)"
| "bareValue row (c # cs) args =
     Option.bind (likeValue (row_col row c) args) (\<lambda>(a, args).
     Option.bind (bareValue row cs args) (\<lambda>(b, args). Some (or3 a b, args)))"

fun evalSql :: "'f floats \<Rightarrow> dbRow \<Rightarrow> sqlExpr \<Rightarrow> 'f arg list \<Rightarrow> (bool option \<times> 'f arg list) option" where
  "evalSql nu row (SLike c) args = Option.bind (colValue row c args) (\<lambda>(v, args). likeValue v args)"
| "evalSql nu row (SCmp op c) args = Option.bind (colValue row c args) (\<lambda>(v, args). cmpValue nu op v args)"
| "evalSql nu row SBare args = bareValue row bareColumns args"
| "evalSql nu row (SNot e) args = Option.bind (evalSql nu row e args) (\<lambda>(b, args). Some (not3 b, args))"
| "evalSql nu row (SGroup e) args = evalSql nu row e args"
| "evalSql nu row (SBin op l r) args =
     Option.bind (evalSql nu row l args) (\<lambda>(a, args).
     Option.bind (evalSql nu row r args) (\<lambda>(b, args).
       Some (if op = '' AND '' then and3 a b else or3 a b, args)))"

section \<open>Queries\<close>

datatype qexpr = QTerm bytes | QNot qexpr | QGroup qexpr | QAnd qexpr qexpr | QOr qexpr qexpr

fun qterms :: "qexpr \<Rightarrow> nat" where
  "qterms (QTerm t) = 1"
| "qterms (QNot e) = qterms e"
| "qterms (QGroup e) = qterms e"
| "qterms (QAnd a b) = qterms a + qterms b"
| "qterms (QOr a b) = qterms a + qterms b"

text \<open>
  The grammar: \<open>OR\<close> binds weakest, then \<open>AND\<close>, which may be left out, then \<open>NOT\<close>; both
  binary operators associate to the left.
\<close>

inductive unaryQ :: "qtoken list \<Rightarrow> qexpr \<Rightarrow> bool"
  and andQ :: "qtoken list \<Rightarrow> qexpr \<Rightarrow> bool"
  and orQ :: "qtoken list \<Rightarrow> qexpr \<Rightarrow> bool" where
  qTerm: "unaryQ [tokTerm t] (QTerm t)"
| qNot: "unaryQ ts e \<Longrightarrow> unaryQ (tokNot # ts) (QNot e)"
| qGroup: "orQ ts e \<Longrightarrow> unaryQ (tokLParen # ts @ [tokRParen]) (QGroup e)"
| qOne: "unaryQ ts e \<Longrightarrow> andQ ts e"
| qAnd: "andQ ts a \<Longrightarrow> unaryQ us b \<Longrightarrow> andQ (ts @ tokAnd # us) (QAnd a b)"
| qAdjacent: "andQ ts a \<Longrightarrow> unaryQ us b \<Longrightarrow> andQ (ts @ us) (QAnd a b)"
| qAlt: "andQ ts e \<Longrightarrow> orQ ts e"
| qOr: "orQ ts a \<Longrightarrow> andQ us b \<Longrightarrow> orQ (ts @ tokOr # us) (QOr a b)"

subsection \<open>What a term means\<close>

text \<open>A part of the text, ASCII case aside; and a text with \<open>*\<close> for any part.\<close>

definition containsFold :: "bytes \<Rightarrow> bytes \<Rightarrow> bool" where
  "containsFold v x \<longleftrightarrow> (\<exists>a b. map ascii_lower x = a @ map ascii_lower v @ b)"

fun globMatch :: "bytes \<Rightarrow> bytes \<Rightarrow> bool" where
  "globMatch [] s \<longleftrightarrow> s = []"
| "globMatch (p # ps) s \<longleftrightarrow>
     (if p = CHR ''*'' then list_ex (\<lambda>i. globMatch ps (drop i s)) [0..<length s + 1]
      else s \<noteq> [] \<and> ascii_lower (hd s) = ascii_lower p \<and> globMatch ps (tl s))"

definition valueHolds :: "'f floats \<Rightarrow> bytes \<Rightarrow> bytes option \<Rightarrow> bool option" where
  "valueHolds nu v x =
     map_option (\<lambda>t.
       case find (hasPrefix v) cmpOps of
         Some op \<Rightarrow> fl_cmp nu op (fl_cast nu t) (the (fl_parse nu (drop (length op) v)))
       | None \<Rightarrow> if CHR ''*'' \<in> set v then globMatch (concat (map encodeRune (runes v))) t
                 else containsFold v t) x"

definition termHolds :: "'f floats \<Rightarrow> (nat \<Rightarrow> nat) \<Rightarrow> dbRow \<Rightarrow> bytes \<Rightarrow> bool option" where
  "termHolds nu ulow row raw =
     (case cutColon raw of
        Some (f # fs, value) \<Rightarrow>
          (let field = goToLower ulow (f # fs)
           in if hasPrefix field ''meta.'' then valueHolds nu value (row_meta row (''$'' @ drop 4 field))
              else valueHolds nu value (Option.bind (queryField field) (row_col row)))
      | _ \<Rightarrow> foldr (\<lambda>c b. or3 (map_option (containsFold raw) (row_col row c)) b)
               [''f.path'', ''f.title'', ''f.rule_id'', ''f.sha256''] (Some False))"

fun queryHolds :: "'f floats \<Rightarrow> (nat \<Rightarrow> nat) \<Rightarrow> dbRow \<Rightarrow> qexpr \<Rightarrow> bool option" where
  "queryHolds nu ulow row (QTerm t) = termHolds nu ulow row t"
| "queryHolds nu ulow row (QNot e) = not3 (queryHolds nu ulow row e)"
| "queryHolds nu ulow row (QGroup e) = queryHolds nu ulow row e"
| "queryHolds nu ulow row (QAnd a b) = and3 (queryHolds nu ulow row a) (queryHolds nu ulow row b)"
| "queryHolds nu ulow row (QOr a b) = or3 (queryHolds nu ulow row a) (queryHolds nu ulow row b)"

section \<open>Patterns\<close>

lemma sqlLike_percent: "sqlLike (CHR ''%'' # ps) s \<longleftrightarrow> (\<exists>i\<le>length s. sqlLike ps (drop i s))"
proof (induction s)
  case Nil
  then show ?case by (subst sqlLike.simps) simp
next
  case (Cons c s)
  have "sqlLike (CHR ''%'' # ps) (c # s) \<longleftrightarrow> sqlLike ps (drop 0 (c # s)) \<or> (\<exists>i\<le>length s. sqlLike ps (drop (Suc i) (c # s)))"
    unfolding Cons.IH [symmetric, simplified] by (subst sqlLike.simps) (simp add: Cons.IH)
  also have "\<dots> \<longleftrightarrow> (\<exists>i\<le>length (c # s). sqlLike ps (drop i (c # s)))"
    by (metis (no_types, lifting) Suc_le_mono le0 length_Cons not0_implies_Suc)
  finally show ?case .
qed

lemma like_contains: "sqlLike (''%'' @ likeEscape v @ ''%'') x \<longleftrightarrow> containsFold v x"
proof
  assume "sqlLike (''%'' @ likeEscape v @ ''%'') x"
  then obtain i where i: "sqlLike (likeEscape v @ ''%'') (drop i x)" by (auto simp: sqlLike_percent)
  let ?d = "drop i x"
  have "map ascii_lower x = map ascii_lower (take i x) @ map ascii_lower (take (length v) ?d) @
      map ascii_lower (drop (length v) ?d)"
    by (metis append_take_drop_id map_append)
  with i show "containsFold v x" unfolding sqlLike_escape containsFold_def by metis
next
  assume "containsFold v x"
  then obtain a b where ab: "map ascii_lower x = a @ map ascii_lower v @ b" by (auto simp: containsFold_def)
  then obtain xa y where "x = xa @ y" "map ascii_lower v @ b = map ascii_lower y"
    unfolding map_eq_append_conv by blast
  then obtain xv xb where x: "x = xa @ xv @ xb" "map ascii_lower xv = map ascii_lower v"
    using map_eq_append_conv [of ascii_lower y] by metis
  then have l: "length xv = length v" using map_eq_imp_length_eq by blast
  then have "sqlLike (likeEscape v @ ''%'') (drop (length xa) x)" by (simp add: x sqlLike_escape sqlLike_any)
  moreover have "length xa \<le> length x" by (simp add: x)
  ultimately show "sqlLike (''%'' @ likeEscape v @ ''%'') x" by (auto simp: sqlLike_percent)
qed

definition globBytes :: "bytes \<Rightarrow> bytes" where
  "globBytes v = concat (map (\<lambda>c. if c = CHR ''*'' then ''%'' else likeEscape [c]) v)"

lemma globBytes_match: "sqlLike (globBytes v) s \<longleftrightarrow> globMatch v s"
proof (induction v arbitrary: s)
  case Nil
  then show ?case by (simp add: globBytes_def sqlLike.simps)
next
  case (Cons p v)
  show ?case
  proof (cases "p = CHR ''*''")
    case True
    then have "globBytes (p # v) = CHR ''%'' # globBytes v" by (simp add: globBytes_def)
    moreover have "globMatch (p # v) s \<longleftrightarrow> (\<exists>i\<le>length s. globMatch v (drop i s))"
      using True by (auto simp: list_ex_iff less_Suc_eq_le simp del: upt_Suc)
    ultimately show ?thesis using True Cons.IH by (simp only: sqlLike_percent)
  next
    case False
    then have "globBytes (p # v) = likeEscape [p] @ globBytes v" by (simp add: globBytes_def)
    with False Cons.IH show ?thesis by (cases s) (auto simp: sqlLike_escape)
  qed
qed

lemma globBytes_append [simp]: "globBytes (a @ b) = globBytes a @ globBytes b"
  by (simp add: globBytes_def)

lemma globBytes_plain: "CHR ''*'' \<notin> set v \<Longrightarrow> globBytes v = likeEscape v"
  by (induction v) (auto simp: globBytes_def likeEscape_def)

lemma star_char: "CHR ''*'' = char_of n \<longleftrightarrow> n mod 256 = (42 :: nat)"
proof -
  have "CHR ''*'' = char_of n \<longleftrightarrow> (of_char (CHR ''*'') :: nat) = of_char (char_of n :: char)"
    by (simp only: of_char_eq_iff)
  then show ?thesis by auto
qed

lemma star_high: "0x80 \<le> n \<Longrightarrow> n < 0x100 \<Longrightarrow> CHR ''*'' \<noteq> char_of (n :: nat)"
  by (simp add: star_char)

lemma encodeRune_star: "CHR ''*'' \<in> set (encodeRune r) \<longleftrightarrow> r = of_char (CHR ''*'')"
proof (cases "r < 0x80")
  case True
  then show ?thesis by (auto simp: encodeRune_def star_char)
next
  case False
  have mods: "CHR ''*'' \<noteq> char_of (0x80 + n mod 64 :: nat)" for n
    by (rule star_high) (use mod_less_divisor [of 64 n] in linarith)+
  have h2: "CHR ''*'' \<noteq> char_of (0xC0 + r div 64)" if "r < 0x800"
    using less_mult_imp_div_less [of r 32 64] that by (intro star_high) auto
  have h3: "CHR ''*'' \<noteq> char_of (0xE0 + r div 4096)" if "r < 0x10000"
    using less_mult_imp_div_less [of r 16 4096] that by (intro star_high) auto
  have h4: "CHR ''*'' \<noteq> char_of (0xF0 + r div 262144)" if "\<not> 0x10FFFF < r"
    using less_mult_imp_div_less [of r 8 262144] that by (intro star_high) auto
  have he: "CHR ''*'' \<notin> set (map char_of [0xEF, 0xBF, 0xBD :: nat])" by (simp add: star_char)
  let ?star = "CHR ''*''"
  have "list_all (\<lambda>c. ?star \<noteq> c) (encodeRune r)"
  proof -
    have a: "list_all (\<lambda>c. ?star \<noteq> c) [char_of (0xC0 + r div 64), char_of (0x80 + r mod 64)]" if "r < 0x800"
      unfolding list.pred_inject by (intro conjI TrueI h2 [OF that] mods list.pred_inject(1))
    have b: "list_all (\<lambda>c. ?star \<noteq> c) [char_of (0xE0 + r div 4096), char_of (0x80 + r div 64 mod 64),
        char_of (0x80 + r mod 64)]" if "r < 0x10000"
      unfolding list.pred_inject by (intro conjI TrueI h3 [OF that] mods list.pred_inject(1))
    have c: "list_all (\<lambda>c. ?star \<noteq> c) [char_of (0xF0 + r div 262144), char_of (0x80 + r div 4096 mod 64),
        char_of (0x80 + r div 64 mod 64), char_of (0x80 + r mod 64)]" if "\<not> 0x10FFFF < r"
      unfolding list.pred_inject by (intro conjI TrueI h4 [OF that] mods list.pred_inject(1))
    have d: "list_all (\<lambda>c. ?star \<noteq> c) (map char_of [0xEF, 0xBF, 0xBD :: nat])"
      using he by (simp only: list_all_iff) blast
    show ?thesis unfolding encodeRune_def using False a b c d by (simp only: if_False split: if_split) blast
  qed
  then have "?star \<notin> set (encodeRune r)" by (simp only: list_all_iff) blast
  with False show ?thesis by auto
qed

lemma globPattern_bytes: "globPattern v = globBytes (concat (map encodeRune (runes v)))"
proof -
  have one: "(if r = of_char (CHR ''*'') then ''%'' else likeEscape (encodeRune r)) = globBytes (encodeRune r)" for r
  proof (cases "r = of_char (CHR ''*'')")
    case True
    moreover have "char_of (42 :: nat) = CHR ''*''" using star_char [of 42] by simp
    ultimately show ?thesis by (simp add: encodeRune_def globBytes_def)
  next
    case False
    then have "CHR ''*'' \<notin> set (encodeRune r)" using encodeRune_star by blast
    with False show ?thesis using globBytes_plain by simp
  qed
  have "concat (map (\<lambda>r. globBytes (encodeRune r)) rs) = globBytes (concat (map encodeRune rs))" for rs
    by (induction rs) (simp_all add: globBytes_def)
  with one show ?thesis unfolding globPattern_def by simp
qed

section \<open>The compiler\<close>

definition compiled :: "'f floats \<Rightarrow> (dbRow \<Rightarrow> bool option) \<Rightarrow> 'f frag \<Rightarrow> bool" where
  "compiled nu holds sa \<longleftrightarrow>
     (\<exists>s. okSql s \<and> showSql s = fst sa \<and>
          (\<forall>row rest. evalSql nu row s (snd sa @ rest) = Some (holds row, rest)))"

lemma compiledI:
  "okSql s \<Longrightarrow> showSql s = fst sa \<Longrightarrow>
   (\<And>row rest. evalSql nu row s (snd sa @ rest) = Some (holds row, rest)) \<Longrightarrow> compiled nu holds sa"
  unfolding compiled_def by blast

lemma sqlLike_glob: "sqlLike (globPattern v) = globMatch (concat (map encodeRune (runes v)))"
  by (rule ext) (simp add: globPattern_bytes globBytes_match)

lemma sqlLike_contains: "sqlLike (CHR ''%'' # likeEscape v @ ''%'') = containsFold v"
  by (rule ext) (use like_contains [of v] in simp)

lemma compiled_comparison:
  assumes "compileComparison nu (colText c) value lead = Inr sa" and "okCol c"
    and col: "\<And>row rest. colValue row c (lead @ rest) = Some (val row, rest)"
  shows "compiled nu (\<lambda>row. valueHolds nu value (val row)) sa"
proof (cases "find (hasPrefix value) cmpOps")
  case (Some op)
  then have op: "op \<in> set cmpOps" "hasPrefix value op"
    by (auto simp: find_Some_iff)
  with Some assms(1) obtain n where n: "fl_parse nu (drop (length op) value) = Some n"
      "sa = (''(CAST('' @ colText c @ '' AS REAL) '' @ op @ '' ?)'', lead @ [ArgNum n])"
    by (auto simp: compileComparison_def Let_def trimPrefix_def split: if_splits option.splits)
  show ?thesis
    by (rule compiledI [where s = "SCmp op c"])
      (use op n Some assms(2) in \<open>simp_all add: col valueHolds_def option.map_comp comp_def\<close>)
next
  case None
  show ?thesis
  proof (cases "CHR ''*'' \<in> set value")
    case True
    with None assms(1) have "sa = (''('' @ colText c @ likeQ @ '')'', lead @ [ArgText (globPattern value)])"
      by (auto simp: compileComparison_def List.member_iff split: if_splits)
    then show ?thesis
      by (intro compiledI [where s = "SLike c"])
        (use None True assms(2) in \<open>simp_all add: col valueHolds_def sqlLike_glob\<close>)
  next
    case False
    with None assms(1) have "sa = (''('' @ colText c @ likeQ @ '')'', lead @ [ArgText (''%'' @ likeEscape value @ ''%'')])"
      by (auto simp: compileComparison_def List.member_iff split: if_splits)
    then show ?thesis
      by (intro compiledI [where s = "SLike c"])
        (use None False assms(2) in \<open>simp_all add: col valueHolds_def sqlLike_contains\<close>)
  qed
qed

lemma queryField_ran: "queryField f = Some c \<Longrightarrow> c \<in> ran queryField"
  by (auto simp: ran_def)

lemma hasPrefix_take: "hasPrefix s p \<longleftrightarrow> take (length p) s = p"
  by (auto simp: hasPrefix_prefix prefix_def) (metis append_take_drop_id)

lemma hasPrefix_drop: "hasPrefix s p \<Longrightarrow> s = p @ drop (length p) s"
  by (metis append_take_drop_id hasPrefix_take)

lemma compiled_bare:
  fixes raw :: bytes
  defines "like \<equiv> ArgText (''%'' @ likeEscape raw @ ''%'')"
  shows "compiled nu
     (\<lambda>row. foldr (\<lambda>c b. or3 (map_option (containsFold raw) (row_col row c)) b)
               [''f.path'', ''f.title'', ''f.rule_id'', ''f.sha256''] (Some False))
     (''(f.path'' @ likeQ @ '' OR f.title'' @ likeQ @ '' OR '' @ ''f.rule_id'' @ likeQ @ '' OR f.sha256'' @ likeQ @ '')'',
      [like, like, like, like])"
  by (rule compiledI [where s = SBare])
    (simp_all add: like_def bareColumns_def sqlLike_contains)

lemma compileTerm_compiled:
  assumes "compileTerm nu ulow raw = Inr sa"
  shows "compiled nu (\<lambda>row. termHolds nu ulow row raw) sa"
proof -
  show ?thesis
  proof (cases "\<exists>f fs value. cutColon raw = Some (f # fs, value)")
    case False
    have th: "termHolds nu ulow row raw =
        foldr (\<lambda>c b. or3 (map_option (containsFold raw) (row_col row c)) b)
               [''f.path'', ''f.title'', ''f.rule_id'', ''f.sha256''] (Some False)" for row
      using False by (auto simp: termHolds_def split: option.split prod.split list.split)
    have "compileTerm nu ulow raw =
        (let like = ''%'' @ likeEscape raw @ ''%''
                  in Inr (''(f.path'' @ likeQ @ '' OR f.title'' @ likeQ @ '' OR '' @
                          ''f.rule_id'' @ likeQ @ '' OR f.sha256'' @ likeQ @ '')'',
                          [ArgText like, ArgText like, ArgText like, ArgText like]))"
      using False unfolding compileTerm_def Let_def
      by (cases "cutColon raw") (auto simp: neq_Nil_conv split: prod.split)
    with assms compiled_bare [of nu raw] show ?thesis unfolding th Let_def by simp
  next
    case True
    then obtain f fs val where cut: "cutColon raw = Some (f # fs, val)" by blast
    let ?field = "goToLower ulow (f # fs)"
    show ?thesis
    proof (cases "hasPrefix ?field ''meta.''")
      case meta: True
      define key where "key = drop (length ''meta.'') ?field"
      have field: "?field = ''meta.'' @ key"
        unfolding key_def by (rule hasPrefix_drop [OF meta])
      have trim: "trimPrefix ?field ''meta.'' = key" by (simp only: trimPrefix_def meta if_True key_def)
      have d4: "''$'' @ drop 4 ?field = ''$.'' @ key" by (simp add: field)
      have cmp: "compileComparison nu (colText MetaCol) val [ArgText (''$.'' @ key)] = Inr sa"
        using assms cut meta by (simp add: compileTerm_def Let_def trim split: if_splits)
      have th: "termHolds nu ulow row raw = valueHolds nu val (row_meta row (''$.'' @ key))" for row
        using cut meta d4 by (simp add: termHolds_def Let_def)
      show ?thesis unfolding th
        by (rule compiled_comparison [OF cmp]) simp_all
    next
      case False
      with cut assms obtain col where col: "queryField ?field = Some col"
          "compileComparison nu (colText (Plain col)) val [] = Inr sa"
        by (auto simp: compileTerm_def Let_def split: option.splits)
      have th: "termHolds nu ulow row raw = valueHolds nu val (row_col row col)" for row
        using cut False col(1) by (simp add: termHolds_def)
      show ?thesis unfolding th
        by (rule compiled_comparison [OF col(2)]) (simp_all add: queryField_ran [OF col(1)])
    qed
  qed
qed

subsection \<open>The parser builds what the tokens derive\<close>

abbreviation compiledQ :: "'f floats \<Rightarrow> (nat \<Rightarrow> nat) \<Rightarrow> qexpr \<Rightarrow> 'f frag \<Rightarrow> bool" where
  "compiledQ nu ulow e sa \<equiv> compiled nu (\<lambda>row. queryHolds nu ulow row e) sa"

lemma compiledQ_not: "compiledQ nu ulow e sa \<Longrightarrow> compiledQ nu ulow (QNot e) (''(NOT '' @ fst sa @ '')'', snd sa)"
  unfolding compiled_def by (elim exE conjE, rule_tac x = "SNot s" in exI) simp

lemma compiledQ_group: "compiledQ nu ulow e sa \<Longrightarrow> compiledQ nu ulow (QGroup e) (''('' @ fst sa @ '')'', snd sa)"
  unfolding compiled_def by (elim exE conjE, rule_tac x = "SGroup s" in exI) simp

lemma compiledQ_bin:
  assumes "compiledQ nu ulow a l" and "compiledQ nu ulow b r"
  shows "compiledQ nu ulow (QAnd a b) (joinSql '' AND '' l r)" "compiledQ nu ulow (QOr a b) (joinSql '' OR '' l r)"
proof -
  obtain s where s: "okSql s" "showSql s = fst l"
      "\<And>row rest. evalSql nu row s (snd l @ rest) = Some (queryHolds nu ulow row a, rest)"
    using assms(1) unfolding compiled_def by blast
  obtain t where t: "okSql t" "showSql t = fst r"
      "\<And>row rest. evalSql nu row t (snd r @ rest) = Some (queryHolds nu ulow row b, rest)"
    using assms(2) unfolding compiled_def by blast
  show "compiledQ nu ulow (QAnd a b) (joinSql '' AND '' l r)"
    by (rule compiledI [where s = "SBin '' AND '' s t"]) (simp_all add: s t joinSql_def)
  show "compiledQ nu ulow (QOr a b) (joinSql '' OR '' l r)"
    by (rule compiledI [where s = "SBin '' OR '' s t"]) (simp_all add: s t joinSql_def)
qed

text \<open>\<open>p\<close> is read up to \<open>q\<close> as \<open>e\<close>, which compiles to \<open>sa\<close>.\<close>

definition readsAs :: "'f floats \<Rightarrow> (nat \<Rightarrow> nat) \<Rightarrow> (qtoken list \<Rightarrow> qexpr \<Rightarrow> bool) \<Rightarrow> qparser \<Rightarrow> 'f frag \<Rightarrow> qparser \<Rightarrow> bool" where
  "readsAs nu ulow G p sa q \<longleftrightarrow>
     (\<exists>us e. fst p = us @ fst q \<and> G us e \<and> compiledQ nu ulow e sa \<and>
             snd q = snd p + qterms e \<and> snd q \<le> maxQueryTerms)"

text \<open>The same for a loop that has \<open>l\<close> already.\<close>

definition goesOn :: "'f floats \<Rightarrow> (nat \<Rightarrow> nat) \<Rightarrow> (qtoken list \<Rightarrow> qexpr \<Rightarrow> bool) \<Rightarrow> 'f frag \<Rightarrow> qparser \<Rightarrow> 'f frag \<Rightarrow> qparser \<Rightarrow> bool" where
  "goesOn nu ulow G l p sa q \<longleftrightarrow>
     (\<forall>p0. readsAs nu ulow G p0 l p \<longrightarrow> readsAs nu ulow G p0 sa q)"

definition onParsed :: "'f qres \<Rightarrow> ('f frag \<Rightarrow> qparser \<Rightarrow> bool) \<Rightarrow> bool" where
  "onParsed r P \<longleftrightarrow> (\<forall>sa q. r = Some (Inr (sa, q)) \<longrightarrow> P sa q)"

lemma onParsed_simps [simp]:
  "onParsed None P" "onParsed (Some (Inl e)) P" "onParsed (Some (Inr (sa, q))) P \<longleftrightarrow> P sa q"
  by (simp_all add: onParsed_def del: split_paired_All)

lemma onParsed_weaken: "onParsed r P \<Longrightarrow> (\<And>sa q. P sa q \<Longrightarrow> Q sa q) \<Longrightarrow> onParsed r Q"
  unfolding onParsed_def by blast

lemma goesOnD: "goesOn nu ulow G l p sa q \<Longrightarrow> readsAs nu ulow G p0 l p \<Longrightarrow> readsAs nu ulow G p0 sa q"
  unfolding goesOn_def by blast

lemma goesOn_trans:
  "goesOn nu ulow G l' p' sa q \<Longrightarrow>
   (\<And>p0. readsAs nu ulow G p0 l p \<Longrightarrow> readsAs nu ulow G p0 l' p') \<Longrightarrow> goesOn nu ulow G l p sa q"
  unfolding goesOn_def by blast

lemma onParsed_bind:
  "onParsed r P \<Longrightarrow> (\<And>sa p. P sa p \<Longrightarrow> onParsed (f sa p) Q) \<Longrightarrow> onParsed (qbind r f) Q"
  by (auto simp: onParsed_def qbind_def split: option.splits sum.splits)

lemma readsAs_next:
  assumes p0: "readsAs nu ulow G p0 l p" and step: "readsAs nu ulow H (us, snd p) r q" and "fst p = us0 @ us"
    and G: "\<And>ts vs a b. G ts a \<Longrightarrow> H vs b \<Longrightarrow> G (ts @ us0 @ vs) (f a b)"
    and f: "\<And>a b. qterms (f a b) = qterms a + qterms b"
      "\<And>a b l r. compiledQ nu ulow a l \<Longrightarrow> compiledQ nu ulow b r \<Longrightarrow> compiledQ nu ulow (f a b) (joinSql op l r)"
  shows "readsAs nu ulow G p0 (joinSql op l r) q"
proof -
  obtain ts a where a: "fst p0 = ts @ fst p" "G ts a" "compiledQ nu ulow a l" "snd p = snd p0 + qterms a"
    using p0 unfolding readsAs_def by blast
  obtain vs b where b: "us = vs @ fst q" "H vs b" "compiledQ nu ulow b r" "snd q = snd p + qterms b"
      "snd q \<le> maxQueryTerms"
    using step unfolding readsAs_def by auto
  have "fst p0 = (ts @ us0 @ vs) @ fst q" using a(1) b(1) assms(3) by simp
  moreover have "snd q = snd p0 + qterms (f a b)" using a(4) b(4) f(1) by simp
  ultimately show ?thesis
    unfolding readsAs_def using G [OF a(2) b(2)] f(2) [OF a(3) b(3)] b(5) by blast
qed

lemma peekIs_tl: "peekIs t p \<Longrightarrow> fst p = t # fst (advance p)"
  by (cases "fst p") (simp_all add: peekIs_def advance_def)

lemma advance_terms [simp]: "snd (advance p) = snd p"
  by (simp add: advance_def)

lemma parseTerm_sound:
  assumes "fst p = tokTerm raw # fst (advance p)"
  shows "onParsed (parseTerm (compileTerm nu ulow) raw (advance p)) (readsAs nu ulow unaryQ p)"
proof (cases "snd p + 1 > maxQueryTerms")
  case False
  show ?thesis
  proof (cases "compileTerm nu ulow raw")
    case (Inr sa)
    let ?q = "(fst (advance p), snd p + 1)"
    have fp: "fst p = [tokTerm raw] @ fst ?q" using assms by simp
    have c: "compiledQ nu ulow (QTerm raw) sa" using compileTerm_compiled [OF Inr] by simp
    have "readsAs nu ulow unaryQ p sa ?q"
      unfolding readsAs_def by (intro exI conjI) (rule fp, rule qTerm, rule c, use False in simp_all)
    with False Inr show ?thesis by (simp add: parseTerm_def)
  qed (use False in \<open>simp add: parseTerm_def\<close>)
qed (simp add: parseTerm_def)

lemma parser_sound:
  fixes nu :: "'f floats" and ulow :: "nat \<Rightarrow> nat"
  defines "ct \<equiv> compileTerm nu ulow"
  shows "(\<forall>p. onParsed (parseOr ct n p) (readsAs nu ulow orQ p)) \<and>
     (\<forall>l p. onParsed (orLoop ct n l p) (goesOn nu ulow orQ l p)) \<and>
     (\<forall>p. onParsed (parseAnd ct n p) (readsAs nu ulow andQ p)) \<and>
     (\<forall>l p. onParsed (andLoop ct n l p) (goesOn nu ulow andQ l p)) \<and>
     (\<forall>p. onParsed (parseUnary ct n p) (readsAs nu ulow unaryQ p))"
proof (induction n)
  case (Suc n)
  then have or: "\<And>p. onParsed (parseOr ct n p) (readsAs nu ulow orQ p)"
    and orl: "\<And>l p. onParsed (orLoop ct n l p) (goesOn nu ulow orQ l p)"
    and an: "\<And>p. onParsed (parseAnd ct n p) (readsAs nu ulow andQ p)"
    and andl: "\<And>l p. onParsed (andLoop ct n l p) (goesOn nu ulow andQ l p)"
    and un: "\<And>p. onParsed (parseUnary ct n p) (readsAs nu ulow unaryQ p)" by blast+
  have "onParsed (parseOr ct (Suc n) p) (readsAs nu ulow orQ p)" for p
    unfolding parseOr.simps
  proof (rule onParsed_bind [OF an [of p]])
    fix sa q
    assume "readsAs nu ulow andQ p sa q"
    then have rd: "readsAs nu ulow orQ p sa q" unfolding readsAs_def using qAlt by blast
    show "onParsed (orLoop ct n sa q) (readsAs nu ulow orQ p)"
      by (rule onParsed_weaken [OF orl]) (rule goesOnD [OF _ rd])
  qed
  moreover have "onParsed (parseAnd ct (Suc n) p) (readsAs nu ulow andQ p)" for p
    unfolding parseAnd.simps
  proof (rule onParsed_bind [OF un [of p]])
    fix sa q
    assume "readsAs nu ulow unaryQ p sa q"
    then have rd: "readsAs nu ulow andQ p sa q" unfolding readsAs_def using qOne by blast
    show "onParsed (andLoop ct n sa q) (readsAs nu ulow andQ p)"
      by (rule onParsed_weaken [OF andl]) (rule goesOnD [OF _ rd])
  qed
  moreover have "onParsed (orLoop ct (Suc n) l p) (goesOn nu ulow orQ l p)" for l p
  proof (cases "peekIs tokOr p")
    case True
    have "onParsed (qbind (parseAnd ct n (advance p)) (\<lambda>r. orLoop ct n (joinSql '' OR '' l r))) (goesOn nu ulow orQ l p)"
    proof (rule onParsed_bind [OF an])
      fix r q
      assume r: "readsAs nu ulow andQ (advance p) r q"
      have st: "readsAs nu ulow orQ p0 (joinSql '' OR '' l r) q" if "readsAs nu ulow orQ p0 l p" for p0
        by (rule readsAs_next [OF that, of andQ "fst (advance p)" r q "[tokOr]" QOr])
          (use r peekIs_tl [OF True] qOr compiledQ_bin(2) in \<open>simp_all add: readsAs_def\<close>)
      show "onParsed (orLoop ct n (joinSql '' OR '' l r) q) (goesOn nu ulow orQ l p)"
        by (rule onParsed_weaken [OF orl]) (rule goesOn_trans [OF _ st])
    qed
    with True show ?thesis by simp
  qed (simp add: goesOn_def)
  moreover have "onParsed (andLoop ct (Suc n) l p) (goesOn nu ulow andQ l p)" for l p
  proof -
    let ?p = "if peekIs tokAnd p then advance p else p"
    have "onParsed (qbind (parseUnary ct n ?p) (\<lambda>r. andLoop ct n (joinSql '' AND '' l r))) (goesOn nu ulow andQ l p)"
    proof (rule onParsed_bind [OF un])
      fix r q
      assume r: "readsAs nu ulow unaryQ ?p r q"
      have st: "readsAs nu ulow andQ p0 (joinSql '' AND '' l r) q" if "readsAs nu ulow andQ p0 l p" for p0
        by (rule readsAs_next [OF that, of unaryQ "fst ?p" r q "if peekIs tokAnd p then [tokAnd] else []" QAnd])
          (use r peekIs_tl [of tokAnd p] qAnd qAdjacent compiledQ_bin(1) in
            \<open>auto simp: readsAs_def split: if_splits\<close>)
      show "onParsed (andLoop ct n (joinSql '' AND '' l r) q) (goesOn nu ulow andQ l p)"
        by (rule onParsed_weaken [OF andl]) (rule goesOn_trans [OF _ st])
    qed
    then show ?thesis by (simp add: goesOn_def)
  qed
  moreover have "onParsed (parseUnary ct (Suc n) p) (readsAs nu ulow unaryQ p)" for p
  proof (cases "fst p")
    case (Cons t ts)
    then have p: "fst p = t # fst (advance p)" by (simp add: advance_def)
    show ?thesis
    proof (cases t)
      case (tokTerm raw)
      with p have "onParsed (parseTerm ct raw (advance p)) (readsAs nu ulow unaryQ p)"
        unfolding ct_def by (intro parseTerm_sound) simp
      with Cons tokTerm show ?thesis by simp
    next
      case tokNot
      let ?k = "\<lambda>sa q. Some (Inr ((''(NOT '' @ fst sa @ '')'', snd sa), q))"
      have "onParsed (qbind (parseUnary ct n (advance p)) ?k) (readsAs nu ulow unaryQ p)"
      proof (rule onParsed_bind [OF un])
        fix sa q
        assume "readsAs nu ulow unaryQ (advance p) sa q"
        then obtain us e where e: "fst (advance p) = us @ fst q" "unaryQ us e" "compiledQ nu ulow e sa"
            "snd q = snd (advance p) + qterms e" "snd q \<le> maxQueryTerms"
          unfolding readsAs_def by blast
        have fp: "fst p = (tokNot # us) @ fst q" using p e(1) tokNot by simp
        have sp: "snd q = snd p + qterms (QNot e)" using e(4) by simp
        have "readsAs nu ulow unaryQ p (''(NOT '' @ fst sa @ '')'', snd sa) q"
          unfolding readsAs_def by (intro exI conjI) (rule fp, rule qNot [OF e(2)], rule compiledQ_not [OF e(3)], rule sp, rule e(5))
        then show "onParsed (?k sa q) (readsAs nu ulow unaryQ p)" by (simp only: onParsed_simps)
      qed
      with Cons tokNot show ?thesis by simp
    next
      case tokLParen
      let ?k = "\<lambda>sa q. if \<not> peekIs tokRParen q then Some (Inl Unbalanced)
                  else Some (Inr ((''('' @ fst sa @ '')'', snd sa), advance q))"
      have "onParsed (qbind (parseOr ct n (advance p)) ?k) (readsAs nu ulow unaryQ p)"
      proof (rule onParsed_bind [OF or])
        fix sa q
        assume "readsAs nu ulow orQ (advance p) sa q"
        then obtain us e where e: "fst (advance p) = us @ fst q" "orQ us e" "compiledQ nu ulow e sa"
            "snd q = snd (advance p) + qterms e" "snd q \<le> maxQueryTerms"
          unfolding readsAs_def by blast
        show "onParsed (?k sa q) (readsAs nu ulow unaryQ p)"
        proof (cases "peekIs tokRParen q")
          case True
          have fp: "fst p = (tokLParen # us @ [tokRParen]) @ fst (advance q)"
            using p e(1) tokLParen peekIs_tl [OF True] by simp
          have sp: "snd (advance q) = snd p + qterms (QGroup e)" using e(4) by simp
          have mx: "snd (advance q) \<le> maxQueryTerms" using e(5) by simp
          have "readsAs nu ulow unaryQ p (''('' @ fst sa @ '')'', snd sa) (advance q)"
            unfolding readsAs_def by (intro exI conjI) (rule fp, rule qGroup [OF e(2)], rule compiledQ_group [OF e(3)], rule sp, rule mx)
          with True show ?thesis by simp
        qed simp
      qed
      with Cons tokLParen show ?thesis by simp
    qed (use Cons in simp_all)
  qed simp
  ultimately show ?case by blast
qed simp

subsection \<open>The depth allowed is enough\<close>

abbreviation left :: "qparser \<Rightarrow> nat" where
  "left p \<equiv> length (fst p)"

definition ends :: "'f qres \<Rightarrow> (qparser \<Rightarrow> bool) \<Rightarrow> bool" where
  "ends r P \<longleftrightarrow> r \<noteq> None \<and> onParsed r (\<lambda>sa. P)"

lemma ends_simps [simp]: "\<not> ends None P" "ends (Some (Inl e)) P" "ends (Some (Inr (sa, q))) P \<longleftrightarrow> P q"
  by (simp_all add: ends_def)

lemma ends_bind:
  assumes "ends r P" and "\<And>sa q. P q \<Longrightarrow> ends (f sa q) Q"
  shows "ends (qbind r f) Q"
proof (cases r)
  case (Some x)
  with assms show ?thesis by (cases x) (auto simp: qbind_def)
qed (use assms in simp)

lemma ends_weaken: "ends r P \<Longrightarrow> (\<And>q. P q \<Longrightarrow> Q q) \<Longrightarrow> ends r Q"
  unfolding ends_def onParsed_def by blast

lemma left_advance: "fst p \<noteq> [] \<Longrightarrow> Suc (left (advance p)) = left p"
  by (cases "fst p") (simp_all add: advance_def)

lemma peekIs_left: "peekIs t p \<Longrightarrow> Suc (left (advance p)) = left p"
  by (rule left_advance) (simp add: peekIs_def)

lemma parser_ends:
  "(\<forall>p. 4 * left p + 3 \<le> n \<longrightarrow> ends (parseOr ct n p) (\<lambda>q. left q < left p)) \<and>
   (\<forall>l p. 4 * left p + 1 \<le> n \<longrightarrow> ends (orLoop ct n l p) (\<lambda>q. left q \<le> left p)) \<and>
   (\<forall>p. 4 * left p + 2 \<le> n \<longrightarrow> ends (parseAnd ct n p) (\<lambda>q. left q < left p)) \<and>
   (\<forall>l p. 4 * left p + 2 \<le> n \<longrightarrow> ends (andLoop ct n l p) (\<lambda>q. left q \<le> left p)) \<and>
   (\<forall>p. 4 * left p + 1 \<le> n \<longrightarrow> ends (parseUnary ct n p) (\<lambda>q. left q < left p))"
proof (induction n)
  case (Suc n)
  then have or: "\<And>p. 4 * left p + 3 \<le> n \<Longrightarrow> ends (parseOr ct n p) (\<lambda>q. left q < left p)"
    and orl: "\<And>l p. 4 * left p + 1 \<le> n \<Longrightarrow> ends (orLoop ct n l p) (\<lambda>q. left q \<le> left p)"
    and an: "\<And>p. 4 * left p + 2 \<le> n \<Longrightarrow> ends (parseAnd ct n p) (\<lambda>q. left q < left p)"
    and andl: "\<And>l p. 4 * left p + 2 \<le> n \<Longrightarrow> ends (andLoop ct n l p) (\<lambda>q. left q \<le> left p)"
    and un: "\<And>p. 4 * left p + 1 \<le> n \<Longrightarrow> ends (parseUnary ct n p) (\<lambda>q. left q < left p)" by blast+
  have "ends (parseOr ct (Suc n) p) (\<lambda>q. left q < left p)" if "4 * left p + 3 \<le> Suc n" for p
    unfolding parseOr.simps
    by (rule ends_bind [OF an]) (use that in \<open>auto intro!: ends_weaken [OF orl]\<close>)
  moreover have "ends (parseAnd ct (Suc n) p) (\<lambda>q. left q < left p)" if "4 * left p + 2 \<le> Suc n" for p
    unfolding parseAnd.simps
    by (rule ends_bind [OF un]) (use that in \<open>auto intro!: ends_weaken [OF andl]\<close>)
  moreover have "ends (orLoop ct (Suc n) l p) (\<lambda>q. left q \<le> left p)" if "4 * left p + 1 \<le> Suc n" for l p
  proof (cases "peekIs tokOr p")
    case True
    note a = peekIs_left [OF True]
    have "ends (qbind (parseAnd ct n (advance p)) (\<lambda>r. orLoop ct n (joinSql '' OR '' l r))) (\<lambda>q. left q \<le> left p)"
      by (rule ends_bind [OF an]) (use that a in \<open>auto intro!: ends_weaken [OF orl]\<close>)
    with True show ?thesis by simp
  qed simp
  moreover have "ends (andLoop ct (Suc n) l p) (\<lambda>q. left q \<le> left p)" if "4 * left p + 2 \<le> Suc n" for l p
  proof -
    let ?p = "if peekIs tokAnd p then advance p else p"
    have a: "left ?p \<le> left p" using peekIs_left [of tokAnd p] by auto
    have "ends (qbind (parseUnary ct n ?p) (\<lambda>r. andLoop ct n (joinSql '' AND '' l r))) (\<lambda>q. left q \<le> left p)"
    proof (rule ends_bind [OF un])
      show "4 * left ?p + 1 \<le> n" using that a by linarith
      fix r q
      assume "left q < left ?p"
      with a that show "ends (andLoop ct n (joinSql '' AND '' l r) q) (\<lambda>q. left q \<le> left p)"
        by (intro ends_weaken [OF andl]) linarith+
    qed
    then show ?thesis by simp
  qed
  moreover have "ends (parseUnary ct (Suc n) p) (\<lambda>q. left q < left p)" if "4 * left p + 1 \<le> Suc n" for p
  proof (cases "fst p")
    case (Cons t ts)
    then have a: "Suc (left (advance p)) = left p" by (intro left_advance) simp
    show ?thesis
    proof (cases t)
      case (tokTerm raw)
      have "ends (parseTerm ct raw (advance p)) (\<lambda>q. left q < left p)"
        using a by (cases "ct raw") (auto simp: parseTerm_def)
      with Cons tokTerm show ?thesis by simp
    next
      case tokNot
      let ?k = "\<lambda>sa q. Some (Inr ((''(NOT '' @ fst sa @ '')'', snd sa), q))"
      have "ends (qbind (parseUnary ct n (advance p)) ?k) (\<lambda>q. left q < left p)"
        by (rule ends_bind [OF un]) (use that a in auto)
      with Cons tokNot show ?thesis by simp
    next
      case tokLParen
      let ?k = "\<lambda>sa q. if \<not> peekIs tokRParen q then Some (Inl Unbalanced)
                  else Some (Inr ((''('' @ fst sa @ '')'', snd sa), advance q))"
      have "ends (qbind (parseOr ct n (advance p)) ?k) (\<lambda>q. left q < left p)"
        by (rule ends_bind [OF or]) (use that a peekIs_left [of tokRParen] in fastforce)+
      with Cons tokLParen show ?thesis by simp
    qed (use Cons in simp_all)
  qed simp
  ultimately show ?case by blast
qed simp

lemma parseOr_enough: "parseOr ct (4 * left p + 3) p \<noteq> None"
proof -
  have "ends (parseOr ct (4 * left p + 3) p) (\<lambda>q. left q < left p)"
    by (rule parser_ends [THEN conjunct1, rule_format, OF order.refl])
  then show ?thesis by (simp add: ends_def)
qed

section \<open>A text is the print of one fragment\<close>

lemma append_space_eq:
  "a @ CHR '' '' # x = b @ CHR '' '' # y \<Longrightarrow> CHR '' '' \<notin> set a \<Longrightarrow> CHR '' '' \<notin> set b \<Longrightarrow> a = b \<and> x = y"
proof (induction a arbitrary: b)
  case Nil
  then show ?case by (cases b) auto
next
  case (Cons c a)
  then show ?case by (cases b) auto
qed

lemma queryField_shape: "c \<in> ran queryField \<Longrightarrow> CHR '' '' \<notin> set c \<and> c \<noteq> [] \<and> hd c \<in> {CHR ''f'', CHR ''a''}"
proof -
  assume "c \<in> ran queryField"
  then have "c \<in> snd ` set [(''severity'', ''f.severity''), (''rule'', ''f.rule_id''), (''class'', ''f.class''),
      (''confidence'', ''f.confidence''), (''state'', ''f.state''), (''path'', ''f.path''),
      (''sha256'', ''f.sha256''), (''title'', ''f.title''), (''detail'', ''f.detail''),
      (''evidence'', ''f.evidence''), (''agent'', ''f.agent_id''), (''host'', ''a.hostname''),
      (''label'', ''a.label''), (''site'', ''a.site''), (''webroot'', ''a.webroot''),
      (''estate'', ''a.estate_id''), (''line'', ''f.line''), (''size'', ''f.size''),
      (''seen'', ''f.seen_count'')]"
    unfolding queryField_def ran_def by (auto dest: map_of_SomeD simp del: map_of.simps)
  then show ?thesis by auto
qed

lemma colText_eq:
  assumes "okCol c" "okCol d" "colText c @ CHR '' '' # x = colText d @ CHR '' '' # y"
  shows "c = d \<and> x = y"
proof -
  have j: "colText MetaCol = CHR ''j'' # tl (colText MetaCol)" by simp
  have hd_ne: "colText (Plain e) @ u \<noteq> colText MetaCol @ v" if "okCol (Plain e)" for e u v
  proof
    assume eq: "colText (Plain e) @ u = colText MetaCol @ v"
    from that have "e \<noteq> []" "hd e \<in> {CHR ''f'', CHR ''a''}" using queryField_shape [of e] by simp_all
    then have "hd (colText (Plain e) @ u) \<in> {CHR ''f'', CHR ''a''}" by simp
    then show False unfolding eq by simp
  qed
  show ?thesis
  proof (cases c)
    case c: (Plain a)
    show ?thesis
    proof (cases d)
      case d: (Plain b)
      with c assms queryField_shape [of a] queryField_shape [of b] show ?thesis
        using append_space_eq [of a x b y] by simp
    next
      case MetaCol
      with c assms hd_ne [of a] show ?thesis by metis
    qed
  next
    case c: MetaCol
    show ?thesis
    proof (cases d)
      case (Plain b)
      with c assms hd_ne [of b] show ?thesis by metis
    next
      case MetaCol
      with c assms(3) show ?thesis by simp
    qed
  qed
qed

fun keyByte :: "sqlExpr \<Rightarrow> byte" where
  "keyByte (SLike c) = hd (colText c)"
| "keyByte (SCmp op c) = CHR ''C''"
| "keyByte SBare = CHR ''f''"
| "keyByte (SNot e) = CHR ''N''"
| "keyByte (SGroup e) = CHR ''(''"
| "keyByte (SBin op l r) = CHR ''(''"

lemma showSql_open: "\<exists>r. showSql s = CHR ''('' # r"
  by (cases s) simp_all

lemma colText_hd: "okCol c \<Longrightarrow> \<exists>r. colText c = hd (colText c) # r \<and> hd (colText c) \<in> {CHR ''f'', CHR ''a'', CHR ''j''}"
proof (cases c)
  case (Plain a)
  assume "okCol c"
  with Plain have "a \<noteq> []" "hd a \<in> {CHR ''f'', CHR ''a''}" using queryField_shape [of a] by simp_all
  then have "colText c = hd a # tl a" using Plain by simp
  with Plain \<open>hd a \<in> {CHR ''f'', CHR ''a''}\<close> show ?thesis by auto
qed simp

lemma showSql_key: "okSql s \<Longrightarrow> \<exists>r. showSql s = CHR ''('' # keyByte s # r"
proof (cases s)
  case (SLike c)
  assume "okSql s"
  with SLike have "okCol c" by simp
  then obtain r where "colText c = hd (colText c) # r" using colText_hd by blast
  then have "showSql s = CHR ''('' # hd (colText c) # r @ likeQ @ '')''"
    using SLike by (metis append_Cons append_Nil showSql.simps(1))
  then show ?thesis unfolding SLike keyByte.simps by (rule exI)
next
  case SBare
  then show ?thesis by (simp add: bareColumns_def)
next
  case (SGroup e)
  then show ?thesis using showSql_open [of e] by auto
next
  case (SBin op l r)
  then show ?thesis using showSql_open [of l] by auto
qed simp_all

lemma showSql_same_key:
  assumes "okSql s" "okSql t" "showSql s @ x = showSql t @ y"
  shows "keyByte s = keyByte t"
  using showSql_key [OF assms(1)] showSql_key [OF assms(2)] assms(3) by auto

lemma keyByte_SLike: "okCol c \<Longrightarrow> keyByte (SLike c) \<in> {CHR ''f'', CHR ''a'', CHR ''j''}"
  using colText_hd by auto

definition likeRest :: bytes where
  "likeRest = ''LIKE ? ESCAPE '' @ [CHR 0x27, CHR 0x5C, CHR 0x27]"

lemma likeQ_space: "likeQ = CHR '' '' # likeRest"
  by (simp add: likeQ_def likeRest_def)

lemma like_bare:
  assumes "okCol c" shows "showSql (SLike c) @ x \<noteq> showSql SBare @ y"
proof
  assume eq: "showSql (SLike c) @ x = showSql SBare @ y"
  obtain R where bare: "showSql SBare = CHR ''('' # colText (Plain ''f.path'') @ CHR '' '' # likeRest @ CHR '' '' # R"
    by (simp add: bareColumns_def likeQ_space)
  have ok: "okCol (Plain ''f.path'')" using queryField_ran [of "''path''" "''f.path''"] by (simp add: queryField_def)
  have "colText c @ CHR '' '' # (likeRest @ '')'' @ x) = colText (Plain ''f.path'') @ CHR '' '' # (likeRest @ CHR '' '' # R @ y)"
    using eq unfolding bare by (simp add: likeQ_space)
  from colText_eq [OF assms ok this] show False by simp
qed

lemma showSql_unique:
  "okSql s \<Longrightarrow> okSql t \<Longrightarrow> showSql s @ x = showSql t @ y \<Longrightarrow> s = t \<and> x = y"
proof (induction s arbitrary: t x y)
  case (SLike c)
  note key = showSql_same_key [OF SLike.prems] and kc = keyByte_SLike [of c]
  show ?case
  proof (cases t)
    case (SLike d)
    with \<open>okSql (SLike c)\<close> \<open>okSql t\<close> \<open>showSql (SLike c) @ x = showSql t @ y\<close>
    have "c = d \<and> likeRest @ '')'' @ x = likeRest @ '')'' @ y"
      by (intro colText_eq) (simp_all add: likeQ_space)
    with SLike show ?thesis by simp
  next
    case SBare
    with SLike.prems like_bare [of c] show ?thesis by auto
  qed (use key kc SLike.prems in auto)
next
  case (SCmp op c)
  note key = showSql_same_key [OF SCmp.prems]
  show ?case
  proof (cases t)
    case (SLike d)
    with key keyByte_SLike [of d] SCmp.prems show ?thesis by auto
  next
    case (SCmp op' d)
    with \<open>okSql (SCmp op c)\<close> \<open>okSql t\<close> \<open>showSql (SCmp op c) @ x = showSql t @ y\<close>
    have "c = d \<and> ''AS REAL) '' @ op @ '' ?)'' @ x = ''AS REAL) '' @ op' @ '' ?)'' @ y"
      by (intro colText_eq) simp_all
    then have "c = d" "op @ CHR '' '' # ''?)'' @ x = op' @ CHR '' '' # ''?)'' @ y" by simp_all
    moreover have "CHR '' '' \<notin> set w" if "w \<in> set cmpOps" for w using that by (auto simp: cmpOps_def)
    ultimately show ?thesis
      using append_space_eq [of op "''?)'' @ x" op' "''?)'' @ y"] SCmp \<open>okSql (SCmp op c)\<close> \<open>okSql t\<close> by auto
  qed (use key in auto)
next
  case SBare
  note key = showSql_same_key [OF SBare.prems]
  show ?case
  proof (cases t)
    case (SLike d)
    with SBare.prems like_bare [of d y x] show ?thesis by auto
  next
    case SBare
    with \<open>showSql SBare @ x = showSql t @ y\<close> show ?thesis by simp
  qed (use key in auto)
next
  case (SNot e)
  note key = showSql_same_key [OF SNot.prems]
  show ?case
  proof (cases t)
    case (SLike d)
    with key keyByte_SLike [of d] SNot.prems show ?thesis by auto
  next
    case (SNot f)
    with SNot.prems SNot.IH [of f "'')'' @ x" "'')'' @ y"] show ?thesis by simp
  qed (use key in auto)
next
  case (SGroup e)
  note key = showSql_same_key [OF SGroup.prems]
  show ?case
  proof (cases t)
    case (SLike d)
    with key keyByte_SLike [of d] SGroup.prems show ?thesis by auto
  next
    case (SGroup f)
    with SGroup.prems SGroup.IH [of f "'')'' @ x" "'')'' @ y"] show ?thesis by simp
  next
    case (SBin op l r)
    with SGroup.prems SGroup.IH [of l "'')'' @ x" "op @ showSql r @ '')'' @ y"] show ?thesis by auto
  qed (use key in auto)
next
  case (SBin op l r)
  note key = showSql_same_key [OF SBin.prems]
  show ?case
  proof (cases t)
    case (SLike d)
    with key keyByte_SLike [of d] SBin.prems show ?thesis by auto
  next
    case (SGroup f)
    with SBin.prems SBin.IH(1) [of f "op @ showSql r @ '')'' @ x" "'')'' @ y"] show ?thesis by auto
  next
    case (SBin op' l' r')
    with SBin.prems SBin.IH(1) [of l' "op @ showSql r @ '')'' @ x" "op' @ showSql r' @ '')'' @ y"]
    have l: "l = l'" "op @ showSql r @ '')'' @ x = op' @ showSql r' @ '')'' @ y" by simp_all
    with SBin SBin.prems have "op = op'" by auto
    with l SBin SBin.prems SBin.IH(2) [of r' "'')'' @ x" "'')'' @ y"] show ?thesis by simp
  qed (use key in auto)
qed

section \<open>Properties\<close>

text \<open>
  C35. Queries are compiled to what they mean, and nothing of them becomes SQL text. Compiling always
  comes to an end. What it returns for a query with tokens is the print of one fragment, the only one
  that prints to this text, made of the listed columns, operators and placeholders; the tokens derive
  in the grammar a query of at most forty terms; and over every row, with the arguments bound in order,
  the fragment evaluates to the meaning of that query and uses every argument up.
\<close>

theorem CompileQuery_correct:
  "CompileQuery nu ulow query \<noteq> None \<and>
   (\<forall>sql args. CompileQuery nu ulow query = Some (Inr (sql, args)) \<longrightarrow>
      (if lexQuery (trimSpace query) = [] then sql = [] \<and> args = []
       else \<exists>e s. orQ (lexQuery (trimSpace query)) e \<and> qterms e \<le> 40 \<and>
              okSql s \<and> showSql s = sql \<and> (\<forall>t. okSql t \<and> showSql t = sql \<longrightarrow> t = s) \<and>
              (\<forall>row. evalSql nu row s args = Some (queryHolds nu ulow row e, []))))"
proof -
  let ?toks = "lexQuery (trimSpace query)"
  let ?r = "parseOr (compileTerm nu ulow) (4 * length ?toks + 3) (?toks, 0)"
  have ends: "?r \<noteq> None" using parseOr_enough [of "compileTerm nu ulow" "(?toks, 0)"] by simp
  have "\<exists>e s. orQ ?toks e \<and> qterms e \<le> 40 \<and> okSql s \<and> showSql s = sql \<and>
      (\<forall>t. okSql t \<and> showSql t = sql \<longrightarrow> t = s) \<and>
      (\<forall>row. evalSql nu row s args = Some (queryHolds nu ulow row e, []))"
    if r: "?r = Some (Inr ((sql, args), rest))" "fst rest = []" for sql args rest
  proof -
    have "readsAs nu ulow orQ (?toks, 0) (sql, args) rest"
      using parser_sound [THEN conjunct1, rule_format] r(1) unfolding onParsed_def by blast
    then obtain e where e: "orQ ?toks e" "compiledQ nu ulow e (sql, args)" "qterms e \<le> maxQueryTerms"
      unfolding readsAs_def using r(2) by auto
    then obtain s where s: "okSql s" "showSql s = sql"
        "\<And>row. evalSql nu row s args = Some (queryHolds nu ulow row e, [])"
      unfolding compiled_def by (metis append_Nil2 fst_conv snd_conv)
    have u: "\<forall>t. okSql t \<and> showSql t = sql \<longrightarrow> t = s"
      using showSql_unique [OF _ s(1), of _ "[]" "[]"] s(2) by simp
    have "qterms e \<le> 40" using e(3) by (simp add: maxQueryTerms_def)
    with e(1) s u show ?thesis by blast
  qed
  note good = this
  show ?thesis
  proof (intro conjI allI impI)
    show "CompileQuery nu ulow query \<noteq> None"
      using ends by (auto simp: CompileQuery_def Let_def split: option.split sum.split)
    fix sql args
    assume c: "CompileQuery nu ulow query = Some (Inr (sql, args))"
    show "if ?toks = [] then sql = [] \<and> args = []
       else \<exists>e s. orQ ?toks e \<and> qterms e \<le> 40 \<and> okSql s \<and> showSql s = sql \<and>
              (\<forall>t. okSql t \<and> showSql t = sql \<longrightarrow> t = s) \<and>
              (\<forall>row. evalSql nu row s args = Some (queryHolds nu ulow row e, []))"
    proof (cases "?toks = []")
      case True
      with c show ?thesis by (simp add: CompileQuery_def Let_def split: if_splits)
    next
      case False
      then have "trimSpace query \<noteq> []" by auto
      with c False obtain rest where "?r = Some (Inr ((sql, args), rest))" "fst rest = []"
        by (auto simp: CompileQuery_def Let_def split: if_splits option.splits sum.splits)
      with good False show ?thesis by simp
    qed
  qed
qed

text \<open>Numbers for the witness: only the empty text is one.\<close>

definition noFloats :: "unit floats" where
  "noFloats = \<lparr>fl_parse = (\<lambda>s. if s = [] then Some () else None), fl_cast = (\<lambda>s. ()), fl_cmp = (\<lambda>op a b. True)\<rparr>"

lemma CompileQuery_correct_witness:
  "\<exists>e. orQ [tokNot, tokTerm ''path:a'', tokTerm ''b''] e \<and> qterms e \<le> 40"
proof -
  have toks: "lexQuery (trimSpace ''not path:a b'') = [tokNot, tokTerm ''path:a'', tokTerm ''b'']" by code_simp
  have "case CompileQuery noFloats id ''not path:a b'' of Some (Inr _) \<Rightarrow> True | _ \<Rightarrow> False" by code_simp
  then obtain sql args where c: "CompileQuery noFloats id ''not path:a b'' = Some (Inr (sql, args))"
    by (auto split: option.splits sum.splits)
  then show ?thesis
    using CompileQuery_correct [THEN conjunct2, rule_format, OF c] unfolding toks by auto
qed

end
