(* ===== verification/Schedules.thy ===== *)
theory Schedules
  imports Commands "HOL-Library.Word"
begin

text \<open>
  Scheduled scans (\<open>internal/store/schedules.go\<close>): validation, the next firing in the schedule's time
  zone, the offset of an agent in the jitter window, and the table of schedules. A time zone is the
  function behind \<open>Location.lookup\<close>; which names are known is an argument. Instants are nanoseconds since
  the epoch, local dates are days since 1 January 1970.
\<close>

section \<open>Calendar\<close>

text \<open>
  \<open>lookup\<close> maps seconds in UTC to the offset in force and the bounds of the period in which it is.
\<close>

type_synonym zone = "int \<Rightarrow> int \<times> int \<times> int"

definition utcZone :: zone where
  "utcZone u = (0, - (2 ^ 63), 2 ^ 63 - 1)"

definition localSecs :: "zone \<Rightarrow> int \<Rightarrow> int" where
  "localSecs z u = u + fst (z u)"

definition localDay :: "zone \<Rightarrow> int \<Rightarrow> int" where
  "localDay z u = localSecs z u div 86400"

text \<open>\<open>time.Date\<close> for a day and the seconds since its midnight: first the offset at the time read as UTC,
  then, when the result is not in its period, the offset there.\<close>

definition goDate :: "zone \<Rightarrow> int \<Rightarrow> int \<Rightarrow> int" where
  "goDate z day sec =
     (let unix = day * 86400 + sec
      in case z unix of (offset, start, stop) \<Rightarrow>
           if offset = 0 then unix
           else (let utc = unix - offset
                 in if utc < start \<or> stop \<le> utc then unix - fst (z utc) else unix - offset))"

text \<open>\<open>AddDate(0, 0, i)\<close> keeps the local time of day.\<close>

definition addDays :: "zone \<Rightarrow> int \<Rightarrow> int \<Rightarrow> int" where
  "addDays z u i = goDate z (localDay z u + i) (localSecs z u mod 86400)"

text \<open>\<open>Weekday\<close> of a day: 1 January 1970 was a Thursday, Sunday is 0.\<close>

definition weekday :: "int \<Rightarrow> nat" where
  "weekday day = nat ((day + 4) mod 7)"

section \<open>Schedules\<close>

record Schedule =
  sc_id :: int
  sc_name :: bytes
  sc_estate :: int
  sc_agent :: bytes
  sc_kind :: bytes
  sc_minute :: int
  sc_weekdays :: int
  sc_tz :: bytes
  sc_enabled :: bool
  sc_jitter :: int
  sc_last :: int
  sc_next :: int
  sc_created :: int
  sc_by :: bytes

definition scheduleKinds :: "bytes list" where
  "scheduleKinds = [''scan'', ''baseline'', ''verify'']"

datatype scheduleError = BadKind bytes | TwoTargets | BadTime | NoWeekdays | BadJitter | BadZone bytes
  | NoSchedule | Constraint

definition validate :: "(bytes \<Rightarrow> zone option) \<Rightarrow> Schedule \<Rightarrow> scheduleError option" where
  "validate zones s =
     (if \<not> List.member scheduleKinds (sc_kind s) then Some (BadKind (sc_kind s))
      else if sc_estate s \<noteq> 0 \<and> sc_agent s \<noteq> [] then Some TwoTargets
      else if sc_minute s < 0 \<or> sc_minute s > 1439 then Some BadTime
      else if take_bit 7 (sc_weekdays s) = 0 then Some NoWeekdays
      else if sc_jitter s < 0 \<or> sc_jitter s > 240 then Some BadJitter
      else if zones (sc_tz s) = None then Some (BadZone (sc_tz s))
      else None)"

definition zoneOf :: "(bytes \<Rightarrow> zone option) \<Rightarrow> Schedule \<Rightarrow> zone" where
  "zoneOf zones s = (case zones (sc_tz s) of None \<Rightarrow> utcZone | Some z \<Rightarrow> z)"

text \<open>The firing considered on the \<open>i\<close>-th day, in seconds, and whether its weekday is selected.\<close>

definition fireDay :: "zone \<Rightarrow> int \<Rightarrow> nat \<Rightarrow> int" where
  "fireDay z from i = localDay z (addDays z (secs from) (int i))"

definition fireAt :: "zone \<Rightarrow> Schedule \<Rightarrow> int \<Rightarrow> nat \<Rightarrow> int" where
  "fireAt z s from i = goDate z (fireDay z from i) (goQuot (sc_minute s) 60 * 3600 + goRem (sc_minute s) 60 * 60)"

definition NextRunAfter :: "(bytes \<Rightarrow> zone option) \<Rightarrow> Schedule \<Rightarrow> int \<Rightarrow> int" where
  "NextRunAfter zones s from =
     (let z = zoneOf zones s
      in case find (\<lambda>i. bit (sc_weekdays s) (weekday (fireDay z from i)) \<and> fireAt z s from i * 1000000000 > from) [0..<8] of
           Some i \<Rightarrow> fireAt z s from i * 1000000000
         | None \<Rightarrow> from + hours 24)"

text \<open>FNV-1a on 32 bits.\<close>

definition fnv32a :: "bytes \<Rightarrow> 32 word" where
  "fnv32a s = foldl (\<lambda>h c. xor h (of_nat (of_char c)) * 16777619) 2166136261 s"

definition minutes :: "int \<Rightarrow> int" where
  "minutes n = n * 60 * 1000000000"

definition AgentOffset :: "Schedule \<Rightarrow> bytes \<Rightarrow> int" where
  "AgentOffset s agentID =
     (if sc_jitter s \<le> 0 then 0
      else minutes (uint (fnv32a agentID mod word_of_int (sc_jitter s))))"

section \<open>The table\<close>

record scheduleDB =
  sd_rows :: "Schedule list"
  sd_seq :: int

text \<open>
  The foreign keys: the estate, when there is one, must exist, and the agent, when there is one.
\<close>

definition CreateSchedule :: "(bytes \<Rightarrow> zone option) \<Rightarrow> (int \<Rightarrow> bool) \<Rightarrow> int \<Rightarrow> Schedule \<Rightarrow> fleetDB \<Rightarrow> scheduleDB \<Rightarrow>
    scheduleError + Schedule \<times> scheduleDB" where
  "CreateSchedule zones estates now s0 fl db =
     (let s1 = (if sc_kind s0 = [] then s0\<lparr>sc_kind := ''scan''\<rparr> else s0);
          s2 = (if sc_tz s1 = [] then s1\<lparr>sc_tz := ''UTC''\<rparr> else s1)
      in case validate zones s2 of
           Some e \<Rightarrow> Inl e
         | None \<Rightarrow>
             (let s3 = s2\<lparr>sc_id := sd_seq db + 1, sc_last := 0, sc_next := secs (NextRunAfter zones s2 now),
                         sc_created := secs now\<rparr>
              in if (sc_estate s3 \<noteq> 0 \<and> \<not> estates (sc_estate s3)) \<or>
                    (sc_agent s3 \<noteq> [] \<and> GetAgent (sc_agent s3) fl = None) then Inl Constraint
                 else Inr (s3, \<lparr>sd_rows = sd_rows db @ [s3], sd_seq = sd_seq db + 1\<rparr>)))"

definition ListSchedules :: "int \<Rightarrow> scheduleDB \<Rightarrow> Schedule list" where
  "ListSchedules e db = sort_key sc_next (filter (\<lambda>s. e = 0 \<or> sc_estate s = e) (sd_rows db))"

definition updSchedule :: "int \<Rightarrow> (Schedule \<Rightarrow> Schedule) \<Rightarrow> scheduleDB \<Rightarrow> scheduleDB" where
  "updSchedule i g db = db\<lparr>sd_rows := map (\<lambda>s. if sc_id s = i then g s else s) (sd_rows db)\<rparr>"

definition SetScheduleEnabled :: "(bytes \<Rightarrow> zone option) \<Rightarrow> int \<Rightarrow> int \<Rightarrow> bool \<Rightarrow> scheduleDB \<Rightarrow> scheduleError + scheduleDB" where
  "SetScheduleEnabled zones now i enabled db =
     (if \<not> enabled then Inr (updSchedule i (\<lambda>s. s\<lparr>sc_enabled := False\<rparr>) db)
      else (case find (\<lambda>s. sc_id s = i) (sd_rows db) of
              None \<Rightarrow> Inl NoSchedule
            | Some s \<Rightarrow> Inr (updSchedule i (\<lambda>x. x\<lparr>sc_enabled := True, sc_next := secs (NextRunAfter zones s now)\<rparr>) db)))"

definition DeleteSchedule :: "int \<Rightarrow> scheduleDB \<Rightarrow> scheduleDB" where
  "DeleteSchedule i db = db\<lparr>sd_rows := filter (\<lambda>s. sc_id s \<noteq> i) (sd_rows db)\<rparr>"

definition DueSchedules :: "int \<Rightarrow> scheduleDB \<Rightarrow> Schedule list" where
  "DueSchedules now db = sort_key sc_next (filter (\<lambda>s. sc_enabled s \<and> sc_next s \<le> secs now) (sd_rows db))"

definition MarkScheduleRun :: "(bytes \<Rightarrow> zone option) \<Rightarrow> Schedule \<Rightarrow> int \<Rightarrow> scheduleDB \<Rightarrow> scheduleDB" where
  "MarkScheduleRun zones s at db =
     updSchedule (sc_id s) (\<lambda>x. x\<lparr>sc_last := secs at, sc_next := secs (NextRunAfter zones s at)\<rparr>) db"

text \<open>The agents of a listing, in the order of their label and host name; the counts of their open findings
  are left out.\<close>

definition ListAgents :: "bool \<Rightarrow> int \<Rightarrow> fleetDB \<Rightarrow> fleetAgent list" where
  "ListAgents includeRetired e db =
     sort_key (\<lambda>a. (fa_label a, ar_hostname a))
       (filter (\<lambda>a. (includeRetired \<or> ar_retired a = 0) \<and> (e = 0 \<or> ar_estate a = Some e)) (fl_agents db))"

text \<open>\<open>GetAgent\<close> reports a missing agent by an error of its own, so its absence is an error here too.\<close>

definition AgentsForSchedule :: "Schedule \<Rightarrow> fleetDB \<Rightarrow> bytes + fleetAgent list" where
  "AgentsForSchedule s db =
     (if sc_agent s \<noteq> [] then
        (case GetAgent (sc_agent s) db of
           None \<Rightarrow> Inl ''agent not found''
         | Some a \<Rightarrow> if ar_retired a \<noteq> 0 then Inr [] else Inr [a])
      else Inr (ListAgents False (sc_estate s) db))"

section \<open>The next firing\<close>

definition fixedZone :: "int \<Rightarrow> zone \<Rightarrow> bool" where
  "fixedZone off z \<longleftrightarrow> (\<forall>u. fst (z u) = off)"

lemma goDate_fixed: "fixedZone off z \<Longrightarrow> goDate z day sec = day * 86400 + sec - off"
  by (auto simp: goDate_def Let_def fixedZone_def split: prod.split) (metis fst_conv)+

lemma addDays_fixed: "fixedZone off z \<Longrightarrow> addDays z u i = u + i * 86400"
proof -
  assume z: "fixedZone off z"
  then have "localSecs z u = u + off" by (simp add: localSecs_def fixedZone_def)
  moreover have "(u + off) div 86400 * 86400 + (u + off) mod 86400 = u + off" by simp
  ultimately have "localSecs z u div 86400 * 86400 + localSecs z u mod 86400 = u + off" by simp
  then have "(localDay z u + i) * 86400 + localSecs z u mod 86400 - off = u + i * 86400"
    unfolding localDay_def distrib_right by linarith
  then show ?thesis using z by (simp add: addDays_def goDate_fixed)
qed

lemma fireDay_fixed:
  assumes "fixedZone off z" shows "fireDay z from i = (secs from + off) div 86400 + int i"
proof -
  have "localDay z u = (u + off) div 86400" for u
    using assms by (simp add: localDay_def localSecs_def fixedZone_def)
  moreover have "(secs from + int i * 86400 + off) div 86400 = (secs from + off) div 86400 + int i"
    using div_mult_self1 [of 86400 "secs from + off" "int i"] by (simp add: algebra_simps)
  ultimately show ?thesis by (simp add: fireDay_def addDays_fixed [OF assms])
qed

text \<open>The instants (in seconds) at which a schedule means to fire under a fixed offset.\<close>

definition fires :: "Schedule \<Rightarrow> int \<Rightarrow> int \<Rightarrow> bool" where
  "fires s off T \<longleftrightarrow>
     (\<exists>day. bit (sc_weekdays s) (weekday day) \<and> T = day * 86400 + sc_minute s * 60 - off)"

lemma weekday_add: "weekday (d + 7 * k) = weekday d"
  by (simp add: weekday_def) (metis (no_types, lifting) add.assoc add.commute mod_mult_self2)

lemma weekday_hits: "w < 7 \<Longrightarrow> \<exists>i. 1 \<le> i \<and> i \<le> 7 \<and> weekday (d + int i) = w"
proof -
  assume w: "w < 7"
  define i where "i = nat ((int w - d - 5) mod 7) + 1"
  have "int i = (int w - d - 5) mod 7 + 1" by (simp add: i_def)
  then have "d + int i + 4 = (d + 5) + (int w - d - 5) mod 7" by simp
  also have "\<dots> mod 7 = ((d + 5) + (int w - d - 5)) mod 7" by (rule mod_add_right_eq)
  finally have "(d + int i + 4) mod 7 = int w" using w by simp
  then have "weekday (d + int i) = w" by (simp add: weekday_def)
  moreover have "i \<le> 7" using pos_mod_bound [of 7 "int w - d - 5"] unfolding i_def by linarith
  ultimately show ?thesis using i_def by (intro exI [of _ i]) simp
qed

lemma valid_schedule:
  assumes "validate zones s = None"
  shows "0 \<le> sc_minute s" "sc_minute s \<le> 1439" "\<exists>w<7. bit (sc_weekdays s) w" "sc_kind s \<in> set scheduleKinds"
    "0 \<le> sc_jitter s" "sc_jitter s \<le> 240"
proof -
  have v: "\<not> (sc_minute s < 0 \<or> sc_minute s > 1439)" "take_bit 7 (sc_weekdays s) \<noteq> 0"
      "sc_kind s \<in> set scheduleKinds" "\<not> (sc_jitter s < 0 \<or> sc_jitter s > 240)"
    using assms by (auto simp: validate_def List.member_iff split: if_splits)
  show "0 \<le> sc_minute s" "sc_minute s \<le> 1439" using v(1) by simp_all
  have "\<exists>w. bit (take_bit 7 (sc_weekdays s)) w" using v(2) bit_eqI [of "take_bit 7 (sc_weekdays s)" 0] by auto
  then show "\<exists>w<7. bit (sc_weekdays s) w" by (auto simp: bit_take_bit_iff)
  show "sc_kind s \<in> set scheduleKinds" "0 \<le> sc_jitter s" "sc_jitter s \<le> 240" using v(3,4) by simp_all
qed

lemma minute_secs: "0 \<le> m \<Longrightarrow> goQuot m 60 * 3600 + goRem m 60 * 60 = m * 60"
proof -
  assume "0 \<le> m"
  moreover have "m div 60 * 60 + m mod 60 = m" by simp
  then have "m div 60 * 3600 + m mod 60 * 60 = m * 60" by linarith
  ultimately show ?thesis by simp
qed

lemma after_iff: "T * 1000000000 > t \<longleftrightarrow> T > secs t"
proof -
  have "t = secs t * 1000000000 + t mod 1000000000" "0 \<le> t mod 1000000000" "t mod 1000000000 < 1000000000"
    by (simp_all add: secs_def)
  then show ?thesis by linarith
qed

lemma find_upt:
  assumes "find P [0..<n] = Some i"
  shows "i < n" "P i" "\<And>j. j < i \<Longrightarrow> \<not> P j"
proof -
  from assms obtain k where k: "k < length [0..<n]" "P ([0..<n] ! k)" "i = [0..<n] ! k"
      "\<forall>j<k. \<not> P ([0..<n] ! j)"
    unfolding find_Some_iff by blast
  then show "i < n" "P i" "\<And>j. j < i \<Longrightarrow> \<not> P j" by auto
qed

lemma NextRunAfter_least:
  fixes start :: int
  assumes "validate zones s = None" and z: "fixedZone off (zoneOf zones s)"
  defines "T \<equiv> secs (NextRunAfter zones s start)"
  shows "NextRunAfter zones s start = T * 1000000000" and "fires s off T" and "secs start < T"
    and "\<And>u. fires s off u \<Longrightarrow> secs start < u \<Longrightarrow> T \<le> u" and "T \<le> secs start + 7 * 86400"
proof -
  let ?z = "zoneOf zones s" and ?d = "(secs start + off) div 86400"
  let ?F = "\<lambda>i. (?d + int i) * 86400 + sc_minute s * 60 - off"
  let ?P = "\<lambda>i. bit (sc_weekdays s) (weekday (?d + int i)) \<and> ?F i > secs start"
  note v = valid_schedule [OF assms(1)]
  have fire: "fireAt ?z s start i = ?F i" for i
    using minute_secs [OF v(1)] by (simp add: fireAt_def goDate_fixed [OF z] fireDay_fixed [OF z])
  have dm: "?d * 86400 \<le> secs start + off" "secs start + off < (?d + 1) * 86400"
    using div_mult_mod_eq [of "secs start + off" 86400] pos_mod_bound [of 86400 "secs start + off"]
      pos_mod_sign [of 86400 "secs start + off"] unfolding distrib_right by linarith+
  obtain w where w: "w < 7" "bit (sc_weekdays s) w" using v(3) by blast
  obtain i1 where i1: "1 \<le> i1" "i1 \<le> 7" "weekday (?d + int i1) = w" using weekday_hits [OF w(1)] by blast
  have late: "?F i > secs start" if "1 \<le> i" for i
  proof -
    have "(?d + 1) * 86400 \<le> (?d + int i) * 86400" using that by simp
    with dm(2) v(1) show ?thesis by linarith
  qed
  have P1: "?P i1" using w(2) i1 late by simp
  have next_eq: "NextRunAfter zones s start = (case find ?P [0..<8] of Some i \<Rightarrow> ?F i * 1000000000 | None \<Rightarrow> start + hours 24)"
    unfolding NextRunAfter_def Let_def fire after_iff fireDay_fixed [OF z] by simp
  have "find ?P [0..<8] \<noteq> None"
  proof
    assume "find ?P [0..<8] = None"
    then have "\<not> ?P i1" unfolding find_None_iff using i1(2) by auto
    with P1 show False by simp
  qed
  then obtain i where i: "find ?P [0..<8] = Some i" by blast
  have next_i: "NextRunAfter zones s start = ?F i * 1000000000" using next_eq unfolding i by simp
  then have T: "T = ?F i" by (simp add: T_def secs_def)
  show "NextRunAfter zones s start = T * 1000000000" using next_i T by simp
  show "fires s off T" unfolding fires_def T using find_upt(2) [OF i] by blast
  show "secs start < T" using find_upt(2) [OF i] T by simp
  have "i \<le> i1"
  proof (rule ccontr)
    assume "\<not> i \<le> i1"
    then have "\<not> ?P i1" by (intro find_upt(3) [OF i]) simp
    with P1 show False by simp
  qed
  show "T \<le> u" if "fires s off u" "secs start < u" for u
  proof -
    from that(1) obtain day where day: "bit (sc_weekdays s) (weekday day)" "u = day * 86400 + sc_minute s * 60 - off"
      unfolding fires_def by blast
    have "?d \<le> day"
    proof (rule ccontr)
      assume "\<not> ?d \<le> day"
      then have "(day + 1) * 86400 \<le> ?d * 86400" by simp
      with dm(1) day(2) v(2) that(2) show False unfolding distrib_right by linarith
    qed
    then obtain k where k: "day = ?d + int k" by (metis zle_iff_zadd)
    with day that(2) have "?P k" by simp
    then have "i \<le> k" using find_upt(3) [OF i, of k] by (meson leI)
    then show ?thesis by (simp add: T day(2) k)
  qed
  show "T \<le> secs start + 7 * 86400"
  proof (cases "i = 7")
    case False
    then have "i \<le> 6" using \<open>i \<le> i1\<close> i1(2) by simp
    then have "(?d + int i) * 86400 \<le> (?d + 6) * 86400" by simp
    with dm(1) v(2) show ?thesis unfolding T distrib_right by linarith
  next
    case True
    then have "weekday (?d + int i) = weekday ?d" using weekday_add [of ?d 1] by simp
    then have "\<not> ?F 0 > secs start" using find_upt(2) [OF i] find_upt(3) [OF i, of 0] True by simp
    then show ?thesis unfolding T True by simp
  qed
qed

text \<open>Whatever the zone, the next firing lies in the future, also after truncation to seconds.\<close>

lemma NextRunAfter_after: "start < NextRunAfter zones s start" "secs start < secs (NextRunAfter zones s start)"
proof -
  let ?P = "\<lambda>i. bit (sc_weekdays s) (weekday (fireDay (zoneOf zones s) start i)) \<and>
    fireAt (zoneOf zones s) s start i * 1000000000 > start"
  have "start < NextRunAfter zones s start \<and> secs start < secs (NextRunAfter zones s start)"
  proof (cases "find ?P [0..<8]")
    case None
    have "secs (start + 86400 * 1000000000) = secs start + 86400"
      using div_mult_self1 [of 1000000000 start 86400] by (simp add: secs_def)
    with None show ?thesis by (simp add: NextRunAfter_def Let_def hours_def)
  next
    case (Some i)
    then have "fireAt (zoneOf zones s) s start i * 1000000000 > start" using find_upt(2) by blast
    with Some show ?thesis using after_iff [of start] by (simp add: NextRunAfter_def Let_def secs_def)
  qed
  then show "start < NextRunAfter zones s start" "secs start < secs (NextRunAfter zones s start)" by simp_all
qed

lemma AgentOffset_window:
  assumes "sc_jitter s \<le> 240"
  shows "0 \<le> AgentOffset s a" "AgentOffset s a \<le> minutes (max 0 (sc_jitter s - 1))"
proof -
  have "uint (fnv32a a mod word_of_int (sc_jitter s)) \<le> sc_jitter s - 1" if "0 < sc_jitter s"
  proof -
    have "uint (word_of_int (sc_jitter s) :: 32 word) = sc_jitter s"
      using that assms by (simp add: unsigned_of_int take_bit_int_eq_self)
    then have "uint (fnv32a a mod word_of_int (sc_jitter s)) = uint (fnv32a a) mod sc_jitter s"
      by (simp add: uint_mod_distrib)
    then show ?thesis using pos_mod_bound [OF that, of "uint (fnv32a a)"] by simp
  qed
  moreover have "0 \<le> uint (fnv32a a mod word_of_int (sc_jitter s))" by simp
  ultimately show "0 \<le> AgentOffset s a" "AgentOffset s a \<le> minutes (max 0 (sc_jitter s - 1))"
    by (auto simp: AgentOffset_def minutes_def)
qed

section \<open>Properties\<close>


text \<open>Mondays at 03:00, two hours east; from Monday 5 January 1970, 01:00 in UTC, which is 03:00 there.\<close>

definition sampleSchedule :: Schedule where
  "sampleSchedule = \<lparr>sc_id = 1, sc_name = ''night'', sc_estate = 0, sc_agent = [], sc_kind = ''scan'',
     sc_minute = 180, sc_weekdays = 2, sc_tz = ''East'', sc_enabled = True, sc_jitter = 30, sc_last = 0,
     sc_next = 0, sc_created = 0, sc_by = ''op''\<rparr>"

definition sampleZones :: "bytes \<Rightarrow> zone option" where
  "sampleZones n = (if n = ''East'' then Some (\<lambda>u. (7200, - (2 ^ 63), 2 ^ 63 - 1)) else None)"


end
