(* ===== verification/Scheduler.thy ===== *)
theory Scheduler
  imports Schedules Orders
begin

text \<open>
  The scheduler of the console (\<open>internal/console/scheduler.go\<close>): on each tick the due schedules are
  advanced and a command is queued for every agent in their scope, each with the time before which it
  must not start. Fresh secrets and the JSON text of the parameters are arguments; log lines are left out.
\<close>

section \<open>Formatting\<close>

definition itoa :: "int \<Rightarrow> bytes" where
  "itoa n =
     (if n = 0 then ''0''
      else (let neg = n < 0; m = (if neg then wrap64 (- n) else n)
            in (if neg then ''-'' else []) @ (if m > 0 then showNat (nat m) else [])))"

definition schedDetail :: "Schedule \<Rightarrow> nat \<Rightarrow> bytes" where
  "schedDetail s n =
     (let scope = (if sc_agent s \<noteq> [] then ''agent '' @ sc_agent s
                   else if sc_estate s \<noteq> 0 then ''estate '' @ itoa (sc_estate s)
                   else ''all agents'')
      in sc_kind s @ '' on '' @ scope @ '' ('' @ itoa (int n) @ '' host(s))'')"

section \<open>A tick\<close>

fun dispatchLoop :: "(Schedule \<Rightarrow> bytes) \<Rightarrow> bytes list \<Rightarrow> Schedule \<Rightarrow> int \<Rightarrow> fleetAgent list \<Rightarrow> nat \<Rightarrow> opState \<Rightarrow>
    nat \<times> opState" where
  "dispatchLoop params secrets s now [] queued st = (queued, st)"
| "dispatchLoop params secrets s now (a # as) queued st =
     (let ttl = hours 12 + AgentOffset s (ar_id a);
          notBefore = now + AgentOffset s (ar_id a)
      in case CreateCommandAt now (hd secrets) (ar_id a) (sc_kind s) (params s) ''scheduler'' ttl (Some notBefore) st of
           Inl e \<Rightarrow> dispatchLoop params (tl secrets) s now as queued st
         | Inr (c, st') \<Rightarrow> dispatchLoop params (tl secrets) s now as (queued + 1) st')"

definition dispatchSchedule :: "(Schedule \<Rightarrow> bytes) \<Rightarrow> bytes list \<Rightarrow> Schedule \<Rightarrow> fleetAgent list \<Rightarrow> int \<Rightarrow> opState \<Rightarrow>
    nat \<times> opState" where
  "dispatchSchedule params secrets s agents now st = dispatchLoop params secrets s now agents 0 st"

definition auditSystem :: "int \<Rightarrow> bytes \<Rightarrow> bytes \<Rightarrow> bytes \<Rightarrow> bytes \<Rightarrow> opState \<Rightarrow> opState" where
  "auditSystem t actor action target detail st =
     st\<lparr>os_fleet := (os_fleet st)\<lparr>fl_audit := Audit t actor action target detail ''local'' ''ok'' (fl_audit (os_fleet st))\<rparr>\<rparr>"

fun runLoop :: "(bytes \<Rightarrow> zone option) \<Rightarrow> (Schedule \<Rightarrow> bytes) \<Rightarrow> bytes list \<Rightarrow> int \<Rightarrow> Schedule list \<Rightarrow>
    scheduleDB \<times> opState \<Rightarrow> scheduleDB \<times> opState" where
  "runLoop zones params secrets now [] x = x"
| "runLoop zones params secrets now (s # ss) (sd, st) =
     (let sd1 = MarkScheduleRun zones s now sd
      in case AgentsForSchedule s (os_fleet st) of
           Inl e \<Rightarrow> runLoop zones params secrets now ss (sd1, st)
         | Inr agents \<Rightarrow>
             (case dispatchSchedule params secrets s agents now st of
                (n, st1) \<Rightarrow>
                  runLoop zones params (drop (length agents) secrets) now ss
                    (sd1, auditSystem (secs now) ''scheduler'' ''schedule.fired'' (sc_name s) (schedDetail s n) st1)))"

definition runDueSchedules :: "(bytes \<Rightarrow> zone option) \<Rightarrow> (Schedule \<Rightarrow> bytes) \<Rightarrow> bytes list \<Rightarrow> int \<Rightarrow>
    scheduleDB \<times> opState \<Rightarrow> scheduleDB \<times> opState" where
  "runDueSchedules zones params secrets now x = runLoop zones params secrets now (DueSchedules now (fst x)) x"

section \<open>The table keeps its invariant\<close>

definition schedulesOk :: "scheduleDB \<Rightarrow> bool" where
  "schedulesOk db \<longleftrightarrow> (\<forall>s\<in>set (sd_rows db). sc_kind s \<in> set scheduleKinds \<and> 0 \<le> sc_jitter s \<and> sc_jitter s \<le> 240 \<and>
     sc_id s \<le> sd_seq db) \<and> distinct (map sc_id (sd_rows db))"

lemma schedulesOk_upd:
  assumes "schedulesOk db"
    and "\<And>s. sc_kind (g s) = sc_kind s" "\<And>s. sc_jitter (g s) = sc_jitter s" "\<And>s. sc_id (g s) = sc_id s"
  shows "schedulesOk (updSchedule i g db)"
proof -
  have ids: "map sc_id (sd_rows (updSchedule i g db)) = map sc_id (sd_rows db)"
    using assms(4) by (simp add: updSchedule_def)
  have seq: "sd_seq (updSchedule i g db) = sd_seq db" by (simp add: updSchedule_def)
  show ?thesis
    using assms unfolding schedulesOk_def ids seq by (auto simp: updSchedule_def)
qed

lemma CreateSchedule_ok:
  assumes "schedulesOk db" and "CreateSchedule zones estates now s0 fl db = Inr (s, db')"
  shows "schedulesOk db'"
proof -
  obtain s2 where s2: "validate zones s2 = None" "sc_kind s = sc_kind s2" "sc_jitter s = sc_jitter s2"
      "sc_id s = sd_seq db + 1" "db' = \<lparr>sd_rows = sd_rows db @ [s], sd_seq = sd_seq db + 1\<rparr>"
    using assms(2) by (auto simp: CreateSchedule_def Let_def split: if_splits option.splits)
  have "sd_seq db + 1 \<notin> sc_id ` set (sd_rows db)" using assms(1) by (force simp: schedulesOk_def)
  then show ?thesis
    using assms(1) s2 valid_schedule [OF s2(1)] by (auto simp: schedulesOk_def)
qed

lemma SetScheduleEnabled_ok:
  "schedulesOk db \<Longrightarrow> SetScheduleEnabled zones now i b db = Inr db' \<Longrightarrow> schedulesOk db'"
  by (auto simp: SetScheduleEnabled_def split: if_splits option.splits intro!: schedulesOk_upd)

lemma DeleteSchedule_ok: "schedulesOk db \<Longrightarrow> schedulesOk (DeleteSchedule i db)"
  by (auto simp: schedulesOk_def DeleteSchedule_def intro: distinct_map_filter)

lemma MarkScheduleRun_ok: "schedulesOk db \<Longrightarrow> schedulesOk (MarkScheduleRun zones s t db)"
  unfolding MarkScheduleRun_def by (rule schedulesOk_upd) simp_all

section \<open>What a tick does\<close>

lemma CreateCommandAt_new:
  assumes "CreateCommandAt t secret aid kind params by ttl (Some n) st = Inr (c, st')"
  shows "\<exists>c'. os_cmds st' = os_cmds st @ [c'] \<and> os_fleet st' = os_fleet st \<and> os_console st' = os_console st \<and>
    cm_agent c' = aid \<and> cm_kind c' = kind \<and> cm_by c' = by \<and> cm_not_before c' = secs n \<and>
    cm_status c' = (if DestructiveKinds kind then StPending else StApproved)"
proof -
  have fresh: "\<not> list_ex (\<lambda>x. cm_id x = ''cmd_'' @ secret) (os_cmds st)"
    using assms by (auto simp: CreateCommandAt_def CreateCommand_def Let_def split: if_splits sum.splits)
  have "updCmds (\<lambda>c. cm_id c = ''cmd_'' @ secret) g (os_cmds st) = os_cmds st" for g
    using fresh by (auto simp: updCmds_def list_ex_iff intro!: map_idI)
  then show ?thesis
    using assms by (auto simp: CreateCommandAt_def CreateCommand_def Let_def SetNotBefore_def updCmds_def
        split: if_splits sum.splits)
qed

text \<open>What the tick of one schedule may add for the agents given.\<close>

definition queuedFor :: "int \<Rightarrow> Schedule \<Rightarrow> fleetAgent list \<Rightarrow> Command \<Rightarrow> bool" where
  "queuedFor now s agents c \<longleftrightarrow>
     cm_kind c = sc_kind s \<and> cm_status c = StApproved \<and> cm_by c = ''scheduler'' \<and>
     (\<exists>a\<in>set agents. ar_id a = cm_agent c \<and> cm_not_before c = secs (now + AgentOffset s (ar_id a)))"

definition extends :: "(Command \<Rightarrow> bool) \<Rightarrow> opState \<Rightarrow> opState \<Rightarrow> bool" where
  "extends P st st' \<longleftrightarrow> (\<exists>new. os_cmds st' = os_cmds st @ new \<and> (\<forall>c\<in>set new. P c)) \<and>
     fl_agents (os_fleet st') = fl_agents (os_fleet st)"

lemma extends_refl: "extends P st st"
  by (simp add: extends_def)

lemma extends_trans: "extends P a b \<Longrightarrow> extends P b c \<Longrightarrow> extends P a c"
  unfolding extends_def by (elim exE conjE, rule conjI, rule_tac x = "new @ newa" in exI) auto

lemma extends_mono: "extends P a b \<Longrightarrow> (\<And>c. P c \<Longrightarrow> Q c) \<Longrightarrow> extends Q a b"
  unfolding extends_def by blast

lemma scheduleKinds_safe: "k \<in> set scheduleKinds \<Longrightarrow> \<not> DestructiveKinds k \<and> List.member schedulable k"
  by (auto simp: scheduleKinds_def DestructiveKinds_def schedulable_def)

lemma dispatch_extends:
  assumes "sc_kind s \<in> set scheduleKinds"
  shows "dispatchLoop params secrets s now agents q st = (n, st') \<Longrightarrow>
    (opsStep cr ulow csrf hash)\<^sup>*\<^sup>* (tr, st) (tr, st') \<and> extends (queuedFor now s agents) st st' \<and> n \<le> q + length agents"
proof (induction agents arbitrary: secrets q st)
  case Nil
  then show ?case by (simp add: extends_refl)
next
  case (Cons a as)
  let ?r = "CreateCommandAt now (hd secrets) (ar_id a) (sc_kind s) (params s) ''scheduler''
     (hours 12 + AgentOffset s (ar_id a)) (Some (now + AgentOffset s (ar_id a))) st"
  show ?case
  proof (cases ?r)
    case (Inl e)
    with Cons.prems have "dispatchLoop params (tl secrets) s now as q st = (n, st')" by simp
    from Cons.IH [OF this] show ?thesis
      by (auto elim!: extends_mono simp: queuedFor_def)
  next
    case (Inr x)
    then obtain c st1 where r: "?r = Inr (c, st1)" by (cases x) auto
    with Cons.prems have "dispatchLoop params (tl secrets) s now as (q + 1) st1 = (n, st')" by simp
    note ih = Cons.IH [OF this]
    have "opsStep cr ulow csrf hash (tr, st) (tr, st1)"
      by (rule stepSchedule [OF _ r]) (use scheduleKinds_safe [OF assms] in simp)
    moreover have "extends (queuedFor now s (a # as)) st st1"
      using CreateCommandAt_new [OF r] scheduleKinds_safe [OF assms] unfolding extends_def queuedFor_def by auto
    moreover have "extends (queuedFor now s (a # as)) st1 st'"
      using ih by (auto elim!: extends_mono simp: queuedFor_def)
    ultimately show ?thesis
      using ih extends_trans converse_rtranclp_into_rtranclp [of "opsStep cr ulow csrf hash"] by auto
  qed
qed

lemma AgentsForSchedule_scope:
  assumes "AgentsForSchedule s db = Inr agents" and "a \<in> set agents"
  shows "a \<in> set (fl_agents db) \<and> ar_retired a = 0 \<and>
    (sc_agent s = ar_id a \<or> sc_agent s = [] \<and> (sc_estate s = 0 \<or> ar_estate a = Some (sc_estate s)))"
proof (cases "sc_agent s = []")
  case True
  with assms show ?thesis by (auto simp: AgentsForSchedule_def ListAgents_def)
next
  case False
  with assms have "GetAgent (sc_agent s) db = Some a" "ar_retired a = 0"
    by (auto simp: AgentsForSchedule_def split: option.splits if_splits)
  then show ?thesis by (auto simp: GetAgent_def find_Some_iff)
qed

lemma AgentsForSchedule_agents:
  "fl_agents db' = fl_agents db \<Longrightarrow> AgentsForSchedule s db' = AgentsForSchedule s db"
  by (simp add: AgentsForSchedule_def ListAgents_def GetAgent_def)

definition queuedBy :: "int \<Rightarrow> Schedule list \<Rightarrow> fleetDB \<Rightarrow> Command \<Rightarrow> bool" where
  "queuedBy now ss fl c \<longleftrightarrow> (\<exists>s\<in>set ss. \<exists>agents. AgentsForSchedule s fl = Inr agents \<and> queuedFor now s agents c)"

lemma audit_step: "opsStep cr ulow csrf hash (tr, st) (tr, auditSystem t actor action target detail st)"
  unfolding auditSystem_def by (rule stepFleet)

lemma run_extends:
  assumes "\<forall>s\<in>set ss. sc_kind s \<in> set scheduleKinds"
  shows "runLoop zones params secrets now ss (sd, st) = (sd', st') \<Longrightarrow>
    (opsStep cr ulow csrf hash)\<^sup>*\<^sup>* (tr, st) (tr, st') \<and> extends (queuedBy now ss (os_fleet st)) st st' \<and>
    (\<forall>r\<in>set (sd_rows sd'). secs now < sc_next r \<or> r \<in> set (sd_rows sd) \<and> sc_id r \<notin> sc_id ` set ss)"
  using assms
proof (induction ss arbitrary: secrets sd st)
  case Nil
  then show ?case by (simp add: extends_refl)
next
  case (Cons s ss)
  let ?sd = "MarkScheduleRun zones s now sd"
  have marked: "secs now < sc_next r \<or> r \<in> set (sd_rows sd) \<and> sc_id r \<noteq> sc_id s" if "r \<in> set (sd_rows ?sd)" for r
    using that NextRunAfter_after(2) [of now zones s] by (auto simp: MarkScheduleRun_def updSchedule_def)
  show ?case
  proof (cases "AgentsForSchedule s (os_fleet st)")
    case (Inl e)
    with Cons.prems(1) have "runLoop zones params secrets now ss (?sd, st) = (sd', st')" by simp
    from Cons.IH [OF this] Cons.prems(2) show ?thesis
      using marked by (auto elim!: extends_mono simp: queuedBy_def)
  next
    case (Inr agents)
    obtain n st1 where d: "dispatchSchedule params secrets s agents now st = (n, st1)" by force
    let ?st = "auditSystem (secs now) ''scheduler'' ''schedule.fired'' (sc_name s) (schedDetail s n) st1"
    from Cons.prems(1) Inr d
    have r: "runLoop zones params (drop (length agents) secrets) now ss (?sd, ?st) = (sd', st')" by simp
    have kind: "sc_kind s \<in> set scheduleKinds" using Cons.prems(2) by simp
    note disp = dispatch_extends [OF kind d [unfolded dispatchSchedule_def], of cr ulow csrf hash tr]
    have fl: "fl_agents (os_fleet ?st) = fl_agents (os_fleet st)"
      using disp by (simp add: extends_def auditSystem_def)
    have ih: "(opsStep cr ulow csrf hash)\<^sup>*\<^sup>* (tr, ?st) (tr, st')" "extends (queuedBy now ss (os_fleet ?st)) ?st st'"
      "\<forall>r\<in>set (sd_rows sd'). secs now < sc_next r \<or> r \<in> set (sd_rows ?sd) \<and> sc_id r \<notin> sc_id ` set ss"
      using Cons.IH [OF r] Cons.prems(2) by simp_all
    have "(opsStep cr ulow csrf hash)\<^sup>*\<^sup>* (tr, st1) (tr, ?st)"
      by (rule r_into_rtranclp) (rule audit_step)
    then have "(opsStep cr ulow csrf hash)\<^sup>*\<^sup>* (tr, st) (tr, st')"
      using disp ih(1) rtranclp_trans by meson
    moreover have "extends (queuedBy now (s # ss) (os_fleet st)) st ?st"
      using disp Inr by (auto simp: extends_def auditSystem_def queuedBy_def)
    moreover have "extends (queuedBy now (s # ss) (os_fleet st)) ?st st'"
      using ih(2) by (rule extends_mono) (auto simp: queuedBy_def AgentsForSchedule_agents [OF fl])
    moreover have "\<forall>r\<in>set (sd_rows sd'). secs now < sc_next r \<or> r \<in> set (sd_rows sd) \<and> sc_id r \<notin> sc_id ` set (s # ss)"
      using ih(3) marked by auto
    ultimately show ?thesis using extends_trans by blast
  qed
qed

lemma runLoop_ok: "schedulesOk (fst x) \<Longrightarrow> schedulesOk (fst (runLoop zones params secrets now ss x))"
proof (induction ss arbitrary: secrets x)
  case (Cons s ss)
  obtain sd st where x: "x = (sd, st)" by force
  then show ?case using Cons MarkScheduleRun_ok [of sd zones s now]
    by (auto simp: Let_def split: sum.split prod.split)
qed simp

lemma runs_steps:
  "(opsStep cr ulow csrf hash)\<^sup>*\<^sup>* x y \<Longrightarrow> opsRun cr ulow csrf hash x \<Longrightarrow> opsRun cr ulow csrf hash y"
  by (induction rule: rtranclp_induct) (auto intro: opsMore)

lemma offset_secs:
  assumes "0 \<le> sc_jitter s" "sc_jitter s \<le> 240"
  shows "secs now \<le> secs (now + AgentOffset s a)" "secs (now + AgentOffset s a) \<le> secs now + 60 * sc_jitter s"
proof -
  have mono: "secs x \<le> secs y" if "x \<le> y" for x y using that by (simp add: secs_def zdiv_mono1)
  have sec_minutes: "secs (now + minutes k) = secs now + 60 * k" for k
    using div_mult_self1 [of 1000000000 now "60 * k"] by (simp add: secs_def minutes_def mult.commute)
  show "secs now \<le> secs (now + AgentOffset s a)" using AgentOffset_window(1) [OF assms(2)] by (intro mono) simp
  have "AgentOffset s a \<le> minutes (sc_jitter s)"
    using AgentOffset_window(2) [OF assms(2), of a] assms(1) by (auto simp: minutes_def max_def split: if_splits)
  then show "secs (now + AgentOffset s a) \<le> secs now + 60 * sc_jitter s"
    unfolding sec_minutes [symmetric] by (intro mono) simp
qed

section \<open>Properties\<close>

text \<open>
  C37. One tick of the scheduler. Afterwards no schedule is due any more, so each fires once; the
  state is one the command channel reaches by its own steps, so what holds of every run of it holds
  with the scheduler running; and all that was added are released commands that scan, take a baseline
  or verify, each for an agent in service within the scope of a due schedule, to start within the
  jitter window of that schedule.
\<close>

theorem scheduler_tick:
  assumes "schedulesOk sd" and "runDueSchedules zones params secrets now (sd, st) = (sd', st')"
  shows "DueSchedules now sd' = [] \<and> schedulesOk sd' \<and>
    (opsRun cr ulow csrf hash (tr, st) \<longrightarrow> opsRun cr ulow csrf hash (tr, st')) \<and>
    (\<exists>new. os_cmds st' = os_cmds st @ new \<and>
       (\<forall>c\<in>set new. cm_status c = StApproved \<and> cm_kind c \<in> {''scan'', ''baseline'', ''verify''} \<and>
          (\<exists>s\<in>set (DueSchedules now sd). \<exists>a\<in>set (fl_agents (os_fleet st)).
             cm_kind c = sc_kind s \<and> cm_agent c = ar_id a \<and> ar_retired a = 0 \<and>
             (sc_agent s = ar_id a \<or> sc_agent s = [] \<and> (sc_estate s = 0 \<or> ar_estate a = Some (sc_estate s))) \<and>
             secs now \<le> cm_not_before c \<and> cm_not_before c \<le> secs now + 60 * sc_jitter s)))"
proof -
  let ?due = "DueSchedules now sd"
  have due: "set ?due = {s \<in> set (sd_rows sd). sc_enabled s \<and> sc_next s \<le> secs now}"
    by (auto simp: DueSchedules_def)
  have ok: "sc_kind s \<in> set scheduleKinds" "0 \<le> sc_jitter s" "sc_jitter s \<le> 240" if "s \<in> set ?due" for s
    using that assms(1) by (auto simp: due schedulesOk_def)
  have run: "runLoop zones params secrets now ?due (sd, st) = (sd', st')"
    using assms(2) by (simp add: runDueSchedules_def)
  have ext: "(opsStep cr ulow csrf hash)\<^sup>*\<^sup>* (tr, st) (tr, st')" "extends (queuedBy now ?due (os_fleet st)) st st'"
    "\<forall>r\<in>set (sd_rows sd'). secs now < sc_next r \<or> r \<in> set (sd_rows sd) \<and> sc_id r \<notin> sc_id ` set ?due"
    using run_extends [OF _ run, of cr ulow csrf hash tr] ok(1) by simp_all
  have "DueSchedules now sd' = []"
  proof (rule ccontr)
    assume "DueSchedules now sd' \<noteq> []"
    then obtain r where "r \<in> set (DueSchedules now sd')" using last_in_set by blast
    then have r: "r \<in> set (sd_rows sd')" "sc_enabled r" "sc_next r \<le> secs now" by (auto simp: DueSchedules_def)
    with ext(3) have "r \<in> set ?due" "sc_id r \<notin> sc_id ` set ?due" by (auto simp: due)
    then show False by blast
  qed
  moreover have "schedulesOk sd'" using runLoop_ok [of "(sd, st)"] run assms(1) by (metis fst_conv)
  moreover have "opsRun cr ulow csrf hash (tr, st) \<longrightarrow> opsRun cr ulow csrf hash (tr, st')"
    using runs_steps [OF ext(1)] by blast
  moreover obtain new where new: "os_cmds st' = os_cmds st @ new" "\<forall>c\<in>set new. queuedBy now ?due (os_fleet st) c"
    using ext(2) by (auto simp: extends_def)
  moreover have "cm_status c = StApproved \<and> cm_kind c \<in> {''scan'', ''baseline'', ''verify''} \<and>
          (\<exists>s\<in>set ?due. \<exists>a\<in>set (fl_agents (os_fleet st)).
             cm_kind c = sc_kind s \<and> cm_agent c = ar_id a \<and> ar_retired a = 0 \<and>
             (sc_agent s = ar_id a \<or> sc_agent s = [] \<and> (sc_estate s = 0 \<or> ar_estate a = Some (sc_estate s))) \<and>
             secs now \<le> cm_not_before c \<and> cm_not_before c \<le> secs now + 60 * sc_jitter s)" if "c \<in> set new" for c
  proof -
    from that new(2) obtain s agents a where s: "s \<in> set ?due" "AgentsForSchedule s (os_fleet st) = Inr agents"
        "queuedFor now s agents c" "a \<in> set agents" "ar_id a = cm_agent c"
        "cm_not_before c = secs (now + AgentOffset s (ar_id a))"
      unfolding queuedBy_def queuedFor_def by blast
    have k: "cm_kind c = sc_kind s" "cm_status c = StApproved" using s(3) by (simp_all add: queuedFor_def)
    have "cm_kind c \<in> {''scan'', ''baseline'', ''verify''}" using ok(1) [OF s(1)] k(1) by (simp add: scheduleKinds_def)
    with k AgentsForSchedule_scope [OF s(2,4)] s(1,5,6) offset_secs [OF ok(2,3) [OF s(1)], of now "ar_id a"]
    show ?thesis by (metis (no_types, lifting))
  qed
  ultimately show ?thesis by blast
qed

text \<open>A fleet of one host and a nightly schedule that is due.\<close>

definition tickAgent :: fleetAgent where
  "tickAgent = \<lparr>ar_id = ''ag'', ar_hostname = ''h'', ar_webroot = [], ar_retired = 0, ar_estate = None,
     fa_label = [], fa_site = [], fa_version = [], fa_os = [], fa_arch = [], fa_cred = [], fa_enrolled = 0,
     fa_token = 1, fa_last_seen = 0, fa_last_ip = [], fa_contain = False, fa_opts_in = False, fa_monitor = True\<rparr>"

definition tickState :: opState where
  "tickState = \<lparr>os_console = sampleConsole,
     os_fleet = \<lparr>fl_tokens = [], fl_agents = [tickAgent], fl_heartbeats = [], fl_findings = [], fl_reports = [],
       fl_audit = []\<rparr>, os_cmds = []\<rparr>"

definition tickSchedules :: scheduleDB where
  "tickSchedules = \<lparr>sd_rows = [sampleSchedule], sd_seq = 1\<rparr>"

lemma scheduler_tick_witness:
  "\<exists>sd' st'. runDueSchedules sampleZones sc_name [''a''] 5000000000 (tickSchedules, tickState) = (sd', st') \<and>
     DueSchedules 5000000000 sd' = []"
proof -
  obtain sd' st' where r: "runDueSchedules sampleZones sc_name [''a''] 5000000000 (tickSchedules, tickState) = (sd', st')"
    by force
  have "schedulesOk tickSchedules"
    by (simp add: schedulesOk_def tickSchedules_def sampleSchedule_def scheduleKinds_def)
  from scheduler_tick [OF this r] r show ?thesis by blast
qed

end
