(* ===== verification/Watchdog.thy ===== *)
theory Watchdog
  imports Scheduler FleetFindings Report
begin

text \<open>
  The silence watchdog of the console (\<open>internal/console/watchdog.go\<close>): hosts that stopped checking in
  are recorded as findings, at most once a day each. The prose of the finding's detail and its metadata,
  which format times, are arguments, as is the text of the audit entry.
\<close>

definition silenceThreshold :: int where "silenceThreshold = minutes 15"

definition silenceRepeat :: int where "silenceRepeat = hours 24"

definition shouldReportSilence :: "bytes \<Rightarrow> int \<Rightarrow> (bytes \<rightharpoonup> int) \<Rightarrow> bool \<times> (bytes \<rightharpoonup> int)" where
  "shouldReportSilence agentID now seen =
     (case seen agentID of
        Some before \<Rightarrow> if subTime now before < silenceRepeat then (False, seen) else (True, seen(agentID \<mapsto> now))
      | None \<Rightarrow> (True, seen(agentID \<mapsto> now)))"

text \<open>The last contact of an agent; \<open>time.Unix\<close> of a stored second.\<close>

definition lastSeen :: "fleetAgent \<Rightarrow> int" where
  "lastSeen a = fa_last_seen a * 1000000000"

definition silenceFinding :: "(int \<Rightarrow> fleetAgent \<Rightarrow> bytes \<times> bytes) \<Rightarrow> int \<Rightarrow> fleetAgent \<Rightarrow> FindingInput" where
  "silenceFinding prose quiet a =
     \<lparr>in_RuleID = ''agent.went_silent'', in_Class = ''OSP'', in_Severity = ''high'', in_Confidence = ''confirmed'',
      in_Title = ''The agent stopped reporting without being uninstalled'',
      in_Detail = fst (prose quiet a), in_Path = ar_hostname a, in_SHA256 = [], in_Size = 0, in_Line = 0,
      in_Evidence = [],
      in_Remediation = ''Confirm whether this host was decommissioned. If it was, uninstall from the console so the record is explicit. If it was not, treat the gap as unmonitored: check web-server and auth logs around the last check-in, and run a full scan once the agent is back.'',
      in_Actionable = False, in_ContainPID = 0, in_Meta = Some (snd (prose quiet a))\<rparr>"

text \<open>The body of the loop and the loop.\<close>

definition watchAgent :: "(int \<Rightarrow> fleetAgent \<Rightarrow> bytes \<times> bytes) \<Rightarrow> (int \<Rightarrow> bytes) \<Rightarrow> int \<Rightarrow> fleetAgent \<Rightarrow>
    (bytes \<rightharpoonup> int) \<times> fleetDB \<Rightarrow> (bytes \<rightharpoonup> int) \<times> fleetDB" where
  "watchAgent prose contact now a x =
     (case x of (seen, db) \<Rightarrow>
        if fa_last_seen a = zeroTime then (seen, db)
        else
          (let quiet = subTime now (lastSeen a)
           in if quiet < silenceThreshold then (seen, db)
              else
                (case shouldReportSilence (ar_id a) now seen of
                   (False, seen') \<Rightarrow> (seen', db)
                 | (True, seen') \<Rightarrow>
                     (case UpsertFinding (secs now) (ar_id a) (silenceFinding prose quiet a) db of
                        Inl e \<Rightarrow> (seen', db)
                      | Inr db' \<Rightarrow>
                          (seen', db'\<lparr>fl_audit := Audit (secs now) ''watchdog'' ''agent.went_silent'' (ar_id a)
                             (contact quiet) ''local'' ''ok'' (fl_audit db')\<rparr>)))))"

definition checkForSilentAgents :: "(int \<Rightarrow> fleetAgent \<Rightarrow> bytes \<times> bytes) \<Rightarrow> (int \<Rightarrow> bytes) \<Rightarrow> int \<Rightarrow>
    (bytes \<rightharpoonup> int) \<times> fleetDB \<Rightarrow> (bytes \<rightharpoonup> int) \<times> fleetDB" where
  "checkForSilentAgents prose contact now x =
     foldl (\<lambda>x a. watchAgent prose contact now a x) x (ListAgents False 0 (snd x))"

section \<open>What a check records\<close>

text \<open>A host in service is overdue: quiet for the threshold, and not reported within the last day.\<close>

definition overdue :: "int \<Rightarrow> (bytes \<rightharpoonup> int) \<Rightarrow> fleetAgent \<Rightarrow> bool" where
  "overdue now seen a \<longleftrightarrow> fa_last_seen a \<noteq> zeroTime \<and> silenceThreshold \<le> subTime now (lastSeen a) \<and>
     (case seen (ar_id a) of None \<Rightarrow> True | Some l \<Rightarrow> silenceRepeat \<le> subTime now l)"

definition silenceKey :: "fleetAgent \<Rightarrow> bytes \<times> bytes" where
  "silenceKey a = (ar_id a, DedupeKey (silenceFinding (\<lambda>_ _. ([], [])) 0 a))"

lemma silenceKey_any: "(ar_id a, DedupeKey (silenceFinding prose quiet a)) = silenceKey a"
  by (simp add: silenceKey_def silenceFinding_def DedupeKey_def)

lemma upsert_exists:
  assumes "ar_id a \<in> ar_id ` set (fl_agents db)"
  shows "\<exists>db'. UpsertFinding t (ar_id a) f db = Inr db'"
proof -
  have "list_ex (\<lambda>x. ar_id x = ar_id a) (fl_agents db)" using assms by (auto simp: list_ex_iff)
  then show ?thesis by (simp add: UpsertFinding_def Let_def)
qed

lemma upsert_row:
  assumes "UpsertFinding t aid f db = Inr db'" and "k = (aid, DedupeKey f)"
  shows "(\<exists>r\<in>set (fl_findings db'). rowKey r = k \<and> fr_last r = t \<and> fr_state r \<noteq> ''resolved'') \<and>
    (\<forall>r. rowKey r \<noteq> k \<longrightarrow> (r \<in> set (fl_findings db') \<longleftrightarrow> r \<in> set (fl_findings db))) \<and>
    fl_agents db' = fl_agents db"
  using assms(1)
proof (cases rule: UpsertFinding_cases)
  case (old r)
  have "r \<in> set (fl_findings db)" "rowKey r = k"
    using old(1) assms(2) by (auto simp: find_Some_iff)
  then have "refreshed t f r \<in> set (fl_findings db')" unfolding old(2) assms(2) by force
  moreover have "fr_last (refreshed t f r) = t" "fr_state (refreshed t f r) \<noteq> ''resolved''"
    by (simp_all add: refreshed_def)
  moreover have "s \<in> set (fl_findings db') \<longleftrightarrow> s \<in> set (fl_findings db)" if "rowKey s \<noteq> k" for s
  proof -
    have "s \<noteq> refreshed t f q" if "rowKey q = k" for q using \<open>rowKey s \<noteq> k\<close> that by auto
    then show ?thesis using that unfolding old(2) assms(2) [symmetric] by auto
  qed
  ultimately show ?thesis using \<open>rowKey r = k\<close> old(2) by (intro conjI bexI [of _ "refreshed t f r"]) auto
next
  case new
  then show ?thesis unfolding new(2) by (auto simp: assms(2) newFinding_def rowKey_def)
qed

lemma watchAgent_exact:
  assumes "ar_id a \<in> ar_id ` set (fl_agents db)" and "watchAgent prose contact now a (seen, db) = (seen', db')"
  shows "seen' = (if overdue now seen a then seen(ar_id a \<mapsto> now) else seen)"
    and "overdue now seen a \<Longrightarrow>
       \<exists>r\<in>set (fl_findings db'). rowKey r = silenceKey a \<and> fr_last r = secs now \<and> fr_state r \<noteq> ''resolved''"
    and "\<And>r. rowKey r \<noteq> silenceKey a \<Longrightarrow> r \<in> set (fl_findings db') \<longleftrightarrow> r \<in> set (fl_findings db)"
    and "\<not> overdue now seen a \<Longrightarrow> fl_findings db' = fl_findings db"
    and "fl_agents db' = fl_agents db"
proof -
  let ?q = "subTime now (lastSeen a)"
  have all: "seen' = (if overdue now seen a then seen(ar_id a \<mapsto> now) else seen) \<and>
      (overdue now seen a \<longrightarrow>
       (\<exists>r\<in>set (fl_findings db'). rowKey r = silenceKey a \<and> fr_last r = secs now \<and> fr_state r \<noteq> ''resolved'')) \<and>
      (\<forall>r. rowKey r \<noteq> silenceKey a \<longrightarrow> (r \<in> set (fl_findings db') \<longleftrightarrow> r \<in> set (fl_findings db))) \<and>
      (\<not> overdue now seen a \<longrightarrow> fl_findings db' = fl_findings db) \<and> fl_agents db' = fl_agents db"
  proof (cases "overdue now seen a")
    case True
    then have s: "shouldReportSilence (ar_id a) now seen = (True, seen(ar_id a \<mapsto> now))"
        "fa_last_seen a \<noteq> zeroTime" "\<not> ?q < silenceThreshold"
      by (auto simp: overdue_def shouldReportSilence_def split: option.splits)
    obtain db1 where u: "UpsertFinding (secs now) (ar_id a) (silenceFinding prose ?q a) db = Inr db1"
      using upsert_exists [OF assms(1)] by blast
    from assms(2) s u have eq: "seen' = seen(ar_id a \<mapsto> now)" "fl_findings db' = fl_findings db1"
        "fl_agents db' = fl_agents db1"
      by (auto simp: watchAgent_def Let_def)
    show ?thesis
      using upsert_row [OF u silenceKey_any [symmetric]] True unfolding eq by simp
  next
    case False
    then have "watchAgent prose contact now a (seen, db) = (seen, db)"
      by (auto simp: watchAgent_def Let_def overdue_def shouldReportSilence_def split: option.splits if_splits)
    with False assms(2) show ?thesis by simp
  qed
  then show "seen' = (if overdue now seen a then seen(ar_id a \<mapsto> now) else seen)"
    "overdue now seen a \<Longrightarrow>
       \<exists>r\<in>set (fl_findings db'). rowKey r = silenceKey a \<and> fr_last r = secs now \<and> fr_state r \<noteq> ''resolved''"
    "\<And>r. rowKey r \<noteq> silenceKey a \<Longrightarrow> r \<in> set (fl_findings db') \<longleftrightarrow> r \<in> set (fl_findings db)"
    "\<not> overdue now seen a \<Longrightarrow> fl_findings db' = fl_findings db"
    "fl_agents db' = fl_agents db" by blast+
qed

lemma overdue_other: "seen1 (ar_id a) = seen (ar_id a) \<Longrightarrow> overdue now seen1 a = overdue now seen a"
  by (simp add: overdue_def)

lemma watch_loop:
  assumes "set (map ar_id as) \<subseteq> ar_id ` set (fl_agents db)" and "distinct (map ar_id as)"
    and "foldl (\<lambda>x a. watchAgent prose contact now a x) (seen, db) as = (seen', db')"
  shows "(\<forall>i. seen' i = (if \<exists>a\<in>set as. ar_id a = i \<and> overdue now seen a then Some now else seen i)) \<and>
    (\<forall>a\<in>set as. overdue now seen a \<longrightarrow>
       (\<exists>r\<in>set (fl_findings db'). rowKey r = silenceKey a \<and> fr_last r = secs now \<and> fr_state r \<noteq> ''resolved'')) \<and>
    (\<forall>r. (\<forall>a\<in>set as. overdue now seen a \<longrightarrow> rowKey r \<noteq> silenceKey a) \<longrightarrow>
       (r \<in> set (fl_findings db') \<longleftrightarrow> r \<in> set (fl_findings db))) \<and>
    fl_agents db' = fl_agents db"
  using assms
proof (induction as arbitrary: seen db)
  case (Cons a as)
  obtain seen1 db1 where w: "watchAgent prose contact now a (seen, db) = (seen1, db1)" by force
  have "ar_id a \<in> ar_id ` set (fl_agents db)" using Cons.prems(1) by simp
  note one = watchAgent_exact [OF this w]
  have rest: "foldl (\<lambda>x a. watchAgent prose contact now a x) (seen1, db1) as = (seen', db')"
    using Cons.prems(3) w by simp
  have same: "overdue now seen1 b = overdue now seen b" if "b \<in> set as" for b
  proof (rule overdue_other)
    have "ar_id b \<in> set (map ar_id as)" using that by simp
    then have "ar_id b \<noteq> ar_id a" using Cons.prems(2) by auto
    then show "seen1 (ar_id b) = seen (ar_id b)" using one(1) by simp
  qed
  have ih: "\<forall>i. seen' i = (if \<exists>a\<in>set as. ar_id a = i \<and> overdue now seen a then Some now else seen1 i)"
    "\<forall>a\<in>set as. overdue now seen a \<longrightarrow>
       (\<exists>r\<in>set (fl_findings db'). rowKey r = silenceKey a \<and> fr_last r = secs now \<and> fr_state r \<noteq> ''resolved'')"
    "\<forall>r. (\<forall>a\<in>set as. overdue now seen a \<longrightarrow> rowKey r \<noteq> silenceKey a) \<longrightarrow>
       (r \<in> set (fl_findings db') \<longleftrightarrow> r \<in> set (fl_findings db1))"
    "fl_agents db' = fl_agents db1"
    using Cons.IH [OF _ _ rest] Cons.prems(1,2) one(5) same by simp_all
  have "seen' i = (if \<exists>b\<in>set (a # as). ar_id b = i \<and> overdue now seen b then Some now else seen i)" for i
    using ih(1) one(1) by (auto split: if_splits)
  moreover have "\<exists>r\<in>set (fl_findings db'). rowKey r = silenceKey b \<and> fr_last r = secs now \<and> fr_state r \<noteq> ''resolved''"
    if b: "b \<in> set (a # as)" "overdue now seen b" for b
  proof (cases "b = a")
    case True
    with one(2) b(2) obtain r where r: "r \<in> set (fl_findings db1)" "rowKey r = silenceKey a" "fr_last r = secs now"
        "fr_state r \<noteq> ''resolved''" by blast
    have "rowKey r \<noteq> silenceKey c" if "c \<in> set as" for c
      using that Cons.prems(2) r(2) by (auto simp: silenceKey_def)
    then have "r \<in> set (fl_findings db')" using ih(3) r(1) by blast
    with r True show ?thesis by blast
  qed (use ih(2) b in auto)
  moreover have "r \<in> set (fl_findings db') \<longleftrightarrow> r \<in> set (fl_findings db)"
    if r: "\<forall>b\<in>set (a # as). overdue now seen b \<longrightarrow> rowKey r \<noteq> silenceKey b" for r
  proof -
    have "r \<in> set (fl_findings db') \<longleftrightarrow> r \<in> set (fl_findings db1)" using ih(3) r by simp
    moreover have "r \<in> set (fl_findings db1) \<longleftrightarrow> r \<in> set (fl_findings db)"
      using one(3) [of r] one(4) r by (cases "overdue now seen a") simp_all
    ultimately show ?thesis by simp
  qed
  moreover have "fl_agents db' = fl_agents db" using ih(4) one(5) by simp
  ultimately show ?case by blast
qed simp

section \<open>Properties\<close>

text \<open>
  The watchdog reports exactly the hosts that vanished. After a check every agent in service that
  has been quiet for fifteen minutes, and was not reported within the last day, has its silence as a
  finding seen now and not resolved; every finding of any other kind is as it was; and none of the
  hosts just reported is overdue again before a day has passed.
\<close>

theorem watchdog_exact:
  assumes "distinct (map ar_id (fl_agents db))"
    and "checkForSilentAgents prose contact now (seen, db) = (seen', db')"
  defines "gone \<equiv> {a \<in> set (fl_agents db). ar_retired a = 0 \<and> overdue now seen a}"
  shows "(\<forall>a\<in>gone. \<exists>r\<in>set (fl_findings db'). fr_agent r = ar_id a \<and> sf_key r = snd (silenceKey a) \<and>
            fr_last r = secs now \<and> fr_state r \<noteq> ''resolved'') \<and>
    (\<forall>r. rowKey r \<notin> silenceKey ` gone \<longrightarrow> (r \<in> set (fl_findings db') \<longleftrightarrow> r \<in> set (fl_findings db))) \<and>
    (\<forall>a\<in>gone. \<forall>t. subTime t now < silenceRepeat \<longrightarrow> \<not> overdue t seen' a)"
proof -
  let ?as = "ListAgents False 0 db"
  have sub: "set ?as = {a \<in> set (fl_agents db). ar_retired a = 0}" by (auto simp: ListAgents_def)
  have "distinct (map ar_id ?as)"
    using assms(1) by (auto simp: ListAgents_def distinct_map intro: inj_on_subset)
  moreover have "set (map ar_id ?as) \<subseteq> ar_id ` set (fl_agents db)" using sub by auto
  moreover have "foldl (\<lambda>x a. watchAgent prose contact now a x) (seen, db) ?as = (seen', db')"
    using assms(2) by (simp add: checkForSilentAgents_def)
  ultimately have w: "\<forall>i. seen' i = (if \<exists>a\<in>set ?as. ar_id a = i \<and> overdue now seen a then Some now else seen i)"
    "\<forall>a\<in>set ?as. overdue now seen a \<longrightarrow>
       (\<exists>r\<in>set (fl_findings db'). rowKey r = silenceKey a \<and> fr_last r = secs now \<and> fr_state r \<noteq> ''resolved'')"
    "\<forall>r. (\<forall>a\<in>set ?as. overdue now seen a \<longrightarrow> rowKey r \<noteq> silenceKey a) \<longrightarrow>
       (r \<in> set (fl_findings db') \<longleftrightarrow> r \<in> set (fl_findings db))"
    using watch_loop by blast+
  have "\<not> overdue t seen' a" if "a \<in> gone" "subTime t now < silenceRepeat" for a t
  proof -
    have "seen' (ar_id a) = Some now" using w(1) that(1) sub by (auto simp: gone_def)
    then show ?thesis using that(2) by (simp add: overdue_def)
  qed
  moreover have "\<exists>r\<in>set (fl_findings db'). fr_agent r = ar_id a \<and> sf_key r = snd (silenceKey a) \<and>
            fr_last r = secs now \<and> fr_state r \<noteq> ''resolved''" if "a \<in> gone" for a
  proof -
    have "a \<in> set ?as" "overdue now seen a" using that sub by (auto simp: gone_def)
    then obtain r where "r \<in> set (fl_findings db')" "rowKey r = silenceKey a" "fr_last r = secs now"
        "fr_state r \<noteq> ''resolved''" using w(2) by blast
    then show ?thesis by (intro bexI [of _ r]) (auto simp: rowKey_def silenceKey_def)
  qed
  moreover have "r \<in> set (fl_findings db') \<longleftrightarrow> r \<in> set (fl_findings db)" if "rowKey r \<notin> silenceKey ` gone" for r
  proof -
    have "\<forall>a\<in>set ?as. overdue now seen a \<longrightarrow> rowKey r \<noteq> silenceKey a" using that sub by (auto simp: gone_def)
    with w(3) show ?thesis by blast
  qed
  ultimately show ?thesis by blast
qed

lemma watchdog_exact_witness:
  "\<exists>r\<in>set (fl_findings (snd (checkForSilentAgents (\<lambda>q a. ([], [])) (\<lambda>q. []) 2000000000000
       (\<lambda>_. None, os_fleet tickState)))). fr_agent r = ''ag'' \<and> fr_last r = 2000"
proof -
  obtain seen' db' where c: "checkForSilentAgents (\<lambda>q a. ([], [])) (\<lambda>q. []) 2000000000000
       (\<lambda>_. None, os_fleet tickState) = (seen', db')" by force
  have d: "distinct (map ar_id (fl_agents (os_fleet tickState)))" by (simp add: tickState_def)
  have "tickAgent \<in> {a \<in> set (fl_agents (os_fleet tickState)). ar_retired a = 0 \<and> overdue 2000000000000 (\<lambda>_. None) a}"
    by (simp add: tickState_def tickAgent_def overdue_def zeroTime_def silenceThreshold_def minutes_def subTime_def lastSeen_def)
  with watchdog_exact [OF d c, THEN conjunct1] c show ?thesis by (force simp: tickAgent_def secs_def)
qed

end
