(* ===== verification/PhpConst.thy ===== *)
theory PhpConst
  imports PhpLexer Codec
begin

text \<open>
  The constant folder for PHP expressions (\<open>agent/phpconst.go\<close>): which bytes does a variable hold?
  A resolver keeps the last assignment of every variable, a cache of resolved ones, the set of those that
  failed, a work budget and the nesting depth. Each function of the code threads the resolver. The loop of
  \<open>evalRange\<close> takes fuel; every turn spends one unit of the budget, so fuel above the budget is never
  used up. MD5, SHA-1, the decompressors and Unicode's case tables are parameters.
\<close>

section \<open>Layout and rotation\<close>

definition stripLayout :: "bytes \<Rightarrow> bytes" where
  "stripLayout b = filter (\<lambda>c. \<not> (c = CHR 0x0A \<or> c = CHR 0x0D \<or> c = CHR 0x09 \<or> c = CHR '' '')) b"

definition rot13Byte :: "byte \<Rightarrow> byte" where
  "rot13Byte c =
     (if CHR ''a'' \<le> c \<and> c \<le> CHR ''z'' then char_of (97 + (of_char c - 97 + 13) mod 26 :: nat)
      else if CHR ''A'' \<le> c \<and> c \<le> CHR ''Z'' then char_of (65 + (of_char c - 65 + 13) mod 26 :: nat)
      else c)"

definition rot13 :: "bytes \<Rightarrow> bytes" where
  "rot13 b = map rot13Byte b"

section \<open>Text helpers\<close>

fun unescapeLoop :: "bytes \<Rightarrow> bytes" where
  "unescapeLoop [] = []"
| "unescapeLoop [c] = [c]"
| "unescapeLoop (c # d # s) =
     (if c \<noteq> CHR 0x5C then c # unescapeLoop (d # s)
      else if d = CHR ''n'' then CHR 0x0A # unescapeLoop s
      else if d = CHR ''r'' then CHR 0x0D # unescapeLoop s
      else if d = CHR ''t'' then CHR 0x09 # unescapeLoop s
      else if d = CHR ''0'' then CHR 0x00 # unescapeLoop s
      else if d = CHR ''x'' \<and> 2 \<le> length s \<and> parseUintHex (take 2 s) 8 \<noteq> None
        then char_of (the (parseUintHex (take 2 s) 8)) # unescapeLoop (drop 2 s)
      else d # unescapeLoop s)"

definition unescapePHP :: "bytes \<Rightarrow> bytes" where
  "unescapePHP b = (if CHR 0x5C \<notin> set b then b else unescapeLoop b)"

fun urlDecodeBytes :: "bytes \<Rightarrow> bytes" where
  "urlDecodeBytes [] = []"
| "urlDecodeBytes (c # s) =
     (if c = CHR ''+'' then CHR '' '' # urlDecodeBytes s
      else if c = CHR ''%'' \<and> 2 \<le> length s \<and> parseUintHex (take 2 s) 8 \<noteq> None
        then char_of (the (parseUintHex (take 2 s) 8)) # urlDecodeBytes (drop 2 s)
      else c # urlDecodeBytes s)"

text \<open>The parenthesis that matches the one at \<open>open\<close>, outside string literals.\<close>

fun parenLoop :: "bytes \<Rightarrow> nat \<Rightarrow> int \<Rightarrow> byte option \<Rightarrow> nat option" where
  "parenLoop [] i depth inStr = None"
| "parenLoop (c # s) i depth (Some q) =
     (if c = CHR 0x5C then parenLoop (drop 1 s) (i + 2) depth (Some q)
      else if c = q then parenLoop s (i + 1) depth None
      else parenLoop s (i + 1) depth (Some q))"
| "parenLoop (c # s) i depth None =
     (if c = CHR 0x27 \<or> c = CHR 0x22 then parenLoop s (i + 1) depth (Some c)
      else if c = CHR ''('' then parenLoop s (i + 1) (depth + 1) None
      else if c = CHR '')'' then
        (if depth - 1 = 0 then Some i else parenLoop s (i + 1) (depth - 1) None)
      else parenLoop s (i + 1) depth None)"

definition matchParen :: "bytes \<Rightarrow> nat \<Rightarrow> nat \<Rightarrow> nat option" where
  "matchParen src opn limit =
     (if opn \<ge> length src \<or> src ! opn \<noteq> CHR ''('' then None
      else parenLoop (drop opn (take limit src)) opn 0 None)"

lemma parenLoop_le: "parenLoop s i d q = Some k \<Longrightarrow> i \<le> k"
  by (induction s i d q rule: parenLoop.induct) (auto split: if_splits)

lemma matchParen_le: "matchParen src opn limit = Some k \<Longrightarrow> opn \<le> k"
  by (auto simp: matchParen_def split: if_splits dest: parenLoop_le)

section \<open>The resolver\<close>

record constEnv =
  r_src :: bytes
  r_view :: phpView
  r_assigns :: "bytes \<Rightarrow> span option"

record constResolver = constEnv +
  r_cache :: "bytes \<Rightarrow> bytes option"
  r_failed :: "bytes set"
  r_budget :: int
  r_depth :: int

definition constBudget :: int where "constBudget = 4000"
definition constMaxDepth :: int where "constMaxDepth = 12"
definition constMaxValue :: int where "constMaxValue = 4 * 1048576"

text \<open>\<open>cl_open\<close>: the bytes a decompressor delivers and whether it ends in an error; \<open>None\<close> when it
  refuses the header.\<close>

datatype inflateKind = KindFlate | KindZlib | KindGzip

record constLib =
  cl_md5 :: "bytes \<Rightarrow> bytes"
  cl_sha1 :: "bytes \<Rightarrow> bytes"
  cl_open :: "inflateKind \<Rightarrow> bytes \<Rightarrow> (bytes \<times> bool) option"
  cl_ulow :: "nat \<Rightarrow> nat"
  cl_uup :: "nat \<Rightarrow> nat"

subsection \<open>Assignments\<close>

text \<open>The regular expression \<open>\$([A-Za-z_]\w*)\s*=\s*([^;]{0,400});\<close> at the start of a text: the length
  of the name, and where the value starts and ends. A repetition counts runes.\<close>

definition isReSpace :: "byte \<Rightarrow> bool" where
  "isReSpace c \<longleftrightarrow> c = CHR 0x09 \<or> c = CHR 0x0A \<or> c = CHR 0x0C \<or> c = CHR 0x0D \<or> c = CHR '' ''"

definition assignAt :: "bytes \<Rightarrow> (nat \<times> nat \<times> nat) option" where
  "assignAt t =
     (let n = countWhile isIdentByte (drop 1 t);
          a = 1 + n + countWhile isReSpace (drop (1 + n) t);
          b = a + 1 + countWhile isReSpace (drop (a + 1) t)
      in if byteAt t 0 (CHR ''$'') \<and> 0 < n \<and> \<not> isDigitByte (t ! 1) \<and> byteAt t a (CHR ''='')
         then case goIndex (drop b t) '';'' of
                None \<Rightarrow> None
              | Some k \<Rightarrow> if length (runes (take k (drop b t))) \<le> 400 then Some (n, b, b + k) else None
         else None)"

function assignScan :: "bytes \<Rightarrow> nat \<Rightarrow> nat \<Rightarrow> (bytes \<times> span) list" where
  "assignScan code i n =
     (if n = 0 \<or> i \<ge> length code then []
      else case assignAt (drop i code) of
             None \<Rightarrow> assignScan code (i + 1) n
           | Some (m, b, e) \<Rightarrow>
               (take m (drop (i + 1) code), mkSpan (i + b) (i + e)) # assignScan code (i + e + 1) (n - 1))"
  by pat_completeness auto
termination by (relation "measure (\<lambda>(code, i, n). length code - i)") auto

declare assignScan.simps [simp del]

definition newConstResolver :: "bytes \<Rightarrow> phpView \<Rightarrow> constResolver" where
  "newConstResolver src view =
     \<lparr>r_src = src, r_view = view,
      r_assigns = foldl (\<lambda>m (name, sp). m(name := Some sp)) (\<lambda>_. None) (assignScan (v_code view) 0 400),
      r_cache = (\<lambda>_. None), r_failed = {}, r_budget = constBudget, r_depth = 0\<rparr>"

subsection \<open>Literals and arguments\<close>

text \<open>A literal whose delimiter sits at or just before \<open>pos\<close>: its content and where it ends.\<close>

definition literalAt :: "('a constEnv_scheme) \<Rightarrow> nat \<Rightarrow> (bytes \<times> nat) option" where
  "literalAt r pos =
     (case find (\<lambda>s. sp_start s = pos + 1 \<or> sp_start s = pos) (v_strs (r_view r)) of
        None \<Rightarrow> None
      | Some s \<Rightarrow>
          (let e = min (sp_end s) (length (r_src r))
           in if sp_start s > e then None
              else Some (unescapePHP (take (e - sp_start s) (drop (sp_start s) (r_src r))), e + 1)))"

lemma literalAt_next: "literalAt r pos = Some (v, nx) \<Longrightarrow> pos < nx"
  by (auto simp: literalAt_def Let_def split: option.splits if_splits dest: find_SomeD)

function splitLoop :: "('a constEnv_scheme) \<Rightarrow> nat \<Rightarrow> nat \<Rightarrow> int \<Rightarrow> nat \<Rightarrow> span list \<Rightarrow> span list" where
  "splitLoop r e i depth argStart out =
     (if i < e then
        (let c = r_src r ! i
         in if c = CHR 0x27 \<or> c = CHR 0x22 then
              (case literalAt r i of
                 Some (_, nx) \<Rightarrow> splitLoop r e nx depth argStart out
               | None \<Rightarrow> splitLoop r e (i + 1) depth argStart out)
            else if c = CHR ''('' \<or> c = CHR ''['' then splitLoop r e (i + 1) (depth + 1) argStart out
            else if c = CHR '')'' \<or> c = CHR '']'' then splitLoop r e (i + 1) (depth - 1) argStart out
            else if c = CHR '','' \<and> depth = 0
              then splitLoop r e (i + 1) depth (i + 1) (out @ [mkSpan argStart i])
            else splitLoop r e (i + 1) depth argStart out)
      else if argStart < e then out @ [mkSpan argStart e] else out)"
  by pat_completeness auto
termination
  by (relation "measure (\<lambda>(r, e, i, d, a, out). e - i)") (auto dest: literalAt_next)

declare splitLoop.simps [simp del]

definition splitArgs :: "('a constEnv_scheme) \<Rightarrow> nat \<Rightarrow> nat \<Rightarrow> span list" where
  "splitArgs r s e = splitLoop r e s 0 s []"

text \<open>A literal true or false, read without folding.\<close>

definition boolArg :: "constLib \<Rightarrow> ('a constEnv_scheme) \<Rightarrow> span list \<Rightarrow> nat \<Rightarrow> bool option" where
  "boolArg L r args n =
     (if n \<ge> length args then None
      else
        (let s = args ! n
         in if sp_end s > length (r_src r) \<or> sp_start s \<ge> sp_end s then None
            else
              (let t = goToLower (cl_ulow L) (trimSpace (take (sp_end s - sp_start s) (drop (sp_start s) (r_src r))))
               in if t = ''true'' \<or> t = ''1'' then Some True
                  else if t = ''false'' \<or> t = ''0'' then Some False else None)))"

subsection \<open>Computations over the resolver\<close>

text \<open>A function of the code that may give up: its result and the resolver afterwards.\<close>

type_synonym 'a folded = "constResolver \<Rightarrow> 'a option \<times> constResolver"

definition bindF :: "'a folded \<Rightarrow> ('a \<Rightarrow> 'b folded) \<Rightarrow> 'b folded" where
  "bindF m f r = (case m r of (None, r') \<Rightarrow> (None, r') | (Some x, r') \<Rightarrow> f x r')"

definition returnF :: "'a option \<Rightarrow> 'a folded" where
  "returnF x r = (x, r)"

text \<open>A result that may be absent without giving up.\<close>

definition tryF :: "'a folded \<Rightarrow> 'a option folded" where
  "tryF m r = (case m r of (x, r') \<Rightarrow> (Some x, r'))"

type_synonym evaluator = "nat \<Rightarrow> nat \<Rightarrow> bytes folded"

definition arg :: "evaluator \<Rightarrow> span list \<Rightarrow> nat \<Rightarrow> bytes folded" where
  "arg ev args n =
     (if n \<ge> length args then returnF None else ev (sp_start (args ! n)) (sp_end (args ! n)))"

definition intArg :: "evaluator \<Rightarrow> span list \<Rightarrow> nat \<Rightarrow> int folded" where
  "intArg ev args n = bindF (arg ev args n) (\<lambda>v. returnF (parseInt10 (trimSpace v)))"

definition resolveVar :: "evaluator \<Rightarrow> bytes \<Rightarrow> bytes folded" where
  "resolveVar ev name r =
     (case r_cache r name of
        Some v \<Rightarrow> (Some v, r)
      | None \<Rightarrow>
          if name \<in> r_failed r then (None, r)
          else
            (case r_assigns r name of
               None \<Rightarrow> (None, r\<lparr>r_failed := insert name (r_failed r)\<rparr>)
             | Some sp \<Rightarrow>
                 if r_depth r \<ge> constMaxDepth then (None, r)
                 else
                   (case ev (sp_start sp) (sp_end sp) (r\<lparr>r_depth := r_depth r + 1\<rparr>) of
                      (res, r1) \<Rightarrow>
                        (let r2 = r1\<lparr>r_depth := r_depth r1 - 1\<rparr>
                         in case res of
                              None \<Rightarrow> (None, r2\<lparr>r_failed := insert name (r_failed r2)\<rparr>)
                            | Some v \<Rightarrow> (Some v, r2\<lparr>r_cache := (r_cache r2)(name := Some v)\<rparr>)))))"

subsection \<open>The pure transforms\<close>

definition inflateWith :: "constLib \<Rightarrow> inflateKind \<Rightarrow> bytes \<Rightarrow> bytes option" where
  "inflateWith L kind v =
     (case cl_open L kind v of
        None \<Rightarrow> None
      | Some (data, err) \<Rightarrow> if err \<and> data = [] then None else Some (take (nat constMaxValue) data))"

definition base64_decode :: "bytes \<Rightarrow> bytes option" where
  "base64_decode v =
     (case decodeStd (stripLayout v) of
        Some d \<Rightarrow> Some d
      | None \<Rightarrow> decodeRawStd (stripLayout v))"

definition php_chr :: "bytes \<Rightarrow> bytes option" where
  "php_chr v =
     (case parseInt10 (trimSpace v) of
        None \<Rightarrow> None
      | Some n \<Rightarrow> if n < 0 \<or> n > 255 then None else Some [char_of (nat n)])"

text \<open>The functions of one folded argument.\<close>

definition unaryFn :: "constLib \<Rightarrow> bytes \<Rightarrow> (bytes \<Rightarrow> bytes option) option" where
  "unaryFn L name =
     (if name = ''base64_decode'' then Some base64_decode
      else if name = ''hex2bin'' then Some hexDecode
      else if name = ''str_rot13'' then Some (\<lambda>v. Some (rot13 v))
      else if name = ''strrev'' then Some (\<lambda>v. Some (rev v))
      else if name \<in> {''trim'', ''stripslashes'', ''rtrim'', ''ltrim''} then Some (\<lambda>v. Some (trimSpace v))
      else if name = ''strtolower'' then Some (\<lambda>v. Some (goToLower (cl_ulow L) v))
      else if name = ''strtoupper'' then Some (\<lambda>v. Some (goToUpper (cl_uup L) v))
      else if name = ''chr'' then Some php_chr
      else if name = ''gzinflate'' then Some (inflateWith L KindFlate)
      else if name = ''gzuncompress'' then Some (inflateWith L KindZlib)
      else if name = ''gzdecode'' then Some (inflateWith L KindGzip)
      else if name \<in> {''urldecode'', ''rawurldecode''} then Some (\<lambda>v. Some (urlDecodeBytes v))
      else None)"

definition hashFn :: "constLib \<Rightarrow> bytes \<Rightarrow> (bytes \<Rightarrow> bytes) option" where
  "hashFn L name =
     (if name = ''md5'' then Some (cl_md5 L) else if name = ''sha1'' then Some (cl_sha1 L) else None)"

text \<open>\<open>substr\<close> from an offset, and its optional length.\<close>

definition substrFrom :: "bytes \<Rightarrow> int \<Rightarrow> bytes option" where
  "substrFrom v off =
     (let off' = (if off < 0 then int (length v) + off else off)
      in if off' < 0 \<or> off' > int (length v) then None else Some (drop (nat off') v))"

definition substrLen :: "bytes \<Rightarrow> int \<Rightarrow> bytes" where
  "substrLen s n =
     (let n' = (if n < 0 then int (length s) + n else n)
      in if 0 \<le> n' \<and> n' \<le> int (length s) then take (nat n') s else s)"

definition applyFunc :: "constLib \<Rightarrow> evaluator \<Rightarrow> bytes \<Rightarrow> span list \<Rightarrow> bytes folded" where
  "applyFunc L ev name args r =
     (case unaryFn L name of
        Some f \<Rightarrow> bindF (arg ev args 0) (\<lambda>v. returnF (f v)) r
      | None \<Rightarrow>
     (case hashFn L name of
        Some h \<Rightarrow>
          bindF (arg ev args 0)
            (\<lambda>v r'. (Some (if boolArg L r' args 1 = Some True then h v else hexEncode (h v)), r')) r
      | None \<Rightarrow>
     if name = ''pack'' then
       bindF (arg ev args 0)
         (\<lambda>fmt. if length args < 2 \<or> goToLower (cl_ulow L) fmt \<noteq> ''h*'' then returnF None
                else bindF (arg ev args 1) (\<lambda>v. returnF (hexDecode v))) r
     else if name = ''substr'' then
       bindF (arg ev args 0)
         (\<lambda>v. bindF (intArg ev args 1)
           (\<lambda>off. bindF (returnF (substrFrom v off))
             (\<lambda>out. bindF (tryF (intArg ev args 2))
               (\<lambda>n. returnF (Some (case n of Some k \<Rightarrow> substrLen out k | None \<Rightarrow> out)))))) r
     else if name = ''str_replace'' then
       bindF (tryF (arg ev args 0))
         (\<lambda>search. bindF (tryF (arg ev args 1))
           (\<lambda>replace. bindF (tryF (arg ev args 2))
             (\<lambda>subject. returnF
               (case (search, replace, subject) of
                  (Some a, Some b, Some s) \<Rightarrow> Some (replaceAll s a b)
                | _ \<Rightarrow> None)))) r
     else (None, r)))"

subsection \<open>The loop over an expression\<close>

definition isSkipByte :: "byte \<Rightarrow> bool" where
  "isSkipByte c \<longleftrightarrow> c = CHR '' '' \<or> c = CHR 0x09 \<or> c = CHR 0x0A \<or> c = CHR 0x0D \<or>
     c = CHR ''.'' \<or> c = CHR ''('' \<or> c = CHR '')'' \<or> c = CHR '',''"

text \<open>The identifier bytes from \<open>i\<close> on, not going past \<open>e\<close>.\<close>

definition identEnd :: "bytes \<Rightarrow> nat \<Rightarrow> nat \<Rightarrow> nat" where
  "identEnd src i e = i + countWhile isIdentByte (drop i (take e src))"

definition sliceOf :: "bytes \<Rightarrow> nat \<Rightarrow> nat \<Rightarrow> bytes" where
  "sliceOf src i j = take (j - i) (drop i src)"

text \<open>The check made after a literal or a variable, but not after a call or a number.\<close>

definition capped :: "(bytes \<Rightarrow> bytes folded) \<Rightarrow> bytes \<Rightarrow> bytes folded" where
  "capped k out r = (if int (length out) > constMaxValue then (None, r) else k out r)"

text \<open>One turn at \<open>i\<close>; \<open>k\<close> goes on at a new offset with what has been collected.\<close>

definition evalStep :: "constLib \<Rightarrow> evaluator \<Rightarrow> (nat \<Rightarrow> bytes \<Rightarrow> bytes folded) \<Rightarrow> nat \<Rightarrow> nat \<Rightarrow> bytes \<Rightarrow>
    bytes folded" where
  "evalStep L ev k e i out r0 =
     (if \<not> i < e then (Some out, r0)
      else if r_budget r0 \<le> 0 then (None, r0)
      else
        (let r = r0\<lparr>r_budget := r_budget r0 - 1\<rparr>; src = r_src r; c = src ! i
         in if isSkipByte c then k (i + 1) out r
            else if c = CHR 0x27 \<or> c = CHR 0x22 then
              (case literalAt r i of
                 None \<Rightarrow> (None, r)
               | Some (val, nx) \<Rightarrow> capped (k nx) (out @ val) r)
            else if c = CHR ''$'' then
              (let j = identEnd src (i + 1) e
               in if j = i + 1 then (None, r)
                  else bindF (resolveVar ev (sliceOf src (i + 1) j)) (\<lambda>v. capped (k j) (out @ v)) r)
            else if isIdentByte c then
              (let j = identEnd src i e;
                   name = map ascii_lower (sliceOf src i j);
                   p = j + countWhile isBlankByte (drop j (take e src))
               in if p < e \<and> src ! p = CHR ''('' then
                    (case matchParen src p e of
                       None \<Rightarrow> (None, r)
                     | Some argEnd \<Rightarrow>
                         bindF (applyFunc L ev name (splitArgs r (p + 1) argEnd))
                           (\<lambda>v. k (argEnd + 1) (out @ v)) r)
                  else
                    (case parseInt10 name of
                       Some n \<Rightarrow> k j (out @ showInt n) r
                     | None \<Rightarrow> (None, r)))
            else (None, r)))"

definition evalWith :: "(nat \<Rightarrow> nat \<Rightarrow> bytes \<Rightarrow> bytes folded) \<Rightarrow> evaluator" where
  "evalWith loop s e r = (if e > length (r_src r) \<or> s \<ge> e then (None, r) else loop e s [] r)"

primrec evalLoop :: "constLib \<Rightarrow> nat \<Rightarrow> nat \<Rightarrow> nat \<Rightarrow> bytes \<Rightarrow> bytes folded" where
  "evalLoop L 0 = (\<lambda>e i out r. (None, r))"
| "evalLoop L (Suc n) = (\<lambda>e. evalStep L (evalWith (evalLoop L n)) (evalLoop L n e) e)"

definition rangeLoop :: "constLib \<Rightarrow> nat \<Rightarrow> nat \<Rightarrow> bytes \<Rightarrow> bytes folded" where
  "rangeLoop L e i out r = evalLoop L (Suc (nat (r_budget r))) e i out r"

definition evalRange :: "constLib \<Rightarrow> evaluator" where
  "evalRange L = evalWith (rangeLoop L)"

definition resolve :: "constLib \<Rightarrow> bytes \<Rightarrow> bytes folded" where
  "resolve L name = resolveVar (evalRange L) name"

section \<open>The fuel is enough\<close>

text \<open>Two computations agree below \<open>n\<close>: from every resolver with less budget they do the same, and do not
  raise the budget.\<close>

definition agree :: "nat \<Rightarrow> 'a folded \<Rightarrow> 'a folded \<Rightarrow> bool" where
  "agree n m m' \<longleftrightarrow> (\<forall>r. nat (r_budget r) < n \<longrightarrow> m r = m' r \<and> nat (r_budget (snd (m' r))) \<le> nat (r_budget r))"

lemma agreeI:
  "(\<And>r :: constResolver. nat (r_budget r) < n \<Longrightarrow> m r = m' r \<and> nat (r_budget (snd (m' r))) \<le> nat (r_budget r)) \<Longrightarrow> agree n m m'"
  unfolding agree_def by blast

lemma agreeD: "agree n m m' \<Longrightarrow> nat (r_budget r) < n \<Longrightarrow> m r = m' r \<and> nat (r_budget (snd (m' r))) \<le> nat (r_budget r)"
  unfolding agree_def by blast

lemma agree_return: "agree n (returnF x) (returnF x)"
  by (simp add: agree_def returnF_def)

lemma agree_bind:
  assumes m: "agree n m m'" and f: "\<And>x. agree n (f x) (f' x)"
  shows "agree n (bindF m f) (bindF m' f')"
proof (rule agreeI)
  fix r :: constResolver assume r: "nat (r_budget r) < n"
  obtain o1 r1 where m1: "m' r = (o1, r1)" by fastforce
  with agreeD [OF m r] have m': "m r = (o1, r1)" "nat (r_budget r1) \<le> nat (r_budget r)" by auto
  show "bindF m f r = bindF m' f' r \<and> nat (r_budget (snd (bindF m' f' r))) \<le> nat (r_budget r)"
  proof (cases o1)
    case None
    then show ?thesis using m1 m' by (simp add: bindF_def)
  next
    case (Some x)
    have "nat (r_budget r1) < n" using m'(2) r by simp
    from agreeD [OF f this, of x] show ?thesis using Some m1 m' by (simp add: bindF_def)
  qed
qed

lemma agree_try: "agree n m m' \<Longrightarrow> agree n (tryF m) (tryF m')"
  by (auto simp: agree_def tryF_def split: prod.split)

definition agreeEv :: "nat \<Rightarrow> evaluator \<Rightarrow> evaluator \<Rightarrow> bool" where
  "agreeEv n ev ev' \<longleftrightarrow> (\<forall>s e. agree n (ev s e) (ev' s e))"

lemma agree_arg: "agreeEv n ev ev' \<Longrightarrow> agree n (arg ev args k) (arg ev' args k)"
  by (simp add: arg_def agree_return agreeEv_def)

lemma agree_intArg: "agreeEv n ev ev' \<Longrightarrow> agree n (intArg ev args k) (intArg ev' args k)"
  unfolding intArg_def by (intro agree_bind agree_arg agree_return)

lemma agree_resolveVar: "agreeEv n ev ev' \<Longrightarrow> agree n (resolveVar ev name) (resolveVar ev' name)"
proof (rule agreeI)
  fix r :: constResolver assume ev: "agreeEv n ev ev'" and r: "nat (r_budget r) < n"
  have "ev s e (r\<lparr>r_depth := d\<rparr>) = ev' s e (r\<lparr>r_depth := d\<rparr>) \<and>
      nat (r_budget (snd (ev' s e (r\<lparr>r_depth := d\<rparr>)))) \<le> nat (r_budget r)" for s e d
    using ev r agreeD [of n "ev s e" "ev' s e" "r\<lparr>r_depth := d\<rparr>"] by (simp add: agreeEv_def)
  then show "resolveVar ev name r = resolveVar ev' name r \<and> nat (r_budget (snd (resolveVar ev' name r))) \<le> nat (r_budget r)"
    by (auto simp: resolveVar_def Let_def split: option.splits prod.splits) (metis snd_conv)+
qed

lemmas agree_rules = agree_bind agree_return agree_arg agree_intArg agree_try

lemma agree_applyFunc:
  "agreeEv n ev ev' \<Longrightarrow> agree n (applyFunc L ev name args) (applyFunc L ev' name args)"
proof (rule agreeI)
  fix r :: constResolver assume ev: "agreeEv n ev ev'" and r: "nat (r_budget r) < n"
  have hash: "agree n (\<lambda>r'. (Some (g r'), r')) (\<lambda>r'. (Some (g r'), r'))" for g :: "constResolver \<Rightarrow> bytes"
    by (simp add: agree_def)
  note step = agreeD [OF _ r]
  have unary: "agree n (bindF (arg ev args 0) (\<lambda>v. returnF (f v))) (bindF (arg ev' args 0) (\<lambda>v. returnF (f v)))" for f :: "bytes \<Rightarrow> bytes option"
    by (intro agree_rules ev)
  have hashed: "agree n (bindF (arg ev args 0) (\<lambda>v r'. (Some (g v r'), r')))
      (bindF (arg ev' args 0) (\<lambda>v r'. (Some (g v r'), r')))" for g :: "bytes \<Rightarrow> constResolver \<Rightarrow> bytes"
    by (intro agree_rules ev hash)
  have packed: "agree n
      (bindF (arg ev args 0) (\<lambda>fmt. if P fmt then returnF None else bindF (arg ev args 1) (\<lambda>v. returnF (f v))))
      (bindF (arg ev' args 0) (\<lambda>fmt. if P fmt then returnF None else bindF (arg ev' args 1) (\<lambda>v. returnF (f v))))"
    for P and f :: "bytes \<Rightarrow> bytes option"
  proof (intro agree_bind agree_arg ev)
    fix fmt
    show "agree n (if P fmt then returnF None else bindF (arg ev args 1) (\<lambda>v. returnF (f v)))
      (if P fmt then returnF None else bindF (arg ev' args 1) (\<lambda>v. returnF (f v)))"
      by (simp add: agree_return unary agree_bind agree_arg ev)
  qed
  have sub: "agree n
     (bindF (arg ev args 0) (\<lambda>v. bindF (intArg ev args 1) (\<lambda>off. bindF (returnF (f v off))
        (\<lambda>out. bindF (tryF (intArg ev args 2)) (\<lambda>k. returnF (g out k))))))
     (bindF (arg ev' args 0) (\<lambda>v. bindF (intArg ev' args 1) (\<lambda>off. bindF (returnF (f v off))
        (\<lambda>out. bindF (tryF (intArg ev' args 2)) (\<lambda>k. returnF (g out k))))))"
    for f :: "bytes \<Rightarrow> int \<Rightarrow> bytes option" and g :: "bytes \<Rightarrow> int option \<Rightarrow> bytes option"
    by (intro agree_rules ev)
  have rep: "agree n
     (bindF (tryF (arg ev args 0)) (\<lambda>a. bindF (tryF (arg ev args 1)) (\<lambda>b. bindF (tryF (arg ev args 2)) (\<lambda>c. returnF (f a b c)))))
     (bindF (tryF (arg ev' args 0)) (\<lambda>a. bindF (tryF (arg ev' args 1)) (\<lambda>b. bindF (tryF (arg ev' args 2)) (\<lambda>c. returnF (f a b c)))))"
    for f :: "bytes option \<Rightarrow> bytes option \<Rightarrow> bytes option \<Rightarrow> bytes option"
    by (intro agree_rules ev)
  show "applyFunc L ev name args r = applyFunc L ev' name args r \<and>
    nat (r_budget (snd (applyFunc L ev' name args r))) \<le> nat (r_budget r)"
    using step [OF unary] step [OF hashed] step [OF packed] step [OF sub] step [OF rep]
    unfolding applyFunc_def by (simp split: option.split)
qed

lemma agree_capped: "agree n (k out) (k' out) \<Longrightarrow> agree n (capped k out) (capped k' out)"
  by (auto simp: agree_def capped_def)

lemma agree_evalStep:
  assumes ev: "agreeEv n ev ev'" and k: "\<And>i out. agree n (k i out) (k' i out)"
  shows "agree (Suc n) (evalStep L ev k e i out) (evalStep L ev' k' e i out)"
proof (rule agreeI)
  fix r0 :: constResolver assume r0: "nat (r_budget r0) < Suc n"
  show "evalStep L ev k e i out r0 = evalStep L ev' k' e i out r0 \<and>
    nat (r_budget (snd (evalStep L ev' k' e i out r0))) \<le> nat (r_budget r0)"
  proof (cases "i < e \<and> 0 < r_budget r0")
    case False
    then show ?thesis by (auto simp: evalStep_def)
  next
    case True
    define r where "r = r0\<lparr>r_budget := r_budget r0 - 1\<rparr>"
    have r: "nat (r_budget r) < n" "nat (r_budget r) \<le> nat (r_budget r0)" using True r0 by (auto simp: r_def)
    have step: "m r = m' r \<and> nat (r_budget (snd (m' r))) \<le> nat (r_budget r0)" if "agree n m m'" for m m' :: "bytes folded"
      using agreeD [OF that r(1)] r(2) by simp
    have var: "agree n (bindF (resolveVar ev x) (\<lambda>v. capped (k j) (out @ v)))
        (bindF (resolveVar ev' x) (\<lambda>v. capped (k' j) (out @ v)))" for x j
      by (intro agree_bind agree_resolveVar agree_capped k ev)
    have call: "agree n (bindF (applyFunc L ev x args) (\<lambda>v. k j (out @ v)))
        (bindF (applyFunc L ev' x args) (\<lambda>v. k' j (out @ v)))" for x args j
      by (intro agree_bind agree_applyFunc k ev)
    have cap: "agree n (capped (k j) y) (capped (k' j) y)" for j y by (intro agree_capped k)
    show ?thesis
      using True r(2) step [OF k] step [OF var] step [OF call] step [OF cap]
      unfolding evalStep_def Let_def r_def [symmetric]
      by (simp split: option.split)
  qed
qed

lemma agree_evalWith: "(\<And>e i out. agree n (l e i out) (l' e i out)) \<Longrightarrow> agreeEv n (evalWith l) (evalWith l')"
  by (simp add: agreeEv_def agree_def evalWith_def)

lemma agree_evalLoop: "n \<le> m \<Longrightarrow> agree n (evalLoop L n e i out) (evalLoop L m e i out)"
proof (induction n arbitrary: m e i out)
  case 0
  then show ?case by (simp add: agree_def)
next
  case (Suc n)
  then obtain m' where m: "m = Suc m'" "n \<le> m'" by (cases m) auto
  show ?case unfolding m evalLoop.simps
    by (intro agree_evalStep agree_evalWith Suc.IH m)
qed

lemma agree_rangeLoop: "agree n (evalLoop L n e i out) (rangeLoop L e i out)"
proof (rule agreeI)
  fix r :: constResolver assume r: "nat (r_budget r) < n"
  then have "agree (Suc (nat (r_budget r))) (evalLoop L (Suc (nat (r_budget r))) e i out) (evalLoop L n e i out)"
    by (intro agree_evalLoop) simp
  from agreeD [OF this, of r] r
  show "evalLoop L n e i out r = rangeLoop L e i out r \<and>
    nat (r_budget (snd (rangeLoop L e i out r))) \<le> nat (r_budget r)"
    by (simp add: rangeLoop_def del: evalLoop.simps)
qed

text \<open>Without fuel: the recursion of the code.\<close>

lemma rangeLoop_unfold [code]: "rangeLoop L e i out r = evalStep L (evalRange L) (rangeLoop L e) e i out r"
proof -
  have "agree (Suc (nat (r_budget r))) (evalStep L (evalWith (evalLoop L (nat (r_budget r)))) (evalLoop L (nat (r_budget r)) e) e i out)
    (evalStep L (evalRange L) (rangeLoop L e) e i out)"
    unfolding evalRange_def by (intro agree_evalStep agree_evalWith agree_rangeLoop)
  from agreeD [OF this, of r] show ?thesis by (simp add: rangeLoop_def)
qed

lemma evalRange_fuel: "nat (r_budget r) < n \<Longrightarrow> evalWith (evalLoop L n) s e r = evalRange L s e r"
  using agreeD [OF agree_rangeLoop] by (simp add: evalWith_def evalRange_def)

end
