(* ===== verification/PhpFold.thy ===== *)
theory PhpFold
  imports PhpConst
begin

text \<open>
  What the constant folder computes. \<open>den\<close> gives the values an expression can have, with no cache, budget
  or depth: variables stand for their last assignment, calls for the pure transforms. The folder only
  returns such values (\<open>evaluator\<close> and its interpretation), whatever it folded before; and where no
  \<open>substr\<close> occurs an expression has at most one.
\<close>

section \<open>The values of an expression\<close>

text \<open>
  \<open>den s e v\<close>: the expression of the bytes from \<open>s\<close> to \<open>e\<close> can have the value \<open>v\<close>; \<open>denFrom i e v\<close>: its part
  from \<open>i\<close> on; \<open>denCall name args v\<close>: a call. The flag \<open>lax\<close> allows what the code does when the length
  given to \<open>substr\<close> cannot be folded: it is ignored.
\<close>

inductive den :: "constLib \<Rightarrow> constEnv \<Rightarrow> bool \<Rightarrow> nat \<Rightarrow> nat \<Rightarrow> bytes \<Rightarrow> bool"
  and denFrom :: "constLib \<Rightarrow> constEnv \<Rightarrow> bool \<Rightarrow> nat \<Rightarrow> nat \<Rightarrow> bytes \<Rightarrow> bool"
  and denCall :: "constLib \<Rightarrow> constEnv \<Rightarrow> bool \<Rightarrow> bytes \<Rightarrow> span list \<Rightarrow> bytes \<Rightarrow> bool"
  for L E lax where
  denSpan: "e \<le> length (r_src E) \<Longrightarrow> s < e \<Longrightarrow> denFrom L E lax s e v \<Longrightarrow> den L E lax s e v"
| denEnd: "e \<le> i \<Longrightarrow> denFrom L E lax i e []"
| denSkip: "i < e \<Longrightarrow> isSkipByte (r_src E ! i) \<Longrightarrow> denFrom L E lax (i + 1) e v \<Longrightarrow> denFrom L E lax i e v"
| denLit: "i < e \<Longrightarrow> r_src E ! i = CHR 0x27 \<or> r_src E ! i = CHR 0x22 \<Longrightarrow> literalAt E i = Some (x, nx) \<Longrightarrow>
    denFrom L E lax nx e v \<Longrightarrow> denFrom L E lax i e (x @ v)"
| denVar: "i < e \<Longrightarrow> r_src E ! i = CHR ''$'' \<Longrightarrow> j = identEnd (r_src E) (i + 1) e \<Longrightarrow> i + 1 < j \<Longrightarrow>
    r_assigns E (sliceOf (r_src E) (i + 1) j) = Some sp \<Longrightarrow> den L E lax (sp_start sp) (sp_end sp) x \<Longrightarrow>
    denFrom L E lax j e v \<Longrightarrow> denFrom L E lax i e (x @ v)"
| denApp: "i < e \<Longrightarrow> isIdentByte (r_src E ! i) \<Longrightarrow> j = identEnd (r_src E) i e \<Longrightarrow>
    p = j + countWhile isBlankByte (drop j (take e (r_src E))) \<Longrightarrow> p < e \<Longrightarrow> r_src E ! p = CHR ''('' \<Longrightarrow>
    matchParen (r_src E) p e = Some q \<Longrightarrow>
    denCall L E lax (map ascii_lower (sliceOf (r_src E) i j)) (splitArgs E (p + 1) q) x \<Longrightarrow>
    denFrom L E lax (q + 1) e v \<Longrightarrow> denFrom L E lax i e (x @ v)"
| denNum: "i < e \<Longrightarrow> isIdentByte (r_src E ! i) \<Longrightarrow> j = identEnd (r_src E) i e \<Longrightarrow>
    p = j + countWhile isBlankByte (drop j (take e (r_src E))) \<Longrightarrow> \<not> (p < e \<and> r_src E ! p = CHR ''('') \<Longrightarrow>
    parseInt10 (map ascii_lower (sliceOf (r_src E) i j)) = Some n \<Longrightarrow>
    denFrom L E lax j e v \<Longrightarrow> denFrom L E lax i e (showInt n @ v)"
| denUnary: "unaryFn L name = Some f \<Longrightarrow> 0 < length args \<Longrightarrow>
    den L E lax (sp_start (args ! 0)) (sp_end (args ! 0)) x \<Longrightarrow> f x = Some v \<Longrightarrow> denCall L E lax name args v"
| denHash: "hashFn L name = Some h \<Longrightarrow> 0 < length args \<Longrightarrow>
    den L E lax (sp_start (args ! 0)) (sp_end (args ! 0)) x \<Longrightarrow>
    v = (if boolArg L E args 1 = Some True then h x else hexEncode (h x)) \<Longrightarrow> denCall L E lax name args v"
| denPack: "1 < length args \<Longrightarrow>
    den L E lax (sp_start (args ! 0)) (sp_end (args ! 0)) fmt \<Longrightarrow> goToLower (cl_ulow L) fmt = ''h*'' \<Longrightarrow>
    den L E lax (sp_start (args ! 1)) (sp_end (args ! 1)) x \<Longrightarrow> hexDecode x = Some v \<Longrightarrow>
    denCall L E lax ''pack'' args v"
| denSubstr: "1 < length args \<Longrightarrow>
    den L E lax (sp_start (args ! 0)) (sp_end (args ! 0)) x \<Longrightarrow>
    den L E lax (sp_start (args ! 1)) (sp_end (args ! 1)) y \<Longrightarrow> parseInt10 (trimSpace y) = Some off \<Longrightarrow>
    substrFrom x off = Some v \<Longrightarrow> lax \<or> length args = 2 \<Longrightarrow> denCall L E lax ''substr'' args v"
| denSubstrLen: "2 < length args \<Longrightarrow>
    den L E lax (sp_start (args ! 0)) (sp_end (args ! 0)) x \<Longrightarrow>
    den L E lax (sp_start (args ! 1)) (sp_end (args ! 1)) y \<Longrightarrow> parseInt10 (trimSpace y) = Some off \<Longrightarrow>
    den L E lax (sp_start (args ! 2)) (sp_end (args ! 2)) z \<Longrightarrow> parseInt10 (trimSpace z) = Some n \<Longrightarrow>
    substrFrom x off = Some w \<Longrightarrow> denCall L E lax ''substr'' args (substrLen w n)"
| denReplace: "2 < length args \<Longrightarrow>
    den L E lax (sp_start (args ! 0)) (sp_end (args ! 0)) a \<Longrightarrow>
    den L E lax (sp_start (args ! 1)) (sp_end (args ! 1)) b \<Longrightarrow>
    den L E lax (sp_start (args ! 2)) (sp_end (args ! 2)) s \<Longrightarrow>
    denCall L E lax ''str_replace'' args (replaceAll s a b)"

text \<open>The value of a variable is that of its last assignment.\<close>

definition varDen :: "constLib \<Rightarrow> constEnv \<Rightarrow> bool \<Rightarrow> bytes \<Rightarrow> bytes \<Rightarrow> bool" where
  "varDen L E lax name v \<longleftrightarrow>
     (\<exists>sp. r_assigns E name = Some sp \<and> den L E lax (sp_start sp) (sp_end sp) v)"

section \<open>The resolver's invariant\<close>

definition envOf :: "constResolver \<Rightarrow> constEnv" where
  "envOf r = \<lparr>r_src = r_src r, r_view = r_view r, r_assigns = r_assigns r\<rparr>"

lemma envOf_simps [simp]:
  "r_src (envOf r) = r_src r" "r_view (envOf r) = r_view r" "r_assigns (envOf r) = r_assigns r"
  "envOf (r\<lparr>r_cache := c\<rparr>) = envOf r" "envOf (r\<lparr>r_failed := f\<rparr>) = envOf r"
  "envOf (r\<lparr>r_budget := b\<rparr>) = envOf r" "envOf (r\<lparr>r_depth := d\<rparr>) = envOf r"
  by (simp_all add: envOf_def)

lemma literalAt_env: "literalAt (envOf r) i = literalAt r i"
  unfolding literalAt_def envOf_simps ..

lemma splitLoop_env: "splitLoop (envOf r) e i d a out = splitLoop r e i d a out"
proof (induction "envOf r" e i d a out rule: splitLoop.induct)
  case (1 e i d a out)
  show ?case
    using 1 unfolding splitLoop.simps [of "envOf r" e i] splitLoop.simps [of r e i] Let_def literalAt_env
      envOf_simps
    by (simp split: option.split prod.split)
qed

lemma splitArgs_env: "splitArgs (envOf r) s e = splitArgs r s e"
  by (simp add: splitArgs_def splitLoop_env)

lemma boolArg_env: "boolArg L (envOf r) args n = boolArg L r args n"
  unfolding boolArg_def envOf_simps ..

lemmas env_simps = literalAt_env splitArgs_env boolArg_env

text \<open>\<open>resolved\<close>: every cached value is a value of its variable.\<close>

definition resolved :: "constLib \<Rightarrow> constEnv \<Rightarrow> bool \<Rightarrow> constResolver \<Rightarrow> bool" where
  "resolved L E lax r \<longleftrightarrow> envOf r = E \<and> (\<forall>n v. r_cache r n = Some v \<longrightarrow> varDen L E lax n v)"

text \<open>\<open>ensures m P\<close>: \<open>m\<close> keeps the invariant and what it returns satisfies \<open>P\<close>.\<close>

definition ensures :: "constLib \<Rightarrow> constEnv \<Rightarrow> bool \<Rightarrow> 'a folded \<Rightarrow> ('a \<Rightarrow> bool) \<Rightarrow> bool" where
  "ensures L E lax m P \<longleftrightarrow>
     (\<forall>r. resolved L E lax r \<longrightarrow>
        (case m r of (res, r') \<Rightarrow> resolved L E lax r' \<and> r_depth r' = r_depth r \<and> (\<forall>v. res = Some v \<longrightarrow> P v)))"

lemma ensuresI:
  "(\<And>r res r'. resolved L E lax r \<Longrightarrow> m r = (res, r') \<Longrightarrow>
      resolved L E lax r' \<and> r_depth r' = r_depth r \<and> (\<forall>v. res = Some v \<longrightarrow> P v)) \<Longrightarrow> ensures L E lax m P"
  by (auto simp: ensures_def)

lemma ensuresD:
  "ensures L E lax m P \<Longrightarrow> resolved L E lax r \<Longrightarrow> m r = (res, r') \<Longrightarrow>
   resolved L E lax r' \<and> r_depth r' = r_depth r \<and> (\<forall>v. res = Some v \<longrightarrow> P v)"
  unfolding ensures_def by (metis (mono_tags, lifting) case_prod_conv)

lemma ensures_return: "(\<And>v. x = Some v \<Longrightarrow> P v) \<Longrightarrow> ensures L E lax (returnF x) P"
  by (simp add: ensures_def returnF_def)

lemma ensures_None: "ensures L E lax (returnF None) P"
  by (simp add: ensures_def returnF_def)

lemma ensures_bind:
  assumes m: "ensures L E lax m Q" and f: "\<And>x. Q x \<Longrightarrow> ensures L E lax (f x) P"
  shows "ensures L E lax (bindF m f) P"
proof (rule ensuresI)
  fix r res r' assume r: "resolved L E lax r" and b: "bindF m f r = (res, r')"
  obtain o1 r1 where m1: "m r = (o1, r1)" by fastforce
  note 1 = ensuresD [OF m r m1]
  show "resolved L E lax r' \<and> r_depth r' = r_depth r \<and> (\<forall>v. res = Some v \<longrightarrow> P v)"
  proof (cases o1)
    case None
    then show ?thesis using b m1 1 by (simp add: bindF_def)
  next
    case (Some x)
    then have "f x r1 = (res, r')" "Q x" using b m1 1 by (simp_all add: bindF_def)
    from ensuresD [OF f [OF this(2)] _ this(1)] 1 show ?thesis by simp
  qed
qed

lemma ensures_try:
  assumes "ensures L E lax m P"
  shows "ensures L E lax (tryF m) (\<lambda>x. \<forall>v. x = Some v \<longrightarrow> P v)"
proof (rule ensuresI)
  fix r res r' assume r: "resolved L E lax r" and t: "tryF m r = (res, r')"
  obtain o1 r1 where m: "m r = (o1, r1)" by fastforce
  then have "res = Some o1" "r' = r1" using t by (simp_all add: tryF_def)
  with ensuresD [OF assms r m]
  show "resolved L E lax r' \<and> r_depth r' = r_depth r \<and> (\<forall>v. res = Some v \<longrightarrow> (\<forall>x. v = Some x \<longrightarrow> P x))"
    by simp
qed

lemma ensures_weaken:
  assumes "ensures L E lax m Q" and "\<And>x. Q x \<Longrightarrow> P x"
  shows "ensures L E lax m P"
proof (rule ensuresI)
  fix r res r' assume "resolved L E lax r" "m r = (res, r')"
  from ensuresD [OF assms(1) this] assms(2)
  show "resolved L E lax r' \<and> r_depth r' = r_depth r \<and> (\<forall>v. res = Some v \<longrightarrow> P v)" by simp
qed

section \<open>The contract of an evaluator\<close>

text \<open>
  The rest of the folder relies on an evaluator of spans only through this: it returns values of the
  expression and keeps the invariant. A source without the word \<open>substr\<close> allows the strict reading.
\<close>

locale const_evaluator =
  fixes L :: constLib and E :: constEnv and lax :: bool and ev :: evaluator
  assumes ev_sound: "ensures L E lax (ev s e) (den L E lax s e)"
    and lax_ok: "lax \<or> \<not> contains (map ascii_lower (r_src E)) ''substr''"
begin

lemma arg_sound:
  "ensures L E lax (arg ev args n)
     (\<lambda>v. n < length args \<and> den L E lax (sp_start (args ! n)) (sp_end (args ! n)) v)"
proof (cases "n < length args")
  case True
  then show ?thesis using ensures_weaken [OF ev_sound] by (simp add: arg_def)
qed (simp add: arg_def ensures_None)

lemma intArg_sound:
  "ensures L E lax (intArg ev args n)
     (\<lambda>i. \<exists>y. n < length args \<and> den L E lax (sp_start (args ! n)) (sp_end (args ! n)) y \<and>
        parseInt10 (trimSpace y) = Some i)"
  unfolding intArg_def by (rule ensures_bind [OF arg_sound]) (auto intro!: ensures_return)

lemma resolveVar_sound: "ensures L E lax (resolveVar ev name) (varDen L E lax name)"
proof (rule ensuresI)
  fix r res r' assume r: "resolved L E lax r" and v: "resolveVar ev name r = (res, r')"
  show "resolved L E lax r' \<and> r_depth r' = r_depth r \<and> (\<forall>v. res = Some v \<longrightarrow> varDen L E lax name v)"
  proof (cases "r_cache r name = None \<and> name \<notin> r_failed r \<and> r_assigns r name \<noteq> None \<and> r_depth r < constMaxDepth")
    case False
    then show ?thesis using r v
      by (auto simp: resolveVar_def resolved_def split: option.splits if_splits)
  next
    case True
    then obtain sp where sp: "r_assigns r name = Some sp" by blast
    obtain o1 r1 where e: "ev (sp_start sp) (sp_end sp) (r\<lparr>r_depth := r_depth r + 1\<rparr>) = (o1, r1)" by fastforce
    have "resolved L E lax (r\<lparr>r_depth := r_depth r + 1\<rparr>)" using r by (simp add: resolved_def)
    note 1 = ensuresD [OF ev_sound this e]
    have a: "r_assigns E name = Some sp" using r sp by (auto simp: resolved_def)
    show ?thesis using True sp e v 1 a
      by (auto simp: resolveVar_def Let_def resolved_def varDen_def split: option.splits if_splits)
  qed
qed

lemma hash_sound:
  "P (if boolArg L E args 1 = Some True then h v else hexEncode (h v)) \<Longrightarrow>
   ensures L E lax (\<lambda>r. (Some (if boolArg L r args 1 = Some True then h v else hexEncode (h v)), r)) P"
  by (auto simp: ensures_def resolved_def boolArg_env)

lemma substr_sound:
  assumes "lax"
  shows "ensures L E lax
     (bindF (arg ev args 0)
         (\<lambda>v. bindF (intArg ev args 1)
           (\<lambda>off. bindF (returnF (substrFrom v off))
             (\<lambda>out. bindF (tryF (intArg ev args 2))
               (\<lambda>n. returnF (Some (case n of Some k \<Rightarrow> substrLen out k | None \<Rightarrow> out)))))))
     (denCall L E lax ''substr'' args)"
proof (rule ensures_bind [OF arg_sound], rule ensures_bind [OF intArg_sound], rule ensures_bind)
  fix v off
  show "ensures L E lax (returnF (substrFrom v off)) (\<lambda>w. substrFrom v off = Some w)"
    by (rule ensures_return)
next
  fix x off w
  assume x: "0 < length args \<and> den L E lax (sp_start (args ! 0)) (sp_end (args ! 0)) x"
    and off: "\<exists>y. 1 < length args \<and> den L E lax (sp_start (args ! 1)) (sp_end (args ! 1)) y \<and>
      parseInt10 (trimSpace y) = Some off" and w: "substrFrom x off = Some w"
  from off obtain y where y: "1 < length args" "den L E lax (sp_start (args ! 1)) (sp_end (args ! 1)) y"
    "parseInt10 (trimSpace y) = Some off" by blast
  have none: "denCall L E lax ''substr'' args w"
    by (rule denSubstr) (use x y w assms in simp_all)
  show "ensures L E lax (bindF (tryF (intArg ev args 2))
      (\<lambda>n. returnF (Some (case n of Some k \<Rightarrow> substrLen w k | None \<Rightarrow> w)))) (denCall L E lax ''substr'' args)"
  proof (rule ensures_bind [OF ensures_try [OF intArg_sound]], rule ensures_return)
    fix n v
    assume n: "\<forall>i. n = Some i \<longrightarrow> (\<exists>y. 2 < length args \<and>
        den L E lax (sp_start (args ! 2)) (sp_end (args ! 2)) y \<and> parseInt10 (trimSpace y) = Some i)"
      and v: "Some (case n of Some k \<Rightarrow> substrLen w k | None \<Rightarrow> w) = Some v"
    show "denCall L E lax ''substr'' args v"
    proof (cases n)
      case None
      then show ?thesis using none v by simp
    next
      case (Some i)
      with n obtain z where z: "2 < length args" "den L E lax (sp_start (args ! 2)) (sp_end (args ! 2)) z"
        "parseInt10 (trimSpace z) = Some i" by blast
      have "denCall L E lax ''substr'' args (substrLen w i)"
        by (rule denSubstrLen [OF z(1) _ y(2,3) z(2,3) w]) (use x in simp)
      then show ?thesis using Some v by simp
    qed
  qed
qed

lemma pack_sound:
  "ensures L E lax
     (bindF (arg ev args 0)
         (\<lambda>fmt. if length args < 2 \<or> goToLower (cl_ulow L) fmt \<noteq> ''h*'' then returnF None
                else bindF (arg ev args 1) (\<lambda>v. returnF (hexDecode v))))
     (denCall L E lax ''pack'' args)"
proof (rule ensures_bind [OF arg_sound])
  fix fmt assume fmt: "0 < length args \<and> den L E lax (sp_start (args ! 0)) (sp_end (args ! 0)) fmt"
  have "ensures L E lax (bindF (arg ev args 1) (\<lambda>v. returnF (hexDecode v))) (denCall L E lax ''pack'' args)"
    if "goToLower (cl_ulow L) fmt = ''h*''" "\<not> length args < 2"
  proof (rule ensures_bind [OF arg_sound], rule ensures_return)
    fix x v assume "1 < length args \<and> den L E lax (sp_start (args ! 1)) (sp_end (args ! 1)) x"
      "hexDecode x = Some v"
    then show "denCall L E lax ''pack'' args v" using fmt that by (intro denPack [of args _ _ _ fmt x]) simp_all
  qed
  then show "ensures L E lax (if length args < 2 \<or> goToLower (cl_ulow L) fmt \<noteq> ''h*'' then returnF None
      else bindF (arg ev args 1) (\<lambda>v. returnF (hexDecode v))) (denCall L E lax ''pack'' args)"
    by (simp add: ensures_None)
qed

lemma replace_sound:
  "ensures L E lax
     (bindF (tryF (arg ev args 0))
         (\<lambda>search. bindF (tryF (arg ev args 1))
           (\<lambda>replace. bindF (tryF (arg ev args 2))
             (\<lambda>subject. returnF
               (case (search, replace, subject) of
                  (Some a, Some b, Some s) \<Rightarrow> Some (replaceAll s a b)
                | _ \<Rightarrow> None)))))
     (denCall L E lax ''str_replace'' args)"
proof (intro ensures_bind [OF ensures_try [OF arg_sound]], rule ensures_return)
  fix x y z v
  assume a: "\<forall>v. x = Some v \<longrightarrow> 0 < length args \<and> den L E lax (sp_start (args ! 0)) (sp_end (args ! 0)) v"
    "\<forall>v. y = Some v \<longrightarrow> 1 < length args \<and> den L E lax (sp_start (args ! 1)) (sp_end (args ! 1)) v"
    "\<forall>v. z = Some v \<longrightarrow> 2 < length args \<and> den L E lax (sp_start (args ! 2)) (sp_end (args ! 2)) v"
    and v: "(case (x, y, z) of (Some a, Some b, Some s) \<Rightarrow> Some (replaceAll s a b) | _ \<Rightarrow> None) = Some v"
  then obtain a b s where "x = Some a" "y = Some b" "z = Some s" "v = replaceAll s a b"
    by (auto split: option.splits)
  then show "denCall L E lax ''str_replace'' args v" using a by (auto intro: denReplace)
qed

lemma applyFunc_sound:
  assumes "name = ''substr'' \<Longrightarrow> lax"
  shows "ensures L E lax (applyFunc L ev name args) (denCall L E lax name args)"
proof -
  have unary: "ensures L E lax (bindF (arg ev args 0) (\<lambda>v. returnF (f v))) (denCall L E lax name args)"
    if "unaryFn L name = Some f" for f
    by (rule ensures_bind [OF arg_sound], rule ensures_return) (use that in \<open>auto intro: denUnary\<close>)
  have hash: "ensures L E lax (bindF (arg ev args 0)
      (\<lambda>v r. (Some (if boolArg L r args 1 = Some True then h v else hexEncode (h v)), r))) (denCall L E lax name args)"
    if "hashFn L name = Some h" for h
    by (rule ensures_bind [OF arg_sound], rule hash_sound) (use that in \<open>auto intro: denHash\<close>)
  have none: "ensures L E lax (\<lambda>r. (None, r)) P" for P :: "bytes \<Rightarrow> bool" by (simp add: ensures_def)
  show ?thesis
  proof (cases "unaryFn L name")
    case (Some f)
    then show ?thesis using unary [OF Some] unfolding applyFunc_def by simp
  next
    case u: None
    show ?thesis
    proof (cases "hashFn L name")
      case (Some h)
      then show ?thesis using u hash [OF Some] unfolding applyFunc_def by simp
    next
      case None
      then show ?thesis
        using u pack_sound replace_sound substr_sound none assms unfolding applyFunc_def
        by (cases "name = ''pack''"; cases "name = ''substr''"; cases "name = ''str_replace''") simp_all
    qed
  qed
qed

lemma capped_sound: "ensures L E lax (k out) P \<Longrightarrow> ensures L E lax (capped k out) P"
  unfolding capped_def by (rule ensuresI) (auto split: if_splits dest: ensuresD)

lemma substr_absent: "map ascii_lower (sliceOf (r_src E) i j) = ''substr'' \<Longrightarrow> lax"
proof (rule ccontr)
  assume s: "map ascii_lower (sliceOf (r_src E) i j) = ''substr''" and "\<not> lax"
  have "sublist (sliceOf (r_src E) i j) (r_src E)"
    using sublist_take [of "j - i" "drop i (r_src E)"] sublist_drop [of i "r_src E"]
    unfolding sliceOf_def by (rule sublist_order.order.trans)
  then have "sublist ''substr'' (map ascii_lower (r_src E))"
    using s map_mono_sublist by metis
  with lax_ok \<open>\<not> lax\<close> show False by (simp add: contains_def)
qed

text \<open>One turn of the loop, when going on is sound.\<close>

lemma evalStep_sound:
  assumes k: "\<And>i out. ensures L E lax (k i out) (\<lambda>v. \<exists>w. v = out @ w \<and> denFrom L E lax i e w)"
  shows "ensures L E lax (evalStep L ev k e i out) (\<lambda>v. \<exists>w. v = out @ w \<and> denFrom L E lax i e w)"
proof (rule ensuresI)
  fix r0 res r' assume r0: "resolved L E lax r0" and st: "evalStep L ev k e i out r0 = (res, r')"
  let ?P = "\<lambda>v. \<exists>w. v = out @ w \<and> denFrom L E lax i e w"
  let ?Q = "resolved L E lax r' \<and> r_depth r' = r_depth r0 \<and> (\<forall>v. res = Some v \<longrightarrow> ?P v)"
  define r where "r = r0\<lparr>r_budget := r_budget r0 - 1\<rparr>"
  have r: "resolved L E lax r" "r_depth r = r_depth r0" using r0 by (simp_all add: r_def resolved_def)
  have "E = envOf r" using r(1) by (simp add: resolved_def)
  then have E: "r_src r = r_src E" "literalAt r = literalAt E" "splitArgs r = splitArgs E"
    by (simp_all add: fun_eq_iff env_simps)
  have go: ?Q if "ensures L E lax m ?P" "m r = (res, r')" for m
    using ensuresD [OF that(1) r(1) that(2)] r(2) by simp
  have k1: "ensures L E lax (k j (out @ x)) ?P" if "\<And>w. denFrom L E lax j e w \<Longrightarrow> denFrom L E lax i e (x @ w)" for j x
    by (rule ensures_weaken [OF k]) (use that in auto)
  have k0: "ensures L E lax (k j out) ?P" if "\<And>w. denFrom L E lax j e w \<Longrightarrow> denFrom L E lax i e w" for j
    using k1 [of j "[]"] that by simp
  have none: ?Q if "res = None" "r' = r" using that r by simp
  show ?Q
  proof (cases "i < e \<and> 0 < r_budget r0")
    case False
    show ?thesis
    proof (cases "i < e")
      case True
      with False have "evalStep L ev k e i out r0 = (None, r0)" by (simp add: evalStep_def)
      then show ?thesis using st r0 by simp
    next
      case False
      then have "evalStep L ev k e i out r0 = (Some out, r0)" by (simp add: evalStep_def)
      then show ?thesis using st r0 denEnd [of e i L E lax] False by auto
    qed
  next
    case True
    then have ie: "i < e" by simp
    let ?c = "r_src E ! i"
    have step: "(if isSkipByte ?c then k (i + 1) out r
            else if ?c = CHR 0x27 \<or> ?c = CHR 0x22 then
              (case literalAt E i of
                 None \<Rightarrow> (None, r)
               | Some (val, nx) \<Rightarrow> capped (k nx) (out @ val) r)
            else if ?c = CHR ''$'' then
              (let j = identEnd (r_src E) (i + 1) e
               in if j = i + 1 then (None, r)
                  else bindF (resolveVar ev (sliceOf (r_src E) (i + 1) j)) (\<lambda>v. capped (k j) (out @ v)) r)
            else if isIdentByte ?c then
              (let j = identEnd (r_src E) i e;
                   name = map ascii_lower (sliceOf (r_src E) i j);
                   p = j + countWhile isBlankByte (drop j (take e (r_src E)))
               in if p < e \<and> r_src E ! p = CHR ''('' then
                    (case matchParen (r_src E) p e of
                       None \<Rightarrow> (None, r)
                     | Some argEnd \<Rightarrow>
                         bindF (applyFunc L ev name (splitArgs E (p + 1) argEnd))
                           (\<lambda>v. k (argEnd + 1) (out @ v)) r)
                  else
                    (case parseInt10 name of
                       Some n \<Rightarrow> k j (out @ showInt n) r
                     | None \<Rightarrow> (None, r)))
            else (None, r)) = (res, r')"
      using st True unfolding evalStep_def Let_def r_def [symmetric] E by simp
    consider (skip) "isSkipByte ?c"
      | (lit) "\<not> isSkipByte ?c" "?c = CHR 0x27 \<or> ?c = CHR 0x22"
      | (var) "\<not> isSkipByte ?c" "\<not> (?c = CHR 0x27 \<or> ?c = CHR 0x22)" "?c = CHR ''$''"
      | (name) "\<not> isSkipByte ?c" "\<not> (?c = CHR 0x27 \<or> ?c = CHR 0x22)" "?c \<noteq> CHR ''$''" "isIdentByte ?c"
      | (other) "\<not> isSkipByte ?c" "\<not> (?c = CHR 0x27 \<or> ?c = CHR 0x22)" "?c \<noteq> CHR ''$''" "\<not> isIdentByte ?c"
      by blast
    then show ?thesis
    proof cases
      case skip
      then show ?thesis using step ie by (intro go [OF k0 [of "i + 1"]]) (auto intro: denSkip)
    next
      case lit
      show ?thesis
      proof (cases "literalAt E i")
        case None
        then show ?thesis using lit step none by simp
      next
        case (Some a)
        obtain x nx where a: "a = (x, nx)" by fastforce
        have "ensures L E lax (capped (k nx) (out @ x)) ?P"
          by (intro capped_sound k1) (use lit ie Some a in \<open>auto intro: denLit\<close>)
        then show ?thesis by (rule go) (use lit step Some a in simp)
      qed
    next
      case var
      define j where "j = identEnd (r_src E) (i + 1) e"
      show ?thesis
      proof (cases "j = i + 1")
        case True
        then show ?thesis using var step none by (simp add: j_def Let_def)
      next
        case False
        then have j: "i + 1 < j" by (simp add: j_def identEnd_def)
        have "ensures L E lax (bindF (resolveVar ev (sliceOf (r_src E) (i + 1) j)) (\<lambda>v. capped (k j) (out @ v))) ?P"
        proof (rule ensures_bind [OF resolveVar_sound], rule capped_sound, rule k1)
          fix x w assume "varDen L E lax (sliceOf (r_src E) (i + 1) j) x" and w: "denFrom L E lax j e w"
          then obtain sp where "r_assigns E (sliceOf (r_src E) (i + 1) j) = Some sp"
            "den L E lax (sp_start sp) (sp_end sp) x" by (auto simp: varDen_def)
          then show "denFrom L E lax i e (x @ w)" by (rule denVar [OF ie var(3) j_def j _ _ w])
        qed
        then show ?thesis by (rule go) (use var step False in \<open>simp add: j_def Let_def\<close>)
      qed
    next
      case name
      define j where "j = identEnd (r_src E) i e"
      define p where "p = j + countWhile isBlankByte (drop j (take e (r_src E)))"
      show ?thesis
      proof (cases "p < e \<and> r_src E ! p = CHR ''(''")
        case True
        show ?thesis
        proof (cases "matchParen (r_src E) p e")
          case None
          then show ?thesis using name step True none by (simp add: j_def [symmetric] p_def [symmetric] Let_def)
        next
          case (Some q)
          have "ensures L E lax (bindF (applyFunc L ev (map ascii_lower (sliceOf (r_src E) i j)) (splitArgs E (p + 1) q))
              (\<lambda>v. k (q + 1) (out @ v))) ?P"
          proof (rule ensures_bind [OF applyFunc_sound [OF substr_absent]], assumption, rule k1)
            fix x w
            assume "denCall L E lax (map ascii_lower (sliceOf (r_src E) i j)) (splitArgs E (p + 1) q) x"
              and "denFrom L E lax (q + 1) e w"
            then show "denFrom L E lax i e (x @ w)"
              by (rule denApp [OF ie name(4) j_def p_def conjunct1 [OF True] conjunct2 [OF True] Some])
          qed
          then show ?thesis
            by (rule go) (use name step True Some in \<open>simp add: j_def [symmetric] p_def [symmetric] Let_def\<close>)
        qed
      next
        case False
        show ?thesis
        proof (cases "parseInt10 (map ascii_lower (sliceOf (r_src E) i j))")
          case None
          then show ?thesis using name step False none
            by (simp add: j_def [symmetric] p_def [symmetric] Let_def split: if_splits)
        next
          case (Some n)
          have "k j (out @ showInt n) r = (res, r')" using name step False Some
            by (simp add: j_def [symmetric] p_def [symmetric] Let_def split: if_splits)
          then show ?thesis
            by (intro go [OF k1]) (auto intro: denNum [OF ie name(4) j_def p_def False Some])
        qed
      qed
    next
      case other
      then show ?thesis using step none by simp
    qed
  qed
qed

end

section \<open>The evaluators of the code\<close>

text \<open>With any fuel, hence with the budget as fuel, \<open>evalWith\<close> meets the contract.\<close>

lemma evalWith_sound:
  assumes "\<And>e i out. ensures L E lax (l e i out) (\<lambda>v. \<exists>w. v = out @ w \<and> denFrom L E lax i e w)"
  shows "ensures L E lax (evalWith l s e) (den L E lax s e)"
proof (rule ensuresI)
  fix r res r' assume r: "resolved L E lax r" and w: "evalWith l s e r = (res, r')"
  then have E: "r_src r = r_src E" by (auto simp: resolved_def)
  show "resolved L E lax r' \<and> r_depth r' = r_depth r \<and> (\<forall>v. res = Some v \<longrightarrow> den L E lax s e v)"
  proof (cases "length (r_src r) < e \<or> e \<le> s")
    case False
    then have "l e s [] r = (res, r')" using w by (simp add: evalWith_def)
    from ensuresD [OF assms r this] False E show ?thesis by (auto intro: denSpan)
  next
    case True
    then show ?thesis using w r by (simp add: evalWith_def)
  qed
qed

lemma evalLoop_sound:
  assumes "lax \<or> \<not> contains (map ascii_lower (r_src E)) ''substr''"
  shows "ensures L E lax (evalLoop L n e i out) (\<lambda>v. \<exists>w. v = out @ w \<and> denFrom L E lax i e w)"
proof (induction n arbitrary: e i out)
  case 0
  show ?case by (simp add: ensures_def)
next
  case (Suc n)
  have "const_evaluator L E lax (evalWith (evalLoop L n))"
    using evalWith_sound [OF Suc.IH] assms by unfold_locales
  from const_evaluator.evalStep_sound [OF this Suc.IH] show ?case by simp
qed

lemma rangeLoop_sound:
  assumes "lax \<or> \<not> contains (map ascii_lower (r_src E)) ''substr''"
  shows "ensures L E lax (rangeLoop L e i out) (\<lambda>v. \<exists>w. v = out @ w \<and> denFrom L E lax i e w)"
proof (rule ensuresI)
  fix r res r' assume "resolved L E lax r" "rangeLoop L e i out r = (res, r')"
  from ensuresD [OF evalLoop_sound [OF assms] this(1) this(2) [unfolded rangeLoop_def]]
  show "resolved L E lax r' \<and> r_depth r' = r_depth r \<and>
    (\<forall>v. res = Some v \<longrightarrow> (\<exists>w. v = out @ w \<and> denFrom L E lax i e w))" .
qed

text \<open>Every evaluation is sound in the lax reading, whatever the source.\<close>

interpretation laxly: const_evaluator L E True "evalRange L" for L E
  by unfold_locales (auto simp: evalRange_def intro!: evalWith_sound rangeLoop_sound)

lemma strict_evaluator:
  "\<not> contains (map ascii_lower (r_src E)) ''substr'' \<Longrightarrow> const_evaluator L E False (evalRange L)"
  by unfold_locales (auto simp: evalRange_def intro!: evalWith_sound rangeLoop_sound)

lemma resolve_sound:
  assumes "lax \<or> \<not> contains (map ascii_lower (r_src E)) ''substr''"
  shows "ensures L E lax (resolve L name) (varDen L E lax name)"
  using laxly.resolveVar_sound const_evaluator.resolveVar_sound [OF strict_evaluator] assms
  unfolding resolve_def by (cases lax) auto

section \<open>One value\<close>

lemma names_apart:
  "unaryFn L ''pack'' = None" "unaryFn L ''substr'' = None" "unaryFn L ''str_replace'' = None"
  "hashFn L ''pack'' = None" "hashFn L ''substr'' = None" "hashFn L ''str_replace'' = None"
  "unaryFn L ''md5'' = None" "unaryFn L ''sha1'' = None"
  by (simp_all add: unaryFn_def hashFn_def)

lemma hashFn_unary: "hashFn L name = Some h \<Longrightarrow> unaryFn L name = None"
  by (auto simp: hashFn_def names_apart split: if_splits)

lemma skip_apart: "isSkipByte c \<Longrightarrow> c \<noteq> CHR 0x27 \<and> c \<noteq> CHR 0x22 \<and> c \<noteq> CHR ''$'' \<and> \<not> isIdentByte c"
  by (auto simp: isSkipByte_def isIdentByte_def)

lemma ident_apart: "isIdentByte c \<Longrightarrow> c \<noteq> CHR 0x27 \<and> c \<noteq> CHR 0x22 \<and> c \<noteq> CHR ''$''"
  by (auto simp: isIdentByte_def)

inductive_cases denE: "den L E lax s e v"
inductive_cases denFromE: "denFrom L E lax i e v"
inductive_cases denCallE: "denCall L E lax name args v"

lemma denFrom_skip:
  assumes "i < e" "isSkipByte (r_src E ! i)" "denFrom L E lax i e w"
  shows "denFrom L E lax (i + 1) e w"
  using assms(3) by (rule denFromE) (use assms(1,2) skip_apart [OF assms(2)] in simp_all)

lemma denFrom_lit:
  assumes "i < e" "r_src E ! i = CHR 0x27 \<or> r_src E ! i = CHR 0x22" "denFrom L E lax i e w"
  obtains x nx v where "literalAt E i = Some (x, nx)" "denFrom L E lax nx e v" "w = x @ v"
proof -
  have c: "\<not> isSkipByte (r_src E ! i)" "r_src E ! i \<noteq> CHR ''$''" "\<not> isIdentByte (r_src E ! i)"
    using assms(2) skip_apart ident_apart by auto
  show ?thesis using assms(3) by (rule denFromE) (use assms(1) c that in simp_all)
qed

lemma denFrom_var:
  assumes "i < e" "r_src E ! i = CHR ''$''" "denFrom L E lax i e w"
  obtains sp x v where "r_assigns E (sliceOf (r_src E) (i + 1) (identEnd (r_src E) (i + 1) e)) = Some sp"
    "den L E lax (sp_start sp) (sp_end sp) x" "denFrom L E lax (identEnd (r_src E) (i + 1) e) e v" "w = x @ v"
proof -
  have c: "\<not> isSkipByte (r_src E ! i)" "\<not> isIdentByte (r_src E ! i)"
    using assms(2) skip_apart ident_apart by auto
  show ?thesis using assms(3) by (rule denFromE) (use assms(1,2) c that in simp_all)
qed

lemma denFrom_ident:
  assumes "i < e" "isIdentByte (r_src E ! i)" "denFrom L E lax i e w"
    "j = identEnd (r_src E) i e" "p = j + countWhile isBlankByte (drop j (take e (r_src E)))"
  obtains q x v where "p < e \<and> r_src E ! p = CHR ''(''" "matchParen (r_src E) p e = Some q"
      "denCall L E lax (map ascii_lower (sliceOf (r_src E) i j)) (splitArgs E (p + 1) q) x"
      "denFrom L E lax (q + 1) e v" "w = x @ v"
    | n v where "\<not> (p < e \<and> r_src E ! p = CHR ''('')"
      "parseInt10 (map ascii_lower (sliceOf (r_src E) i j)) = Some n" "denFrom L E lax j e v" "w = showInt n @ v"
proof -
  have c: "\<not> isSkipByte (r_src E ! i)" "r_src E ! i \<noteq> CHR 0x27" "r_src E ! i \<noteq> CHR 0x22" "r_src E ! i \<noteq> CHR ''$''"
    using assms(2) skip_apart [of "r_src E ! i"] ident_apart [OF assms(2)] by auto
  show ?thesis
    using assms(3) by (rule denFromE) (use assms(1,2) c that [unfolded assms(4,5)] in simp_all)
qed

lemma denCall_unary:
  assumes "unaryFn L name = Some f" "denCall L E lax name args w"
  obtains x where "den L E lax (sp_start (args ! 0)) (sp_end (args ! 0)) x" "f x = Some w"
  using assms(2) by (rule denCallE) (use assms(1) that names_apart hashFn_unary [of L name] in simp_all)

lemma denCall_hash:
  assumes "hashFn L name = Some h" "denCall L E lax name args w"
  obtains x where "den L E lax (sp_start (args ! 0)) (sp_end (args ! 0)) x"
    "w = (if boolArg L E args 1 = Some True then h x else hexEncode (h x))"
  using assms(2) by (rule denCallE) (use assms(1) that names_apart hashFn_unary [OF assms(1)] in simp_all)

lemma denCall_pack:
  assumes "denCall L E lax ''pack'' args w"
  obtains x where "den L E lax (sp_start (args ! 1)) (sp_end (args ! 1)) x" "hexDecode x = Some w"
  using assms by (rule denCallE) (use that names_apart in simp_all)

lemma denCall_replace:
  assumes "denCall L E lax ''str_replace'' args w"
  obtains a b t where "den L E lax (sp_start (args ! 0)) (sp_end (args ! 0)) a"
    "den L E lax (sp_start (args ! 1)) (sp_end (args ! 1)) b"
    "den L E lax (sp_start (args ! 2)) (sp_end (args ! 2)) t" "w = replaceAll t a b"
  using assms by (rule denCallE) (use that names_apart in simp_all)

lemma denCall_substr:
  assumes "denCall L E False ''substr'' args w"
  obtains x y off v where "den L E False (sp_start (args ! 0)) (sp_end (args ! 0)) x"
    "den L E False (sp_start (args ! 1)) (sp_end (args ! 1)) y" "parseInt10 (trimSpace y) = Some off"
    "substrFrom x off = Some v" "length args = 2" "w = v"
  | x y off v z n where "den L E False (sp_start (args ! 0)) (sp_end (args ! 0)) x"
    "den L E False (sp_start (args ! 1)) (sp_end (args ! 1)) y" "parseInt10 (trimSpace y) = Some off"
    "substrFrom x off = Some v" "2 < length args" "den L E False (sp_start (args ! 2)) (sp_end (args ! 2)) z"
    "parseInt10 (trimSpace z) = Some n" "w = substrLen v n"
  using assms by (rule denCallE) (use that names_apart in simp_all)

lemma den_unique:
  "den L E lax s e v \<Longrightarrow> \<not> lax \<Longrightarrow> den L E lax s e v' \<Longrightarrow> v = v'"
  "denFrom L E lax i e w \<Longrightarrow> \<not> lax \<Longrightarrow> denFrom L E lax i e w' \<Longrightarrow> w = w'"
  "denCall L E lax name args x \<Longrightarrow> \<not> lax \<Longrightarrow> denCall L E lax name args x' \<Longrightarrow> x = x'"
proof (induction arbitrary: v' and w' and x' rule: den_denFrom_denCall.inducts)
  case (denSpan e s v)
  then show ?case by (blast elim: denE)
next
  case (denEnd e i)
  then show ?case by (auto elim: denFromE)
next
  case (denSkip i e v)
  show ?case by (rule denSkip(4) [OF denSkip(5) denFrom_skip [OF denSkip(1,2) denSkip(6)]])
next
  case (denLit i e x nx v)
  obtain y ny u where "literalAt E i = Some (y, ny)" "denFrom L E lax ny e u" "w' = y @ u"
    by (rule denFrom_lit [OF denLit(1,2) denLit(7)])
  then show ?case using denLit(3) denLit(5) [OF denLit(6)] by simp
next
  case (denVar i e j sp x v)
  obtain sq y u where "r_assigns E (sliceOf (r_src E) (i + 1) j) = Some sq"
    "den L E lax (sp_start sq) (sp_end sq) y" "denFrom L E lax j e u" "w' = y @ u"
    by (rule denFrom_var [OF denVar(1,3) denVar(11)]) (use denVar(4) in blast)
  then show ?case using denVar(5) denVar(7) [OF denVar(10)] denVar(9) [OF denVar(10)] by simp
next
  case (denApp i e j p q x v)
  from denApp(13) show ?case
  proof (rule denFrom_ident [OF denApp(1,3) _ denApp(4,5)])
    fix q' y u
    assume "matchParen (r_src E) p e = Some q'"
      "denCall L E lax (map ascii_lower (sliceOf (r_src E) i j)) (splitArgs E (p + 1) q') y"
      "denFrom L E lax (q' + 1) e u" "w' = y @ u"
    then show "x @ v = w'"
      using denApp(7) denApp(9) [OF denApp(12)] denApp(11) [OF denApp(12)] by simp
  next
    assume "\<not> (p < e \<and> r_src E ! p = CHR ''('')"
    with denApp(2,6) show "x @ v = w'" by simp
  qed
next
  case (denNum i e j p n v)
  from denNum(10) show ?case
  proof (rule denFrom_ident [OF denNum(1,2) _ denNum(3,4)])
    assume "p < e \<and> r_src E ! p = CHR ''(''"
    with denNum(5) show "showInt n @ v = w'" by blast
  next
    fix m u assume "parseInt10 (map ascii_lower (sliceOf (r_src E) i j)) = Some m" "denFrom L E lax j e u"
      "w' = showInt m @ u"
    then show "showInt n @ v = w'" using denNum(6) denNum(8) [OF denNum(9)] by simp
  qed
next
  case (denUnary name f args x v)
  from denUnary(1,7) obtain y where y: "den L E lax (sp_start (args ! 0)) (sp_end (args ! 0)) y" "f y = Some x'"
    by (rule denCall_unary)
  have "x = y" by (rule denUnary(3) [OF denUnary(6) y(1)])
  then show ?case using denUnary(5) y(2) by simp
next
  case (denHash name h args x v)
  from denHash(1,7) obtain y where y: "den L E lax (sp_start (args ! 0)) (sp_end (args ! 0)) y"
    "x' = (if boolArg L E args 1 = Some True then h y else hexEncode (h y))"
    by (rule denCall_hash)
  have "x = y" by (rule denHash(3) [OF denHash(6) y(1)])
  then show ?case using denHash(4) y(2) by simp
next
  case (denPack args fmt x v)
  from denPack(9) obtain y where y: "den L E lax (sp_start (args ! 1)) (sp_end (args ! 1)) y" "hexDecode y = Some x'"
    by (rule denCall_pack)
  have "x = y" by (rule denPack(7) [OF denPack(8) y(1)])
  then show ?case using denPack(2) y(2) by simp
next
  case (denSubstr args x y off v)
  have two: "length args = 2" using denSubstr(8,9) by simp
  have "denCall L E False ''substr'' args x'" using denSubstr(9,10) by simp
  then show ?case
  proof (rule denCall_substr)
    fix x1 y1 off1 v1
    assume d: "den L E False (sp_start (args ! 0)) (sp_end (args ! 0)) x1"
      "den L E False (sp_start (args ! 1)) (sp_end (args ! 1)) y1"
      and v1: "parseInt10 (trimSpace y1) = Some off1" "substrFrom x1 off1 = Some v1" "x' = v1"
    have "x = x1" by (rule denSubstr(5)) (use d(1) denSubstr(9) in simp_all)
    moreover have "y = y1" by (rule denSubstr(7)) (use d(2) denSubstr(9) in simp_all)
    ultimately show "v = x'" using denSubstr(2,3) v1 by simp
  next
    assume "2 < length args"
    with two show "v = x'" by simp
  qed
next
  case (denSubstrLen args x y off z n w)
  have "lax = False" using denSubstrLen(11) by simp
  note ih = denSubstrLen(6,8,10) [OF denSubstrLen(11), unfolded this]
  have val: "parseInt10 (trimSpace y) = Some off" "parseInt10 (trimSpace z) = Some n" "substrFrom x off = Some w"
      "2 < length args" "denCall L E False ''substr'' args x'"
    using denSubstrLen(1,2,3,4,11,12) by simp_all
  from val(5) show ?case
  proof (rule denCall_substr)
    assume "length args = 2"
    with val(4) show "substrLen w n = x'" by simp
  next
    fix x1 y1 off1 v1 z1 n1
    assume d: "den L E False (sp_start (args ! 0)) (sp_end (args ! 0)) x1"
      "den L E False (sp_start (args ! 1)) (sp_end (args ! 1)) y1"
      "den L E False (sp_start (args ! 2)) (sp_end (args ! 2)) z1"
      and v1: "parseInt10 (trimSpace y1) = Some off1" "substrFrom x1 off1 = Some v1"
      "parseInt10 (trimSpace z1) = Some n1" "x' = substrLen v1 n1"
    show "substrLen w n = x'" using val v1 ih(1) [OF d(1)] ih(2) [OF d(2)] ih(3) [OF d(3)] by simp
  qed
next
  case (denReplace args a b t)
  note ih = denReplace(3,5,7) [OF denReplace(8)]
  from denReplace(9) obtain a1 b1 t1 where "den L E lax (sp_start (args ! 0)) (sp_end (args ! 0)) a1"
    "den L E lax (sp_start (args ! 1)) (sp_end (args ! 1)) b1"
    "den L E lax (sp_start (args ! 2)) (sp_end (args ! 2)) t1" "x' = replaceAll t1 a1 b1"
    by (rule denCall_replace)
  with ih(1) [OF this(1)] ih(2) [OF this(2)] ih(3) [OF this(3)] show ?case by simp
qed

lemma varDen_unique: "varDen L E False n v \<Longrightarrow> varDen L E False n v' \<Longrightarrow> v = v'"
  by (auto simp: varDen_def dest: den_unique(1))

section \<open>Whatever was folded before\<close>

text \<open>Resolving variables one after another.\<close>

definition resolveAll :: "constLib \<Rightarrow> bytes list \<Rightarrow> constResolver \<Rightarrow> constResolver" where
  "resolveAll L names r = foldl (\<lambda>r n. snd (resolve L n r)) r names"

lemma resolved_new: "resolved L (envOf (newConstResolver src view)) lax (newConstResolver src view)"
  by (simp add: resolved_def newConstResolver_def)

lemma resolved_resolve:
  assumes "lax \<or> \<not> contains (map ascii_lower (r_src E)) ''substr''" "resolved L E lax r"
  shows "resolved L E lax (snd (resolve L name r)) \<and>
    (\<forall>v. fst (resolve L name r) = Some v \<longrightarrow> varDen L E lax name v)"
  using ensuresD [OF resolve_sound [OF assms(1)] assms(2) prod.collapse [symmetric]] by blast

lemma resolved_all:
  assumes "lax \<or> \<not> contains (map ascii_lower (r_src E)) ''substr''" "resolved L E lax r"
  shows "resolved L E lax (resolveAll L names r)"
  unfolding resolveAll_def
  by (rule foldl_invariant [where I = "resolved L E lax"])
    (rule assms(2), rule conjunct1 [OF resolved_resolve [OF assms(1)]])

text \<open>
  C10. The fuel of the constant folder is never used up: with the budget of the resolver as fuel the
  evaluation satisfies the recursion of the code, one turn of the loop calling the evaluator of spans for
  variables and arguments and the loop for what follows, and no evaluation gives back more budget than it got.
\<close>

theorem folding_terminates:
  "rangeLoop L e i out r = evalStep L (evalRange L) (rangeLoop L e) e i out r \<and>
   evalRange L s e r = evalWith (rangeLoop L) s e r \<and>
   nat (r_budget (snd (evalRange L s e r))) \<le> nat (r_budget r)"
proof (intro conjI)
  show "rangeLoop L e i out r = evalStep L (evalRange L) (rangeLoop L e) e i out r"
    by (rule rangeLoop_unfold)
  show "evalRange L s e r = evalWith (rangeLoop L) s e r" by (simp add: evalRange_def)
  show "nat (r_budget (snd (evalRange L s e r))) \<le> nat (r_budget r)"
    using agreeD [OF agree_rangeLoop, of r "Suc (nat (r_budget r))"] by (simp add: evalRange_def evalWith_def)
qed


definition plainLib :: constLib where
  "plainLib = \<lparr>cl_md5 = id, cl_sha1 = id, cl_open = (\<lambda>_ _. None), cl_ulow = id, cl_uup = id\<rparr>"

definition resolverOf :: "bytes \<Rightarrow> constResolver" where
  "resolverOf src = newConstResolver src (lexPHP src)"

definition keySource :: bytes where
  "keySource = ''<?php $a = \"s3\"; $k = strrev($a . \"yz\") . base64_decode(\"YWJj\") ;''"


text \<open>
  Where the source does not contain the word substr, a variable folds to at most one value: two resolvers
  of one file that both resolve it agree, whatever each resolved before.
\<close>

theorem fold_order_independent:
  assumes "\<not> contains (map ascii_lower src) ''substr''"
    and "fst (resolve L name (resolveAll L names (newConstResolver src view))) = Some v"
    and "fst (resolve L name (resolveAll L names' (newConstResolver src view))) = Some v'"
  shows "v = v'"
proof -
  let ?E = "envOf (newConstResolver src view)"
  have E: "False \<or> \<not> contains (map ascii_lower (r_src ?E)) ''substr''"
    using assms(1) by (simp add: newConstResolver_def)
  have "varDen L ?E False name v" "varDen L ?E False name v'"
    using resolved_resolve [OF E resolved_all [OF E resolved_new]] assms(2,3) by blast+
  then show ?thesis by (rule varDen_unique)
qed

lemma fold_order_independent_witness:
  "fst (resolve plainLib ''k'' (resolveAll plainLib [''a''] (newConstResolver keySource (lexPHP keySource)))) =
   fst (resolve plainLib ''k'' (resolveAll plainLib [''z''] (newConstResolver keySource (lexPHP keySource))))"
proof -
  let ?r = "newConstResolver keySource (lexPHP keySource)"
  have a: "fst (resolve plainLib ''k'' (resolveAll plainLib [''a''] ?r)) = Some ''zy3sabc''" by code_simp
  have "fst (resolve plainLib ''k'' (resolveAll plainLib [''z''] ?r)) \<noteq> None" by code_simp
  then obtain v where b: "fst (resolve plainLib ''k'' (resolveAll plainLib [''z''] ?r)) = Some v" by blast
  have no: "\<not> contains (map ascii_lower keySource) ''substr''"
    unfolding contains_def sublist_code(1) by code_simp
  show ?thesis using fold_order_independent [OF no a b] a b by simp
qed

section \<open>Where the folder departs from PHP\<close>

text \<open>A negative length of \<open>substr\<close> cannot be folded and is ignored: the last byte stays.\<close>

lemma substr_length_ignored: "fst (resolve plainLib ''k'' (resolverOf ''<?php $k = substr(\"abc\", 0, -1);'')) = Some ''abc''"
  by code_simp

text \<open>An append is not an assignment to the folder: the variable keeps its first part only.\<close>

lemma append_ignored: "fst (resolve plainLib ''k'' (resolverOf ''<?php $k = \"a\"; $k .= \"b\";'')) = Some ''a''"
  by code_simp

text \<open>The code \<open>h*\<close> puts the low nibble first; it is decoded like \<open>H*\<close>.\<close>

lemma pack_low_nibble: "fst (resolve plainLib ''k'' (resolverOf ''<?php $k = pack(\"h*\", \"12\");'')) = Some [CHR 0x12]"
  by code_simp

text \<open>\<open>rawurldecode\<close> leaves a plus sign alone; here it becomes a space.\<close>

lemma rawurldecode_plus: "fst (resolve plainLib ''k'' (resolverOf ''<?php $k = rawurldecode(\"a+b\");'')) = Some ''a b''"
  by code_simp

text \<open>\<open>stripslashes\<close> removes backslashes, not surrounding space.\<close>

lemma stripslashes_trims: "fst (resolve plainLib ''k'' (resolverOf ''<?php $k = stripslashes(\" a \");'')) = Some ''a''"
  by code_simp

text \<open>
  Variables on the way to one nested too deeply are marked as failed, also those that can be resolved by
  themselves: whether a variable resolves depends on what was asked before.
\<close>

definition chainSource :: bytes where
  "chainSource = ''<?php $a=\"x\";$b=$a;$c=$b;$d=$c;$e=$d;$f=$e;$g=$f;$h=$g;$i=$h;$j=$i;$k=$j;$l=$k;$m=$l;''"

lemma failure_sticks:
  "fst (resolve plainLib ''d'' (resolverOf chainSource)) = Some ''x''"
  "fst (resolve plainLib ''d'' (resolveAll plainLib [''m''] (resolverOf chainSource))) = None"
  by code_simp+

end
