(* ===== verification/Deobf.thy ===== *)
theory Deobf
  imports PhpFold
begin

text \<open>
  Unwrapping of encoded payloads (\<open>agent/deobf.go\<close>): which runs of a file are tried, the decoders and
  decompressors, what counts as code, and the bounded recursion over the layers. The decompressors are the
  parameter \<open>cl_open\<close> of the constant folder's library.
\<close>

section \<open>Layers\<close>

definition maxDecodedSize :: int where "maxDecodedSize = 8 * 1048576"
definition maxLayers :: int where "maxLayers = 6"
definition maxDepth :: int where "maxDepth = 3"
definition minBlobLen :: int where "minBlobLen = 48"

record DecodedLayer =
  dl_Via :: bytes
  dl_Depth :: int
  dl_At :: int
  dl_Data :: bytes

definition arrow :: bytes where
  "arrow = [CHR '' '', CHR 0xE2, CHR 0x86, CHR 0x92, CHR '' '']"

definition joinVia :: "bytes \<Rightarrow> bytes \<Rightarrow> bytes" where
  "joinVia pre via = (if pre = [] then via else pre @ arrow @ via)"

text \<open>The transform chains, each once, in the order of their first occurrence.\<close>

fun summarizeLoop :: "bytes set \<Rightarrow> DecodedLayer list \<Rightarrow> bytes list" where
  "summarizeLoop seen [] = []"
| "summarizeLoop seen (l # ls) =
     (if dl_Via l \<in> seen then summarizeLoop seen ls
      else dl_Via l # summarizeLoop (insert (dl_Via l) seen) ls)"

definition summarizeLayers :: "DecodedLayer list \<Rightarrow> bytes" where
  "summarizeLayers ls = goJoin (summarizeLoop {} ls) ''; ''"

section \<open>What a run looks like\<close>

definition encodedByte :: "byte \<Rightarrow> bool" where
  "encodedByte c \<longleftrightarrow> (CHR ''A'' \<le> c \<and> c \<le> CHR ''Z'') \<or> (CHR ''a'' \<le> c \<and> c \<le> CHR ''z'') \<or>
     (CHR ''0'' \<le> c \<and> c \<le> CHR ''9'') \<or> c = CHR ''+'' \<or> c = CHR ''/'' \<or> c = CHR ''='' \<or> c = CHR ''-'' \<or>
     c = CHR ''_''"

definition layoutByte :: "byte \<Rightarrow> bool" where
  "layoutByte c \<longleftrightarrow> c = CHR 0x0A \<or> c = CHR 0x0D \<or> c = CHR 0x09 \<or> c = CHR '' ''"

definition countIf :: "(byte \<Rightarrow> bool) \<Rightarrow> bytes \<Rightarrow> int" where
  "countIf P b = int (length (filter P b))"

definition isEncodedRun :: "bytes \<Rightarrow> bool" where
  "isEncodedRun b =
     (if int (length b) < minBlobLen then False
      else
        (let alpha = countIf encodedByte b; other = countIf (\<lambda>c. \<not> encodedByte c \<and> \<not> layoutByte c) b
         in if alpha < minBlobLen then False else other * 20 < alpha))"

definition printableByte :: "byte \<Rightarrow> bool" where
  "printableByte c \<longleftrightarrow> c = CHR 0x0A \<or> c = CHR 0x0D \<or> c = CHR 0x09 \<or> (CHR 0x20 \<le> c \<and> c < CHR 0x7F)"

definition looksTextual :: "bytes \<Rightarrow> bool" where
  "looksTextual b =
     (if b = [] then False
      else
        (let sample = (if int (length b) > 4096 then take 4096 b else b)
         in countIf printableByte sample * 10 \<ge> int (length sample) * 8))"

definition codeMarkers :: "bytes list" where
  "codeMarkers =
     [''<?php'', ''<?='', ''eval('', ''assert('', ''$_post'', ''$_get'', ''$_request'',
      ''$_cookie'', ''$_server'', ''$_files'', ''shell_exec'', ''passthru'', ''system('',
      ''base64_decode'', ''gzinflate'', ''preg_replace'', ''function '', ''echo '',
      ''file_put_contents'', ''move_uploaded_file'', ''create_function'', ''proc_open'',
      ''str_rot13'', ''php://input'']"

text \<open>The loop over the markers, leaving at the second hit.\<close>

fun markerLoop :: "bytes \<Rightarrow> nat \<Rightarrow> bytes list \<Rightarrow> bool" where
  "markerLoop lower hits [] = False"
| "markerLoop lower hits (m # ms) =
     (if contains lower m then (if hits + 1 \<ge> 2 then True else markerLoop lower (hits + 1) ms)
      else markerLoop lower hits ms)"

definition looksLikeCode :: "constLib \<Rightarrow> bytes \<Rightarrow> bool" where
  "looksLikeCode L b =
     (if \<not> looksTextual b then False
      else if contains b ''<?php'' \<or> contains b ''<?='' then True
      else
        (let sample = (if int (length b) > 65536 then take 65536 b else b)
         in markerLoop (goToLower (cl_ulow L) sample) 0 codeMarkers))"

section \<open>Decoding\<close>

definition clip :: "bytes \<Rightarrow> bytes" where
  "clip d = (if int (length d) > maxDecodedSize then take (nat maxDecodedSize) d else d)"

text \<open>The three decompressors, in order; the first that yields text.\<close>

fun inflateLoop :: "constLib \<Rightarrow> bytes \<Rightarrow> (bytes \<times> inflateKind) list \<Rightarrow> (bytes \<times> bytes) option" where
  "inflateLoop L b [] = None"
| "inflateLoop L b ((name, kind) # as) =
     (case cl_open L kind b of
        None \<Rightarrow> inflateLoop L b as
      | Some (data, err) \<Rightarrow>
          (let out = clip data
           in if err \<and> out = [] then inflateLoop L b as
              else if out \<noteq> [] \<and> looksTextual out then Some (out, name)
              else inflateLoop L b as))"

definition tryInflate :: "constLib \<Rightarrow> bytes \<Rightarrow> (bytes \<times> bytes) option" where
  "tryInflate L b =
     inflateLoop L b [(''gzinflate'', KindFlate), (''gzuncompress'', KindZlib), (''gzdecode'', KindGzip)]"

text \<open>The loop over the four encodings: the first that decodes to something decides.\<close>

fun decodeLoop :: "constLib \<Rightarrow> bytes \<Rightarrow> (bytes \<times> (bytes \<Rightarrow> bytes option)) list \<Rightarrow> (bytes \<times> bytes) option" where
  "decodeLoop L clean [] = None"
| "decodeLoop L clean ((name, dec) # es) =
     (case dec clean of
        None \<Rightarrow> decodeLoop L clean es
      | Some d \<Rightarrow>
          if d = [] then decodeLoop L clean es
          else
            (let decoded = clip d
             in case tryInflate L decoded of
                  Some (inflated, how) \<Rightarrow> Some (inflated, name @ arrow @ how)
                | None \<Rightarrow>
                    if looksTextual decoded then Some (decoded, name)
                    else if looksLikeCode L (rot13 decoded) then Some (rot13 decoded, name @ arrow @ ''str_rot13'')
                    else Some (decoded, name)))"

definition encodings :: "(bytes \<times> (bytes \<Rightarrow> bytes option)) list" where
  "encodings = [(''base64'', decodeStd), (''base64'', decodeRawStd), (''base64url'', decodeURL),
     (''base64url'', decodeRawURL)]"

text \<open>A base64 text that was rotated itself.\<close>

definition tryRotated :: "constLib \<Rightarrow> bytes \<Rightarrow> (bytes \<times> bytes) option" where
  "tryRotated L clean =
     (if int (length (rot13 clean)) < minBlobLen then None
      else
        (case decodeStd (rot13 clean) of
           None \<Rightarrow> None
         | Some d \<Rightarrow>
             if d = [] then None
             else
               (let decoded = clip d
                in case tryInflate L decoded of
                     Some (inflated, how) \<Rightarrow> Some (inflated, ''str_rot13'' @ arrow @ ''base64'' @ arrow @ how)
                   | None \<Rightarrow> if looksTextual decoded then Some (decoded, ''str_rot13'' @ arrow @ ''base64'') else None)))"

definition tryDecode :: "constLib \<Rightarrow> bytes \<Rightarrow> (bytes \<times> bytes) option" where
  "tryDecode L blob =
     (let clean = stripLayout blob
      in if int (length clean) < minBlobLen then None
         else
           (case decodeLoop L clean encodings of
              Some r \<Rightarrow> Some r
            | None \<Rightarrow> tryRotated L clean))"

section \<open>Candidate runs\<close>

record blobRef =
  br_bytes :: bytes
  br_at :: nat

text \<open>The loop of \<open>longestEncodedRun\<close> over the bytes from offset \<open>i\<close> on.\<close>

fun runLoop :: "bytes \<Rightarrow> nat \<Rightarrow> nat \<times> nat \<Rightarrow> nat \<times> nat \<Rightarrow> nat \<times> nat" where
  "runLoop [] i best (curOff, curLen) = (if curLen > snd best then (curOff, curLen) else best)"
| "runLoop (c # b) i best (curOff, curLen) =
     (if encodedByte c then runLoop b (i + 1) best (if curLen = 0 then i else curOff, curLen + 1)
      else runLoop b (i + 1) (if curLen > snd best then (curOff, curLen) else best) (curOff, 0))"

definition longestEncodedRun :: "bytes \<Rightarrow> nat \<times> nat" where
  "longestEncodedRun b = runLoop b 0 (0, 0) (0, 0)"

fun literalBlobs :: "bytes \<Rightarrow> span list \<Rightarrow> blobRef list \<Rightarrow> blobRef list" where
  "literalBlobs data [] out = out"
| "literalBlobs data (s # ss) out =
     (if sp_end s \<le> sp_start s \<or> sp_start s \<ge> length data then literalBlobs data ss out
      else
        (let e = min (sp_end s) (length data)
         in if int e - int (sp_start s) < minBlobLen then literalBlobs data ss out
            else
              (let candidate = sliceOf data (sp_start s) e;
                   out' = (if isEncodedRun candidate
                           then out @ [\<lparr>br_bytes = candidate, br_at = sp_start s\<rparr>] else out)
               in if int (length out') \<ge> maxLayers * 2 then out' else literalBlobs data ss out')))"

definition findEncodedBlobs :: "bytes \<Rightarrow> phpView option \<Rightarrow> int \<Rightarrow> blobRef list" where
  "findEncodedBlobs data v depth =
     (let lits = (case v of
                    Some w \<Rightarrow> if depth = 1 then literalBlobs data (v_strs w) [] else []
                  | None \<Rightarrow> [])
      in if lits \<noteq> [] then lits
         else
           (case longestEncodedRun data of
              (off, len) \<Rightarrow>
                if int len \<ge> minBlobLen then [\<lparr>br_bytes = take len (drop off data), br_at = off\<rparr>] else []))"

section \<open>The walk over the layers\<close>

text \<open>The budget of layers left, and the layers found.\<close>

type_synonym walkState = "int \<times> DecodedLayer list"

text \<open>The loop over the runs of one layer; \<open>rec\<close> walks a decoded one.\<close>

fun blobLoop :: "constLib \<Rightarrow> (bytes \<Rightarrow> int \<Rightarrow> bytes \<Rightarrow> walkState \<Rightarrow> walkState) \<Rightarrow> int \<Rightarrow> int \<Rightarrow> bytes \<Rightarrow>
    blobRef list \<Rightarrow> walkState \<Rightarrow> walkState" where
  "blobLoop L rec base depth pre [] st = st"
| "blobLoop L rec base depth pre (b # bs) (budget, out) =
     (if budget \<le> 0 then (budget, out)
      else
        (case tryDecode L (br_bytes b) of
           None \<Rightarrow> blobLoop L rec base depth pre bs (budget, out)
         | Some (decoded, via) \<Rightarrow>
             if \<not> looksLikeCode L decoded then
               blobLoop L rec base depth pre bs
                 (if depth < maxDepth
                  then rec decoded (base + int (br_at b)) (joinVia pre via) (budget, out) else (budget, out))
             else
               blobLoop L rec base depth pre bs
                 (rec decoded (base + int (br_at b)) (joinVia pre via)
                   (budget - 1,
                    out @ [\<lparr>dl_Via = joinVia pre via, dl_Depth = depth, dl_At = base + int (br_at b),
                            dl_Data = decoded\<rparr>]))))"

text \<open>\<open>n\<close> bounds the nesting: the levels from \<open>depth\<close> to \<open>maxDepth\<close>.\<close>

primrec walk :: "nat \<Rightarrow> constLib \<Rightarrow> phpView option \<Rightarrow> int \<Rightarrow> bytes \<Rightarrow> int \<Rightarrow> bytes \<Rightarrow> walkState \<Rightarrow> walkState" where
  "walk 0 L v depth data base pre st = st"
| "walk (Suc n) L v depth data base pre st =
     (if depth > maxDepth \<or> fst st \<le> 0 then st
      else blobLoop L (walk n L v (depth + 1)) base depth pre (findEncodedBlobs data v depth) st)"

definition walkAll :: "constLib \<Rightarrow> phpView option \<Rightarrow> bytes \<Rightarrow> walkState" where
  "walkAll L v src = walk (nat maxDepth) L v 1 src 0 [] (maxLayers, [])"

section \<open>The longest run\<close>

definition isRun :: "bytes \<Rightarrow> nat \<Rightarrow> nat \<Rightarrow> bool" where
  "isRun b i n \<longleftrightarrow> i + n \<le> length b \<and> (\<forall>j. i \<le> j \<and> j < i + n \<longrightarrow> encodedByte (b ! j))"

text \<open>Before offset \<open>i\<close>: the best run so far, and the current one, which ends at \<open>i\<close> and cannot be longer.\<close>

definition runInv :: "bytes \<Rightarrow> nat \<Rightarrow> nat \<times> nat \<Rightarrow> nat \<times> nat \<Rightarrow> bool" where
  "runInv b i best cur \<longleftrightarrow>
     isRun b (fst best) (snd best) \<and> snd cur \<le> i \<and> (0 < snd cur \<longrightarrow> fst cur = i - snd cur) \<and>
     isRun b (i - snd cur) (snd cur) \<and> (\<forall>n. n \<le> i \<longrightarrow> isRun b (i - n) n \<longrightarrow> n \<le> snd cur) \<and>
     (\<forall>k n. k + n < i \<longrightarrow> isRun b k n \<longrightarrow> n \<le> max (snd best) (snd cur))"

lemma isRun_extend: "isRun b i n \<Longrightarrow> i + n < length b \<Longrightarrow> encodedByte (b ! (i + n)) \<Longrightarrow> isRun b i (n + 1)"
  by (auto simp: isRun_def less_Suc_eq)

lemma isRun_shorten: "isRun b i (Suc n) \<Longrightarrow> isRun b i n"
  by (auto simp: isRun_def)

lemma runInv_encoded:
  assumes inv: "runInv b i best cur" and i: "i < length b" and c: "encodedByte (b ! i)"
  shows "runInv b (i + 1) best (if snd cur = 0 then i else fst cur, snd cur + 1)"
proof -
  have cur: "snd cur \<le> i" "isRun b (i - snd cur) (snd cur)" using inv by (simp_all add: runInv_def)
  have run: "isRun b (i - snd cur) (snd cur + 1)" using isRun_extend [OF cur(2)] i c cur(1) by simp
  have last: "n \<le> snd cur + 1" if n: "n \<le> i + 1" "isRun b (i + 1 - n) n" for n
  proof (cases n)
    case (Suc m)
    then have "isRun b (i - m) m" using n isRun_shorten [of b "i - m" m] by simp
    then show ?thesis using inv n(1) Suc by (auto simp: runInv_def)
  qed simp
  have earlier: "n \<le> max (snd best) (snd cur + 1)" if "k + n < i + 1" "isRun b k n" for k n
  proof (cases "k + n = i")
    case True
    then have "n \<le> i" "k = i - n" by auto
    then have "n \<le> snd cur" using inv that(2) by (auto simp: runInv_def)
    then show ?thesis by simp
  next
    case False
    then have "k + n < i" using that(1) by simp
    then have "n \<le> max (snd best) (snd cur)" using inv that(2) unfolding runInv_def by blast
    then show ?thesis by simp
  qed
  show ?thesis using inv run last earlier cur(1) unfolding runInv_def by auto
qed

lemma runInv_other:
  assumes inv: "runInv b i best cur" and i: "i < length b" and c: "\<not> encodedByte (b ! i)"
  shows "runInv b (i + 1) (if snd cur > snd best then cur else best) (fst cur, 0)"
proof -
  have cur: "snd cur \<le> i" "isRun b (i - snd cur) (snd cur)" "0 < snd cur \<longrightarrow> fst cur = i - snd cur"
    using inv by (simp_all add: runInv_def)
  have none: "n = 0" if n: "n \<le> i + 1" "isRun b (i + 1 - n) n" for n
  proof (rule ccontr)
    assume "n \<noteq> 0"
    then have "encodedByte (b ! i)" using n by (auto simp: isRun_def)
    with c show False by simp
  qed
  have earlier: "n \<le> max (snd best) (snd cur)" if "k + n < i + 1" "isRun b k n" for k n
  proof (cases "k + n = i")
    case True
    then have "n \<le> i" "k = i - n" by auto
    then have "n \<le> snd cur" using inv that(2) by (auto simp: runInv_def)
    then show ?thesis by simp
  next
    case False
    then have "k + n < i" using that(1) by simp
    then show ?thesis using inv that(2) unfolding runInv_def by blast
  qed
  have best: "isRun b (fst (if snd cur > snd best then cur else best)) (snd (if snd cur > snd best then cur else best))"
    using inv cur by (auto simp: runInv_def)
  have zero: "isRun b (i + 1 - 0) 0" using i by (auto simp: isRun_def)
  show ?thesis using best zero none earlier unfolding runInv_def by (auto simp: max_def)
qed

lemma runLoop_longest:
  assumes "runInv b i best cur" and "r = drop i b" and "i \<le> length b"
  shows "case runLoop r i best cur of (off, n) \<Rightarrow> isRun b off n \<and> (\<forall>k m. isRun b k m \<longrightarrow> m \<le> n)"
  using assms
proof (induction r arbitrary: i best cur)
  case Nil
  then have i: "i = length b" by simp
  obtain co cl where cur: "cur = (co, cl)" by fastforce
  have all: "m \<le> max (snd best) cl" if "isRun b k m" for k m
  proof (cases "k + m = i")
    case True
    then have "m \<le> i" "k = i - m" by auto
    then have "m \<le> cl" using Nil(1) that cur unfolding runInv_def by simp
    then show ?thesis by simp
  next
    case False
    then have "k + m < i" using that i by (simp add: isRun_def)
    then show ?thesis using Nil(1) that cur unfolding runInv_def by simp
  qed
  have "isRun b (fst best) (snd best)" "isRun b co cl" if "0 < cl"
    using Nil(1) cur that by (auto simp: runInv_def)
  moreover have "isRun b (fst best) (snd best)" using Nil(1) by (simp add: runInv_def)
  ultimately show ?case using all cur by (cases best; cases "cl > snd best") (simp_all add: max_def)
next
  case (Cons c r)
  obtain co cl where cur: "cur = (co, cl)" by fastforce
  have i: "i < length b" using Cons.prems(2) by (cases "i < length b") auto
  then have c: "b ! i = c" "r = drop (i + 1) b"
    using Cons.prems(2) by (metis Cons_nth_drop_Suc list.inject, metis Cons_nth_drop_Suc Suc_eq_plus1 list.inject)
  have "i + 1 \<le> length b" using i by simp
  note ih = Cons.IH [OF _ c(2) this]
  show ?case
  proof (cases "encodedByte c")
    case True
    with runInv_encoded [OF Cons.prems(1) i] c(1)
    have "runInv b (i + 1) best (if snd cur = 0 then i else fst cur, snd cur + 1)" by simp
    from ih [OF this] show ?thesis using True cur by (cases "cl = 0") simp_all
  next
    case False
    with runInv_other [OF Cons.prems(1) i] c(1)
    have "runInv b (i + 1) (if snd cur > snd best then cur else best) (fst cur, 0)" by simp
    from ih [OF this] show ?thesis using False cur by (cases "snd best < cl") simp_all
  qed
qed

lemma longestEncodedRun_longest:
  "case longestEncodedRun b of (off, n) \<Rightarrow> isRun b off n \<and> (\<forall>k m. isRun b k m \<longrightarrow> m \<le> n)"
  unfolding longestEncodedRun_def by (rule runLoop_longest) (auto simp: runInv_def isRun_def)

section \<open>Decoded data is bounded\<close>

lemma clip_length: "int (length (clip d)) \<le> maxDecodedSize"
  by (simp add: clip_def maxDecodedSize_def)

lemma clip_id: "int (length d) \<le> maxDecodedSize \<Longrightarrow> clip d = d"
  by (simp add: clip_def)

lemma length_rot13 [simp]: "length (rot13 b) = length b"
  by (simp add: rot13_def)

lemma inflateLoop_length: "inflateLoop L b as = Some (out, how) \<Longrightarrow> int (length out) \<le> maxDecodedSize"
proof (induction as)
  case (Cons a as)
  obtain name kind where a: "a = (name, kind)" by fastforce
  show ?case
  proof (cases "cl_open L kind b")
    case None
    then show ?thesis using Cons a by simp
  next
    case (Some de)
    obtain data err where de: "de = (data, err)" by fastforce
    have "inflateLoop L b as = Some (out, how) \<or> out = clip data"
      using Cons.prems Some a de by (auto simp: Let_def split: if_splits)
    then show ?thesis using Cons.IH clip_length by blast
  qed
qed simp

lemma decodeLoop_length: "decodeLoop L clean es = Some (d, via) \<Longrightarrow> int (length d) \<le> maxDecodedSize"
proof (induction es)
  case (Cons e es)
  obtain name dec where e: "e = (name, dec)" by fastforce
  show ?case
  proof (cases "dec clean = None \<or> dec clean = Some []")
    case True
    then show ?thesis using Cons e by auto
  next
    case False
    then obtain x where x: "dec clean = Some x" "x \<noteq> []" by auto
    show ?thesis
    proof (cases "tryInflate L (clip x)")
      case None
      then have "d = clip x \<or> d = rot13 (clip x)"
        using Cons.prems e x by (auto simp: Let_def split: if_splits)
      then show ?thesis using clip_length by auto
    next
      case (Some r)
      then obtain how where "tryInflate L (clip x) = Some (d, how)"
        using Cons.prems e x by (cases r) (simp add: Let_def)
      then show ?thesis unfolding tryInflate_def by (rule inflateLoop_length)
    qed
  qed
qed simp

lemma tryRotated_length:
  assumes "tryRotated L clean = Some (d, via)"
  shows "int (length d) \<le> maxDecodedSize"
proof -
  obtain x where x: "decodeStd (rot13 clean) = Some x" "x \<noteq> []"
    using assms by (auto simp: tryRotated_def split: option.splits if_splits)
  show ?thesis
  proof (cases "tryInflate L (clip x)")
    case None
    then have "d = clip x" using assms x by (auto simp: tryRotated_def Let_def split: if_splits)
    then show ?thesis using clip_length by simp
  next
    case (Some r)
    then obtain how where "tryInflate L (clip x) = Some (d, how)"
      using assms x by (cases r) (simp add: tryRotated_def Let_def split: if_splits)
    then show ?thesis unfolding tryInflate_def by (rule inflateLoop_length)
  qed
qed

lemma tryDecode_length:
  assumes "tryDecode L b = Some (d, via)"
  shows "int (length d) \<le> maxDecodedSize"
proof (cases "decodeLoop L (stripLayout b) encodings")
  case None
  then show ?thesis using assms tryRotated_length by (simp add: tryDecode_def Let_def split: if_splits)
next
  case (Some r)
  then show ?thesis using assms decodeLoop_length by (simp add: tryDecode_def Let_def split: if_splits)
qed

section \<open>The walk is bounded\<close>

text \<open>A layer as reported.\<close>

definition layerOK :: "constLib \<Rightarrow> DecodedLayer \<Rightarrow> bool" where
  "layerOK L l \<longleftrightarrow>
     1 \<le> dl_Depth l \<and> dl_Depth l \<le> maxDepth \<and> looksLikeCode L (dl_Data l) \<and>
     int (length (dl_Data l)) \<le> maxDecodedSize"

text \<open>From one state of the walk to another: new layers, each paid for.\<close>

definition walked :: "constLib \<Rightarrow> walkState \<Rightarrow> walkState \<Rightarrow> bool" where
  "walked L st st' \<longleftrightarrow>
     (\<exists>new. snd st' = snd st @ new \<and> fst st' = fst st - int (length new) \<and> (0 \<le> fst st \<longrightarrow> 0 \<le> fst st') \<and>
        (\<forall>l\<in>set new. layerOK L l))"

lemma walked_refl: "walked L st st"
  by (simp add: walked_def)

lemma walked_trans: "walked L a b \<Longrightarrow> walked L b c \<Longrightarrow> walked L a c"
proof -
  assume "walked L a b" "walked L b c"
  then obtain x y where "snd b = snd a @ x" "fst b = fst a - int (length x)" "0 \<le> fst a \<longrightarrow> 0 \<le> fst b"
      "\<forall>l\<in>set x. layerOK L l" "snd c = snd b @ y" "fst c = fst b - int (length y)" "0 \<le> fst b \<longrightarrow> 0 \<le> fst c"
      "\<forall>l\<in>set y. layerOK L l" unfolding walked_def by blast
  then show "walked L a c" unfolding walked_def by (intro exI [of _ "x @ y"]) auto
qed

lemma walked_one:
  "0 < budget \<Longrightarrow> layerOK L l \<Longrightarrow> walked L (budget, out) (budget - 1, out @ [l])"
  by (simp add: walked_def)

lemma blobLoop_walked:
  assumes d: "1 \<le> depth" "depth \<le> maxDepth"
    and rec: "\<And>data base pre st. walked L st (rec data base pre st)"
  shows "walked L st (blobLoop L rec base depth pre bs st)"
proof (induction bs arbitrary: st)
  case Nil
  show ?case by (simp add: walked_refl)
next
  case (Cons b bs)
  obtain budget out where st: "st = (budget, out)" by fastforce
  show ?case
  proof (cases "0 < budget \<and> tryDecode L (br_bytes b) \<noteq> None")
    case False
    then consider "budget \<le> 0" | "0 < budget" "tryDecode L (br_bytes b) = None" by fastforce
    then show ?thesis
      by cases (use Cons [of st] st walked_refl in simp_all)
  next
    case True
    then obtain decoded via where t: "tryDecode L (br_bytes b) = Some (decoded, via)" by auto
    let ?at = "base + int (br_at b)" and ?via = "joinVia pre via"
    show ?thesis
    proof (cases "looksLikeCode L decoded")
      case False
      then have "blobLoop L rec base depth pre (b # bs) st = blobLoop L rec base depth pre bs
          (if depth < maxDepth then rec decoded ?at ?via (budget, out) else (budget, out))"
        using st True t by simp
      moreover have "walked L st (if depth < maxDepth then rec decoded ?at ?via (budget, out) else (budget, out))"
        using rec walked_refl st by simp
      ultimately show ?thesis using walked_trans [OF _ Cons] by simp
    next
      case code: True
      define l where "l = \<lparr>dl_Via = ?via, dl_Depth = depth, dl_At = ?at, dl_Data = decoded\<rparr>"
      have "layerOK L l" using d code tryDecode_length [OF t] by (simp add: layerOK_def l_def)
      then have "walked L st (budget - 1, out @ [l])" using True st by (simp add: walked_one)
      moreover have "blobLoop L rec base depth pre (b # bs) st =
          blobLoop L rec base depth pre bs (rec decoded ?at ?via (budget - 1, out @ [l]))"
        using st True t code by (simp add: l_def)
      moreover have "walked L (budget - 1, out @ [l]) (rec decoded ?at ?via (budget - 1, out @ [l]))"
        by (rule rec)
      ultimately show ?thesis using walked_trans [OF walked_trans Cons] by simp
    qed
  qed
qed

lemma walk_walked: "1 \<le> depth \<Longrightarrow> walked L st (walk n L v depth data base pre st)"
proof (induction n arbitrary: depth data base pre st)
  case 0
  show ?case by (simp add: walked_refl)
next
  case (Suc n)
  show ?case
  proof (cases "depth > maxDepth \<or> fst st \<le> 0")
    case True
    then show ?thesis by (simp add: walked_refl)
  next
    case False
    have "walked L st (blobLoop L (walk n L v (depth + 1)) base depth pre (findEncodedBlobs data v depth) st)"
      by (rule blobLoop_walked) (use False Suc in auto)
    then show ?thesis using False by simp
  qed
qed

text \<open>How many runs one layer can have.\<close>

lemma literalBlobs_length:
  "int (length out) < maxLayers * 2 \<Longrightarrow> int (length (literalBlobs data ss out)) \<le> maxLayers * 2"
proof (induction data ss out rule: literalBlobs.induct)
  case (2 data s ss out)
  then show ?case by (simp add: Let_def)
qed simp

lemma findEncodedBlobs_length:
  "int (length (findEncodedBlobs data v depth)) \<le> (if depth = 1 then maxLayers * 2 else 1)"
  using literalBlobs_length [of "[]"]
  by (auto simp: findEncodedBlobs_def Let_def maxLayers_def split: option.split prod.split)

definition isLongestRun :: "bytes \<Rightarrow> nat \<times> nat \<Rightarrow> bool" where
  "isLongestRun b r \<longleftrightarrow> (case r of (off, n) \<Rightarrow> isRun b off n \<and> (\<forall>k m. isRun b k m \<longrightarrow> m \<le> n))"

text \<open>
  Unwrapping is bounded on every input: at most six layers are reported, each nested at most three deep,
  at most eight megabytes long and looking like code; the original is searched for at most twelve runs and
  every decoded layer for one, its longest.
\<close>

theorem unwrapping_bounded:
  "length (snd (walkAll L v src)) \<le> 6 \<and>
   list_all (\<lambda>l. 1 \<le> dl_Depth l \<and> dl_Depth l \<le> 3 \<and> length (dl_Data l) \<le> 8388608 \<and> looksLikeCode L (dl_Data l))
     (snd (walkAll L v src)) \<and>
   length (findEncodedBlobs src v 1) \<le> 12 \<and> length (findEncodedBlobs src v 2) \<le> 1 \<and>
   length (findEncodedBlobs src v 3) \<le> 1 \<and>
   isLongestRun src (longestEncodedRun src)"
proof -
  have "walked L (maxLayers, []) (walkAll L v src)" unfolding walkAll_def by (rule walk_walked) simp
  then obtain new where new: "snd (walkAll L v src) = new" "fst (walkAll L v src) = maxLayers - int (length new)"
      "0 \<le> fst (walkAll L v src)" "\<forall>l\<in>set new. layerOK L l"
    by (auto simp: walked_def maxLayers_def)
  have "length new \<le> 6" using new(2,3) by (simp add: maxLayers_def)
  moreover have "list_all (\<lambda>l. 1 \<le> dl_Depth l \<and> dl_Depth l \<le> 3 \<and> length (dl_Data l) \<le> 8388608 \<and>
      looksLikeCode L (dl_Data l)) new"
    using new(4) unfolding layerOK_def list_all_iff maxDepth_def maxDecodedSize_def by fastforce
  ultimately show ?thesis
    using new(1) findEncodedBlobs_length [of src v 1] findEncodedBlobs_length [of src v 2]
      findEncodedBlobs_length [of src v 3] longestEncodedRun_longest [of src]
    by (simp add: maxLayers_def isLongestRun_def)
qed

section \<open>A payload is recovered\<close>

lemma stripLayout_id: "list_all (\<lambda>c. \<not> layoutByte c) s \<Longrightarrow> stripLayout s = s"
  by (induction s) (auto simp: stripLayout_def layoutByte_def)

lemma stripLayout_encode: "stripLayout (b64Encode s) = b64Encode s"
  using b64Encode_bytes [of s] b64Byte_no_newline
  by (intro stripLayout_id) (auto simp: list_all_iff layoutByte_def)

text \<open>What a decoded run becomes: inflated when a decompressor yields text, else itself.\<close>

definition unpacked :: "constLib \<Rightarrow> bytes \<Rightarrow> bytes \<times> bytes" where
  "unpacked L z =
     (case tryInflate L z of
        Some (out, how) \<Rightarrow> (out, ''base64'' @ arrow @ how)
      | None \<Rightarrow> (z, ''base64''))"

lemma looksLikeCode_textual: "looksLikeCode L b \<Longrightarrow> looksTextual b"
  by (simp add: looksLikeCode_def split: if_splits)

lemma tryDecode_encoded:
  assumes blob: "stripLayout blob = b64Encode z" and z: "48 \<le> length (b64Encode z)" "length z \<le> 8388608"
    and code: "looksLikeCode L (fst (unpacked L z))"
  shows "tryDecode L blob = Some (unpacked L z)"
proof -
  have ne: "z \<noteq> []" using z(1) by auto
  have clip: "clip z = z" using z(2) by (intro clip_id) (simp add: maxDecodedSize_def)
  have "decodeLoop L (b64Encode z) encodings = Some (unpacked L z)"
  proof (cases "tryInflate L z")
    case None
    then have "looksTextual z" using code looksLikeCode_textual by (simp add: unpacked_def)
    then show ?thesis using None ne clip by (simp add: encodings_def decode_encode unpacked_def)
  next
    case (Some r)
    obtain out how where r: "r = (out, how)" by fastforce
    then show ?thesis using Some ne clip by (simp add: encodings_def decode_encode unpacked_def)
  qed
  then show ?thesis using z(1) blob by (simp add: tryDecode_def Let_def minBlobLen_def)
qed

lemma walked_grows: "walked L st st' \<Longrightarrow> \<exists>new. snd st' = snd st @ new"
  unfolding walked_def by blast

text \<open>
  C12. A payload that is base64 of code, or base64 of something a decompressor turns into code, is recovered
  from the first encoded literal of a file: the first layer reported is the payload itself, at the offset of
  the literal. Line breaks and blanks inside the literal do not matter.
\<close>

theorem payload_recovered:
  assumes "findEncodedBlobs src (Some view) 1 = blob # blobs"
    and "stripLayout (br_bytes blob) = b64Encode z" and "48 \<le> length (b64Encode z)" and "length z \<le> 8388608"
    and "unpacked L z = (payload, via)" and "looksLikeCode L payload"
  shows "\<exists>rest. snd (walkAll L (Some view) src) =
    \<lparr>dl_Via = via, dl_Depth = 1, dl_At = int (br_at blob), dl_Data = payload\<rparr> # rest"
proof -
  let ?l = "\<lparr>dl_Via = via, dl_Depth = 1, dl_At = int (br_at blob), dl_Data = payload\<rparr>"
  let ?rec = "walk 2 L (Some view) 2"
  have t: "tryDecode L (br_bytes blob) = Some (payload, via)"
    using tryDecode_encoded [OF assms(2,3,4), of L] assms(5,6) by simp
  have three: "nat maxDepth = Suc 2" "2 = nat 2" by (simp_all add: maxDepth_def)
  have "walkAll L (Some view) src = blobLoop L ?rec 0 1 [] (blob # blobs) (maxLayers, [])"
    unfolding walkAll_def three(1) walk.simps using assms(1) by (simp add: maxDepth_def maxLayers_def)
  also have "\<dots> = blobLoop L ?rec 0 1 [] blobs (?rec payload (int (br_at blob)) via (maxLayers - 1, [?l]))"
    using t assms(6) by (simp add: maxLayers_def joinVia_def)
  finally have eq: "snd (walkAll L (Some view) src) =
      snd (blobLoop L ?rec 0 1 [] blobs (?rec payload (int (br_at blob)) via (maxLayers - 1, [?l])))" by simp
  obtain x where x: "snd (?rec payload (int (br_at blob)) via (maxLayers - 1, [?l])) = [?l] @ x"
    using walked_grows [OF walk_walked [of 2 L "(maxLayers - 1, [?l])" 2 "Some view" payload]] by fastforce
  let ?st = "?rec payload (int (br_at blob)) via (maxLayers - 1, [?l])"
  have "walked L ?st (blobLoop L ?rec 0 1 [] blobs ?st)"
    by (rule blobLoop_walked) (simp_all add: maxDepth_def walk_walked)
  then obtain y where "snd (blobLoop L ?rec 0 1 [] blobs ?st) = snd ?st @ y" using walked_grows by blast
  then show ?thesis using eq x by simp
qed

lemma of_char_eqD: "of_char c = (n::nat) \<Longrightarrow> c = char_of n"
  by (metis char_of_char)

lemma b64Std_encoded: "b64Std c \<noteq> None \<Longrightarrow> encodedByte c"
proof -
  have p: "of_char c = (43::nat) \<Longrightarrow> c = CHR ''+''" "of_char c = (47::nat) \<Longrightarrow> c = CHR ''/''"
    using of_char_eq_iff [of c "CHR ''+''", where ?'a = nat] of_char_eq_iff [of c "CHR ''/''", where ?'a = nat] by simp_all
  assume "b64Std c \<noteq> None"
  then show ?thesis
    by (auto simp: b64Std_def Let_def encodedByte_def less_eq_char_def dest: p split: if_splits)
qed

lemma isEncodedRun_encode:
  assumes "48 \<le> length (b64Encode z)"
  shows "isEncodedRun (b64Encode z)"
proof -
  have all: "c \<in> set (b64Encode z) \<Longrightarrow> encodedByte c" for c
    using b64Encode_bytes [of z] b64Std_encoded by (auto simp: list_all_iff b64Byte_def encodedByte_def)
  then have "filter encodedByte (b64Encode z) = b64Encode z"
    "filter (\<lambda>c. \<not> encodedByte c \<and> \<not> layoutByte c) (b64Encode z) = []"
    by (simp_all add: filter_id_conv filter_empty_conv)
  moreover have "b64Encode z \<noteq> []" using assms by auto
  ultimately show ?thesis using assms by (simp add: isEncodedRun_def countIf_def minBlobLen_def)
qed

text \<open>A file whose only literal is base64.\<close>

lemma one_encoded_literal:
  assumes "v_strs w = [mkSpan (length a) (length a + length (b64Encode z))]" "48 \<le> length (b64Encode z)"
  shows "findEncodedBlobs (a @ b64Encode z @ b) (Some w) 1 = [\<lparr>br_bytes = b64Encode z, br_at = length a\<rparr>]"
proof -
  have "b64Encode z \<noteq> []" using assms(2) by auto
  then show ?thesis using assms isEncodedRun_encode [OF assms(2)]
    by (simp add: findEncodedBlobs_def Let_def sliceOf_def minBlobLen_def maxLayers_def)
qed

text \<open>A file with one packed payload, for a library whose decompressors accept nothing.\<close>

definition packedPayload :: bytes where
  "packedPayload = ''<?php eval($_POST[1]); echo base64_decode($q);''"

definition packedSource :: bytes where
  "packedSource = ''<?php $p = \"'' @ b64Encode packedPayload @ ''\";''"

lemma payload_recovered_witness:
  "\<exists>rest. snd (walkAll plainLib (Some (lexPHP packedSource)) packedSource) =
    \<lparr>dl_Via = ''base64'', dl_Depth = 1, dl_At = 12, dl_Data = packedPayload\<rparr> # rest"
proof -
  let ?b = "\<lparr>br_bytes = b64Encode packedPayload, br_at = 12\<rparr>"
  have l: "48 \<le> length (b64Encode packedPayload)" by (simp add: length_b64Encode_eq packedPayload_def)
  have "v_strs (lexPHP packedSource) = [mkSpan 12 (12 + length (b64Encode packedPayload))]" by code_simp
  then have b: "findEncodedBlobs packedSource (Some (lexPHP packedSource)) 1 = ?b # []"
    using one_encoded_literal [of "lexPHP packedSource" "''<?php $p = \"''" packedPayload "''\";''"] l
    by (simp add: packedSource_def)
  have e: "stripLayout (br_bytes ?b) = b64Encode packedPayload" using stripLayout_encode by simp
  have m: "length packedPayload \<le> 8388608" by (simp add: packedPayload_def)
  have u: "unpacked plainLib packedPayload = (packedPayload, ''base64'')" by code_simp
  have "looksTextual packedPayload" by code_simp
  moreover have "contains packedPayload ''<?php''" by (simp add: contains_def packedPayload_def)
  ultimately have c: "looksLikeCode plainLib packedPayload" unfolding looksLikeCode_def by simp
  from payload_recovered [OF b e l m u c] show ?thesis by simp
qed

section \<open>Stray bytes\<close>

text \<open>
  \<open>isEncodedRun\<close> allows for stray bytes in a run, the decoders do not: a run with a byte that is neither of
  an alphabet nor layout is never decoded.
\<close>

lemma b64Tail_bytes: "b64Tail dv p s = Some d \<Longrightarrow> c \<in> set s \<Longrightarrow> dv c \<noteq> None \<or> c = CHR ''=''"
  by (auto simp: b64Tail_def split: list.splits option.splits if_splits)

lemma b64Loop_bytes: "b64Loop dv p s = Some d \<Longrightarrow> x \<in> set s \<Longrightarrow> dv x \<noteq> None \<or> x = CHR ''=''"
proof (induction dv p s arbitrary: d rule: b64Loop.induct)
  case (1 dv p a b c e s)
  show ?case
  proof (cases "b64Tail dv p (a # b # c # e # s) = Some d")
    case True
    then show ?thesis using 1(3) by (rule b64Tail_bytes)
  next
    case False
    with 1(2) obtain w u y z r where v: "dv a = Some w" "dv b = Some u" "dv c = Some y" "dv e = Some z"
        "b64Loop dv p s = Some r"
      by (auto split: option.splits)
    have "x \<in> set s \<Longrightarrow> dv x \<noteq> None \<or> x = CHR ''=''" using v by (intro 1(1)) simp_all
    then show ?thesis using v 1(3) by auto
  qed
qed (auto dest: b64Tail_bytes)

lemma b64Decode_bytes:
  assumes "b64Decode dv p s = Some d" "c \<in> set s" "\<not> layoutByte c"
  shows "dv c \<noteq> None \<or> c = CHR ''=''"
proof -
  have "c \<in> set (filter (\<lambda>c. c \<noteq> CHR 0x0A \<and> c \<noteq> CHR 0x0D) s)" using assms(2,3) by (auto simp: layoutByte_def)
  then show ?thesis using assms(1) unfolding b64Decode_def by (rule b64Loop_bytes [rotated])
qed

lemma b64URL_encoded: "b64URL c \<noteq> None \<Longrightarrow> encodedByte c"
  using b64Std_encoded [of c] by (auto simp: b64URL_def encodedByte_def split: if_splits)

lemma letter_range:
  "CHR ''a'' \<le> c \<and> c \<le> CHR ''z'' \<longleftrightarrow> 97 \<le> (of_char c :: nat) \<and> (of_char c :: nat) \<le> 122"
  by (simp add: less_eq_char_def)

lemma rot13Byte_encoded: "encodedByte (rot13Byte c) \<Longrightarrow> encodedByte c"
  by (auto simp: rot13Byte_def encodedByte_def split: if_splits)

lemma rot13Byte_letter:
  assumes "rot13Byte c \<noteq> c"
  shows "65 \<le> (of_char (rot13Byte c) :: nat)"
proof -
  have m: "(x::nat) mod 26 < 26" for x by simp
  have "rot13Byte c = char_of (97 + (of_char c - 97 + 13) mod 26 :: nat) \<or>
      rot13Byte c = char_of (65 + (of_char c - 65 + 13) mod 26 :: nat)"
    using assms by (simp add: rot13Byte_def split: if_splits)
  moreover have "of_char (char_of (97 + x mod 26 :: nat)) = 97 + x mod 26" for x :: nat
    using m [of x] by simp
  moreover have "of_char (char_of (65 + x mod 26 :: nat)) = 65 + x mod 26" for x :: nat
    using m [of x] by simp
  ultimately show ?thesis by (elim disjE) simp_all
qed

lemma rot13Byte_layout: "layoutByte (rot13Byte c) \<Longrightarrow> layoutByte c"
proof (cases "rot13Byte c = c")
  case False
  assume "layoutByte (rot13Byte c)"
  then have "(of_char (rot13Byte c) :: nat) \<le> 32" by (auto simp: layoutByte_def)
  with rot13Byte_letter [OF False] show ?thesis by simp
qed simp

lemma stray_never_decodes:
  assumes "c \<in> set blob" "\<not> encodedByte c" "\<not> layoutByte c"
  shows "tryDecode L blob = None"
proof -
  let ?clean = "stripLayout blob"
  have c: "c \<in> set ?clean" using assms(1,3) by (auto simp: stripLayout_def layoutByte_def)
  have none: "b64Decode dv p ?clean = None" if "dv = b64Std \<or> dv = b64URL" for dv p
  proof (cases "b64Decode dv p ?clean")
    case (Some d)
    have "dv c \<noteq> None \<or> c = CHR ''=''" by (rule b64Decode_bytes [OF Some c assms(3)])
    then have "encodedByte c" using that b64Std_encoded [of c] b64URL_encoded [of c] by (auto simp: encodedByte_def)
    with assms(2) show ?thesis by (rule notE)
  qed
  have rot: "decodeStd (rot13 ?clean) = None"
  proof (cases "decodeStd (rot13 ?clean)")
    case (Some d)
    have "rot13Byte c \<in> set (rot13 ?clean)" using c by (auto simp: rot13_def)
    moreover have "\<not> layoutByte (rot13Byte c)" using assms(3) rot13Byte_layout by (rule contrapos_nn)
    ultimately have "b64Std (rot13Byte c) \<noteq> None \<or> rot13Byte c = CHR ''=''"
      by (rule b64Decode_bytes [OF Some])
    then have "encodedByte (rot13Byte c)"
      using b64Std_encoded [of "rot13Byte c"] by (auto simp: encodedByte_def)
    then have "encodedByte c" by (rule rot13Byte_encoded)
    with assms(2) show ?thesis by (rule notE)
  qed
  have "decodeLoop L ?clean encodings = None" using none by (simp add: encodings_def)
  moreover have "tryRotated L ?clean = None" using rot by (simp add: tryRotated_def)
  ultimately show ?thesis by (simp add: tryDecode_def Let_def)
qed

section \<open>The offset of a nested layer\<close>

text \<open>
  The offset of a layer below the first is the offset of the outer literal plus the offset inside the decoded
  text: not an offset of the original file.
\<close>

definition innerPayload :: bytes where
  "innerPayload = ''<?php eval($x); system($y); exit(0);''"

definition outerPayload :: bytes where
  "outerPayload = ''<?php '' @ b64Encode innerPayload @ '';''"

definition nestedSource :: bytes where
  "nestedSource = ''<?php $p = \"'' @ b64Encode outerPayload @ ''\";''"

text \<open>The lexer's view of it: one literal.\<close>

definition nestedView :: phpView where
  "nestedView =
     \<lparr>v_code = nestedSource, v_strs = [mkSpan 12 88], v_comments = [], v_hasOpenTag = True, v_hasBacktick = False,
      v_heredocs = 0\<rparr>"

lemma nested_layers:
  "looksLikeCode plainLib outerPayload" "looksLikeCode plainLib innerPayload"
  "unpacked plainLib outerPayload = (outerPayload, ''base64'')"
  "unpacked plainLib innerPayload = (innerPayload, ''base64'')"
proof -
  have "looksTextual outerPayload" "looksTextual innerPayload" by code_simp+
  moreover have "contains outerPayload ''<?php''" "contains innerPayload ''<?php''"
    by (simp_all add: contains_def outerPayload_def innerPayload_def)
  ultimately show "looksLikeCode plainLib outerPayload" "looksLikeCode plainLib innerPayload"
    by (simp_all add: looksLikeCode_def)
  show "unpacked plainLib outerPayload = (outerPayload, ''base64'')"
    "unpacked plainLib innerPayload = (innerPayload, ''base64'')"
    by (simp_all add: unpacked_def tryInflate_def plainLib_def)
qed

lemma nested_lengths:
  "length innerPayload = 36" "length (b64Encode innerPayload) = 48"
  "length outerPayload = 55" "length (b64Encode outerPayload) = 76"
proof -
  show i: "length innerPayload = 36" "length (b64Encode innerPayload) = 48"
    by (simp_all add: length_b64Encode_eq innerPayload_def)
  then show "length outerPayload = 55" "length (b64Encode outerPayload) = 76"
    by (simp_all add: length_b64Encode_eq outerPayload_def)
qed

lemma nested_decodes:
  "tryDecode plainLib (b64Encode outerPayload) = Some (outerPayload, ''base64'')"
  "tryDecode plainLib (b64Encode innerPayload) = Some (innerPayload, ''base64'')"
proof -
  have "48 \<le> length (b64Encode outerPayload)" "48 \<le> length (b64Encode innerPayload)" by (simp_all add: nested_lengths)
  moreover have "length outerPayload = 55" "length innerPayload = 36" by (simp_all add: nested_lengths)
  ultimately show "tryDecode plainLib (b64Encode outerPayload) = Some (outerPayload, ''base64'')"
    "tryDecode plainLib (b64Encode innerPayload) = Some (innerPayload, ''base64'')"
    using tryDecode_encoded [OF stripLayout_encode, of outerPayload] nested_layers
      tryDecode_encoded [OF stripLayout_encode, of innerPayload] by simp_all
qed

lemma nested_offset:
  "map (\<lambda>l. (dl_Depth l, dl_At l, dl_Data l)) (snd (walkAll plainLib (Some nestedView) nestedSource)) =
     [(1, 12, outerPayload), (2, 18, innerPayload)]"
proof -
  let ?v = "Some nestedView"
  have 1: "findEncodedBlobs nestedSource ?v 1 = [\<lparr>br_bytes = b64Encode outerPayload, br_at = 12\<rparr>]"
  proof -
    show ?thesis
      using one_encoded_literal [of nestedView "''<?php $p = \"''" outerPayload "''\";''"]
      by (simp add: nestedSource_def nestedView_def nested_lengths)
  qed
  have 2: "findEncodedBlobs outerPayload v 2 = [\<lparr>br_bytes = b64Encode innerPayload, br_at = 6\<rparr>]" for v
  proof -
    have "longestEncodedRun outerPayload = (6, length (b64Encode innerPayload))" by code_simp
    moreover have "take (length (b64Encode innerPayload)) (drop 6 outerPayload) = b64Encode innerPayload"
      by (simp add: outerPayload_def)
    moreover have "48 \<le> length (b64Encode innerPayload)" by (simp add: nested_lengths)
    ultimately show ?thesis by (simp add: findEncodedBlobs_def minBlobLen_def split: option.split)
  qed
  have 3: "findEncodedBlobs innerPayload v 3 = []" for v
  proof -
    have "snd (longestEncodedRun innerPayload) < 48" by code_simp
    then show ?thesis
      by (cases "longestEncodedRun innerPayload") (simp add: findEncodedBlobs_def minBlobLen_def split: option.split)
  qed
  have three: "nat maxDepth = Suc (Suc (Suc 0))" by (simp add: maxDepth_def)
  show ?thesis
    using 1 2 [of ?v] 3 [of ?v] unfolding walkAll_def three
    by (simp add: maxDepth_def maxLayers_def nested_decodes nested_layers)
qed

end
