(* ===== verification/Decrypt.thy ===== *)
theory Decrypt
  imports Deobf "HOL-Library.Word"
begin

text \<open>
  Recovery of payloads a file decrypts itself (\<open>agent/decrypt.go\<close>): the arguments of a decrypt call are
  folded and the ciphertext decrypted as PHP would; failing that, keys drawn from the file are tried on its
  encoded literals. AES is a parameter, the permutation of a block under a key and its inverse; the modes of
  operation, the padding and the guards are the code's and Go's.
\<close>

unbundle bit_operations_syntax

section \<open>Blocks\<close>

definition maxDecryptAttempts :: int where "maxDecryptAttempts = 120"
definition maxCiphertext :: int where "maxCiphertext = 2 * 1048576"
definition maxSpeculativeCiphertext :: int where "maxSpeculativeCiphertext = 256 * 1024"
definition blockSize :: nat where "blockSize = 16"

definition xorByte :: "byte \<Rightarrow> byte \<Rightarrow> byte" where
  "xorByte a b = char_of (of_char a XOR of_char b :: nat)"

definition xorBlock :: "bytes \<Rightarrow> bytes \<Rightarrow> bytes" where
  "xorBlock a b = map (\<lambda>(x, y). xorByte x y) (zip a b)"

text \<open>\<open>xorBytes\<close>: the key repeated along the data.\<close>

definition xorBytes :: "bytes \<Rightarrow> bytes \<Rightarrow> bytes" where
  "xorBytes data key =
     (if key = [] \<or> data = [] then []
      else map (\<lambda>i. xorByte (data ! i) (key ! (i mod length key))) [0..<length data])"

text \<open>Padding as in PKCS 7: dropped when well formed, else left.\<close>

definition stripPKCS7 :: "bytes \<Rightarrow> nat \<Rightarrow> bytes" where
  "stripPKCS7 b bs =
     (if b = [] then b
      else
        (let n = of_char (last b) :: nat
         in if n = 0 \<or> n > bs \<or> n > length b then b
            else if list_all (\<lambda>c. of_char c = n) (drop (length b - n) b) then take (length b - n) b
            else b))"

section \<open>Modes of operation\<close>

text \<open>AES under a key: a block forward and back.\<close>

record blockCipher =
  bc_enc :: "bytes \<Rightarrow> bytes \<Rightarrow> bytes"
  bc_dec :: "bytes \<Rightarrow> bytes \<Rightarrow> bytes"

text \<open>The blocks of a text whose length is a multiple of the block size.\<close>

function blocksOf :: "bytes \<Rightarrow> bytes list" where
  "blocksOf s = (if s = [] then [] else take blockSize s # blocksOf (drop blockSize s))"
  by pat_completeness auto
termination by (relation "measure length") (auto simp: blockSize_def)

declare blocksOf.simps [simp del]

text \<open>\<open>NewCBCDecrypter\<close>, block by block from the initial vector.\<close>

fun cbcDecrypt :: "(bytes \<Rightarrow> bytes) \<Rightarrow> bytes \<Rightarrow> bytes list \<Rightarrow> bytes" where
  "cbcDecrypt dec iv [] = []"
| "cbcDecrypt dec iv (c # cs) = xorBlock (dec c) iv @ cbcDecrypt dec c cs"

text \<open>The counter of \<open>NewCTR\<close>: a big-endian number, incremented with carry and wrapping.\<close>

fun incRev :: "bytes \<Rightarrow> bytes" where
  "incRev [] = []"
| "incRev (c # r) =
     (let n = (of_char c + 1) mod 256 :: nat in if n = 0 then CHR 0x00 # incRev r else char_of n # r)"

definition incCounter :: "bytes \<Rightarrow> bytes" where
  "incCounter s = rev (incRev (rev s))"

text \<open>\<open>NewCTR\<close>, \<open>NewOFB\<close> and \<open>NewCFBDecrypter\<close>; the last block may be short.\<close>

fun ctrStream :: "(bytes \<Rightarrow> bytes) \<Rightarrow> bytes \<Rightarrow> bytes list \<Rightarrow> bytes" where
  "ctrStream enc ctr [] = []"
| "ctrStream enc ctr (c # cs) = xorBlock c (enc ctr) @ ctrStream enc (incCounter ctr) cs"

fun ofbStream :: "(bytes \<Rightarrow> bytes) \<Rightarrow> bytes \<Rightarrow> bytes list \<Rightarrow> bytes" where
  "ofbStream enc v [] = []"
| "ofbStream enc v (c # cs) = xorBlock c (enc v) @ ofbStream enc (enc v) cs"

fun cfbDecrypt :: "(bytes \<Rightarrow> bytes) \<Rightarrow> bytes \<Rightarrow> bytes list \<Rightarrow> bytes" where
  "cfbDecrypt enc v [] = []"
| "cfbDecrypt enc v (c # cs) = xorBlock c (enc v) @ cfbDecrypt enc c cs"

section \<open>Decrypting as PHP would\<close>

text \<open>A buffer of \<open>n\<close> zero bytes into which \<open>s\<close> is copied.\<close>

definition fitTo :: "nat \<Rightarrow> bytes \<Rightarrow> bytes" where
  "fitTo n s = take n (s @ replicate n (CHR 0x00))"

definition aesKeyLen :: "bytes \<Rightarrow> nat option" where
  "aesKeyLen name =
     (if contains name ''128'' then Some 16
      else if contains name ''192'' then Some 24
      else if contains name ''256'' then Some 32
      else if \<not> hasPrefix name ''aes'' then None else Some 32)"

definition decryptAES :: "constLib \<Rightarrow> blockCipher \<Rightarrow> bytes \<Rightarrow> bytes \<Rightarrow> bytes \<Rightarrow> bytes \<Rightarrow> bytes option" where
  "decryptAES L B cipherName key iv data =
     (let name = trimPrefix (goToLower (cl_ulow L) (trimSpace cipherName)) ''rijndael-128-''
      in case aesKeyLen name of
           None \<Rightarrow> None
         | Some keyLen \<Rightarrow>
             if \<not> hasPrefix name ''aes'' then None
             else
               (let k = fitTo keyLen key; ivFull = fitTo blockSize iv
                in if data = [] \<or> int (length data) > maxCiphertext then None
                   else if contains name ''cbc'' then
                     (if length data mod blockSize \<noteq> 0 then None
                      else Some (stripPKCS7 (cbcDecrypt (bc_dec B k) ivFull (blocksOf data)) blockSize))
                   else if contains name ''ecb'' then
                     (if length data mod blockSize \<noteq> 0 then None
                      else Some (stripPKCS7 (concat (map (bc_dec B k) (blocksOf data))) blockSize))
                   else if contains name ''ctr'' then
                     Some (stripPKCS7 (ctrStream (bc_enc B k) ivFull (blocksOf data)) blockSize)
                   else if contains name ''ofb'' then
                     Some (stripPKCS7 (ofbStream (bc_enc B k) ivFull (blocksOf data)) blockSize)
                   else if contains name ''cfb'' then
                     Some (stripPKCS7 (cfbDecrypt (bc_enc B k) ivFull (blocksOf data)) blockSize)
                   else None))"

text \<open>A base64 layer inside the plaintext.\<close>

definition unwrapInnerEncoding :: "bytes \<Rightarrow> bytes option" where
  "unwrapInnerEncoding plain =
     (let t = stripLayout plain
      in if int (length t) < minBlobLen \<or> \<not> isEncodedRun t then None
         else
           (case (case decodeStd t of Some d \<Rightarrow> Some d | None \<Rightarrow> decodeRawStd t) of
              None \<Rightarrow> None
            | Some d \<Rightarrow> if looksTextual d then Some d else None))"

text \<open>Key material for an operator: quoted when printable and short, else its length and a digest.\<close>

definition quoteBytes :: "bytes \<Rightarrow> bytes" where
  "quoteBytes k =
     [CHR 0x22] @ concat (map (\<lambda>c. if c = CHR 0x22 \<or> c = CHR 0x5C then [CHR 0x5C, c] else [c]) k) @ [CHR 0x22]"

definition keyPreview :: "constLib \<Rightarrow> bytes \<Rightarrow> bytes" where
  "keyPreview L k =
     (if k = [] then ''?''
      else if list_all (\<lambda>c. \<not> (c < CHR 0x20 \<or> c > CHR 0x7E)) k \<and> length k \<le> 40 then quoteBytes k
      else showNat (length k) @ '' bytes, md5:'' @ take 12 (hexEncode (cl_md5 L k)))"

section \<open>Gates\<close>

text \<open>An exclusive or near an index expression: the loop over at most 64 of them.\<close>

fun xorLoop :: "nat \<Rightarrow> bytes \<Rightarrow> nat \<Rightarrow> bool" where
  "xorLoop 0 code off = False"
| "xorLoop (Suc n) code off =
     (case goIndex (drop off code) ''^'' of
        None \<Rightarrow> False
      | Some i \<Rightarrow>
          (let at = off + i;
               near = sliceOf code (at - 80) (min (at + 80) (length code))
           in if contains near ''[$'' \<or> contains near ''strlen('' \<or> contains near ''substr('' \<or>
                 contains near ''ord('' then True
              else if at + 1 \<ge> length code then False else xorLoop n code (at + 1)))"

definition xorNearIndex :: "bytes \<Rightarrow> bool" where
  "xorNearIndex code = xorLoop 64 code 0"

definition mightBeXORPacked :: "bytes \<Rightarrow> bool" where
  "mightBeXORPacked code =
     (if \<not> contains code ''^'' then False
      else if \<not> (contains code ''for('' \<or> contains code ''for ('' \<or> contains code ''while('' \<or>
                  contains code ''while ('') then False
      else xorNearIndex code)"

text \<open>The matches of \<open>name\s*\(\<close>, at most \<open>n\<close>: where each starts and ends.\<close>

definition callAt :: "bytes \<Rightarrow> bytes \<Rightarrow> nat option" where
  "callAt name t =
     (let m = length name + countWhile isReSpace (drop (length name) t)
      in if hasPrefix t name \<and> byteAt t m (CHR ''('') then Some (m + 1) else None)"

function callScan :: "bytes \<Rightarrow> bytes \<Rightarrow> nat \<Rightarrow> nat \<Rightarrow> (nat \<times> nat) list" where
  "callScan name code i n =
     (if n = 0 \<or> i \<ge> length code then []
      else case callAt name (drop i code) of
             None \<Rightarrow> callScan name code (i + 1) n
           | Some m \<Rightarrow> (i, i + m) # callScan name code (i + m) (n - 1))"
  by pat_completeness auto
termination
  by (relation "measure (\<lambda>(name, code, i, n). length code - i)") (auto simp: callAt_def Let_def split: if_splits)

declare callScan.simps [simp del]

section \<open>Candidates\<close>

record candidateBlob =
  cb_data :: bytes
  cb_at :: nat

fun ciphertextLoop :: "bytes \<Rightarrow> span list \<Rightarrow> candidateBlob list \<Rightarrow> candidateBlob list" where
  "ciphertextLoop src [] out = out"
| "ciphertextLoop src (s # ss) out =
     (if length out \<ge> 6 then out
      else if sp_end s \<le> sp_start s \<or> sp_end s > length src \<or> int (sp_end s) - int (sp_start s) < minBlobLen
        then ciphertextLoop src ss out
      else
        (let raw = sliceOf src (sp_start s) (sp_end s)
         in if \<not> isEncodedRun raw then ciphertextLoop src ss out
            else
              (case decodeStd (stripLayout raw) of
                 None \<Rightarrow> ciphertextLoop src ss out
               | Some d \<Rightarrow>
                   if length d < 16 then ciphertextLoop src ss out
                   else
                     ciphertextLoop src ss
                       (out @ [\<lparr>cb_data = (if int (length d) > maxSpeculativeCiphertext
                                           then take (nat maxSpeculativeCiphertext) d else d),
                                cb_at = sp_start s\<rparr>]))))"

definition candidateCiphertexts :: "bytes \<Rightarrow> phpView \<Rightarrow> candidateBlob list" where
  "candidateCiphertexts src view = ciphertextLoop src (v_strs view) []"

text \<open>\<open>add\<close>: keys of a sensible length, each once.\<close>

definition addKey :: "bytes \<Rightarrow> bytes list \<Rightarrow> bytes list" where
  "addKey b out = (if length b < 4 \<or> length b > 64 \<or> b \<in> set out then out else out @ [b])"

text \<open>A literal and what is derived from it.\<close>

definition addLiteral :: "constLib \<Rightarrow> bytes \<Rightarrow> bytes list \<Rightarrow> bytes list" where
  "addLiteral L lit out0 =
     (let sum = cl_md5 L lit;
          out1 = addKey (hexEncode sum) (addKey sum (addKey lit out0));
          out2 = (case hexDecode lit of Some d \<Rightarrow> if length d \<ge> 8 then addKey d out1 else out1 | None \<Rightarrow> out1)
      in case decodeStd lit of
           Some d \<Rightarrow> if length d \<ge> 8 \<and> length d \<le> 64 then addKey d out2 else out2
         | None \<Rightarrow> out2)"

fun keyLoop :: "constLib \<Rightarrow> bytes \<Rightarrow> span list \<Rightarrow> bytes list \<Rightarrow> bytes list" where
  "keyLoop L src [] out = out"
| "keyLoop L src (s # ss) out =
     (if length out \<ge> 40 then out
      else if sp_end s \<le> sp_start s \<or> sp_end s > length src then keyLoop L src ss out
      else
        (let lit = unescapePHP (sliceOf src (sp_start s) (sp_end s))
         in if lit = [] \<or> length lit > 64 then keyLoop L src ss out
            else keyLoop L src ss (addLiteral L lit out)))"

text \<open>\<open>cached\<close>: the resolved values, in the order in which Go walks the cache.\<close>

definition candidateKeys :: "constLib \<Rightarrow> bytes \<Rightarrow> phpView \<Rightarrow> bytes list \<Rightarrow> bytes list" where
  "candidateKeys L src view cached = foldl (\<lambda>out b. addKey b out) (keyLoop L src (v_strs view) []) cached"

section \<open>Directed decryption\<close>

text \<open>An argument, empty when it cannot be folded.\<close>

definition argOr :: "constLib \<Rightarrow> span list \<Rightarrow> nat \<Rightarrow> constResolver \<Rightarrow> bytes \<times> constResolver" where
  "argOr L args n r =
     (case arg (evalRange L) args n r of (x, r') \<Rightarrow> (case x of Some v \<Rightarrow> v | None \<Rightarrow> [], r'))"

text \<open>The data, cipher, key, initial vector and raw flag of a call.\<close>

definition opensslArgs :: "constLib \<Rightarrow> span list \<Rightarrow> constResolver \<Rightarrow>
    (bytes \<times> bytes \<times> bytes \<times> bytes \<times> bool) \<times> constResolver" where
  "opensslArgs L args r0 =
     (case argOr L args 0 r0 of (data, r1) \<Rightarrow>
      case argOr L args 1 r1 of (cipherName, r2) \<Rightarrow>
      case argOr L args 2 r2 of (key, r3) \<Rightarrow>
      case intArg (evalRange L) args 3 r3 of (opts, r4) \<Rightarrow>
      case argOr L args 4 r4 of (iv, r5) \<Rightarrow>
        ((data, cipherName, key, iv, (case opts of Some n \<Rightarrow> n mod 2 = 1 | None \<Rightarrow> False)), r5))"

definition mcryptArgs :: "constLib \<Rightarrow> span list \<Rightarrow> constResolver \<Rightarrow>
    (bytes \<times> bytes \<times> bytes \<times> bytes \<times> bool) \<times> constResolver" where
  "mcryptArgs L args r0 =
     (case argOr L args 0 r0 of (cipherName, r1) \<Rightarrow>
      case argOr L args 1 r1 of (key, r2) \<Rightarrow>
      case argOr L args 2 r2 of (data, r3) \<Rightarrow>
      case argOr L args 3 r3 of (mode, r4) \<Rightarrow>
      case argOr L args 4 r4 of (iv, r5) \<Rightarrow>
        ((data, cipherName @ ''-'' @ mode, key, iv, True), r5))"

text \<open>What is done with the arguments: the layer, if the plaintext is code.\<close>

definition layerOf :: "constLib \<Rightarrow> blockCipher \<Rightarrow> bytes \<Rightarrow> nat \<Rightarrow> bytes \<times> bytes \<times> bytes \<times> bytes \<times> bool \<Rightarrow>
    DecodedLayer option" where
  "layerOf L B form opn =
     (\<lambda>(data0, cipherName, key, iv, rawFlag).
        if key = [] \<or> data0 = [] then None
        else
          (let data1 = (if rawFlag then data0
                        else case decodeStd (stripLayout data0) of Some d \<Rightarrow> d | None \<Rightarrow> data0);
               data = (if int (length data1) > maxCiphertext then take (nat maxCiphertext) data1 else data1)
           in case decryptAES L B cipherName key iv data of
                None \<Rightarrow> None
              | Some plain \<Rightarrow>
                  (let via0 = form @ ''('' @ goToUpper (cl_uup L) (trimSpace cipherName) @ '')'';
                       via1 = (if rawFlag then via0 else ''base64'' @ arrow @ via0);
                       (plain', via) = (case unwrapInnerEncoding plain of
                                          Some inner \<Rightarrow> (inner, via1 @ arrow @ ''base64'')
                                        | None \<Rightarrow> (plain, via1))
                   in if \<not> looksLikeCode L plain' then None
                      else Some \<lparr>dl_Via = via @ '' [key '' @ keyPreview L key @ '']'', dl_Depth = 1,
                                 dl_At = int opn, dl_Data = plain'\<rparr>)))"

text \<open>The loop over the calls of one form.\<close>

fun callLoop :: "constLib \<Rightarrow> blockCipher \<Rightarrow> bytes \<Rightarrow> bytes \<Rightarrow> (nat \<times> nat) list \<Rightarrow> constResolver \<Rightarrow>
    DecodedLayer list \<times> constResolver" where
  "callLoop L B form src [] r = ([], r)"
| "callLoop L B form src ((s, e) # locs) r =
     (case goIndex (sliceOf src s e) ''('' of
        None \<Rightarrow> callLoop L B form src locs r
      | Some k \<Rightarrow>
          (case matchParen src (s + k) (length src) of
             None \<Rightarrow> callLoop L B form src locs r
           | Some closeIdx \<Rightarrow>
               (let args = splitArgs r (s + k + 1) closeIdx
                in case (if form = ''openssl_decrypt'' then opensslArgs L args r else mcryptArgs L args r) of
                     (vals, r') \<Rightarrow>
                       (case callLoop L B form src locs r' of
                          (rest, r'') \<Rightarrow>
                            (case layerOf L B form (s + k) vals of Some l \<Rightarrow> l # rest | None \<Rightarrow> rest, r'')))))"

definition directedDecrypt :: "constLib \<Rightarrow> blockCipher \<Rightarrow> bytes \<Rightarrow> phpView \<Rightarrow> constResolver \<Rightarrow>
    DecodedLayer list \<times> constResolver" where
  "directedDecrypt L B src view r0 =
     (case callLoop L B ''openssl_decrypt'' src (callScan ''openssl_decrypt'' (v_code view) 0 8) r0 of
        (out1, r1) \<Rightarrow>
          (case callLoop L B ''mcrypt_decrypt'' src (callScan ''mcrypt_decrypt'' (v_code view) 0 8) r1 of
             (out2, r2) \<Rightarrow> (out1 @ out2, r2)))"

section \<open>Speculative decryption\<close>

definition specModes :: "bytes list" where
  "specModes = [''aes-256-cbc'', ''aes-128-cbc'', ''aes-256-ecb'', ''aes-128-ecb'']"

definition specLayer :: "bytes \<Rightarrow> nat \<Rightarrow> bytes \<Rightarrow> DecodedLayer" where
  "specLayer via at plain = \<lparr>dl_Via = via, dl_Depth = 1, dl_At = int at, dl_Data = plain\<rparr>"

fun modeLoop :: "constLib \<Rightarrow> blockCipher \<Rightarrow> candidateBlob \<Rightarrow> bytes \<Rightarrow> bytes list \<Rightarrow> DecodedLayer option" where
  "modeLoop L B blob k [] = None"
| "modeLoop L B blob k (mode # modes) =
     (let zero = decryptAES L B mode k [] (cb_data blob);
          pre = (if length (cb_data blob) > blockSize
                 then decryptAES L B mode k (take blockSize (cb_data blob)) (drop blockSize (cb_data blob)) else None);
          via = (\<lambda>how. ''base64'' @ arrow @ goToUpper (cl_uup L) mode @ '' [key '' @ keyPreview L k @ how)
      in case zero of
           Some plain \<Rightarrow>
             if looksLikeCode L plain then Some (specLayer (via '', zero IV]'') (cb_at blob) plain)
             else (case pre of
                     Some plain' \<Rightarrow>
                       if looksLikeCode L plain' then Some (specLayer (via '', prefixed IV]'') (cb_at blob) plain')
                       else modeLoop L B blob k modes
                   | None \<Rightarrow> modeLoop L B blob k modes)
         | None \<Rightarrow>
             (case pre of
                Some plain' \<Rightarrow>
                  if looksLikeCode L plain' then Some (specLayer (via '', prefixed IV]'') (cb_at blob) plain')
                  else modeLoop L B blob k modes
              | None \<Rightarrow> modeLoop L B blob k modes))"

text \<open>One key on one ciphertext: exclusive or first, then AES.\<close>

definition attempt :: "constLib \<Rightarrow> blockCipher \<Rightarrow> candidateBlob \<Rightarrow> bytes \<Rightarrow> DecodedLayer option" where
  "attempt L B blob k =
     (let plain = xorBytes (cb_data blob) k
      in if looksLikeCode L plain
         then Some (specLayer (''base64'' @ arrow @ ''XOR [key '' @ keyPreview L k @ '']'') (cb_at blob) plain)
         else modeLoop L B blob k specModes)"

text \<open>The two loops, flattened: the ciphertexts, and for each the keys.\<close>

fun specLoop :: "constLib \<Rightarrow> blockCipher \<Rightarrow> int \<Rightarrow> (candidateBlob \<times> bytes) list \<Rightarrow> DecodedLayer list" where
  "specLoop L B attempts [] = []"
| "specLoop L B attempts ((blob, k) # ps) =
     (if attempts \<ge> maxDecryptAttempts then []
      else
        (case attempt L B blob k of
           Some l \<Rightarrow> [l]
         | None \<Rightarrow> specLoop L B (attempts + 1) ps))"

definition speculativeDecrypt :: "constLib \<Rightarrow> blockCipher \<Rightarrow> bytes \<Rightarrow> phpView \<Rightarrow> bytes list \<Rightarrow> DecodedLayer list" where
  "speculativeDecrypt L B src view cached =
     (let keys = candidateKeys L src view cached; blobs = candidateCiphertexts src view
      in if keys = [] \<or> blobs = [] then []
         else specLoop L B 0 (concat (map (\<lambda>b. map (Pair b) keys) blobs)))"

text \<open>\<open>ord\<close> lists the values of a cache in the order Go walks it.\<close>

definition findDecryptedPayloads :: "constLib \<Rightarrow> blockCipher \<Rightarrow> ((bytes \<Rightarrow> bytes option) \<Rightarrow> bytes list) \<Rightarrow> bytes \<Rightarrow>
    phpView \<Rightarrow> DecodedLayer list" where
  "findDecryptedPayloads L B ord src view =
     (let hasCall = callScan ''openssl_decrypt'' (v_code view) 0 1 \<noteq> [] \<or>
                    callScan ''mcrypt_decrypt'' (v_code view) 0 1 \<noteq> []
      in if \<not> hasCall \<and> \<not> mightBeXORPacked (v_code view) then []
         else
           (let r = newConstResolver src view;
                (out, r') = (if hasCall then directedDecrypt L B src view r else ([], r))
            in if out = [] \<and> candidateCiphertexts src view \<noteq> []
               then speculativeDecrypt L B src view (ord (r_cache r')) else out))"

definition deobfuscate :: "constLib \<Rightarrow> blockCipher \<Rightarrow> ((bytes \<Rightarrow> bytes option) \<Rightarrow> bytes list) \<Rightarrow> bytes \<Rightarrow> phpView \<Rightarrow>
    DecodedLayer list" where
  "deobfuscate L B ord src view =
     snd (walkAll L (Some view) src) @ findDecryptedPayloads L B ord src view"

section \<open>Exclusive or\<close>

lemma xor_byte_bound: "(of_char a XOR of_char b :: nat) < 256"
proof -
  have "take_bit 8 (of_char c :: nat) = of_char c" for c
    using of_char_less [of c] by (simp add: take_bit_nat_eq_self)
  then have "take_bit 8 (of_char a XOR of_char b :: nat) = of_char a XOR of_char b" by (simp add: take_bit_xor)
  then show ?thesis using take_bit_nat_less_exp [of 8 "of_char a XOR of_char b"] by simp
qed

lemma xorByte_cancel [simp]: "xorByte (xorByte a b) b = a"
proof -
  have "of_char (xorByte a b) = (of_char a XOR of_char b :: nat)"
    unfolding xorByte_def using xor_byte_bound [of a b] by simp
  then have "xorByte (xorByte a b) b = char_of ((of_char a XOR of_char b) XOR of_char b :: nat)"
    by (simp only: xorByte_def)
  also have "((of_char a XOR of_char b) XOR of_char b :: nat) = of_char a" by (simp add: xor.assoc)
  finally show ?thesis by simp
qed

lemma length_xorBlock [simp]: "length (xorBlock a b) = min (length a) (length b)"
  by (simp add: xorBlock_def)

lemma xorBlock_cancel: "length a \<le> length b \<Longrightarrow> xorBlock (xorBlock a b) b = a"
  by (induction a b rule: list_induct2') (auto simp: xorBlock_def)

lemma length_xorBytes: "key \<noteq> [] \<Longrightarrow> length (xorBytes data key) = length data"
  by (simp add: xorBytes_def)

lemma xorBytes_cancel: "key \<noteq> [] \<Longrightarrow> xorBytes (xorBytes data key) key = data"
proof (cases "data = []")
  case False
  assume "key \<noteq> []"
  with False show ?thesis by (intro nth_equalityI) (simp_all add: xorBytes_def)
qed (simp add: xorBytes_def)

section \<open>Padding\<close>

text \<open>The padding of PKCS 7, as a specification.\<close>

definition padPKCS7 :: "nat \<Rightarrow> bytes \<Rightarrow> bytes" where
  "padPKCS7 bs s = (let n = bs - length s mod bs in s @ replicate n (char_of n))"

lemma strip_pad:
  assumes "0 < bs" "bs < 256"
  shows "stripPKCS7 (padPKCS7 bs s) bs = s"
proof -
  define n where "n = bs - length s mod bs"
  have n: "0 < n" "n \<le> bs" using assms(1) by (simp_all add: n_def)
  then have c: "of_char (char_of n) = n" using assms(2) by simp
  have p: "padPKCS7 bs s = s @ replicate n (char_of n)" by (simp add: padPKCS7_def n_def Let_def)
  have l: "last (s @ replicate n (char_of n)) = (char_of n :: byte)" using n(1) by (simp add: last_append)
  show ?thesis unfolding stripPKCS7_def p l c Let_def using n c by (auto simp: list_all_iff)
qed

lemma pad_blocks: "0 < bs \<Longrightarrow> length (padPKCS7 bs s) mod bs = 0"
proof -
  assume bs: "0 < bs"
  have "length s + (bs - length s mod bs) = length s div bs * bs + bs"
    using bs mod_less_divisor [of bs "length s"] div_mult_mod_eq [of "length s" bs] by linarith
  then have "length (padPKCS7 bs s) = length s div bs * bs + bs" by (simp add: padPKCS7_def Let_def)
  then show ?thesis by simp
qed

section \<open>The modes undo encryption\<close>

text \<open>What encryption does, block by block.\<close>

fun cbcEncrypt :: "(bytes \<Rightarrow> bytes) \<Rightarrow> bytes \<Rightarrow> bytes list \<Rightarrow> bytes" where
  "cbcEncrypt enc iv [] = []"
| "cbcEncrypt enc iv (b # bs) = (let c = enc (xorBlock b iv) in c @ cbcEncrypt enc c bs)"

text \<open>A block cipher: decryption inverts encryption, block to block.\<close>

definition blockLaws :: "blockCipher \<Rightarrow> bool" where
  "blockLaws B \<longleftrightarrow>
     (\<forall>k b. length b = blockSize \<longrightarrow> length (bc_enc B k b) = blockSize \<and> bc_dec B k (bc_enc B k b) = b)"

lemma blocksOf_Nil [simp]: "blocksOf [] = []"
  by (simp add: blocksOf.simps)

lemma blocksOf_append: "length b = blockSize \<Longrightarrow> blocksOf (b @ s) = b # blocksOf s"
  by (subst blocksOf.simps) (auto simp: blockSize_def)

lemma concat_blocksOf: "concat (blocksOf s) = s"
  by (induction s rule: blocksOf.induct) (subst blocksOf.simps, simp)

lemma blocksOf_length: "b \<in> set (blocksOf s) \<Longrightarrow> length s mod blockSize = 0 \<Longrightarrow> length b = blockSize"
proof (induction s rule: blocksOf.induct)
  case (1 s)
  have ne: "s \<noteq> []" using 1(2) by (auto simp: blocksOf.simps [of s])
  then have ge: "blockSize \<le> length s" using 1(3) by (metis length_0_conv mod_less not_le)
  have "length (drop blockSize s) mod blockSize = 0" using 1(3) ge by (simp add: le_mod_geq)
  then show ?case using 1 ne ge by (auto simp: blocksOf.simps [of s])
qed

lemma blocksOf_bound: "b \<in> set (blocksOf s) \<Longrightarrow> length b \<le> blockSize"
proof (induction s rule: blocksOf.induct)
  case (1 s)
  then show ?case by (cases "s = []") (auto simp: blocksOf.simps [of s])
qed

lemma cbc_inverts:
  assumes B: "blockLaws B" and "length iv = blockSize" "list_all (\<lambda>b. length b = blockSize) bs"
  shows "cbcDecrypt (bc_dec B k) iv (blocksOf (cbcEncrypt (bc_enc B k) iv bs)) = concat bs \<and>
    length (cbcEncrypt (bc_enc B k) iv bs) = blockSize * length bs"
  using assms(2,3)
proof (induction bs arbitrary: iv)
  case (Cons b bs)
  define c where "c = bc_enc B k (xorBlock b iv)"
  have x: "length (xorBlock b iv) = blockSize" using Cons.prems by simp
  then have c: "length c = blockSize" "bc_dec B k c = xorBlock b iv"
    using B by (simp_all add: blockLaws_def c_def)
  have "xorBlock (bc_dec B k c) iv = b" using c(2) Cons.prems by (simp add: xorBlock_cancel)
  then show ?case using Cons.IH [OF c(1)] Cons.prems c(1)
    by (simp add: Let_def blocksOf_append flip: c_def)
qed simp

lemma ecb_inverts:
  assumes B: "blockLaws B" and "list_all (\<lambda>b. length b = blockSize) bs"
  shows "concat (map (bc_dec B k) (blocksOf (concat (map (bc_enc B k) bs)))) = concat bs \<and>
    length (concat (map (bc_enc B k) bs)) = blockSize * length bs"
  using assms(2)
proof (induction bs)
  case (Cons b bs)
  then have "length (bc_enc B k b) = blockSize" "bc_dec B k (bc_enc B k b) = b" using B by (simp_all add: blockLaws_def)
  then show ?case using Cons by (simp add: blocksOf_append)
qed simp

subsection \<open>Through the guards\<close>

lemma length_fitTo [simp]: "length (fitTo n s) = n"
  by (simp add: fitTo_def)

text \<open>The name a cipher has after trimming and lower-casing, and what it selects.\<close>

definition plainName :: "bytes \<Rightarrow> bool" where
  "plainName s \<longleftrightarrow> isASCII s \<and> trimSpace s = s \<and> map ascii_lower s = s \<and> \<not> hasPrefix s ''rijndael-128-''"

lemma plainName_normal:
  "plainName s \<Longrightarrow> trimPrefix (goToLower u (trimSpace s)) ''rijndael-128-'' = s"
  by (simp add: plainName_def goToLower_ASCII trimPrefix_def)

definition aesBits :: "(bytes \<times> nat) list" where
  "aesBits = [(''128'', 16), (''192'', 24), (''256'', 32)]"

lemma aes_names:
  assumes "(bits, n) \<in> set aesBits"
  shows "plainName (''aes-'' @ bits @ ''-cbc'')" "plainName (''aes-'' @ bits @ ''-ecb'')"
    "aesKeyLen (''aes-'' @ bits @ ''-cbc'') = Some n" "aesKeyLen (''aes-'' @ bits @ ''-ecb'') = Some n"
    "contains (''aes-'' @ bits @ ''-cbc'') ''cbc''" "contains (''aes-'' @ bits @ ''-ecb'') ''ecb''"
    "\<not> contains (''aes-'' @ bits @ ''-ecb'') ''cbc''"
proof -
  have 1: "list_all (\<lambda>(bits, n). plainName (''aes-'' @ bits @ ''-cbc'') \<and> plainName (''aes-'' @ bits @ ''-ecb'')) aesBits"
    by code_simp
  have 2: "list_all (\<lambda>(bits, n). aesKeyLen (''aes-'' @ bits @ ''-cbc'') = Some n \<and>
      aesKeyLen (''aes-'' @ bits @ ''-ecb'') = Some n) aesBits"
    unfolding aesKeyLen_def contains_def sublist_code(1) by code_simp
  have 3: "list_all (\<lambda>(bits, n). contains (''aes-'' @ bits @ ''-cbc'') ''cbc'' \<and>
      contains (''aes-'' @ bits @ ''-ecb'') ''ecb'' \<and> \<not> contains (''aes-'' @ bits @ ''-ecb'') ''cbc'') aesBits"
    unfolding contains_def sublist_code(1) by code_simp
  show "plainName (''aes-'' @ bits @ ''-cbc'')" "plainName (''aes-'' @ bits @ ''-ecb'')"
    "aesKeyLen (''aes-'' @ bits @ ''-cbc'') = Some n" "aesKeyLen (''aes-'' @ bits @ ''-ecb'') = Some n"
    "contains (''aes-'' @ bits @ ''-cbc'') ''cbc''" "contains (''aes-'' @ bits @ ''-ecb'') ''ecb''"
    "\<not> contains (''aes-'' @ bits @ ''-ecb'') ''cbc''"
    using 1 2 3 assms by (fastforce simp: list_all_iff)+
qed

lemma padded_blocks: "list_all (\<lambda>b. length b = blockSize) (blocksOf (padPKCS7 blockSize s))"
  using blocksOf_length pad_blocks [of blockSize s] by (auto simp: list_all_iff blockSize_def)

lemma blocksOf_count: "length s mod blockSize = 0 \<Longrightarrow> blockSize * length (blocksOf s) = length s"
proof -
  assume "length s mod blockSize = 0"
  then have "map length (blocksOf s) = replicate (length (blocksOf s)) blockSize"
    using blocksOf_length nth_mem by (intro nth_equalityI) fastforce+
  then have "length (concat (blocksOf s)) = length (blocksOf s) * blockSize"
    by (simp add: length_concat sum_list_replicate)
  then show ?thesis by (simp add: concat_blocksOf mult.commute)
qed

lemma decryptAES_case:
  assumes "plainName nm" "aesKeyLen nm = Some n" "hasPrefix nm ''aes''" "data \<noteq> []"
    "int (length data) \<le> maxCiphertext" "length data mod blockSize = 0"
  shows "contains nm ''cbc'' \<Longrightarrow> decryptAES L B nm key iv data =
      Some (stripPKCS7 (cbcDecrypt (bc_dec B (fitTo n key)) (fitTo blockSize iv) (blocksOf data)) blockSize)"
    "\<not> contains nm ''cbc'' \<Longrightarrow> contains nm ''ecb'' \<Longrightarrow> decryptAES L B nm key iv data =
      Some (stripPKCS7 (concat (map (bc_dec B (fitTo n key)) (blocksOf data))) blockSize)"
  using assms by (simp_all add: decryptAES_def plainName_normal Let_def)


text \<open>The rotation of a block stands for AES in the witnesses.\<close>

definition rotateCipher :: blockCipher where
  "rotateCipher = \<lparr>bc_enc = (\<lambda>k b. rotate1 b), bc_dec = (\<lambda>k b. rotate 15 b)\<rparr>"

lemma rotateCipher_laws: "blockLaws rotateCipher"
proof -
  have "rotate 15 (rotate1 b) = b" if "length b = 16" for b :: bytes
  proof -
    have "rotate 15 (rotate1 b) = rotate 16 b" using rotate_rotate [of 15 1 b] by simp
    then show ?thesis using that rotate_id [of 16 b] by simp
  qed
  then show ?thesis by (simp add: blockLaws_def rotateCipher_def blockSize_def)
qed


section \<open>The forms of mcrypt\<close>

text \<open>
  A name that begins with \<open>rijndael-128-\<close> loses that prefix and then has to begin with \<open>aes\<close>: no cipher of
  mcrypt does, so no \<open>mcrypt_decrypt\<close> call is ever decrypted.
\<close>

lemma decryptAES_not_aes:
  "\<not> hasPrefix (trimPrefix (goToLower (cl_ulow L) (trimSpace nm)) ''rijndael-128-'') ''aes'' \<Longrightarrow>
   decryptAES L B nm key iv data = None"
  by (simp add: decryptAES_def Let_def split: option.split)

definition mcryptCiphers :: "bytes list" where
  "mcryptCiphers =
     [''rijndael-128'', ''rijndael-192'', ''rijndael-256'', ''blowfish'', ''tripledes'', ''twofish'', ''cast-128'']"

definition mcryptModes :: "bytes list" where
  "mcryptModes = [''cbc'', ''ecb'', ''cfb'', ''ofb'', ''ctr'', ''stream'']"

lemma mcrypt_names:
  assumes "cipher \<in> set mcryptCiphers" "mode \<in> set mcryptModes"
  shows "\<not> hasPrefix (trimPrefix (goToLower u (trimSpace (cipher @ ''-'' @ mode))) ''rijndael-128-'') ''aes''"
proof -
  have "list_all (\<lambda>c. list_all (\<lambda>m. isASCII (c @ ''-'' @ m) \<and> isASCII (trimSpace (c @ ''-'' @ m)) \<and>
      \<not> hasPrefix (trimPrefix (map ascii_lower (trimSpace (c @ ''-'' @ m))) ''rijndael-128-'') ''aes'') mcryptModes)
    mcryptCiphers" by code_simp
  then show ?thesis using assms by (auto simp: list_all_iff goToLower_ASCII)
qed

theorem mcrypt_never_decrypts:
  assumes "cipher \<in> set mcryptCiphers" "mode \<in> set mcryptModes"
  shows "layerOf L B ''mcrypt_decrypt'' opn (data, cipher @ ''-'' @ mode, key, iv, True) = None"
proof -
  have "decryptAES L B (cipher @ ''-'' @ mode) key iv d = None" for d
    by (rule decryptAES_not_aes [OF mcrypt_names [OF assms]])
  then show ?thesis by (simp add: layerOf_def Let_def)
qed

section \<open>What is reported\<close>

text \<open>A layer as reported by the decryption: at the first level, and code.\<close>

definition decryptedOK :: "constLib \<Rightarrow> DecodedLayer \<Rightarrow> bool" where
  "decryptedOK L l \<longleftrightarrow> dl_Depth l = 1 \<and> looksLikeCode L (dl_Data l)"

lemma layerOf_ok: "layerOf L B form opn vals = Some l \<Longrightarrow> decryptedOK L l"
  by (cases vals) (auto simp: layerOf_def Let_def decryptedOK_def split: if_splits option.splits prod.splits)

lemma modeLoop_ok: "modeLoop L B blob k modes = Some l \<Longrightarrow> decryptedOK L l"
proof (induction modes)
  case (Cons m ms)
  have ok: "decryptedOK L (specLayer v at p)" if "looksLikeCode L p" for v at p
    using that by (simp add: decryptedOK_def specLayer_def)
  show ?case using Cons ok by (auto simp: Let_def split: if_splits option.splits)
qed simp

lemma attempt_ok: "attempt L B blob k = Some l \<Longrightarrow> decryptedOK L l"
  using modeLoop_ok by (auto simp: attempt_def Let_def decryptedOK_def specLayer_def split: if_splits)

lemma specLoop_ok: "list_all (decryptedOK L) (specLoop L B n ps) \<and> length (specLoop L B n ps) \<le> 1"
proof (induction ps arbitrary: n)
  case (Cons p ps)
  obtain blob k where p: "p = (blob, k)" by fastforce
  show ?case
    using Cons [of "n + 1"] p attempt_ok [of L B blob k] by (auto split: option.split)
qed simp

lemma callLoop_ok:
  "list_all (decryptedOK L) (fst (callLoop L B form src locs r)) \<and>
   length (fst (callLoop L B form src locs r)) \<le> length locs"
proof (induction locs arbitrary: r)
  case (Cons loc locs)
  obtain s e where loc: "loc = (s, e)" by fastforce
  have step: "list_all (decryptedOK L) (fst (case X of (vals, r') \<Rightarrow> (case callLoop L B form src locs r' of
        (rest, r'') \<Rightarrow> (case layerOf L B form q vals of Some l \<Rightarrow> l # rest | None \<Rightarrow> rest, r'')))) \<and>
      length (fst (case X of (vals, r') \<Rightarrow> (case callLoop L B form src locs r' of
        (rest, r'') \<Rightarrow> (case layerOf L B form q vals of Some l \<Rightarrow> l # rest | None \<Rightarrow> rest, r'')))) \<le> Suc (length locs)"
    for X q
  proof -
    obtain vals r' where X: "X = (vals, r')" by fastforce
    obtain rest r'' where c: "callLoop L B form src locs r' = (rest, r'')" by fastforce
    then show ?thesis using Cons [of r'] X layerOf_ok [of L B form q vals] by (auto split: option.split)
  qed
  have skip: "list_all (decryptedOK L) (fst (callLoop L B form src locs r)) \<and>
      length (fst (callLoop L B form src locs r)) \<le> Suc (length locs)" using Cons [of r] by simp
  show ?case unfolding loc callLoop.simps Let_def using step skip by (auto split: option.split)
qed simp

lemma callScan_length: "length (callScan name code i n) \<le> n"
proof (induction name code i n rule: callScan.induct)
  case (1 name code i n)
  then show ?case by (subst callScan.simps) (auto split: option.split)
qed

lemma directed_ok:
  "list_all (decryptedOK L) (fst (directedDecrypt L B src view r)) \<and> length (fst (directedDecrypt L B src view r)) \<le> 16"
proof -
  obtain o1 r1 where 1: "callLoop L B ''openssl_decrypt'' src (callScan ''openssl_decrypt'' (v_code view) 0 8) r = (o1, r1)"
    by fastforce
  obtain o2 r2 where 2: "callLoop L B ''mcrypt_decrypt'' src (callScan ''mcrypt_decrypt'' (v_code view) 0 8) r1 = (o2, r2)"
    by fastforce
  have d: "fst (directedDecrypt L B src view r) = o1 @ o2" by (simp add: directedDecrypt_def 1 2)
  have "list_all (decryptedOK L) o1 \<and> length o1 \<le> 8"
    using callLoop_ok [of L B "''openssl_decrypt''" src "callScan ''openssl_decrypt'' (v_code view) 0 8" r]
      callScan_length [of "''openssl_decrypt''" "v_code view" 0 8] by (simp add: 1)
  moreover have "list_all (decryptedOK L) o2 \<and> length o2 \<le> 8"
    using callLoop_ok [of L B "''mcrypt_decrypt''" src "callScan ''mcrypt_decrypt'' (v_code view) 0 8" r1]
      callScan_length [of "''mcrypt_decrypt''" "v_code view" 0 8] by (simp add: 2)
  ultimately show ?thesis by (simp add: d)
qed

lemma findDecrypted_ok:
  "list_all (decryptedOK L) (findDecryptedPayloads L B ord src view) \<and>
   length (findDecryptedPayloads L B ord src view) \<le> 16"
proof -
  have spec: "list_all (decryptedOK L) (speculativeDecrypt L B src view c) \<and>
      length (speculativeDecrypt L B src view c) \<le> 16" for c
    using specLoop_ok [of L B 0 "concat (map (\<lambda>b. map (Pair b) (candidateKeys L src view c)) (candidateCiphertexts src view))"]
    unfolding speculativeDecrypt_def Let_def by (simp split: if_split)
  show ?thesis using directed_ok [of L B src view "newConstResolver src view"] spec
    by (cases "directedDecrypt L B src view (newConstResolver src view)")
      (auto simp: findDecryptedPayloads_def Let_def)
qed

text \<open>Keys: of 4 to 64 bytes, each once.\<close>

definition keysOK :: "bytes list \<Rightarrow> bool" where
  "keysOK ks \<longleftrightarrow> distinct ks \<and> list_all (\<lambda>k. 4 \<le> length k \<and> length k \<le> 64) ks"

lemma addKey_ok: "keysOK ks \<Longrightarrow> keysOK (addKey b ks)"
  by (simp add: keysOK_def addKey_def)

lemma addLiteral_ok: "keysOK ks \<Longrightarrow> keysOK (addLiteral L lit ks)"
  unfolding addLiteral_def Let_def by (simp add: addKey_ok split: option.split)

lemma keyLoop_ok: "keysOK ks \<Longrightarrow> keysOK (keyLoop L src ss ks)"
  by (induction L src ss ks rule: keyLoop.induct) (auto simp: Let_def addLiteral_ok)

lemma candidateKeys_ok: "keysOK (candidateKeys L src view cached)"
  unfolding candidateKeys_def
  by (rule foldl_invariant) (rule keyLoop_ok, simp add: keysOK_def, rule addKey_ok)

text \<open>An attempt that yields code among the first 120 is not missed.\<close>

lemma specLoop_finds:
  "p \<in> set (take (nat (maxDecryptAttempts - n)) ps) \<Longrightarrow> attempt L B (fst p) (snd p) \<noteq> None \<Longrightarrow> specLoop L B n ps \<noteq> []"
proof (induction ps arbitrary: n)
  case (Cons q ps)
  obtain blob k where q: "q = (blob, k)" by fastforce
  have n: "n < maxDecryptAttempts"
    using Cons.prems(1) by (cases "nat (maxDecryptAttempts - n)") auto
  then have t: "nat (maxDecryptAttempts - n) = Suc (nat (maxDecryptAttempts - (n + 1)))" by simp
  show ?case
  proof (cases "attempt L B blob k")
    case None
    then have "p \<noteq> q" using Cons.prems(2) q by auto
    then have "p \<in> set (take (nat (maxDecryptAttempts - (n + 1))) ps)" using Cons.prems(1) t by simp
    then show ?thesis using Cons.IH Cons.prems(2) None n q by simp
  next
    case (Some l)
    then show ?thesis using n q by simp
  qed
qed simp

text \<open>
  Whatever the file holds, the recovery of encrypted payloads reports at most sixteen, each of which looks
  like code; the keys it guesses have 4 to 64 bytes and are tried once each. And it does recover: a payload of
  PHP under a repeated exclusive-or key is reported when key and ciphertext are among the first 120 pairs.
\<close>

theorem decrypted_payloads:
  "list_all (\<lambda>l. dl_Depth l = 1 \<and> looksLikeCode L (dl_Data l)) (findDecryptedPayloads L B ord src view) \<and>
   length (findDecryptedPayloads L B ord src view) \<le> 16 \<and>
   distinct (candidateKeys L src view cached) \<and>
   list_all (\<lambda>k. 4 \<le> length k \<and> length k \<le> 64) (candidateKeys L src view cached) \<and>
   (looksLikeCode L payload \<longrightarrow> k \<noteq> [] \<longrightarrow>
    (\<lparr>cb_data = xorBytes payload k, cb_at = at\<rparr>, k) \<in>
      set (take 120 (concat (map (\<lambda>b. map (Pair b) (candidateKeys L src view cached)) (candidateCiphertexts src view)))) \<longrightarrow>
    speculativeDecrypt L B src view cached \<noteq> [])"
proof (intro conjI impI)
  have "decryptedOK L = (\<lambda>l. dl_Depth l = 1 \<and> looksLikeCode L (dl_Data l))" by (simp add: decryptedOK_def fun_eq_iff)
  then show "list_all (\<lambda>l. dl_Depth l = 1 \<and> looksLikeCode L (dl_Data l)) (findDecryptedPayloads L B ord src view)"
    "length (findDecryptedPayloads L B ord src view) \<le> 16"
    using findDecrypted_ok [of L B ord src view] by simp_all
  show "distinct (candidateKeys L src view cached)"
    "list_all (\<lambda>k. 4 \<le> length k \<and> length k \<le> 64) (candidateKeys L src view cached)"
    using candidateKeys_ok [of L src view cached] by (simp_all add: keysOK_def)
  let ?b = "\<lparr>cb_data = xorBytes payload k, cb_at = at\<rparr>"
  let ?ps = "concat (map (\<lambda>b. map (Pair b) (candidateKeys L src view cached)) (candidateCiphertexts src view))"
  assume code: "looksLikeCode L payload" and k: "k \<noteq> []" and p: "(?b, k) \<in> set (take 120 ?ps)"
  have "attempt L B (fst (?b, k)) (snd (?b, k)) \<noteq> None" using code by (simp add: attempt_def Let_def xorBytes_cancel [OF k])
  moreover have "(?b, k) \<in> set (take (nat (maxDecryptAttempts - 0)) ?ps)" using p by (simp add: maxDecryptAttempts_def)
  ultimately have s: "specLoop L B 0 ?ps \<noteq> []" by (intro specLoop_finds)
  have "(?b, k) \<in> set ?ps" using p by (rule in_set_takeD)
  then have "candidateKeys L src view cached \<noteq> []" "candidateCiphertexts src view \<noteq> []" by auto
  then show "speculativeDecrypt L B src view cached \<noteq> []" using s by (simp add: speculativeDecrypt_def)
qed

text \<open>Keys found are kept, in order.\<close>

lemma addKey_prefix: "prefix ks (addKey b ks)"
  by (simp add: addKey_def)

lemma addLiteral_prefix: "prefix (addKey lit ks) (addLiteral L lit ks)"
proof -
  define ks3 where "ks3 = addKey (hexEncode (cl_md5 L lit)) (addKey (cl_md5 L lit) (addKey lit ks))"
  have "prefix (addKey lit ks) ks3" unfolding ks3_def by (meson addKey_prefix prefix_order.trans)
  moreover have "prefix ks3 (addLiteral L lit ks)"
    unfolding addLiteral_def Let_def ks3_def [symmetric]
    by (auto split: option.split intro: addKey_prefix prefix_order.trans [OF addKey_prefix addKey_prefix])
  ultimately show ?thesis by (rule prefix_order.trans)
qed

lemma keyLoop_prefix: "prefix ks (keyLoop L src ss ks)"
proof (induction ss arbitrary: ks)
  case (Cons s ss)
  let ?lit = "unescapePHP (sliceOf src (sp_start s) (sp_end s))"
  have "prefix ks (keyLoop L src ss (addLiteral L ?lit ks))"
    using addKey_prefix addLiteral_prefix Cons.IH by (rule prefix_order.trans [OF prefix_order.trans])
  moreover have "prefix ks (keyLoop L src ss ks)" by (rule Cons.IH)
  ultimately show ?case by (simp add: Let_def)
qed simp

lemma keyLoop_first:
  assumes "length out < 40" "sp_start s < sp_end s" "sp_end s \<le> length src"
    "unescapePHP (sliceOf src (sp_start s) (sp_end s)) = lit" "lit \<noteq> []" "length lit \<le> 64"
  shows "prefix (addKey lit out) (keyLoop L src (s # ss) out)"
proof -
  have "keyLoop L src (s # ss) out = keyLoop L src ss (addLiteral L lit out)"
    using assms by (subst keyLoop.simps) (simp add: Let_def)
  then show ?thesis using prefix_order.trans [OF addLiteral_prefix keyLoop_prefix] by simp
qed

text \<open>A file with its key in one literal and the ciphertext in the next.\<close>

definition xorSource :: bytes where
  "xorSource = ''<?php $k=\"'' @ ''k3y!'' @ ''\";$d=\"'' @ b64Encode (xorBytes packedPayload ''k3y!'') @ ''\";''"

definition xorView :: phpView where
  "xorView =
     \<lparr>v_code = xorSource, v_strs = [mkSpan 10 14, mkSpan 20 84], v_comments = [], v_hasOpenTag = True,
      v_hasBacktick = False, v_heredocs = 0\<rparr>"

lemma decrypted_payloads_witness:
  "speculativeDecrypt plainLib rotateCipher xorSource xorView [] \<noteq> []"
proof -
  let ?z = "xorBytes packedPayload ''k3y!''" and ?k = "''k3y!''"
  have z: "length ?z = 46" by (simp add: length_xorBytes packedPayload_def)
  have len: "length (b64Encode ?z) = 64" using z by (simp add: length_b64Encode_eq)
  have l1: "sliceOf xorSource 10 14 = ?k" by (simp add: sliceOf_def xorSource_def)
  have l2: "sliceOf xorSource 20 84 = b64Encode ?z" using len by (simp add: sliceOf_def xorSource_def)
  have run: "isEncodedRun (b64Encode ?z)" by (rule isEncodedRun_encode) (simp add: len)
  have src: "length xorSource = 86" using len by (simp add: xorSource_def)
  have cts: "candidateCiphertexts xorSource xorView = [\<lparr>cb_data = ?z, cb_at = 20\<rparr>]"
    using l1 l2 run src z
    by (simp add: candidateCiphertexts_def xorView_def minBlobLen_def Let_def stripLayout_encode decode_encode
        maxSpeculativeCiphertext_def)
  have "unescapePHP (sliceOf xorSource (sp_start (mkSpan 10 14)) (sp_end (mkSpan 10 14))) = ?k"
    using l1 by (simp add: unescapePHP_def)
  then have "prefix (addKey ?k []) (keyLoop plainLib xorSource (v_strs xorView) [])"
    unfolding xorView_def phpView.simps by (rule keyLoop_first [rotated 3]) (simp_all add: src)
  then obtain ks where "candidateKeys plainLib xorSource xorView [] = ?k # ks"
    by (auto simp: candidateKeys_def addKey_def prefix_def)
  then have mem: "(\<lparr>cb_data = ?z, cb_at = 20\<rparr>, ?k) \<in>
      set (take 120 (concat (map (\<lambda>b. map (Pair b) (candidateKeys plainLib xorSource xorView []))
        (candidateCiphertexts xorSource xorView))))" by (simp add: cts)
  have "looksTextual packedPayload" by code_simp
  moreover have "contains packedPayload ''<?php''" by (simp add: contains_def packedPayload_def)
  ultimately have "looksLikeCode plainLib packedPayload" unfolding looksLikeCode_def by simp
  then show ?thesis
    using decrypted_payloads [of plainLib rotateCipher "\<lambda>_. []" xorSource xorView "[]" packedPayload ?k 20] mem by simp
qed

lemma mcrypt_never_decrypts_example:
  "layerOf plainLib rotateCipher ''mcrypt_decrypt'' 6 (packedPayload, ''rijndael-128'' @ ''-'' @ ''cbc'', ''key'', [], True) = None"
  by (rule mcrypt_never_decrypts) (simp_all add: mcryptCiphers_def mcryptModes_def)

end
