(* ===== verification/GoPath.thy ===== *)
theory GoPath
  imports GoStd
begin

text \<open>
  Go's \<open>path/filepath\<close> on a slash-separated system, as the containment uses it: \<open>Clean\<close>, \<open>Join\<close>, \<open>Dir\<close>,
  \<open>IsAbs\<close>. The lemmas say when joining stays below the directory joined to.
\<close>

abbreviation slash :: byte where "slash \<equiv> CHR ''/''"

section \<open>Splitting and joining\<close>

lemma goSplit_append: "goSplit c (a @ c # b) = goSplit c a @ goSplit c b"
  by (induction a) (auto split: list.split)

lemma goSplit_parts: "p \<in> set (goSplit c s) \<Longrightarrow> c \<notin> set p"
  by (induction s arbitrary: p) (auto split: list.splits if_splits)

lemma goSplit_single: "c \<notin> set s \<Longrightarrow> goSplit c s = [s]"
  by (induction s) auto

lemma goJoin_Cons: "xs \<noteq> [] \<Longrightarrow> goJoin (x # xs) sep = x @ sep @ goJoin xs sep"
  by (cases xs) auto

lemma goSplit_goJoin:
  "ps \<noteq> [] \<Longrightarrow> list_all (\<lambda>p. c \<notin> set p) ps \<Longrightarrow> goSplit c (goJoin ps [c]) = ps"
proof (induction ps)
  case (Cons p ps)
  then show ?case
    by (cases "ps = []") (simp_all add: goSplit_single goJoin_Cons goSplit_append)
qed simp

lemma goJoin_goSplit: "goJoin (goSplit c s) [c] = s"
proof (induction s)
  case (Cons x s)
  then show ?case
    by (cases "goSplit c s"; cases "tl (goSplit c s)") (auto simp: goJoin_Cons)
qed simp

lemma goJoin_append: "ps \<noteq> [] \<Longrightarrow> qs \<noteq> [] \<Longrightarrow> goJoin (ps @ qs) sep = goJoin ps sep @ sep @ goJoin qs sep"
proof (induction ps)
  case (Cons p ps)
  then show ?case by (cases "ps = []") (simp_all add: goJoin_Cons)
qed simp

section \<open>Clean and Join\<close>

text \<open>The elements of a path that \<open>Clean\<close> looks at.\<close>

definition components :: "bytes \<Rightarrow> bytes list" where
  "components p = filter (\<lambda>c. c \<noteq> [] \<and> c \<noteq> ''.'') (goSplit slash p)"

text \<open>An element \<open>..\<close> takes back the one before it; at a root it is dropped, else it stays in front.\<close>

fun resolveDots :: "bool \<Rightarrow> bytes list \<Rightarrow> bytes list \<Rightarrow> bytes list" where
  "resolveDots rooted st [] = rev st"
| "resolveDots rooted st (c # cs) =
     (if c = ''..'' then
        (case st of
           [] \<Rightarrow> resolveDots rooted (if rooted then [] else [c]) cs
         | t # ts \<Rightarrow> if t = ''..'' then resolveDots rooted (c # st) cs else resolveDots rooted ts cs)
      else resolveDots rooted (c # st) cs)"

definition renderPath :: "bool \<Rightarrow> bytes list \<Rightarrow> bytes" where
  "renderPath rooted cs =
     (if rooted then [slash] @ goJoin cs [slash] else if cs = [] then ''.'' else goJoin cs [slash])"

definition cleanPath :: "bytes \<Rightarrow> bytes" where
  "cleanPath p = renderPath (hasPrefix p [slash]) (resolveDots (hasPrefix p [slash]) [] (components p))"

definition pathJoin :: "bytes list \<Rightarrow> bytes" where
  "pathJoin es =
     (let ns = dropWhile (\<lambda>e. e = []) es
      in if ns = [] then [] else cleanPath (goJoin ns [slash]))"

definition pathDir :: "bytes \<Rightarrow> bytes" where
  "pathDir p = cleanPath (rev (dropWhile (\<lambda>c. c \<noteq> slash) (rev p)))"

text \<open>\<open>filepath.Base\<close>.\<close>

definition pathBase :: "bytes \<Rightarrow> bytes" where
  "pathBase p =
     (if p = [] then ''.''
      else (let q = rev (dropWhile (\<lambda>c. c = CHR ''/'') (rev p))
            in if q = [] then ''/'' else last (goSplit (CHR ''/'') q)))"

definition isAbs :: "bytes \<Rightarrow> bool" where
  "isAbs p = hasPrefix p [slash]"

section \<open>Staying below a directory\<close>

lemma components_append: "components (a @ slash # b) = components a @ components b"
  by (simp add: components_def goSplit_append)

lemma components_goJoin: "components (goJoin ps [slash]) = concat (map components ps)"
proof (induction ps)
  case (Cons p ps)
  then show ?case by (cases "ps = []") (simp_all add: goJoin_Cons components_append)
qed (simp add: components_def)

lemma resolveDots_append: "list_all (\<lambda>c. c \<noteq> ''..'') ds \<Longrightarrow> resolveDots r st (cs @ ds) = resolveDots r st cs @ ds"
proof (induction r st cs rule: resolveDots.induct)
  case (1 r st)
  then have "resolveDots r st ds = rev st @ ds"
    by (induction ds arbitrary: st) auto
  then show ?case by simp
next
  case (2 r st c cs)
  then show ?case by (auto split: list.split)
qed

lemma hasPrefix_goJoin: "x \<noteq> [] \<Longrightarrow> hasPrefix (goJoin (x # xs) sep) [c] = hasPrefix x [c]"
  by (cases x; cases "xs = []") (simp_all add: hasPrefix_def goJoin_Cons)

lemma renderPath_append:
  "cs \<noteq> [] \<Longrightarrow> ds \<noteq> [] \<Longrightarrow> renderPath r (cs @ ds) = renderPath r cs @ [slash] @ goJoin ds [slash]"
  by (simp add: renderPath_def goJoin_append)

text \<open>
  Joining elements none of which contains \<open>..\<close> to a directory gives a path below it.
\<close>

lemma pathJoin_below:
  assumes d: "d \<noteq> []" and es: "es \<noteq> []" and clean: "list_all (\<lambda>c. c \<noteq> ''..'') (concat (map components es))"
    and sub: "components e \<noteq> []" "list_all (\<lambda>c. c \<noteq> ''..'') (components e)"
    and base: "concat (map components es) \<noteq> []"
  shows "prefix (pathJoin (d # es) @ [slash]) (pathJoin (d # es @ [e]))"
proof -
  let ?r = "hasPrefix d [slash]"
  let ?cs = "resolveDots ?r [] (components d) @ concat (map components es)"
  have 1: "pathJoin (d # es) = renderPath ?r ?cs"
    using d clean by (simp add: pathJoin_def cleanPath_def hasPrefix_goJoin components_goJoin resolveDots_append)
  have "pathJoin (d # es @ [e]) = renderPath ?r (?cs @ components e)"
    using d clean sub(2)
    by (simp add: pathJoin_def cleanPath_def hasPrefix_goJoin components_goJoin resolveDots_append flip: append_assoc)
  also have "\<dots> = renderPath ?r ?cs @ [slash] @ goJoin (components e) [slash]"
    using base sub(1) by (intro renderPath_append) auto
  finally show ?thesis unfolding 1 by simp
qed

end
