(* ===== verification/Contain.thy ===== *)
theory Contain
  imports Report GoPath
begin

text \<open>
  Containment (\<open>agent/contain.go\<close>, and the guards of \<open>contain_linux.go\<close> and \<open>baseline.go\<close> it calls):
  launchers are disabled, processes frozen, captured and killed, files moved to the evidence store behind a
  health gate, and the bytecode cache flushed. The host is explicit: the files as a map, and an environment
  that says at each moment which system call fails, what the processes are and how the site answers.
  Effects are logged in order. File modes, directories and the files of a process capture are left out.
\<close>

section \<open>The host\<close>

datatype fsCall = FsMkdir bytes | FsRead bytes | FsStat bytes | FsWrite bytes | FsRename bytes bytes | FsRemove bytes

datatype effect =
    EvMkdir bytes
  | EvWrite bytes
  | EvMove bytes bytes
  | EvRemove bytes
  | EvStop int
  | EvCapture int bytes
  | EvKill int

record healthState =
  hs_OK :: bool
  hs_Status :: int
  hs_BodyLen :: int
  hs_Latency :: bytes
  hs_Err :: bytes

record procEntry =
  pe_pid :: int
  pe_comm :: bytes
  pe_exe :: bytes

text \<open>
  What the operating system and the site answer. The first argument is the moment: every call advances it.
  \<open>he_err\<close> is the error of a failing call, \<open>he_written\<close> how much of a failing write reached the file
  (\<open>None\<close>: it was not opened). The texts of errors, times, digests and documents are the library's.
\<close>

record hostEnv =
  he_err :: "nat \<Rightarrow> fsCall \<Rightarrow> bytes option"
  he_written :: "nat \<Rightarrow> bytes \<Rightarrow> nat option"
  he_missing :: "fsCall \<Rightarrow> bytes"
  he_sha :: "bytes \<Rightarrow> bytes"
  he_probe :: "nat \<Rightarrow> healthState"
  he_stop :: "nat \<Rightarrow> int \<Rightarrow> bytes option"
  he_kill :: "nat \<Rightarrow> int \<Rightarrow> bytes option"
  he_capture :: "nat \<Rightarrow> int \<Rightarrow> bytes option"
  he_comm :: "nat \<Rightarrow> int \<Rightarrow> bytes option"
  he_procs :: "nat \<Rightarrow> procEntry list"
  he_cancelled :: "nat \<Rightarrow> bool"
  he_fetch :: "nat \<Rightarrow> bytes + bytes"
  he_now :: "nat \<Rightarrow> bytes"
  he_stub :: bytes
  he_stamp :: bytes
  he_pid :: int
  he_ppid :: int
  he_ulow :: "nat \<Rightarrow> nat"
  he_quote :: "bytes \<Rightarrow> bytes"
  he_meta :: "Finding \<Rightarrow> bytes \<Rightarrow> bytes"

record world =
  w_time :: nat
  w_files :: "bytes \<rightharpoonup> bytes"
  w_log :: "effect list"
  w_rep :: Report

record containConfig =
  cc_DryRun :: bool
  cc_MaxActions :: int
  cc_EvidenceDir :: bytes
  cc_Home :: bytes
  cc_Webroot :: bytes

definition tick :: "world \<Rightarrow> world" where
  "tick w = w\<lparr>w_time := w_time w + 1\<rparr>"

definition logged :: "effect \<Rightarrow> world \<Rightarrow> world" where
  "logged e w = w\<lparr>w_log := w_log w @ [e]\<rparr>"

definition noted :: "ContainAction \<Rightarrow> world \<Rightarrow> world" where
  "noted a w = w\<lparr>w_rep := AddContain a (w_rep w)\<rparr>"

section \<open>System calls\<close>

definition osMkdir :: "hostEnv \<Rightarrow> bytes \<Rightarrow> world \<Rightarrow> bytes option \<times> world" where
  "osMkdir E p w =
     (case he_err E (w_time w) (FsMkdir p) of
        Some e \<Rightarrow> (Some e, tick w)
      | None \<Rightarrow> (None, logged (EvMkdir p) (tick w)))"

definition osRead :: "hostEnv \<Rightarrow> bytes \<Rightarrow> world \<Rightarrow> (bytes + bytes) \<times> world" where
  "osRead E p w =
     (case he_err E (w_time w) (FsRead p) of
        Some e \<Rightarrow> (Inl e, tick w)
      | None \<Rightarrow> (case w_files w p of None \<Rightarrow> (Inl (he_missing E (FsRead p)), tick w) | Some d \<Rightarrow> (Inr d, tick w)))"

definition osStat :: "hostEnv \<Rightarrow> bytes \<Rightarrow> world \<Rightarrow> bytes option \<times> world" where
  "osStat E p w =
     (case he_err E (w_time w) (FsStat p) of
        Some e \<Rightarrow> (Some e, tick w)
      | None \<Rightarrow> (case w_files w p of None \<Rightarrow> (Some (he_missing E (FsStat p)), tick w) | Some _ \<Rightarrow> (None, tick w)))"

definition osWrite :: "hostEnv \<Rightarrow> bytes \<Rightarrow> bytes \<Rightarrow> world \<Rightarrow> bytes option \<times> world" where
  "osWrite E p d w =
     (case he_err E (w_time w) (FsWrite p) of
        Some e \<Rightarrow>
          (case he_written E (w_time w) p of
             None \<Rightarrow> (Some e, tick w)
           | Some n \<Rightarrow> (Some e, logged (EvWrite p) ((tick w)\<lparr>w_files := (w_files w)(p \<mapsto> take n d)\<rparr>)))
      | None \<Rightarrow> (None, logged (EvWrite p) ((tick w)\<lparr>w_files := (w_files w)(p \<mapsto> d)\<rparr>)))"

definition osRename :: "hostEnv \<Rightarrow> bytes \<Rightarrow> bytes \<Rightarrow> world \<Rightarrow> bytes option \<times> world" where
  "osRename E a b w =
     (case he_err E (w_time w) (FsRename a b) of
        Some e \<Rightarrow> (Some e, tick w)
      | None \<Rightarrow>
          (case w_files w a of
             None \<Rightarrow> (Some (he_missing E (FsRename a b)), tick w)
           | Some d \<Rightarrow> (None, logged (EvMove a b) ((tick w)\<lparr>w_files := (w_files w)(a := None, b \<mapsto> d)\<rparr>))))"

definition osRemove :: "hostEnv \<Rightarrow> bytes \<Rightarrow> world \<Rightarrow> bytes option \<times> world" where
  "osRemove E p w =
     (case he_err E (w_time w) (FsRemove p) of
        Some e \<Rightarrow> (Some e, tick w)
      | None \<Rightarrow>
          (case w_files w p of
             None \<Rightarrow> (Some (he_missing E (FsRemove p)), tick w)
           | Some _ \<Rightarrow> (None, logged (EvRemove p) ((tick w)\<lparr>w_files := (w_files w)(p := None)\<rparr>))))"

definition probeHealth :: "hostEnv \<Rightarrow> world \<Rightarrow> healthState \<times> world" where
  "probeHealth E w = (he_probe E (w_time w), tick w)"

definition serving :: "healthState \<Rightarrow> bool" where
  "serving h \<longleftrightarrow> hs_OK h \<and> hs_Status h > 0 \<and> hs_Status h < 500"

definition showHealth :: "healthState \<Rightarrow> bytes" where
  "showHealth h =
     (if hs_Err h \<noteq> [] then ''error: '' @ hs_Err h
      else ''HTTP '' @ showInt (hs_Status h) @ '', '' @ showInt (hs_BodyLen h) @ '' bytes, '' @ hs_Latency h)"

text \<open>\<open>hashFile\<close>: empty when the file cannot be read.\<close>

definition hashFile :: "hostEnv \<Rightarrow> bytes \<Rightarrow> world \<Rightarrow> bytes \<times> world" where
  "hashFile E p w =
     (case osRead E p w of
        (Inl e, w1) \<Rightarrow> ([], w1)
      | (Inr d, w1) \<Rightarrow> (he_sha E d, w1))"

section \<open>Names\<close>

definition sanitize :: "bytes \<Rightarrow> bytes" where
  "sanitize s =
     concat (map (\<lambda>(r, c).
       if r < 128 \<and> (let b = char_of r :: byte
                     in (CHR ''a'' \<le> b \<and> b \<le> CHR ''z'') \<or> (CHR ''A'' \<le> b \<and> b \<le> CHR ''Z'') \<or> isDigitByte b \<or>
                        b = CHR ''-'' \<or> b = CHR ''_'' \<or> b = CHR ''.'')
       then c else ''_'') (chunks s))"

text \<open>What \<open>safeRelPath\<close> keeps of one element of a path.\<close>

definition keepPart :: "bytes \<Rightarrow> bytes option" where
  "keepPart part =
     (if part = [] \<or> part = ''.'' \<or> part = ''..'' then None
      else
        (case goIndex part '':'' of
           Some i \<Rightarrow> if drop (i + 1) part = [] then None else Some (drop (i + 1) part)
         | None \<Rightarrow> Some part))"

definition safeRelPath :: "bytes \<Rightarrow> bytes" where
  "safeRelPath p =
     (let keep = List.map_filter keepPart (goSplit slash p)
      in if keep = [] then ''unnamed'' else pathJoin keep)"

definition short :: "bytes \<Rightarrow> bytes" where
  "short s = (if length s > 12 then take 12 s else s)"

definition errString :: "bytes option \<Rightarrow> bytes" where
  "errString e = (case e of None \<Rightarrow> [] | Some t \<Rightarrow> t)"

definition evidenceDir :: "hostEnv \<Rightarrow> containConfig \<Rightarrow> Report \<Rightarrow> bytes" where
  "evidenceDir E c r =
     (if cc_EvidenceDir c \<noteq> [] then cc_EvidenceDir c
      else pathJoin [cc_Home c, ''.wordeye'', ''evidence'', sanitize (rp_Host r) @ ''_'' @ he_stamp E])"

section \<open>Targets\<close>

definition protectedProcs :: "bytes list" where
  "protectedProcs =
     [''systemd'', ''init'', ''sshd'', ''php-fpm'', ''nginx'', ''apache2'', ''httpd'',
      ''mysqld'', ''mariadbd'', ''lsphp'', ''litespeed'', ''dbus'', ''cron'', ''crond'',
      ''rsyslog'', ''docker'', ''containerd'', ''kthreadd'']"

text \<open>\<open>None\<close>: the process may be signalled; else the reason why not.\<close>

definition processIsProtected :: "hostEnv \<Rightarrow> int \<Rightarrow> bytes \<Rightarrow> bytes option" where
  "processIsProtected E pid comm =
     (if pid \<le> 1 then Some ''pid <= 1 is never a valid target''
      else if pid = he_pid E \<or> pid = he_ppid E then Some ''refusing to signal the agent or its parent''
      else if list_ex (\<lambda>p. hasPrefix (goToLower (he_ulow E) comm) p) protectedProcs
      then Some (he_quote E comm @ '' is on the protected list '' @ emDash @
             '' killing it would take the site or the host down'')
      else None)"

fun selectTargets :: "Finding list \<Rightarrow> Finding list \<times> Finding list" where
  "selectTargets [] = ([], [])"
| "selectTargets (f # fs) =
     (case selectTargets fs of
        (procs, files) \<Rightarrow>
          if fi_Confidence f \<noteq> ConfConfirmed then (procs, files)
          else if fi_ContainPID f > 0 then (f # procs, files)
          else if fi_Actionable f \<and> fi_Path f \<noteq> [] then (procs, f # files)
          else (procs, files))"

definition isLauncher :: "bytes \<Rightarrow> bool" where
  "isLauncher r \<longleftrightarrow> r = ''osp.cron_persistence'' \<or> r = ''osp.shellrc_persistence'' \<or> r = ''osp.systemd_user_unit'' \<or>
     r = ''osp.git_hook''"

definition persistenceTargets :: "Finding list \<Rightarrow> Finding list" where
  "persistenceTargets fs =
     filter (\<lambda>f. isLauncher (fi_RuleID f) \<and> (fi_Confidence f = ConfConfirmed \<or> fi_Confidence f = ConfLikely)) fs"

section \<open>Launchers\<close>

definition action :: "bytes \<Rightarrow> bytes \<Rightarrow> ContainAction" where
  "action kind target =
     \<lparr>ca_Step = 0, ca_Kind = kind, ca_Target = target, ca_PID = 0, ca_Executed = False, ca_Success = False,
      ca_Detail = [], ca_Error = [], ca_EvidencePath = []\<rparr>"

text \<open>The launcher line, commented out in place.\<close>

definition commentLine :: "bytes \<Rightarrow> int \<Rightarrow> bytes list \<Rightarrow> bytes list" where
  "commentLine now line ls =
     ls[nat (line - 1) := ''# wordeye-contained '' @ now @ '' # '' @ ls ! nat (line - 1)]"

definition neutralizePersistence :: "hostEnv \<Rightarrow> Finding \<Rightarrow> bytes \<Rightarrow> bool \<Rightarrow> world \<Rightarrow> world" where
  "neutralizePersistence E f evDir dry w =
     (let act0 = (action ''neutralize'' (fi_Path f @ '':'' @ showInt (fi_Line f)))
            \<lparr>ca_Detail := ''Comment out the launcher line so the payload cannot respawn after it is killed.''\<rparr>;
          act = act0\<lparr>ca_Executed := True\<rparr>
      in if dry then noted act0 w
         else if fi_Path f = [] \<or> fi_Line f \<le> 0 then
           noted (act\<lparr>ca_Error := ''no file/line recorded for this finding''\<rparr>) w
         else
           (case osRead E (fi_Path f) w of
              (Inl e, w1) \<Rightarrow> noted (act\<lparr>ca_Error := e\<rparr>) w1
            | (Inr orig, w1) \<Rightarrow>
                (let backup = pathJoin [evDir, ''persistence'', sanitize (trimPrefix (fi_Path f) ''/'')];
                     ls = goSplit (CHR 0x0A) orig
                 in case (case osMkdir E (pathDir backup) w1 of
                            (None, w2) \<Rightarrow> (act\<lparr>ca_EvidencePath := backup\<rparr>, snd (osWrite E backup orig w2))
                          | (Some _, w2) \<Rightarrow> (act, w2)) of
                      (act1, w3) \<Rightarrow>
                        if fi_Line f > int (length ls) then
                          noted (act1\<lparr>ca_Error := ''line number beyond end of file; file changed since the scan''\<rparr>) w3
                        else
                          (case osWrite E (fi_Path f)
                                  (goJoin (commentLine (he_now E (w_time w3)) (fi_Line f) ls) [CHR 0x0A]) w3 of
                             (Some e, w4) \<Rightarrow> noted (act1\<lparr>ca_Error := e\<rparr>) w4
                           | (None, w4) \<Rightarrow>
                               noted (act1\<lparr>ca_Success := True,
                                   ca_Detail := ''Launcher line commented out; original preserved in evidence.''\<rparr>) w4))))"

section \<open>Processes\<close>

definition procAction :: "bytes \<Rightarrow> bytes \<Rightarrow> int \<Rightarrow> ContainAction" where
  "procAction kind comm pid = (action kind comm)\<lparr>ca_PID := pid\<rparr>"

definition dryDetail :: "bytes \<Rightarrow> int \<Rightarrow> bytes \<Rightarrow> bytes" where
  "dryDetail kind pid comm =
     (if kind = ''freeze'' then
        ''Would SIGSTOP pid '' @ showInt pid @ '' ('' @ comm @ '') so it cannot react while evidence is captured.''
      else if kind = ''capture'' then
        ''Would capture /proc/'' @ showInt pid @ '' state: cmdline, exe image, maps, environ, sockets, cwd.''
      else if kind = ''kill'' then ''Would SIGKILL pid '' @ showInt pid @ '' ('' @ comm @ '').''
      else ''Would re-check for a respawn after 2.5s.'')"

text \<open>\<open>procStillIs\<close>: the kernel's own name for the process, trimmed, against the one of the scan.\<close>

definition procStillIs :: "hostEnv \<Rightarrow> int \<Rightarrow> bytes \<Rightarrow> world \<Rightarrow> bool \<times> world" where
  "procStillIs E pid comm w =
     (if comm = [] then (True, w)
      else (case he_comm E (w_time w) pid of None \<Rightarrow> False | Some b \<Rightarrow> trimSpace b = comm, tick w))"

fun respawned :: "int \<Rightarrow> int \<Rightarrow> bytes \<Rightarrow> bytes \<Rightarrow> procEntry list \<Rightarrow> int" where
  "respawned self old comm exe [] = 0"
| "respawned self old comm exe (p # ps) =
     (if pe_pid p = old \<or> pe_pid p = self then respawned self old comm exe ps
      else if comm \<noteq> [] \<and> pe_comm p = comm then pe_pid p
      else if exe \<noteq> [] \<and> pe_exe p = exe then pe_pid p
      else respawned self old comm exe ps)"

definition findRespawn :: "hostEnv \<Rightarrow> int \<Rightarrow> bytes \<Rightarrow> bytes \<Rightarrow> world \<Rightarrow> int \<times> world" where
  "findRespawn E old comm exe w = (respawned (he_pid E) old comm exe (he_procs E (w_time w)), tick w)"

definition osStop :: "hostEnv \<Rightarrow> int \<Rightarrow> world \<Rightarrow> bytes option \<times> world" where
  "osStop E pid w =
     (case he_stop E (w_time w) pid of Some e \<Rightarrow> (Some e, tick w) | None \<Rightarrow> (None, logged (EvStop pid) (tick w)))"

definition osCapture :: "hostEnv \<Rightarrow> int \<Rightarrow> bytes \<Rightarrow> world \<Rightarrow> bytes option \<times> world" where
  "osCapture E pid dir w = (he_capture E (w_time w) pid, logged (EvCapture pid dir) (tick w))"

definition osKill :: "hostEnv \<Rightarrow> int \<Rightarrow> world \<Rightarrow> bytes option \<times> world" where
  "osKill E pid w =
     (case he_kill E (w_time w) pid of Some e \<Rightarrow> (Some e, tick w) | None \<Rightarrow> (None, logged (EvKill pid) (tick w)))"

text \<open>\<open>f.Meta["comm"].(string)\<close>: empty when absent or of another type.\<close>

definition commOf :: "Finding \<Rightarrow> bytes" where
  "commOf f = (case fi_Meta f ''comm'' of Some (MetaStr s) \<Rightarrow> s | _ \<Rightarrow> [])"

text \<open>After the kill: a respawn matters more than the kill.\<close>

definition verifyKill :: "hostEnv \<Rightarrow> int \<Rightarrow> bytes \<Rightarrow> bytes \<Rightarrow> world \<Rightarrow> world" where
  "verifyKill E pid comm exe w =
     (if he_cancelled E (w_time w) then tick w
      else
        (case findRespawn E pid comm exe (tick w) of
           (again, w1) \<Rightarrow>
             if again > 0 then
               noted ((procAction ''verify'' comm again)\<lparr>ca_Executed := True,
                   ca_Detail := ''RESPAWNED as pid '' @ showInt again @ ''. A launcher is still active '' @ emDash @
                     '' the persistence mechanism was not fully neutralised. Hunt cron, rc files, systemd units and at-jobs before retrying.''\<rparr>) w1
             else
               noted ((procAction ''verify'' comm pid)\<lparr>ca_Executed := True, ca_Success := True,
                   ca_Detail := ''No respawn observed after 2.5s.''\<rparr>) w1))"

definition containProcess :: "hostEnv \<Rightarrow> Finding \<Rightarrow> bytes \<Rightarrow> bool \<Rightarrow> world \<Rightarrow> world" where
  "containProcess E f evDir dry w =
     (let pid = fi_ContainPID f; comm = commOf f
      in case processIsProtected E pid comm of
           Some reason \<Rightarrow> noted ((procAction ''kill'' comm pid)\<lparr>ca_Detail := ''Refused: '' @ reason\<rparr>) w
         | None \<Rightarrow>
             if dry then
               foldl (\<lambda>v k. noted ((procAction k comm pid)\<lparr>ca_Detail := dryDetail k pid comm\<rparr>) v) w
                 [''freeze'', ''capture'', ''kill'', ''verify'']
             else
               (case procStillIs E pid comm w of
                  (False, w1) \<Rightarrow>
                    noted ((procAction ''kill'' comm pid)\<lparr>ca_Detail := ''Refused: pid '' @ showInt pid @
                        '' no longer reports comm '' @ he_quote E comm @
                        ''. The process exited and the PID may have been reused.''\<rparr>) w1
                | (True, w1) \<Rightarrow>
                    (case osStop E pid w1 of
                       (e2, w2) \<Rightarrow>
                         (let w3 = noted ((procAction ''freeze'' comm pid)\<lparr>ca_Executed := True, ca_Success := e2 = None,
                                ca_Detail := ''SIGSTOP '' @ emDash @
                                  '' suspends the process so its volatile state can be captured intact.'',
                                ca_Error := errString e2\<rparr>) w2;
                              capDir = pathJoin [evDir, ''proc_'' @ showInt pid @ ''_'' @ sanitize comm]
                          in if e2 \<noteq> None then w3
                             else
                               (case osCapture E pid capDir w3 of
                                  (e4, w4) \<Rightarrow>
                                    (let w5 = noted ((procAction ''capture'' comm pid)\<lparr>ca_Executed := True,
                                           ca_Success := e4 = None,
                                           ca_Detail := ''Captured cmdline, exe image, maps, environ, open sockets and cwd.'',
                                           ca_EvidencePath := capDir, ca_Error := errString e4\<rparr>) w4
                                     in case osKill E pid w5 of
                                          (e6, w6) \<Rightarrow>
                                            verifyKill E pid comm (fi_Path f)
                                              (noted ((procAction ''kill'' comm pid)\<lparr>ca_Executed := True,
                                                  ca_Success := e6 = None, ca_Detail := ''SIGKILL.'',
                                                  ca_Error := errString e6\<rparr>) w6)))))))"

section \<open>Files\<close>

text \<open>\<open>moveFile\<close>: rename, or copy and remove across file systems.\<close>

definition moveFile :: "hostEnv \<Rightarrow> bytes \<Rightarrow> bytes \<Rightarrow> world \<Rightarrow> bytes option \<times> world" where
  "moveFile E a b w =
     (case osRename E a b w of
        (None, w1) \<Rightarrow> (None, w1)
      | (Some _, w1) \<Rightarrow>
          (case osRead E a w1 of
             (Inl e, w2) \<Rightarrow> (Some e, w2)
           | (Inr d, w2) \<Rightarrow>
               (case osWrite E b d w2 of
                  (Some e, w3) \<Rightarrow> (Some e, w3)
                | (None, w3) \<Rightarrow> osRemove E a w3)))"

definition absOf :: "containConfig \<Rightarrow> Finding \<Rightarrow> bytes" where
  "absOf c f = (if isAbs (fi_Path f) then fi_Path f else pathJoin [cc_Webroot c, fi_Path f])"

definition quarantineDest :: "bytes \<Rightarrow> Finding \<Rightarrow> bytes" where
  "quarantineDest evDir f = pathJoin [evDir, ''quarantine'', safeRelPath (fi_Path f)]"

text \<open>The result is where the file came from and went to, if it was moved.\<close>

definition quarantineFile :: "hostEnv \<Rightarrow> containConfig \<Rightarrow> Finding \<Rightarrow> bytes \<Rightarrow> bool \<Rightarrow> world \<Rightarrow>
    (bytes \<times> bytes) option \<times> world" where
  "quarantineFile E c f evDir dry w =
     (let abs = absOf c f; dest = quarantineDest evDir f;
          act0 = (action ''quarantine'' (fi_Path f))\<lparr>ca_Detail :=
            ''Move to the evidence store and strip permissions (never deleted, so this is reversible).''\<rparr>;
          act = act0\<lparr>ca_Executed := True\<rparr>
      in if dry then (None, noted (act0\<lparr>ca_EvidencePath := dest\<rparr>) w)
         else
           (case osStat E abs w of
              (Some e, w1) \<Rightarrow> (None, noted (act\<lparr>ca_Error := ''file no longer present: '' @ e\<rparr>) w1)
            | (None, w1) \<Rightarrow>
                (case (if fi_SHA256 f \<noteq> [] then hashFile E abs w1 else ([], w1)) of
                   (now, w2) \<Rightarrow>
                     if fi_SHA256 f \<noteq> [] \<and> now \<noteq> fi_SHA256 f then
                       (None, noted (act\<lparr>ca_Error := ''content changed since detection (was '' @ short (fi_SHA256 f) @
                           '', now '' @ short now @ '') '' @ emDash @ '' refusing to act on stale information''\<rparr>) w2)
                     else
                       (case osMkdir E (pathDir dest) w2 of
                          (Some e, w3) \<Rightarrow> (None, noted (act\<lparr>ca_Error := e\<rparr>) w3)
                        | (None, w3) \<Rightarrow>
                            (case moveFile E abs dest w3 of
                               (Some e, w4) \<Rightarrow> (None, noted (act\<lparr>ca_Error := e\<rparr>) w4)
                             | (None, w4) \<Rightarrow>
                                 (case osWrite E (dest @ ''.wordeye.json'') (he_meta E f abs) w4 of
                                    (_, w5) \<Rightarrow>
                                      (Some (abs, dest),
                                       noted (act\<lparr>ca_Success := True, ca_EvidencePath := dest\<rparr>) w5)))))))"

definition restoreQuarantine :: "hostEnv \<Rightarrow> bytes \<Rightarrow> bytes \<Rightarrow> world \<Rightarrow> bytes option \<times> world" where
  "restoreQuarantine E dest original w = (if dest = [] then (None, w) else moveFile E dest original w)"

section \<open>Bytecode cache\<close>

definition flushBody :: bytes where
  "flushBody = ''<?php if(function_exists(\"opcache_reset\")){echo opcache_reset()?\"WORDEYE_OC_OK\":\"WORDEYE_OC_NOCHANGE\";}else{echo \"WORDEYE_OC_ABSENT\";}''"

text \<open>The stub is removed on every path once it was written.\<close>

definition flushOPcache :: "hostEnv \<Rightarrow> containConfig \<Rightarrow> bool \<Rightarrow> world \<Rightarrow> world" where
  "flushOPcache E c dry w =
     (let act0 = (action ''opcache'' ''PHP-FPM opcache'')\<lparr>ca_Detail :=
            ''Drop a one-shot PHP file, request it through the origin so FPM executes opcache_reset(), then remove it. Cleaning a file does not evict its compiled bytecode.''\<rparr>;
          act = act0\<lparr>ca_Executed := True\<rparr>
      in if dry then noted act0 w
         else if cc_Webroot c = [] then noted (act\<lparr>ca_Error := ''no webroot''\<rparr>) w
         else
           (let p = pathJoin [cc_Webroot c, he_stub E]
            in case osWrite E p flushBody w of
                 (Some e, w1) \<Rightarrow> noted (act\<lparr>ca_Error := ''cannot write flush stub: '' @ e\<rparr>) w1
               | (None, w1) \<Rightarrow>
                   (let w2 = tick w1;
                        res = (case he_fetch E (w_time w1) of
                            Inl e \<Rightarrow> act\<lparr>ca_Error := e, ca_Detail := ''Could not confirm the flush over HTTP. Restart PHP for this site to be certain the old bytecode is gone.''\<rparr>
                          | Inr body \<Rightarrow>
                              if contains body ''WORDEYE_OC_OK'' \<or> contains body ''WORDEYE_OC_NOCHANGE'' then
                                act\<lparr>ca_Success := True, ca_Detail := ''OPcache reset through PHP-FPM; compiled malware bytecode evicted.''\<rparr>
                              else if contains body ''WORDEYE_OC_ABSENT'' then
                                act\<lparr>ca_Success := True, ca_Detail := ''OPcache is not enabled on this host, so there is no stale bytecode to evict.''\<rparr>
                              else act\<lparr>ca_Detail := ''Flush stub did not return an expected marker. Restart PHP for this site to be certain.''\<rparr>)
                    in snd (osRemove E p (noted res w2)))))"

section \<open>The sequence\<close>

text \<open>\<open>budget\<close>: the count of actions taken, or \<open>None\<close> once the limit is reached, which ends the containment.\<close>

definition takeAction :: "int \<Rightarrow> int \<Rightarrow> world \<Rightarrow> int option \<times> world" where
  "takeAction mx n w =
     (if n \<ge> mx then
        (None, noted ((action ''verify'' ''circuit breaker'')\<lparr>ca_Executed := True,
            ca_Detail := ''Action limit of '' @ showInt mx @ '' reached; remaining targets left untouched deliberately.''\<rparr>) w)
      else (Some (n + 1), w))"

text \<open>A loop over targets, each under the budget.\<close>

fun budgeted :: "int \<Rightarrow> (Finding \<Rightarrow> world \<Rightarrow> world) \<Rightarrow> Finding list \<Rightarrow> int \<Rightarrow> world \<Rightarrow> int option \<times> world" where
  "budgeted mx act [] n w = (Some n, w)"
| "budgeted mx act (f # fs) n w =
     (case takeAction mx n w of
        (None, w1) \<Rightarrow> (None, w1)
      | (Some n1, w1) \<Rightarrow> budgeted mx act fs n1 (act f w1))"

text \<open>After a quarantine: \<open>True\<close> when the site still serves; else the file is put back.\<close>

definition checkServing :: "hostEnv \<Rightarrow> containConfig \<Rightarrow> Finding \<Rightarrow> bytes \<Rightarrow> world \<Rightarrow> bool \<times> world" where
  "checkServing E c f dest w =
     (case probeHealth E w of
        (h, w1) \<Rightarrow>
          if serving h then
            (True, noted ((action ''verify'' (fi_Path f))\<lparr>ca_Executed := True, ca_Success := True,
                ca_Detail := ''Site still serving after quarantine '' @ emDash @ '' '' @ showHealth h\<rparr>) w1)
          else
            (case restoreQuarantine E dest (pathJoin [cc_Webroot c, fi_Path f]) w1 of
               (err, w2) \<Rightarrow>
                 (False, noted ((action ''verify'' (fi_Path f))\<lparr>ca_Executed := True,
                     ca_Detail := ''Site stopped serving after quarantining this file ('' @ showHealth h @ '') '' @
                       emDash @ '' ROLLED BACK and aborting containment. The file is likely load-bearing, or the site was already fragile.'',
                     ca_Error := errString err\<rparr>) w2)))"

text \<open>The loop over the files; \<open>None\<close> when the containment ends here.\<close>

fun fileLoop :: "hostEnv \<Rightarrow> containConfig \<Rightarrow> bytes \<Rightarrow> bool \<Rightarrow> bool \<Rightarrow> int \<Rightarrow> Finding list \<Rightarrow> int \<Rightarrow> world \<Rightarrow>
    int option \<times> world" where
  "fileLoop E c evDir dry gate mx [] n w = (Some n, w)"
| "fileLoop E c evDir dry gate mx (f # fs) n w =
     (case takeAction mx n w of
        (None, w1) \<Rightarrow> (None, w1)
      | (Some n1, w1) \<Rightarrow>
          (case quarantineFile E c f evDir dry w1 of
             (None, w2) \<Rightarrow> fileLoop E c evDir dry gate mx fs n1 w2
           | (Some (src, dest), w2) \<Rightarrow>
               if dry \<or> \<not> gate then fileLoop E c evDir dry gate mx fs n1 w2
               else
                 (case checkServing E c f dest w2 of
                    (True, w3) \<Rightarrow> fileLoop E c evDir dry gate mx fs n1 w3
                  | (False, w3) \<Rightarrow> (None, w3))))"

definition limitOf :: "containConfig \<Rightarrow> int" where
  "limitOf c = (if cc_MaxActions c \<le> 0 then 25 else cc_MaxActions c)"

text \<open>The health baseline every later probe is judged against.\<close>

definition takeBaseline :: "hostEnv \<Rightarrow> world \<Rightarrow> bool \<times> world" where
  "takeBaseline E w =
     (case probeHealth E w of
        (h, w1) \<Rightarrow>
          (let w2 = noted ((action ''verify'' ''site health baseline'')\<lparr>ca_Executed := True, ca_Success := serving h,
                  ca_Detail := showHealth h\<rparr>) w1
           in (serving h,
               if serving h then w2
               else noted ((action ''verify'' ''health gate'')\<lparr>ca_Detail :=
                   ''Site was not serving before containment began, so the health gate cannot attribute a later failure to our actions. Destructive steps proceed without automatic rollback '' @
                   emDash @ '' review manually.''\<rparr>) w2)))"

text \<open>Steps 1 to 7 for the targets.\<close>

definition containTargets :: "hostEnv \<Rightarrow> containConfig \<Rightarrow> bytes \<Rightarrow> bool \<Rightarrow> Finding list \<Rightarrow> Finding list \<Rightarrow> world \<Rightarrow> world" where
  "containTargets E c evDir gate procs files w =
     (let dry = cc_DryRun c; mx = limitOf c
      in case budgeted mx (\<lambda>f. neutralizePersistence E f evDir dry) (persistenceTargets (rp_Findings (w_rep w))) 0 w of
           (None, w1) \<Rightarrow> w1
         | (Some n1, w1) \<Rightarrow>
             (case budgeted mx (\<lambda>f. containProcess E f evDir dry) procs n1 w1 of
                (None, w2) \<Rightarrow> w2
              | (Some n2, w2) \<Rightarrow>
                  (case fileLoop E c evDir dry gate mx files n2 w2 of
                     (None, w3) \<Rightarrow> w3
                   | (Some n3, w3) \<Rightarrow>
                       (case probeHealth E (if files \<noteq> [] then flushOPcache E c dry w3 else w3) of
                          (h, w4) \<Rightarrow>
                            noted ((action ''verify'' ''site health final'')\<lparr>ca_Executed := True,
                                ca_Success := serving h, ca_Detail := showHealth h\<rparr>) w4))))"

definition runContainment :: "hostEnv \<Rightarrow> containConfig \<Rightarrow> world \<Rightarrow> world" where
  "runContainment E c w =
     (let evDir = evidenceDir E c (w_rep w)
      in case (if cc_DryRun c then (None, w) else osMkdir E evDir w) of
           (Some e, w1) \<Rightarrow>
             noted ((action ''setup'' evDir)\<lparr>ca_Executed := True,
                 ca_Error := ''cannot create evidence directory: '' @ e\<rparr>) w1
         | (None, w1) \<Rightarrow>
             (case takeBaseline E w1 of
                (gate, w2) \<Rightarrow>
                  (case selectTargets (rp_Findings (w_rep w2)) of
                     (procs, files) \<Rightarrow>
                       if procs = [] \<and> files = [] then
                         noted ((action ''verify'' ''target selection'')\<lparr>ca_Executed := True, ca_Success := True,
                             ca_Detail := ''Nothing met the containment bar (confirmed confidence and actionable). Heuristic and review-grade findings are never auto-actioned.''\<rparr>) w2
                       else containTargets E c evDir gate procs files w2)))"

end
