(* ===== verification/ContainSafety.thy ===== *)
theory ContainSafety
  imports Contain
begin

text \<open>
  What containment guarantees: the order of its stages, the limit on its actions, that a dry run touches
  nothing, that a file is never lost, that the health gate puts back what it took, and where the
  quarantined copy can end up.
\<close>

section \<open>Steps\<close>

text \<open>From one world to the next: the actions noted, by kind, and the effects, in order.\<close>

definition grew :: "world \<Rightarrow> bytes list \<Rightarrow> effect list \<Rightarrow> world \<Rightarrow> bool" where
  "grew w ks es w' \<longleftrightarrow>
     map ca_Kind (rp_Containment (w_rep w')) = map ca_Kind (rp_Containment (w_rep w)) @ ks \<and>
     w_log w' = w_log w @ es \<and> rp_Findings (w_rep w') = rp_Findings (w_rep w)"

lemma grew_refl: "grew w [] [] w"
  by (simp add: grew_def)

lemma grew_trans: "grew w ks es w1 \<Longrightarrow> grew w1 ks' es' w2 \<Longrightarrow> grew w (ks @ ks') (es @ es') w2"
  by (simp add: grew_def)

lemma grew_noted: "grew w ks es w1 \<Longrightarrow> grew w (ks @ [ca_Kind a]) es (noted a w1)"
  by (simp add: grew_def noted_def AddContain_def)

fun fileEffect :: "effect \<Rightarrow> bool" where
  "fileEffect (EvMkdir p) = True"
| "fileEffect (EvWrite p) = True"
| "fileEffect (EvMove a b) = True"
| "fileEffect (EvRemove p) = True"
| "fileEffect _ = False"

text \<open>A step of the file system only.\<close>

definition fsStep :: "world \<Rightarrow> world \<Rightarrow> bool" where
  "fsStep w w' \<longleftrightarrow> w_rep w' = w_rep w \<and> (\<exists>es. w_log w' = w_log w @ es \<and> list_all fileEffect es)"

lemma fsStep_refl [simp]: "fsStep w w"
  by (simp add: fsStep_def)

lemma fsStep_trans: "fsStep w w1 \<Longrightarrow> fsStep w1 w2 \<Longrightarrow> fsStep w w2"
  by (auto simp: fsStep_def)

lemma fsStep_tick [simp]: "fsStep w (tick w1) \<longleftrightarrow> fsStep w w1"
  by (simp add: fsStep_def tick_def)

lemma fsStep_logged: "fileEffect e \<Longrightarrow> fsStep w w1 \<Longrightarrow> fsStep w (logged e (w1\<lparr>w_files := m\<rparr>))"
  by (auto simp: fsStep_def logged_def)

lemma fsStep_logged_plain: "fileEffect e \<Longrightarrow> fsStep w w1 \<Longrightarrow> fsStep w (logged e w1)"
  by (auto simp: fsStep_def logged_def)

lemma osMkdir_fs: "osMkdir E p w = (r, w1) \<Longrightarrow> fsStep w w1"
  by (auto simp: osMkdir_def fsStep_logged_plain split: option.splits)

lemma osRead_fs: "osRead E p w = (r, w1) \<Longrightarrow> fsStep w w1"
  by (auto simp: osRead_def split: option.splits)

lemma osStat_fs: "osStat E p w = (r, w1) \<Longrightarrow> fsStep w w1"
  by (auto simp: osStat_def split: option.splits)

lemma osWrite_fs: "osWrite E p d w = (r, w1) \<Longrightarrow> fsStep w w1"
  by (auto simp: osWrite_def fsStep_logged split: option.splits)

lemma osRename_fs: "osRename E a b w = (r, w1) \<Longrightarrow> fsStep w w1"
  by (auto simp: osRename_def fsStep_logged split: option.splits)

lemma osRemove_fs: "osRemove E p w = (r, w1) \<Longrightarrow> fsStep w w1"
  by (auto simp: osRemove_def fsStep_logged split: option.splits)

lemmas os_fs = osMkdir_fs osRead_fs osStat_fs osWrite_fs osRename_fs osRemove_fs

lemma hashFile_fs: "hashFile E p w = (r, w1) \<Longrightarrow> fsStep w w1"
  by (auto simp: hashFile_def dest: osRead_fs split: prod.splits sum.splits)

lemma moveFile_fs: "moveFile E a b w = (r, w1) \<Longrightarrow> fsStep w w1"
proof (cases "osRename E a b w")
  case (Pair e w2)
  assume m: "moveFile E a b w = (r, w1)"
  have 2: "fsStep w w2" using Pair by (rule osRename_fs)
  show ?thesis
  proof (cases e)
    case None
    then show ?thesis using m Pair 2 by (simp add: moveFile_def)
  next
    case (Some x)
    obtain d w3 where 3: "osRead E a w2 = (d, w3)" by fastforce
    have f3: "fsStep w w3" using 2 osRead_fs [OF 3] by (rule fsStep_trans)
    show ?thesis
    proof (cases d)
      case (Inl y)
      then show ?thesis using m Pair Some 3 f3 by (simp add: moveFile_def)
    next
      case (Inr y)
      obtain z w4 where 4: "osWrite E b y w3 = (z, w4)" by fastforce
      have f4: "fsStep w w4" using f3 osWrite_fs [OF 4] by (rule fsStep_trans)
      show ?thesis
      proof (cases z)
        case None
        then have "osRemove E a w4 = (r, w1)" using m Pair Some 3 Inr 4 by (simp add: moveFile_def)
        then show ?thesis using f4 osRemove_fs fsStep_trans by blast
      next
        case (Some u)
        then show ?thesis using m Pair \<open>e = Some x\<close> 3 Inr 4 f4 by (simp add: moveFile_def)
      qed
    qed
  qed
qed

lemma fsStep_noted:
  assumes "fsStep w w1"
  obtains es where "grew w [ca_Kind a] es (noted a w1)" "list_all fileEffect es"
  using assms by (auto simp: fsStep_def grew_def noted_def AddContain_def)

lemma action_kind [simp]: "ca_Kind (action k t) = k" "ca_Kind (procAction k t p) = k"
  by (simp_all add: action_def procAction_def)

text \<open>File effects, then one action noted.\<close>

definition oneAction :: "bytes \<Rightarrow> world \<Rightarrow> world \<Rightarrow> bool" where
  "oneAction k w w' \<longleftrightarrow> (\<exists>a w1. w' = noted a w1 \<and> ca_Kind a = k \<and> fsStep w w1)"

lemma oneAction_noted [intro]: "ca_Kind a = k \<Longrightarrow> fsStep w w1 \<Longrightarrow> oneAction k w (noted a w1)"
  by (auto simp: oneAction_def)

lemma oneAction_grew:
  assumes "oneAction k w w'" obtains es where "grew w [k] es w'" "list_all fileEffect es"
  using assms fsStep_noted unfolding oneAction_def by blast

lemma neutralize_action: "oneAction ''neutralize'' w (neutralizePersistence E f evDir dry w)"
proof (cases "dry \<or> fi_Path f = [] \<or> fi_Line f \<le> 0")
  case True
  then show ?thesis
    by (cases dry) (simp_all add: neutralizePersistence_def Let_def oneAction_noted)
next
  case False
  then have go: "\<not> dry" "\<not> (fi_Path f = [] \<or> fi_Line f \<le> 0)" by simp_all
  obtain r w1 where 1: "osRead E (fi_Path f) w = (r, w1)" by fastforce
  have f1: "fsStep w w1" using 1 by (rule osRead_fs)
  show ?thesis
  proof (cases r)
    case (Inl e)
    then show ?thesis using go 1 f1 by (simp add: neutralizePersistence_def Let_def oneAction_noted)
  next
    case (Inr orig)
    let ?backup = "pathJoin [evDir, ''persistence'', sanitize (trimPrefix (fi_Path f) ''/'')]"
    let ?act = "(action ''neutralize'' (fi_Path f @ '':'' @ showInt (fi_Line f)))
            \<lparr>ca_Detail := ''Comment out the launcher line so the payload cannot respawn after it is killed.'', ca_Executed := True\<rparr>"
    obtain a2 w3 where 3: "(case osMkdir E (pathDir ?backup) w1 of
        (None, w2) \<Rightarrow> (?act\<lparr>ca_EvidencePath := ?backup\<rparr>, snd (osWrite E ?backup orig w2))
      | (Some _, w2) \<Rightarrow> (?act, w2)) = (a2, w3)" by fastforce
    obtain m w2 where 2: "osMkdir E (pathDir ?backup) w1 = (m, w2)" by fastforce
    have f2: "fsStep w w2" using f1 osMkdir_fs [OF 2] by (rule fsStep_trans)
    obtain x w2' where w: "osWrite E ?backup orig w2 = (x, w2')" by fastforce
    have f3: "fsStep w w3" and k: "ca_Kind a2 = ''neutralize''"
      using 3 2 w f2 fsStep_trans [OF f2 osWrite_fs [OF w]] by (auto split: option.splits)
    obtain y w4 where 4: "osWrite E (fi_Path f) (goJoin (commentLine (he_now E (w_time w3)) (fi_Line f)
        (goSplit (CHR 0x0A) orig)) [CHR 0x0A]) w3 = (y, w4)" by fastforce
    have f4: "fsStep w w4" using f3 osWrite_fs [OF 4] by (rule fsStep_trans)
    show ?thesis
      using go 1 Inr 3 4 f3 f4 k unfolding neutralizePersistence_def Let_def
      by (cases y) (simp_all add: oneAction_noted)
  qed
qed

lemma quarantine_action: "oneAction ''quarantine'' w (snd (quarantineFile E c f evDir dry w))"
proof -
  let ?abs = "absOf c f" and ?dest = "quarantineDest evDir f"
  define digest where "digest w1 = (if fi_SHA256 f \<noteq> [] then hashFile E ?abs w1 else ([], w1))" for w1
  obtain r1 w1 where 1: "osStat E ?abs w = (r1, w1)" by fastforce
  obtain h w2 where 2: "digest w1 = (h, w2)" by fastforce
  obtain r3 w3 where 3: "osMkdir E (pathDir ?dest) w2 = (r3, w3)" by fastforce
  obtain r4 w4 where 4: "moveFile E ?abs ?dest w3 = (r4, w4)" by fastforce
  obtain r5 w5 where 5: "osWrite E (?dest @ ''.wordeye.json'') (he_meta E f ?abs) w4 = (r5, w5)" by fastforce
  have f1: "fsStep w w1" using 1 by (rule osStat_fs)
  have f2: "fsStep w w2"
    using 2 f1 fsStep_trans [OF f1 hashFile_fs] by (auto simp: digest_def split: if_splits)
  have f3: "fsStep w w3" using f2 osMkdir_fs [OF 3] by (rule fsStep_trans)
  have f4: "fsStep w w4" using f3 moveFile_fs [OF 4] by (rule fsStep_trans)
  have f5: "fsStep w w5" using f4 osWrite_fs [OF 5] by (rule fsStep_trans)
  show ?thesis
    unfolding quarantineFile_def Let_def digest_def [symmetric] using f1 f2 f3 f4 f5
    by (cases r1; cases r3; cases r4) (simp_all add: 1 2 3 4 5 oneAction_noted)
qed

lemma flush_action: "\<exists>es. grew w [''opcache''] es (flushOPcache E c dry w) \<and> list_all fileEffect es"
proof (cases "dry \<or> cc_Webroot c = []")
  case True
  then have "oneAction ''opcache'' w (flushOPcache E c dry w)"
    by (cases dry) (simp_all add: flushOPcache_def Let_def oneAction_noted)
  then show ?thesis by (blast elim: oneAction_grew)
next
  case False
  obtain r w1 where 1: "osWrite E (pathJoin [cc_Webroot c, he_stub E]) flushBody w = (r, w1)" by fastforce
  have f1: "fsStep w w1" using 1 by (rule osWrite_fs)
  show ?thesis
  proof (cases r)
    case (Some e)
    then have "oneAction ''opcache'' w (flushOPcache E c dry w)"
      using False 1 f1 by (simp add: flushOPcache_def Let_def oneAction_noted)
    then show ?thesis by (blast elim: oneAction_grew)
  next
    case None
    let ?p = "pathJoin [cc_Webroot c, he_stub E]"
    obtain a where a: "flushOPcache E c dry w = snd (osRemove E ?p (noted a (tick w1)))" "ca_Kind a = ''opcache''"
      using False 1 None by (auto simp: flushOPcache_def Let_def split: sum.split)
    obtain es where es: "grew w [''opcache''] es (noted a (tick w1))" "list_all fileEffect es"
      using fsStep_noted [of w "tick w1" a] f1 a(2) by auto
    obtain x w2 where 2: "osRemove E ?p (noted a (tick w1)) = (x, w2)" by fastforce
    obtain es' where "grew (noted a (tick w1)) [] es' w2" "list_all fileEffect es'"
      using osRemove_fs [OF 2] by (auto simp: fsStep_def grew_def)
    then have "grew w [''opcache''] (es @ es') w2" "list_all fileEffect (es @ es')"
      using es grew_trans [of w "[''opcache'']" es] by fastforce+
    then show ?thesis using a 2 by auto
  qed
qed

section \<open>Processes\<close>

text \<open>The effects of containing the processes of a list of findings: each one frozen, captured and then killed.\<close>

definition mayContain :: "hostEnv \<Rightarrow> Finding \<Rightarrow> bool" where
  "mayContain E f \<longleftrightarrow> processIsProtected E (fi_ContainPID f) (commOf f) = None"

inductive procRuns :: "hostEnv \<Rightarrow> Finding list \<Rightarrow> effect list \<Rightarrow> bool" for E where
  nothing: "procRuns E [] []"
| spared: "procRuns E fs es \<Longrightarrow> procRuns E (f # fs) es"
| frozen: "procRuns E fs es \<Longrightarrow> mayContain E f \<Longrightarrow>
    procRuns E (f # fs) ([EvStop (fi_ContainPID f), EvCapture (fi_ContainPID f) d] @ es)"
| killed: "procRuns E fs es \<Longrightarrow> mayContain E f \<Longrightarrow>
    procRuns E (f # fs) ([EvStop (fi_ContainPID f), EvCapture (fi_ContainPID f) d, EvKill (fi_ContainPID f)] @ es)"

definition oneProc :: "hostEnv \<Rightarrow> Finding \<Rightarrow> effect list \<Rightarrow> bool" where
  "oneProc E f es \<longleftrightarrow>
     es = [] \<or> mayContain E f \<and>
       (\<exists>d. es = [EvStop (fi_ContainPID f), EvCapture (fi_ContainPID f) d] \<or>
            es = [EvStop (fi_ContainPID f), EvCapture (fi_ContainPID f) d, EvKill (fi_ContainPID f)])"

lemma procRuns_one: "oneProc E f es \<Longrightarrow> procRuns E fs es' \<Longrightarrow> procRuns E (f # fs) (es @ es')"
  unfolding oneProc_def using procRuns.intros by fastforce

text \<open>The grounds on which a process is noted: what one target adds to the report and to the log.\<close>

definition procKind :: "bytes \<Rightarrow> bool" where
  "procKind k \<longleftrightarrow> k = ''freeze'' \<or> k = ''capture'' \<or> k = ''kill'' \<or> k = ''verify''"

text \<open>The kinds that count as an action on a target.\<close>

definition weight :: "bytes list \<Rightarrow> nat" where
  "weight ks = length (filter (\<lambda>k. k = ''neutralize'' \<or> k = ''kill'' \<or> k = ''quarantine'') ks)"

lemma weight_append [simp]: "weight (ks @ ks') = weight ks + weight ks'"
  by (simp add: weight_def)

lemma grew_tick [simp]: "grew w ks es (tick w1) \<longleftrightarrow> grew w ks es w1"
  by (simp add: grew_def tick_def)

lemma grew_logged: "grew w ks es w1 \<Longrightarrow> grew w ks (es @ [e]) (logged e w1)"
  by (simp add: grew_def logged_def)

lemma verifyKill_grew:
  assumes "grew w ks es w1"
  shows "grew w ks es (verifyKill E pid comm exe w1) \<or> grew w (ks @ [''verify'']) es (verifyKill E pid comm exe w1)"
proof -
  have "ca_Kind a = ''verify'' \<Longrightarrow> grew w (ks @ [''verify'']) es (noted a (tick (tick w1)))" for a
    using assms grew_noted [of w ks es "tick (tick w1)" a] by simp
  then show ?thesis using assms by (simp add: verifyKill_def findRespawn_def Let_def)
qed

lemma osStop_grew:
  "osStop E pid w = (r, w1) \<Longrightarrow> grew w [] (if r = None then [EvStop pid] else []) w1"
  using grew_logged [of w "[]" "[]" "tick w"] by (auto simp: osStop_def grew_refl split: option.splits)

lemma osKill_grew:
  "osKill E pid w = (r, w1) \<Longrightarrow> grew w [] (if r = None then [EvKill pid] else []) w1"
  using grew_logged [of w "[]" "[]" "tick w"] by (auto simp: osKill_def grew_refl split: option.splits)

lemma osCapture_grew: "osCapture E pid d w = (r, w1) \<Longrightarrow> grew w [] [EvCapture pid d] w1"
  using grew_logged [of w "[]" "[]" "tick w"] by (auto simp: osCapture_def grew_refl)

lemma procStillIs_grew: "procStillIs E pid comm w = (r, w1) \<Longrightarrow> grew w [] [] w1"
  by (auto simp: procStillIs_def grew_refl split: if_splits)

lemma grew_note: "grew w ks es w1 \<Longrightarrow> ca_Kind a = k \<Longrightarrow> grew w (ks @ [k]) es (noted a w1)"
  using grew_noted by blast

definition procOutcome :: "hostEnv \<Rightarrow> Finding \<Rightarrow> world \<Rightarrow> world \<Rightarrow> bool" where
  "procOutcome E f w w' \<longleftrightarrow> (\<exists>ks es. grew w ks es w' \<and> list_all procKind ks \<and> weight ks \<le> 1 \<and> oneProc E f es)"

lemma procOutcomeI:
  "grew w ks es w' \<Longrightarrow> list_all procKind ks \<Longrightarrow> weight ks \<le> 1 \<Longrightarrow> oneProc E f es \<Longrightarrow> procOutcome E f w w'"
  by (auto simp: procOutcome_def)

text \<open>One process: frozen, captured and killed, or less, in this order.\<close>

lemma containProcess_outcome: "procOutcome E f w (containProcess E f evDir dry w)"
proof -
  let ?pid = "fi_ContainPID f" and ?comm = "commOf f"
  have spared: "procOutcome E f w (noted a v)" if "grew w [] [] v" "ca_Kind a = ''kill'' \<or> ca_Kind a = ''freeze''" for a v
    using grew_noted [OF that(1), of a] that(2)
    by (intro procOutcomeI [of w "[ca_Kind a]" "[]"]) (auto simp: procKind_def weight_def oneProc_def)
  show ?thesis
  proof (cases "processIsProtected E ?pid ?comm")
    case (Some reason)
    then show ?thesis by (simp add: containProcess_def Let_def spared grew_refl)
  next
    case None
    then have may: "mayContain E f" by (simp add: mayContain_def)
    show ?thesis
    proof (cases dry)
      case True
      have "grew w [''freeze'', ''capture'', ''kill'', ''verify''] [] (containProcess E f evDir dry w)"
        using True None by (simp add: containProcess_def Let_def grew_def noted_def AddContain_def)
      then show ?thesis
        by (rule procOutcomeI) (simp_all add: procKind_def weight_def oneProc_def)
    next
      case False
      obtain b w1 where 1: "procStillIs E ?pid ?comm w = (b, w1)" by fastforce
      note g1 = procStillIs_grew [OF 1]
      obtain e2 w2 where 2: "osStop E ?pid w1 = (e2, w2)" by fastforce
      note g2 = grew_trans [OF g1 osStop_grew [OF 2]]
      show ?thesis
      proof (cases "b \<and> e2 = None")
        case False
        then show ?thesis
          using \<open>\<not> dry\<close> None 1 2 g1 g2
          by (cases b; cases e2) (simp_all add: containProcess_def Let_def spared)
      next
        case True
        then have b: "b = True" and e2: "e2 = None" by simp_all
        let ?d = "pathJoin [evDir, ''proc_'' @ showInt ?pid @ ''_'' @ sanitize ?comm]"
        define w3 where "w3 = noted ((procAction ''freeze'' ?comm ?pid)\<lparr>ca_Executed := True, ca_Success := True,
            ca_Detail := ''SIGSTOP '' @ emDash @ '' suspends the process so its volatile state can be captured intact.'',
            ca_Error := []\<rparr>) w2"
        have g3: "grew w [''freeze''] [EvStop ?pid] w3"
          using grew_note [OF g2, of _ "''freeze''"] e2 by (simp add: w3_def)
        obtain e4 w4 where 4: "osCapture E ?pid ?d w3 = (e4, w4)" by fastforce
        define w5 where "w5 = noted ((procAction ''capture'' ?comm ?pid)\<lparr>ca_Executed := True, ca_Success := e4 = None,
            ca_Detail := ''Captured cmdline, exe image, maps, environ, open sockets and cwd.'',
            ca_EvidencePath := ?d, ca_Error := errString e4\<rparr>) w4"
        have g5: "grew w [''freeze'', ''capture''] [EvStop ?pid, EvCapture ?pid ?d] w5"
          using grew_note [OF grew_trans [OF g3 osCapture_grew [OF 4]], of _ "''capture''"] by (simp add: w5_def)
        obtain e6 w6 where 6: "osKill E ?pid w5 = (e6, w6)" by fastforce
        define es where "es = [EvStop ?pid, EvCapture ?pid ?d] @ (if e6 = None then [EvKill ?pid] else [])"
        define w7 where "w7 = noted ((procAction ''kill'' ?comm ?pid)\<lparr>ca_Executed := True, ca_Success := e6 = None,
            ca_Detail := ''SIGKILL.'', ca_Error := errString e6\<rparr>) w6"
        have g7: "grew w [''freeze'', ''capture'', ''kill''] es w7"
          using grew_note [OF grew_trans [OF g5 osKill_grew [OF 6]], of _ "''kill''"] by (simp add: w7_def es_def)
        have run: "containProcess E f evDir dry w = verifyKill E ?pid ?comm (fi_Path f) w7"
          using None \<open>\<not> dry\<close> 1 b 2 e2 4 6 unfolding containProcess_def Let_def w3_def w5_def w7_def
          by (simp add: errString_def)
        have "oneProc E f es" using may by (simp add: oneProc_def es_def)
        then show ?thesis
          using verifyKill_grew [OF g7, of E ?pid ?comm "fi_Path f"] unfolding run
          by (elim disjE) (erule procOutcomeI; simp add: procKind_def weight_def)+
      qed
    qed
  qed
qed

section \<open>Stages under the budget\<close>

text \<open>What a loop used of its budget of \<open>mx\<close> actions, \<open>n\<close> of which were taken before it.\<close>

definition spent :: "int \<Rightarrow> int \<Rightarrow> int option \<Rightarrow> nat \<Rightarrow> bool" where
  "spent mx n r used \<longleftrightarrow>
     (case r of
        None \<Rightarrow> int used \<le> mx - n
      | Some n' \<Rightarrow> n + int used \<le> n' \<and> n' \<le> mx)"

lemma takeAction_cases:
  assumes "takeAction mx n w = (r, w1)" "n \<le> mx"
  obtains (limit) "r = None" "grew w [''verify''] [] w1"
  | (go) "r = Some (n + 1)" "w1 = w" "n + 1 \<le> mx"
  using assms grew_note [OF grew_refl] by (auto simp: takeAction_def split: if_splits)

text \<open>
  A stage treats its targets one by one: an action of the stage's kinds on each, at most one of which counts,
  with effects that accumulate.
\<close>

locale contain_stage =
  fixes act :: "Finding \<Rightarrow> world \<Rightarrow> world"
    and kind :: "bytes \<Rightarrow> bool"
    and effects :: "Finding list \<Rightarrow> effect list \<Rightarrow> bool"
  assumes acts: "\<exists>ks es. grew w ks es (act f w) \<and> list_all kind ks \<and> weight ks \<le> 1 \<and>
      (\<forall>fs es'. effects fs es' \<longrightarrow> effects (f # fs) (es @ es'))"
    and kind_verify: "kind ''verify''"
    and no_effect: "effects fs []"
begin

lemma stage:
  assumes "budgeted mx act fs n w = (r, w')" and "n \<le> mx"
  shows "\<exists>ks es. grew w ks es w' \<and> list_all kind ks \<and> effects fs es \<and> spent mx n r (weight ks)"
  using assms
proof (induction fs arbitrary: n w)
  case Nil
  then show ?case
    using grew_refl no_effect by (intro exI [of _ "[]"]) (auto simp: spent_def weight_def)
next
  case (Cons f fs)
  obtain r1 w1 where 1: "takeAction mx n w = (r1, w1)" by fastforce
  from 1 Cons.prems(2) show ?case
  proof (cases rule: takeAction_cases)
    case limit
    then have "r = None" "w' = w1" using Cons.prems(1) 1 by simp_all
    then show ?thesis
      using limit kind_verify no_effect Cons.prems(2)
      by (intro exI [of _ "[''verify'']"] exI [of _ "[]"]) (simp add: spent_def weight_def)
  next
    case go
    obtain ks1 es1 where step: "grew w ks1 es1 (act f w)" "list_all kind ks1" "weight ks1 \<le> 1"
        "\<forall>fs es'. effects fs es' \<longrightarrow> effects (f # fs) (es1 @ es')"
      using acts by blast
    have "budgeted mx act fs (n + 1) (act f w) = (r, w')" using Cons.prems(1) 1 go by simp
    then obtain ks es where rest: "grew (act f w) ks es w'" "list_all kind ks" "effects fs es"
        "spent mx (n + 1) r (weight ks)"
      using Cons.IH go(3) by blast
    have "spent mx n r (weight (ks1 @ ks))"
      using rest(4) step(3) by (auto simp: spent_def split: option.splits)
    then show ?thesis
      using grew_trans [OF step(1) rest(1)] step(2,4) rest(2,3)
      by (intro exI [of _ "ks1 @ ks"] exI [of _ "es1 @ es"]) simp
  qed
qed

end

definition launcherKind :: "bytes \<Rightarrow> bool" where
  "launcherKind k \<longleftrightarrow> k = ''neutralize'' \<or> k = ''verify''"

interpretation launchers: contain_stage "\<lambda>f. neutralizePersistence E f evDir dry" launcherKind
    "\<lambda>_ es. list_all fileEffect es" for E evDir dry
proof
  fix w f
  obtain es where "grew w [''neutralize''] es (neutralizePersistence E f evDir dry w)" "list_all fileEffect es"
    using neutralize_action by (rule oneAction_grew)
  then show "\<exists>ks es. grew w ks es (neutralizePersistence E f evDir dry w) \<and> list_all launcherKind ks \<and>
      weight ks \<le> 1 \<and> (\<forall>fs es'. list_all fileEffect es' \<longrightarrow> list_all fileEffect (es @ es'))"
    by (intro exI [of _ "[''neutralize'']"] exI [of _ es]) (simp add: launcherKind_def weight_def)
qed (simp_all add: launcherKind_def)

lemma procRuns_nothing: "procRuns E fs []"
  by (induction fs) (auto intro: procRuns.intros)

interpretation processes: contain_stage "\<lambda>f. containProcess E f evDir dry" procKind "procRuns E" for E evDir dry
proof
  fix w f
  show "\<exists>ks es. grew w ks es (containProcess E f evDir dry w) \<and> list_all procKind ks \<and> weight ks \<le> 1 \<and>
      (\<forall>fs es'. procRuns E fs es' \<longrightarrow> procRuns E (f # fs) (es @ es'))"
    using containProcess_outcome [of E f w evDir dry] procRuns_one unfolding procOutcome_def by blast
qed (simp_all add: procKind_def procRuns_nothing)

definition fileKind :: "bytes \<Rightarrow> bool" where
  "fileKind k \<longleftrightarrow> k = ''quarantine'' \<or> k = ''verify''"

lemma checkServing_grew:
  assumes "checkServing E c f dest w = (ok, w')"
  shows "\<exists>es. grew w [''verify''] es w' \<and> list_all fileEffect es"
proof -
  define h where "h = he_probe E (w_time w)"
  obtain err w2 where 2: "restoreQuarantine E dest (pathJoin [cc_Webroot c, fi_Path f]) (tick w) = (err, w2)" by fastforce
  have "fsStep (tick w) w2" using 2 by (auto simp: restoreQuarantine_def dest: moveFile_fs split: if_splits)
  then have f2: "fsStep w w2" by (rule fsStep_trans [rotated]) simp
  have "oneAction ''verify'' w (snd (checkServing E c f dest w))"
    unfolding checkServing_def probeHealth_def h_def [symmetric] using 2 f2
    by (cases "serving h") (simp_all add: oneAction_noted)
  then have "oneAction ''verify'' w w'" using assms by simp
  then show ?thesis by (blast elim: oneAction_grew)
qed

lemma fileLoop_grew:
  assumes "fileLoop E c evDir dry gate mx fs n w = (r, w')" and "n \<le> mx"
  shows "\<exists>ks es. grew w ks es w' \<and> list_all fileKind ks \<and> list_all fileEffect es \<and> spent mx n r (weight ks)"
  using assms
proof (induction fs arbitrary: n w)
  case Nil
  then show ?case
    using grew_refl by (intro exI [of _ "[]"]) (auto simp: spent_def weight_def)
next
  case (Cons f fs)
  obtain r1 w1 where 1: "takeAction mx n w = (r1, w1)" by fastforce
  from 1 Cons.prems(2) show ?case
  proof (cases rule: takeAction_cases)
    case limit
    then have "r = None" "w' = w1" using Cons.prems(1) 1 by simp_all
    then show ?thesis
      using limit Cons.prems(2)
      by (intro exI [of _ "[''verify'']"] exI [of _ "[]"]) (simp add: spent_def weight_def fileKind_def)
  next
    case go
    obtain q w2 where 2: "quarantineFile E c f evDir dry w = (q, w2)" by fastforce
    obtain es1 where q: "grew w [''quarantine''] es1 w2" "list_all fileEffect es1"
      using quarantine_action [of w E c f evDir dry] 2 by (auto elim: oneAction_grew)
    have rest: "\<exists>ks es. grew w ks es w' \<and> list_all fileKind ks \<and> list_all fileEffect es \<and> spent mx n r (weight ks)"
      if loop: "fileLoop E c evDir dry gate mx fs (n + 1) w3 = (r, w')" and g: "grew w (''quarantine'' # ks0) es0 w3"
        and k: "list_all fileKind ks0" "weight ks0 = 0" "list_all fileEffect es0" for w3 ks0 es0
    proof -
      obtain ks es where "grew w3 ks es w'" "list_all fileKind ks" "list_all fileEffect es" "spent mx (n + 1) r (weight ks)"
        using Cons.IH [OF loop go(3)] by blast
      moreover have "weight (''quarantine'' # ks0 @ ks) = 1 + weight ks" using k(2) by (simp add: weight_def)
      ultimately show ?thesis
        using grew_trans [OF g] k(1,3)
        by (intro exI [of _ "(''quarantine'' # ks0) @ ks"] exI [of _ "es0 @ es"])
          (auto simp: spent_def fileKind_def split: option.splits)
    qed
    show ?thesis
    proof (cases "q = None \<or> dry \<or> \<not> gate")
      case True
      then have "fileLoop E c evDir dry gate mx fs (n + 1) w2 = (r, w')"
        using Cons.prems(1) 1 2 go by (cases q) (auto split: prod.splits)
      then show ?thesis using q by (intro rest [of w2 "[]" es1]) (simp_all add: weight_def)
    next
      case False
      then obtain src dest where d: "q = Some (src, dest)" by auto
      obtain ok w3 where 3: "checkServing E c f dest w2 = (ok, w3)" by fastforce
      obtain es2 where "grew w2 [''verify''] es2 w3" "list_all fileEffect es2"
        using checkServing_grew [OF 3] by blast
      then have g3: "grew w (''quarantine'' # [''verify'']) (es1 @ es2) w3" "list_all fileEffect (es1 @ es2)"
        using grew_trans [OF q(1)] q(2) by fastforce+
      have v: "list_all fileKind [''verify'']" "weight [''verify''] = 0" by (simp_all add: fileKind_def weight_def)
      show ?thesis
      proof (cases ok)
        case True
        then have "fileLoop E c evDir dry gate mx fs (n + 1) w3 = (r, w')"
          using Cons.prems(1) 1 2 3 go d False by simp
        then show ?thesis using g3 v by (intro rest)
      next
        case False
        then have "r = None" "w' = w3" using Cons.prems(1) 1 2 3 go d \<open>\<not> (q = None \<or> dry \<or> \<not> gate)\<close> by simp_all
        then show ?thesis
          using g3 go
          by (intro exI [of _ "[''quarantine'', ''verify'']"] exI [of _ "es1 @ es2"])
            (simp add: spent_def weight_def fileKind_def)
      qed
    qed
  qed
qed

section \<open>The order of containment\<close>

text \<open>The stage of an action: launchers, processes, files, bytecode; probes and set-up have none.\<close>

definition stageOf :: "bytes \<Rightarrow> nat list" where
  "stageOf k =
     (if k = ''neutralize'' then [1]
      else if k = ''freeze'' \<or> k = ''capture'' \<or> k = ''kill'' then [2]
      else if k = ''quarantine'' then [3]
      else if k = ''opcache'' then [4] else [])"

definition stages :: "bytes list \<Rightarrow> nat list" where
  "stages ks = concat (map stageOf ks)"

lemma stages_append [simp]: "stages (ks @ ks') = stages ks @ stages ks'"
  by (simp add: stages_def)

lemma stages_kind:
  "list_all launcherKind ks \<Longrightarrow> set (stages ks) \<subseteq> {1} \<and> sorted (stages ks)"
  "list_all procKind ks \<Longrightarrow> set (stages ks) \<subseteq> {2} \<and> sorted (stages ks)"
  "list_all fileKind ks \<Longrightarrow> set (stages ks) \<subseteq> {3} \<and> sorted (stages ks)"
proof -
  have one: "sorted xs" if "set xs \<subseteq> {x}" for xs :: "nat list" and x
    using that by (induction xs) auto
  have all: "set (stages ks) \<subseteq> {i}" if "list_all K ks" "\<And>k. K k \<Longrightarrow> set (stageOf k) \<subseteq> {i}" for K i
    using that by (induction ks) (auto simp: stages_def)
  have "set (stages ks) \<subseteq> {1}" if "list_all launcherKind ks"
    using that by (rule all) (auto simp: stageOf_def launcherKind_def)
  then show "list_all launcherKind ks \<Longrightarrow> set (stages ks) \<subseteq> {1} \<and> sorted (stages ks)" using one by blast
  have "set (stages ks) \<subseteq> {2}" if "list_all procKind ks"
    using that by (rule all) (auto simp: stageOf_def procKind_def)
  then show "list_all procKind ks \<Longrightarrow> set (stages ks) \<subseteq> {2} \<and> sorted (stages ks)" using one by blast
  have "set (stages ks) \<subseteq> {3}" if "list_all fileKind ks"
    using that by (rule all) (auto simp: stageOf_def fileKind_def)
  then show "list_all fileKind ks \<Longrightarrow> set (stages ks) \<subseteq> {3} \<and> sorted (stages ks)" using one by blast
qed

text \<open>What a run of containment adds to a report and to the log.\<close>

definition ordered :: "hostEnv \<Rightarrow> int \<Rightarrow> Finding list \<Rightarrow> bytes list \<Rightarrow> effect list \<Rightarrow> bool" where
  "ordered E mx procs ks es \<longleftrightarrow>
     sorted (stages ks) \<and> int (weight ks) \<le> mx \<and>
     (\<exists>a b d. es = a @ b @ d \<and> list_all fileEffect a \<and> procRuns E procs b \<and> list_all fileEffect d)"

lemma ordered_one: "stages ks = [] \<Longrightarrow> weight ks = 0 \<Longrightarrow> list_all fileEffect es \<Longrightarrow> 0 \<le> mx \<Longrightarrow> ordered E mx procs ks es"
  using procRuns_nothing unfolding ordered_def by (intro conjI exI [of _ es] exI [of _ "[]"]) auto

lemma ordered_before:
  "stages ks = [] \<Longrightarrow> weight ks = 0 \<Longrightarrow> list_all fileEffect es \<Longrightarrow> ordered E mx procs ks' es' \<Longrightarrow>
   ordered E mx procs (ks @ ks') (es @ es')"
  unfolding ordered_def by (metis append.assoc append_Nil list_all_append weight_append stages_append add_0)

lemma limitOf_pos: "0 \<le> limitOf c"
  by (simp add: limitOf_def)

text \<open>The three stages, the flush and the last probe, put together.\<close>

lemma containTargets_ordered:
  "\<exists>ks es. grew w ks es (containTargets E c evDir gate procs files w) \<and> ordered E (limitOf c) procs ks es"
proof -
  let ?mx = "limitOf c" and ?dry = "cc_DryRun c"
  obtain r1 w1 where 1: "budgeted ?mx (\<lambda>f. neutralizePersistence E f evDir ?dry)
      (persistenceTargets (rp_Findings (w_rep w))) 0 w = (r1, w1)" by fastforce
  obtain k1 e1 where s1: "grew w k1 e1 w1" "list_all launcherKind k1" "list_all fileEffect e1" "spent ?mx 0 r1 (weight k1)"
    using launchers.stage [OF 1 limitOf_pos] by blast
  have o1: "set (stages k1) \<subseteq> {1}" "sorted (stages k1)" using stages_kind(1) [OF s1(2)] by simp_all
  show ?thesis
  proof (cases r1)
    case None
    have "ordered E ?mx procs k1 e1"
      using o1 s1 None procRuns_nothing unfolding ordered_def spent_def
      by (intro conjI exI [of _ e1] exI [of _ "[]"]) auto
    then show ?thesis using s1(1) 1 None by (auto simp: containTargets_def Let_def)
  next
    case (Some n1)
    have n1: "int (weight k1) \<le> n1" "n1 \<le> ?mx" using s1(4) Some by (simp_all add: spent_def)
    obtain r2 w2 where 2: "budgeted ?mx (\<lambda>f. containProcess E f evDir ?dry) procs n1 w1 = (r2, w2)" by fastforce
    obtain k2 e2 where s2: "grew w1 k2 e2 w2" "list_all procKind k2" "procRuns E procs e2" "spent ?mx n1 r2 (weight k2)"
      using processes.stage [OF 2 n1(2)] by blast
    have o2: "set (stages k2) \<subseteq> {2}" "sorted (stages k2)" using stages_kind(2) [OF s2(2)] by simp_all
    have o12: "sorted (stages k1 @ stages k2)" "set (stages k1 @ stages k2) \<subseteq> {1, 2}"
      using o1 o2 by (fastforce simp: sorted_append)+
    note g2 = grew_trans [OF s1(1) s2(1)]
    show ?thesis
    proof (cases r2)
      case None
      have "ordered E ?mx procs (k1 @ k2) (e1 @ e2)"
        using o12 s1(3) s2(3,4) None n1 unfolding ordered_def spent_def
        by (intro conjI exI [of _ e1] exI [of _ e2] exI [of _ "[]"]) auto
      then show ?thesis using g2 1 2 \<open>r1 = Some n1\<close> None by (auto simp: containTargets_def Let_def)
    next
      case (Some n2)
      have n2: "n1 + int (weight k2) \<le> n2" "n2 \<le> ?mx" using s2(4) Some by (simp_all add: spent_def)
      obtain r3 w3 where 3: "fileLoop E c evDir ?dry gate ?mx files n2 w2 = (r3, w3)" by fastforce
      obtain k3 e3 where s3: "grew w2 k3 e3 w3" "list_all fileKind k3" "list_all fileEffect e3" "spent ?mx n2 r3 (weight k3)"
        using fileLoop_grew [OF 3 n2(2)] by blast
      have o3: "set (stages k3) \<subseteq> {3}" "sorted (stages k3)" using stages_kind(3) [OF s3(2)] by simp_all
      have o123: "sorted (stages k1 @ stages k2 @ stages k3)" "set (stages k1 @ stages k2 @ stages k3) \<subseteq> {1, 2, 3}"
        using o12 o3 by (fastforce simp: sorted_append)+
      have "int (weight k3) \<le> ?mx - n2" using s3(4) by (auto simp: spent_def split: option.splits)
      then have w123: "int (weight (k1 @ k2 @ k3)) \<le> ?mx" using n1 n2 by simp
      note g3 = grew_trans [OF g2 s3(1)]
      show ?thesis
      proof (cases r3)
        case None
        have "ordered E ?mx procs ((k1 @ k2) @ k3) ((e1 @ e2) @ e3)"
          using o123 w123 s1(3) s2(3) s3(3) unfolding ordered_def
          by (intro conjI exI [of _ e1] exI [of _ e2] exI [of _ e3]) auto
        then show ?thesis using g3 1 2 3 \<open>r1 = Some n1\<close> \<open>r2 = Some n2\<close> None by (auto simp: containTargets_def Let_def)
      next
        case (Some n3)
        define k4 where "k4 = (if files \<noteq> [] then [''opcache''] else [])"
        obtain e4 where s4: "grew w3 k4 e4 (if files \<noteq> [] then flushOPcache E c ?dry w3 else w3)" "list_all fileEffect e4"
          using flush_action [of w3 E c ?dry] grew_refl [of w3] by (cases "files = []") (auto simp: k4_def)
        have kinds: "stages (k4 @ [''verify'']) = (if files = [] then [] else [4])" "weight (k4 @ [''verify'']) = 0"
          by (simp_all add: k4_def stages_def stageOf_def weight_def)
        define w4 where "w4 = tick (if files \<noteq> [] then flushOPcache E c ?dry w3 else w3)"
        have g4: "grew w (((k1 @ k2) @ k3) @ k4) (((e1 @ e2) @ e3) @ e4) w4"
          using grew_trans [OF g3 s4(1)] by (simp add: w4_def)
        have run: "\<exists>a. containTargets E c evDir gate procs files w = noted a w4 \<and> ca_Kind a = ''verify''"
          using 1 2 3 \<open>r1 = Some n1\<close> \<open>r2 = Some n2\<close> Some
          by (auto simp: containTargets_def Let_def probeHealth_def w4_def)
        have "ordered E ?mx procs ((((k1 @ k2) @ k3) @ k4) @ [''verify'']) (((e1 @ e2) @ e3) @ e4)"
        proof -
          have "sorted (stages ((k1 @ k2) @ k3) @ stages (k4 @ [''verify'']))"
            using o123 unfolding sorted_append kinds by (auto simp: sorted_append)
          moreover have "int (weight (((k1 @ k2) @ k3) @ k4 @ [''verify''])) \<le> ?mx"
            unfolding weight_append [of "(k1 @ k2) @ k3"] kinds using w123 by simp
          ultimately show ?thesis
            using s1(3) s2(3) s3(3) s4(2) unfolding ordered_def
            by (intro conjI exI [of _ e1] exI [of _ e2] exI [of _ "e3 @ e4"]) auto
        qed
        then show ?thesis using run grew_note [OF g4] by fastforce
      qed
    qed
  qed
qed

lemma takeBaseline_grew:
  assumes "takeBaseline E w1 = (gate, w2)" and "grew w ks es w1"
  shows "grew w (ks @ [''verify'']) es w2 \<or> grew w (ks @ [''verify'', ''verify'']) es w2"
proof -
  define h where "h = he_probe E (w_time w1)"
  define v where "v = noted ((action ''verify'' ''site health baseline'')\<lparr>ca_Executed := True, ca_Success := serving h,
      ca_Detail := showHealth h\<rparr>) (tick w1)"
  have v: "grew w (ks @ [''verify'']) es v" unfolding v_def using assms(2) by (intro grew_note) simp_all
  have 2: "w2 = v \<or> (\<exists>a. w2 = noted a v \<and> ca_Kind a = ''verify'')"
    using assms(1) unfolding takeBaseline_def probeHealth_def Let_def prod.case h_def [symmetric] v_def [symmetric]
    by (auto split: if_splits)
  then show ?thesis using v grew_note [OF v] by fastforce
qed

text \<open>
  C15. Whatever the host answers, containment acts in order: launchers are disabled before any process is
  touched, processes before any file is moved, and the bytecode cache is flushed last. Only a process that is
  not protected is signalled; it is frozen and captured before it is killed. The actions on targets stay within
  the limit.
\<close>

theorem containment_ordered:
  "\<exists>ks es. map ca_Kind (rp_Containment (w_rep (runContainment E c w))) =
       map ca_Kind (rp_Containment (w_rep w)) @ ks \<and>
     w_log (runContainment E c w) = w_log w @ es \<and>
     ordered E (limitOf c) (fst (selectTargets (rp_Findings (w_rep w)))) ks es"
proof -
  let ?procs = "fst (selectTargets (rp_Findings (w_rep w)))"
  have "\<exists>ks es. grew w ks es (runContainment E c w) \<and> ordered E (limitOf c) ?procs ks es"
  proof -
    define evDir where "evDir = evidenceDir E c (w_rep w)"
    obtain r1 w1 where 1: "(if cc_DryRun c then (None, w) else osMkdir E evDir w) = (r1, w1)" by fastforce
    have f1: "fsStep w w1" using 1 by (auto dest: osMkdir_fs split: if_splits)
    show ?thesis
    proof (cases r1)
      case (Some e)
      then have "oneAction ''setup'' w (runContainment E c w)"
        using f1 unfolding runContainment_def Let_def evDir_def [symmetric] 1 by (simp add: oneAction_noted)
      then obtain es where "grew w [''setup''] es (runContainment E c w)" "list_all fileEffect es"
        by (rule oneAction_grew)
      then show ?thesis
        using ordered_one [of "[''setup'']" es] limitOf_pos
        by (intro exI [of _ "[''setup'']"] exI [of _ es]) (simp add: stages_def stageOf_def weight_def)
    next
      case None
      obtain gate w2 where 2: "takeBaseline E w1 = (gate, w2)" by fastforce
      obtain es0 where "w_log w1 = w_log w @ es0" and es0: "list_all fileEffect es0" and "w_rep w1 = w_rep w"
        using f1 by (auto simp: fsStep_def)
      then have g1: "grew w [] es0 w1" by (simp add: grew_def)
      obtain ks0 where g2: "grew w ks0 es0 w2" and k0: "ks0 = [''verify''] \<or> ks0 = [''verify'', ''verify'']"
        using takeBaseline_grew [OF 2 g1] by (elim disjE) (simp only: append_Nil; blast)+
      have ks0: "stages ks0 = []" "weight ks0 = 0"
        using k0 by (elim disjE; simp add: stages_def stageOf_def weight_def)+
      have same: "rp_Findings (w_rep w2) = rp_Findings (w_rep w)" using g2 by (simp add: grew_def)
      obtain procs files where sel: "selectTargets (rp_Findings (w_rep w)) = (procs, files)" by fastforce
      show ?thesis
      proof (cases "procs = [] \<and> files = []")
        case True
        then obtain a where a: "runContainment E c w = noted a w2" "ca_Kind a = ''verify''"
          using None 2 sel same unfolding runContainment_def Let_def evDir_def [symmetric] 1 by auto
        have "grew w (ks0 @ [''verify'']) es0 (runContainment E c w)" unfolding a(1) using g2 a(2) by (rule grew_note)
        moreover have "ordered E (limitOf c) procs (ks0 @ [''verify'']) es0"
          using ks0 es0 limitOf_pos by (intro ordered_one) (simp_all add: stages_def stageOf_def weight_def)
        ultimately show ?thesis using sel by auto
      next
        case False
        then have run: "runContainment E c w = containTargets E c evDir gate procs files w2"
          using None 2 sel same unfolding runContainment_def Let_def evDir_def [symmetric] 1 by auto
        obtain ks es where "grew w2 ks es (runContainment E c w)" "ordered E (limitOf c) procs ks es"
          using containTargets_ordered unfolding run by blast
        then show ?thesis
          using grew_trans [OF g2] ordered_before [OF ks0 es0] sel
          by (intro exI [of _ "ks0 @ ks"] exI [of _ "es0 @ es"]) simp
      qed
    qed
  qed
  then show ?thesis unfolding grew_def by blast
qed

section \<open>A dry run\<close>

definition untouched :: "world \<Rightarrow> world \<Rightarrow> bool" where
  "untouched w w' \<longleftrightarrow> w_files w' = w_files w \<and> w_log w' = w_log w"

lemma untouched_refl [simp]: "untouched w w"
  by (simp add: untouched_def)

lemma untouched_noted [simp]: "untouched w (noted a w1) \<longleftrightarrow> untouched w w1"
  by (simp add: untouched_def noted_def)

lemma untouched_tick [simp]: "untouched w (tick w1) \<longleftrightarrow> untouched w w1"
  by (simp add: untouched_def tick_def)

lemma untouched_trans: "untouched w w1 \<Longrightarrow> untouched w1 w2 \<Longrightarrow> untouched w w2"
  by (simp add: untouched_def)

lemma dry_neutralize: "untouched w (neutralizePersistence E f evDir True w)"
  by (simp add: neutralizePersistence_def Let_def)

lemma dry_process: "untouched w (containProcess E f evDir True w)"
  by (simp add: containProcess_def Let_def split: option.split)

lemma dry_quarantine: "quarantineFile E c f evDir True w = (q, w') \<Longrightarrow> q = None \<and> untouched w w'"
  by (auto simp: quarantineFile_def Let_def)

lemma dry_flush: "untouched w (flushOPcache E c True w)"
  by (simp add: flushOPcache_def Let_def)

lemma takeAction_untouched: "takeAction mx n w = (r, w') \<Longrightarrow> untouched w w'"
  by (auto simp: takeAction_def split: if_splits)

lemma dry_budgeted:
  "(\<And>f v. untouched v (act f v)) \<Longrightarrow> budgeted mx act fs n w = (r, w') \<Longrightarrow> untouched w w'"
proof (induction fs arbitrary: n w)
  case (Cons f fs)
  obtain r1 w1 where 1: "takeAction mx n w = (r1, w1)" by fastforce
  have w1: "untouched w w1" using 1 by (rule takeAction_untouched)
  show ?case
  proof (cases r1)
    case None
    then show ?thesis using Cons.prems(2) 1 w1 by simp
  next
    case (Some n1)
    then have "budgeted mx act fs n1 (act f w1) = (r, w')" using Cons.prems(2) 1 by simp
    then have "untouched (act f w1) w'" by (rule Cons.IH [OF Cons.prems(1)])
    then show ?thesis using w1 Cons.prems(1) untouched_trans by blast
  qed
qed simp

lemma dry_fileLoop: "fileLoop E c evDir True gate mx fs n w = (r, w') \<Longrightarrow> untouched w w'"
proof (induction fs arbitrary: n w)
  case (Cons f fs)
  obtain r1 w1 where 1: "takeAction mx n w = (r1, w1)" by fastforce
  have w1: "untouched w w1" using 1 by (rule takeAction_untouched)
  show ?case
  proof (cases r1)
    case None
    then show ?thesis using Cons.prems 1 w1 by simp
  next
    case (Some n1)
    obtain q w2 where 2: "quarantineFile E c f evDir True w1 = (q, w2)" by fastforce
    then have q: "q = None" "untouched w1 w2" using dry_quarantine by blast+
    then have "untouched w2 w'" using Cons 1 2 Some by auto
    then show ?thesis using w1 q(2) untouched_trans by blast
  qed
qed simp

lemma dry_targets:
  assumes "cc_DryRun c"
  shows "untouched w (containTargets E c evDir gate procs files w)"
proof -
  let ?mx = "limitOf c"
  obtain r1 w1 where 1: "budgeted ?mx (\<lambda>f. neutralizePersistence E f evDir True)
      (persistenceTargets (rp_Findings (w_rep w))) 0 w = (r1, w1)" by fastforce
  have u1: "untouched w w1" using dry_neutralize 1 by (rule dry_budgeted)
  show ?thesis
  proof (cases r1)
    case None
    then show ?thesis using assms 1 u1 by (simp add: containTargets_def Let_def)
  next
    case (Some n1)
    obtain r2 w2 where 2: "budgeted ?mx (\<lambda>f. containProcess E f evDir True) procs n1 w1 = (r2, w2)" by fastforce
    have u2: "untouched w w2" using u1 dry_budgeted [OF dry_process 2] by (rule untouched_trans)
    show ?thesis
    proof (cases r2)
      case None
      then show ?thesis using assms 1 2 Some u2 by (simp add: containTargets_def Let_def)
    next
      case (Some n2)
      obtain r3 w3 where 3: "fileLoop E c evDir True gate ?mx files n2 w2 = (r3, w3)" by fastforce
      have u3: "untouched w w3" using u2 dry_fileLoop [OF 3] by (rule untouched_trans)
      have "untouched w (flushOPcache E c True w3)" using u3 dry_flush by (rule untouched_trans)
      then show ?thesis
        using assms 1 2 3 \<open>r1 = Some n1\<close> Some u3
        by (cases r3) (simp_all add: containTargets_def Let_def probeHealth_def)
    qed
  qed
qed

text \<open>
  C16. A dry run of containment plans and touches nothing: no file changes, no directory is made, no process is
  signalled or captured, whatever the report holds and whatever the host answers.
\<close>

theorem dry_run_touches_nothing:
  "w_files (runContainment E (c\<lparr>cc_DryRun := True\<rparr>) w) = w_files w \<and>
   w_log (runContainment E (c\<lparr>cc_DryRun := True\<rparr>) w) = w_log w"
proof -
  let ?c = "c\<lparr>cc_DryRun := True\<rparr>"
  obtain gate w2 where 2: "takeBaseline E w = (gate, w2)" by fastforce
  have u2: "untouched w w2" using 2 by (auto simp: takeBaseline_def probeHealth_def Let_def)
  obtain procs files where sel: "selectTargets (rp_Findings (w_rep w2)) = (procs, files)" by fastforce
  have "untouched w2 (runContainment E ?c w)"
    using 2 sel dry_targets [of ?c w2] by (simp add: runContainment_def Let_def)
  then show ?thesis using u2 unfolding untouched_def by simp
qed

section \<open>Files are moved, never lost\<close>

lemma files_simps [simp]:
  "w_files (tick w) = w_files w" "w_files (noted a w) = w_files w" "w_files (logged e w) = w_files w"
  by (simp_all add: tick_def noted_def logged_def)

lemma osRead_files: "osRead E p w = (r, w') \<Longrightarrow> w_files w' = w_files w \<and> (\<forall>d. r = Inr d \<longrightarrow> w_files w p = Some d)"
  by (auto simp: osRead_def split: option.splits)

lemma osStat_files: "osStat E p w = (r, w') \<Longrightarrow> w_files w' = w_files w"
  by (auto simp: osStat_def split: option.splits)

lemma osMkdir_files: "osMkdir E p w = (r, w') \<Longrightarrow> w_files w' = w_files w"
  by (auto simp: osMkdir_def split: option.splits)

lemma hashFile_files: "hashFile E p w = (r, w') \<Longrightarrow> w_files w' = w_files w"
  by (auto simp: hashFile_def dest: osRead_files split: prod.splits sum.splits)

lemma osWrite_files:
  "osWrite E p d w = (r, w') \<Longrightarrow> (r = None \<longrightarrow> w_files w' p = Some d) \<and> (\<forall>q. q \<noteq> p \<longrightarrow> w_files w' q = w_files w q)"
  by (auto simp: osWrite_def logged_def split: option.splits)

lemma osRename_files:
  "osRename E a b w = (r, w') \<Longrightarrow>
   (case r of
      None \<Rightarrow> (\<exists>d. w_files w a = Some d \<and> w_files w' = (w_files w)(a := None, b \<mapsto> d))
    | Some _ \<Rightarrow> w_files w' = w_files w)"
  by (auto simp: osRename_def logged_def split: option.splits)

lemma osRemove_files:
  "osRemove E p w = (r, w') \<Longrightarrow> w_files w' = (if r = None then (w_files w)(p := None) else w_files w)"
  by (auto simp: osRemove_def logged_def split: option.splits)

text \<open>A move either succeeds or leaves the file where it was; only the two paths are touched.\<close>

lemma moveFile_files:
  assumes m: "moveFile E a b w = (r, w')" and ne: "a \<noteq> b" and a: "w_files w a = Some d"
  shows "(if r = None then w_files w' b = Some d \<and> w_files w' a = None else w_files w' a = Some d) \<and>
    (\<forall>p. p \<noteq> a \<longrightarrow> p \<noteq> b \<longrightarrow> w_files w' p = w_files w p)"
proof -
  obtain r1 w1 where 1: "osRename E a b w = (r1, w1)" by fastforce
  show ?thesis
  proof (cases r1)
    case None
    then have "r = None" "w' = w1" using m 1 by (simp_all add: moveFile_def)
    then show ?thesis using osRename_files [OF 1] None a ne by auto
  next
    case (Some e)
    then have f1: "w_files w1 = w_files w" using osRename_files [OF 1] by simp
    obtain r2 w2 where 2: "osRead E a w1 = (r2, w2)" by fastforce
    have f2: "w_files w2 = w_files w" using osRead_files [OF 2] f1 by simp
    show ?thesis
    proof (cases r2)
      case (Inl x)
      then have "r = Some x" "w' = w2" using m 1 Some 2 by (simp_all add: moveFile_def)
      then show ?thesis using f2 a by simp
    next
      case (Inr d')
      then have d': "d' = d" using osRead_files [OF 2] f1 a by simp
      obtain r3 w3 where 3: "osWrite E b d w2 = (r3, w3)" by fastforce
      note f3 = osWrite_files [OF 3]
      show ?thesis
      proof (cases r3)
        case (Some x)
        then have "r = Some x" "w' = w3" using m 1 \<open>r1 = Some e\<close> 2 Inr d' 3 by (simp_all add: moveFile_def)
        then show ?thesis using f3 f2 a ne by simp
      next
        case None
        then have "osRemove E a w3 = (r, w')" using m 1 Some 2 Inr d' 3 by (simp add: moveFile_def)
        from osRemove_files [OF this] show ?thesis using f3 f2 a ne None by simp
      qed
    qed
  qed
qed

lemma moveFile_missing: "moveFile E a b w = (None, w') \<Longrightarrow> w_files w a \<noteq> None"
  by (auto simp: moveFile_def osRename_def osRead_def split: option.splits prod.splits sum.splits)

text \<open>A quarantined file is in the evidence store as it was, gone from its place, and nothing else moved.\<close>

lemma quarantineFile_files:
  assumes q: "quarantineFile E c f evDir dry w = (Some (src, dest), w')"
    and ne: "absOf c f \<noteq> quarantineDest evDir f" "absOf c f \<noteq> quarantineDest evDir f @ ''.wordeye.json''"
  shows "src = absOf c f \<and> dest = quarantineDest evDir f \<and>
    (\<exists>d. w_files w src = Some d \<and> w_files w' dest = Some d \<and> w_files w' src = None \<and>
         (fi_SHA256 f \<noteq> [] \<longrightarrow> he_sha E d = fi_SHA256 f)) \<and>
    (\<forall>p. p \<noteq> src \<longrightarrow> p \<noteq> dest \<longrightarrow> p \<noteq> dest @ ''.wordeye.json'' \<longrightarrow> w_files w' p = w_files w p)"
proof -
  let ?abs = "absOf c f" and ?dest = "quarantineDest evDir f"
  define digest where "digest w1 = (if fi_SHA256 f \<noteq> [] then hashFile E ?abs w1 else ([], w1))" for w1
  obtain r1 w1 where 1: "osStat E ?abs w = (r1, w1)" by fastforce
  obtain h w2 where 2: "digest w1 = (h, w2)" by fastforce
  obtain r3 w3 where 3: "osMkdir E (pathDir ?dest) w2 = (r3, w3)" by fastforce
  obtain r4 w4 where 4: "moveFile E ?abs ?dest w3 = (r4, w4)" by fastforce
  obtain r5 w5 where 5: "osWrite E (?dest @ ''.wordeye.json'') (he_meta E f ?abs) w4 = (r5, w5)" by fastforce
  have ok: "r1 = None \<and> r3 = None \<and> r4 = None \<and> \<not> (fi_SHA256 f \<noteq> [] \<and> h \<noteq> fi_SHA256 f)"
    and out: "src = ?abs" "dest = ?dest" "w_files w' = w_files w5"
    using q unfolding quarantineFile_def Let_def digest_def [symmetric]
    by (auto simp: 1 2 3 4 5 split: if_splits option.splits)
  have f2: "w_files w2 = w_files w"
    using osStat_files [OF 1] 2 hashFile_files [of E ?abs w1] by (auto simp: digest_def split: if_splits)
  have f3: "w_files w3 = w_files w" using osMkdir_files [OF 3] f2 by simp
  obtain d where d: "w_files w3 ?abs = Some d" using moveFile_missing 4 ok by fastforce
  have f4: "w_files w4 ?dest = Some d" "w_files w4 ?abs = None" "\<forall>p. p \<noteq> ?abs \<longrightarrow> p \<noteq> ?dest \<longrightarrow> w_files w4 p = w_files w3 p"
    using moveFile_files [OF 4 ne(1) d] ok by simp_all
  have hash: "fi_SHA256 f \<noteq> [] \<longrightarrow> he_sha E d = fi_SHA256 f"
  proof
    assume s: "fi_SHA256 f \<noteq> []"
    then have "hashFile E ?abs w1 = (fi_SHA256 f, w2)" using 2 ok by (simp add: digest_def)
    then show "he_sha E d = fi_SHA256 f"
      using s d f3 osStat_files [OF 1] osRead_files [of E ?abs w1]
      by (auto simp: hashFile_def split: prod.splits sum.splits)
  qed
  have f5: "\<forall>p. p \<noteq> ?dest @ ''.wordeye.json'' \<longrightarrow> w_files w5 p = w_files w4 p" using osWrite_files [OF 5] by simp
  show ?thesis using out f3 f4 f5 hash d ne by simp
qed


section \<open>Where the evidence goes\<close>

lemma keepPart_plain:
  "keepPart part = Some q \<Longrightarrow> slash \<notin> set part \<Longrightarrow> q \<noteq> [] \<and> slash \<notin> set q"
  by (auto simp: keepPart_def split: if_splits option.splits dest: in_set_dropD)

lemma keepPart_dots:
  "keepPart part = Some q \<Longrightarrow> \<not> hasSuffix part '':.'' \<Longrightarrow> \<not> hasSuffix part '':..'' \<Longrightarrow> q \<noteq> ''.'' \<and> q \<noteq> ''..''"
proof (cases "goIndex part '':''")
  case (Some i)
  assume k: "keepPart part = Some q" and suf: "\<not> hasSuffix part '':.''" "\<not> hasSuffix part '':..''"
  have i: "i < length part" "part ! i = CHR '':''" using Some by (simp_all add: goIndex_single_Some)
  have "q = drop (i + 1) part" using k Some by (auto simp: keepPart_def split: if_splits)
  then have "drop i part = '':'' @ q" using i by (metis Cons_nth_drop_Suc Suc_eq_plus1 append_Cons append_Nil)
  then have "suffix ('':'' @ q) part" by (metis suffix_drop)
  then show ?thesis using suf unfolding hasSuffix_suffix by auto
qed (auto simp: keepPart_def split: if_splits)

lemma components_single: "slash \<notin> set q \<Longrightarrow> q \<noteq> [] \<Longrightarrow> q \<noteq> ''.'' \<Longrightarrow> components q = [q]"
  by (simp add: components_def goSplit_single)

lemma components_pathJoin:
  assumes ne: "keep \<noteq> []"
    and ok: "\<forall>q\<in>set keep. slash \<notin> set q \<and> q \<noteq> [] \<and> q \<noteq> ''.'' \<and> q \<noteq> ''..''"
  shows "components (pathJoin keep) = keep"
proof -
  obtain k ks where keep: "keep = k # ks" using ne by (cases keep) auto
  have k: "k \<noteq> []" "\<not> hasPrefix k [slash]" using ok keep by (cases k; auto simp: hasPrefix_def)+
  have comps: "concat (map components keep) = keep" using ok by (induction keep) (auto simp: components_single)
  have "list_all (\<lambda>c. c \<noteq> ''..'') keep" using ok by (auto simp: list_all_iff)
  then have dots: "resolveDots False [] keep = keep" using resolveDots_append [of keep False "[]" "[]"] by simp
  have "hasPrefix (goJoin keep [slash]) [slash] = hasPrefix k [slash]"
    unfolding keep using k(1) by (rule hasPrefix_goJoin)
  then have "cleanPath (goJoin keep [slash]) = goJoin keep [slash]"
    using k(2) ne by (simp add: cleanPath_def components_goJoin comps dots renderPath_def)
  then have "pathJoin keep = goJoin keep [slash]" using k(1) by (simp add: pathJoin_def keep)
  then show ?thesis by (simp add: components_goJoin comps)
qed

text \<open>
  C18. A quarantined file stays inside the evidence store, whatever its path, absolute or with any number of
  \<open>..\<close>, as long as no element of the path ends in a colon and one or two dots. Such an element is taken for
  a drive prefix and becomes a step out of the store, see \<open>quarantine_escapes\<close>.
\<close>

theorem quarantine_inside:
  assumes "evDir \<noteq> []"
    and "list_all (\<lambda>part. \<not> hasSuffix part '':.'' \<and> \<not> hasSuffix part '':..'') (goSplit slash (fi_Path f))"
  shows "prefix (pathJoin [evDir, ''quarantine''] @ [slash]) (quarantineDest evDir f)"
proof -
  define keep where "keep = List.map_filter keepPart (goSplit slash (fi_Path f))"
  have ok: "\<forall>q\<in>set keep. slash \<notin> set q \<and> q \<noteq> [] \<and> q \<noteq> ''.'' \<and> q \<noteq> ''..''"
  proof
    fix q assume "q \<in> set keep"
    then obtain part where part: "part \<in> set (goSplit slash (fi_Path f))" "keepPart part = Some q"
      by (auto simp: keep_def map_filter_def)
    have "\<not> hasSuffix part '':.''" "\<not> hasSuffix part '':..''" using part(1) assms(2) by (simp_all add: list_all_iff)
    then show "slash \<notin> set q \<and> q \<noteq> [] \<and> q \<noteq> ''.'' \<and> q \<noteq> ''..''"
      using keepPart_plain [OF part(2) goSplit_parts [OF part(1)]] keepPart_dots [OF part(2)] by simp
  qed
  have safe: "components (safeRelPath (fi_Path f)) = (if keep = [] then [''unnamed''] else keep)"
    using components_pathJoin [OF _ ok] components_single [of "''unnamed''"]
    by (simp add: safeRelPath_def Let_def keep_def [symmetric])
  have q: "components ''quarantine'' = [''quarantine'']" by (rule components_single) simp_all
  have "prefix (pathJoin (evDir # [''quarantine'']) @ [slash]) (pathJoin (evDir # [''quarantine''] @ [safeRelPath (fi_Path f)]))"
  proof (rule pathJoin_below [OF assms(1)])
    show "list_all (\<lambda>c. c \<noteq> ''..'') (components (safeRelPath (fi_Path f)))"
      using ok safe by (auto simp: list_all_iff)
  qed (simp_all add: q safe)
  then show ?thesis by (simp add: quarantineDest_def)
qed

definition fileFinding :: "bytes \<Rightarrow> Finding" where
  "fileFinding p = zeroFinding\<lparr>fi_Path := p, fi_Confidence := ConfConfirmed, fi_Actionable := True\<rparr>"

lemma quarantine_inside_witness:
  "prefix (pathJoin [''/e'', ''quarantine''] @ [slash]) (quarantineDest ''/e'' (fileFinding ''a/../C:x/b.php''))"
proof (rule quarantine_inside)
  show "list_all (\<lambda>part. \<not> hasSuffix part '':.'' \<and> \<not> hasSuffix part '':..'')
      (goSplit slash (fi_Path (fileFinding ''a/../C:x/b.php'')))"
    by (simp add: fileFinding_def hasSuffix_def)
qed simp

text \<open>Directories named \<open>x:..\<close> lead the copy out of the evidence store.\<close>

lemma quarantine_escapes: "quarantineDest ''/e'' (fileFinding ''x:../x:../etc/job.php'') = ''/etc/job.php''"
  by code_simp

section \<open>Examples\<close>

text \<open>A host where every call succeeds and the site does not serve.\<close>

definition downEnv :: hostEnv where
  "downEnv =
     \<lparr>he_err = (\<lambda>_ _. None), he_written = (\<lambda>_ _. None), he_missing = (\<lambda>_. ''missing''), he_sha = id,
      he_probe = (\<lambda>_. \<lparr>hs_OK = False, hs_Status = 0, hs_BodyLen = 0, hs_Latency = [], hs_Err = ''refused''\<rparr>),
      he_stop = (\<lambda>_ _. None), he_kill = (\<lambda>_ _. None), he_capture = (\<lambda>_ _. None), he_comm = (\<lambda>_ _. None),
      he_procs = (\<lambda>_. []), he_cancelled = (\<lambda>_. False), he_fetch = (\<lambda>_. Inl ''refused''), he_now = (\<lambda>_. ''now''),
      he_stub = ''stub.php'', he_stamp = ''stamp'', he_pid = 100, he_ppid = 99, he_ulow = id, he_quote = id,
      he_meta = (\<lambda>_ _. ''{}'')\<rparr>"

definition worldOf :: "(bytes \<rightharpoonup> bytes) \<Rightarrow> world" where
  "worldOf m = \<lparr>w_time = 0, w_files = m, w_log = [], w_rep = emptyReport\<rparr>"

definition someConfig :: containConfig where
  "someConfig = \<lparr>cc_DryRun = False, cc_MaxActions = 0, cc_EvidenceDir = ''/e'', cc_Home = ''/root'', cc_Webroot = ''/w''\<rparr>"

lemmas containment_defs =
  quarantineFile_def checkServing_def probeHealth_def serving_def restoreQuarantine_def moveFile_def osRename_def
  osStat_def osMkdir_def osWrite_def osRead_def osRemove_def tick_def logged_def noted_def AddContain_def
  downEnv_def worldOf_def someConfig_def fileFinding_def zeroFinding_def action_def emptyReport_def


text \<open>An absolute path is moved back below the web root, not to its place: the file stays away.\<close>

lemma absolute_not_restored:
  "w_files (snd (checkServing downEnv someConfig (fileFinding ''/w/a.php'') ''/e/quarantine/w/a.php''
     (snd (quarantineFile downEnv someConfig (fileFinding ''/w/a.php'') ''/e'' False
       (worldOf [''/w/a.php'' \<mapsto> ''<?php'']))))) ''/w/a.php'' = None"
proof -
  let ?w = "worldOf [''/w/a.php'' \<mapsto> ''<?php'']" and ?f = "fileFinding ''/w/a.php''"
  obtain q w1 where 1: "quarantineFile downEnv someConfig ?f ''/e'' False ?w = (q, w1)" by fastforce
  have abs: "absOf someConfig ?f = ''/w/a.php''" by code_simp
  have dest: "quarantineDest ''/e'' ?f = ''/e/quarantine/w/a.php''" by code_simp
  have w1: "w_files w1 = [''/e/quarantine/w/a.php'' \<mapsto> ''<?php'', ''/e/quarantine/w/a.php.wordeye.json'' \<mapsto> ''{}'']"
    using 1 unfolding quarantineFile_def abs dest by (auto simp: containment_defs Let_def fun_eq_iff)
  have join: "pathJoin [cc_Webroot someConfig, fi_Path ?f] = ''/w/w/a.php''" by code_simp
  have "w_files (snd (checkServing downEnv someConfig ?f ''/e/quarantine/w/a.php'' w1)) ''/w/a.php'' = None"
    unfolding checkServing_def join using w1
    by (simp add: probeHealth_def serving_def restoreQuarantine_def moveFile_def osRename_def downEnv_def)
  then show ?thesis using 1 by simp
qed

definition launcherFinding :: "int \<Rightarrow> Finding" where
  "launcherFinding n = zeroFinding\<lparr>fi_RuleID := ''osp.cron_persistence'', fi_Path := ''/c'', fi_Line := n,
     fi_Confidence := ConfLikely\<rparr>"

text \<open>The backup of the second launcher line of a file replaces the backup of the original.\<close>

lemma neutralize_twice:
  "w_files (neutralizePersistence downEnv (launcherFinding 2) ''/e'' False
     (neutralizePersistence downEnv (launcherFinding 1) ''/e'' False (worldOf [''/c'' \<mapsto> ''a'' @ [CHR 0x0A] @ ''b''])))
     ''/e/persistence/c'' = Some (''# wordeye-contained now # a'' @ [CHR 0x0A] @ ''b'')"
proof -
  have b: "pathJoin [''/e'', ''persistence'', sanitize (trimPrefix ''/c'' ''/'')] = ''/e/persistence/c''" by code_simp
  have f: "fi_Path (launcherFinding n) = ''/c''" "fi_Line (launcherFinding n) = n" for n
    by (simp_all add: launcherFinding_def)
  show ?thesis
    unfolding neutralizePersistence_def f b Let_def
    by (simp add: containment_defs commentLine_def)
qed

text \<open>The launcher is rewritten, and its original reported safe, even when no backup could be made.\<close>

definition fullEnv :: hostEnv where
  "fullEnv = downEnv\<lparr>he_err := (\<lambda>_ call. case call of FsMkdir _ \<Rightarrow> Some ''no space'' | _ \<Rightarrow> None)\<rparr>"

lemma neutralize_without_backup:
  "let w = neutralizePersistence fullEnv (launcherFinding 1) ''/e'' False (worldOf [''/c'' \<mapsto> ''a''])
   in w_files w = [''/c'' \<mapsto> ''# wordeye-contained now # a''] \<and>
      map (\<lambda>a. (ca_Success a, ca_Detail a)) (rp_Containment (w_rep w)) =
        [(True, ''Launcher line commented out; original preserved in evidence.'')]"
proof -
  have f: "fi_Path (launcherFinding 1) = ''/c''" "fi_Line (launcherFinding 1) = 1"
    by (simp_all add: launcherFinding_def)
  show ?thesis
    unfolding neutralizePersistence_def f Let_def fullEnv_def
    by (simp add: containment_defs commentLine_def)
qed

end
