(* ===== verification/Governor.thy ===== *)
theory Governor
  imports GoStd Complex_Main
begin

text \<open>
  The governor of a scan (\<open>internal/govern/govern.go\<close>): profiles, the load signal, and the gate every read passes,
  a pause while the machine is busy and a token bucket over bytes. Times are nanoseconds. Tokens, pressure and
  load are rationals: the rounding of floating point numbers is left out. What the sampler reads and how long a
  sleep really takes are parameters. The gate's mutex makes each pass over the bucket one step.
\<close>

section \<open>Profiles\<close>

abbreviation "second \<equiv> 1000000000 :: int"
abbreviation "minute \<equiv> 60 * second"

record govConfig =
  gc_Workers :: int
  gc_MaxLoadPerCore :: rat
  gc_IOBytesPerSec :: int
  gc_Nice :: int
  gc_MemLimitMB :: int
  gc_Deadline :: int

text \<open>\<open>n\<close> is the number of CPUs this process may use.\<close>

definition ForProfile :: "int \<Rightarrow> bytes \<Rightarrow> govConfig" where
  "ForProfile n p =
     (if p = ''safe'' then
        \<lparr>gc_Workers = 1, gc_MaxLoadPerCore = 6 / 10, gc_IOBytesPerSec = 8 * 1048576, gc_Nice = 15,
         gc_MemLimitMB = 128, gc_Deadline = 45 * minute\<rparr>
      else if p = ''fast'' then
        \<lparr>gc_Workers = n, gc_MaxLoadPerCore = 0, gc_IOBytesPerSec = 0, gc_Nice = 0, gc_MemLimitMB = 1024,
         gc_Deadline = 30 * minute\<rparr>
      else
        (let w1 = goQuot n 4; w2 = (if w1 < 2 then 2 else w1); w3 = (if w2 > 4 then 4 else w2);
             w = (if w3 > n then n else w3)
         in \<lparr>gc_Workers = w, gc_MaxLoadPerCore = 15 / 10, gc_IOBytesPerSec = 48 * 1048576, gc_Nice = 10,
             gc_MemLimitMB = 256, gc_Deadline = 30 * minute\<rparr>))"

text \<open>\<open>usableCPUs\<close> of a host with so many processors and a quota of so many; 0 when there is none.\<close>

definition usableCPUs :: "int \<Rightarrow> rat \<Rightarrow> int" where
  "usableCPUs host q =
     (if q \<le> 0 then host
      else (let n = \<lfloor>q\<rfloor>; n1 = (if n < 1 then 1 else n) in if n1 > host then host else n1))"

text \<open>\<open>quote\<close> is \<open>%q\<close>.\<close>

definition ParseProfile :: "(bytes \<Rightarrow> bytes) \<Rightarrow> bytes \<Rightarrow> bytes + bytes" where
  "ParseProfile quote s =
     (if s = ''safe'' \<or> s = ''balanced'' \<or> s = ''fast'' then Inr s
      else if s = [] then Inr ''balanced''
      else Inl (''unknown profile '' @ quote s @ '' (want safe|balanced|fast)''))"

section \<open>State\<close>

record governor =
  gv_cfg :: govConfig
  gv_tokens :: rat
  gv_last :: int
  gv_capacity :: rat
  gv_throttled :: bool
  gv_paused :: int
  gv_loadMilli :: int
  gv_usingPSI :: bool
  gv_pressure :: int
  gv_gaveUp :: bool
  gv_started :: int

definition newGovernor :: "int \<Rightarrow> govConfig \<Rightarrow> governor" where
  "newGovernor now cfg =
     (let cfg' = (if gc_Workers cfg < 1 then cfg\<lparr>gc_Workers := 1\<rparr> else cfg);
          cap = of_int (gc_IOBytesPerSec cfg) * 2
      in \<lparr>gv_cfg = cfg', gv_tokens = cap, gv_last = now, gv_capacity = cap, gv_throttled = False, gv_paused = 0,
          gv_loadMilli = 0, gv_usingPSI = False, gv_pressure = 0, gv_gaveUp = False, gv_started = now\<rparr>)"

definition maxPressurePct :: rat where "maxPressurePct = 40"

text \<open>\<open>int64(f)\<close>: towards zero.\<close>

definition truncRat :: "rat \<Rightarrow> int" where
  "truncRat q = (if q \<ge> 0 then \<lfloor>q\<rfloor> else \<lceil>q\<rceil>)"

text \<open>One reading of the sampler: the pressure when there is one, else the load of the last minute.\<close>

definition sampleLoad :: "rat \<Rightarrow> rat option \<Rightarrow> rat option \<Rightarrow> governor \<Rightarrow> governor" where
  "sampleLoad ncpu psi load g =
     (case psi of
        Some p \<Rightarrow> g\<lparr>gv_usingPSI := True, gv_pressure := truncRat (p * 100), gv_throttled := p > maxPressurePct\<rparr>
      | None \<Rightarrow>
          (case load of
             None \<Rightarrow> g
           | Some l \<Rightarrow> g\<lparr>gv_loadMilli := truncRat (l * 1000),
               gv_throttled := l / ncpu > gc_MaxLoadPerCore (gv_cfg g)\<rparr>))"

definition throttleBudgetExceeded :: "int \<Rightarrow> governor \<Rightarrow> bool" where
  "throttleBudgetExceeded now g =
     (let elapsed = now - gv_started g
      in if elapsed < 60 * second then False else gv_paused g > goQuot elapsed 2)"

section \<open>The gate\<close>

definition pausedFor :: "int \<Rightarrow> governor \<Rightarrow> governor" where
  "pausedFor d g = g\<lparr>gv_paused := gv_paused g + d\<rparr>"

text \<open>
  The loop of the load pause. \<open>slept i\<close> is how long the i-th sleep took, \<open>cancelled i\<close> whether the context was
  cancelled during it, \<open>sampled i\<close> what the sampler did meanwhile. The result is the time and the governor, or
  \<open>Inl\<close> when cancelled; \<open>None\<close> when the fuel is used up.
\<close>

fun loadPause :: "nat \<Rightarrow> (nat \<Rightarrow> int) \<Rightarrow> (nat \<Rightarrow> bool) \<Rightarrow> (nat \<Rightarrow> governor \<Rightarrow> governor) \<Rightarrow> nat \<Rightarrow> int \<Rightarrow> governor \<Rightarrow>
    (governor + int \<times> governor) option" where
  "loadPause 0 slept cancelled sampled i now g = None"
| "loadPause (Suc n) slept cancelled sampled i now g =
     (if \<not> (gv_throttled g \<and> \<not> gv_gaveUp g) then Some (Inr (now, g))
      else if throttleBudgetExceeded now g then Some (Inr (now, g\<lparr>gv_gaveUp := True\<rparr>))
      else if cancelled i then Some (Inl g)
      else loadPause n slept cancelled sampled (i + 1) (now + slept i) (pausedFor (slept i) (sampled i g)))"

text \<open>One pass over the bucket: refilled, then charged, or the time to wait.\<close>

definition refill :: "int \<Rightarrow> governor \<Rightarrow> governor" where
  "refill now g =
     (let t = gv_tokens g + of_int (now - gv_last g) / of_int second * of_int (gc_IOBytesPerSec (gv_cfg g))
      in g\<lparr>gv_tokens := (if t > gv_capacity g then gv_capacity g else t), gv_last := now\<rparr>)"

definition wanted :: "governor \<Rightarrow> int \<Rightarrow> rat" where
  "wanted g n = (if of_int n > gv_capacity g then gv_capacity g else of_int n)"

definition waitFor :: "governor \<Rightarrow> int \<Rightarrow> int" where
  "waitFor g n =
     (let deficit = wanted g n - gv_tokens g;
          w = truncRat (deficit / of_int (gc_IOBytesPerSec (gv_cfg g)) * of_int second);
          w1 = (if w < 1000000 then 1000000 else w)
      in if w1 > 2 * second then 2 * second else w1)"

definition takeTokens :: "int \<Rightarrow> int \<Rightarrow> governor \<Rightarrow> int option \<times> governor" where
  "takeTokens now n g =
     (let g1 = refill now g
      in if gv_tokens g1 \<ge> wanted g1 n then (None, g1\<lparr>gv_tokens := gv_tokens g1 - wanted g1 n\<rparr>)
         else (Some (waitFor g1 n), g1))"

text \<open>The loop over the bucket, for a worker alone; \<open>late i\<close> is by how much the i-th sleep was too long.\<close>

fun ioPause :: "nat \<Rightarrow> (nat \<Rightarrow> int) \<Rightarrow> (nat \<Rightarrow> bool) \<Rightarrow> nat \<Rightarrow> int \<Rightarrow> int \<Rightarrow> governor \<Rightarrow> (governor + int \<times> governor) option" where
  "ioPause 0 late cancelled i n now g = None"
| "ioPause (Suc k) late cancelled i n now g =
     (case takeTokens now n g of
        (None, g1) \<Rightarrow> Some (Inr (now, g1))
      | (Some wait, g1) \<Rightarrow>
          if cancelled i then Some (Inl g1)
          else ioPause k late cancelled (i + 1) n (now + wait + late i) (pausedFor (wait + late i) g1))"

definition Gate :: "nat \<Rightarrow> (nat \<Rightarrow> int) \<Rightarrow> (nat \<Rightarrow> int) \<Rightarrow> (nat \<Rightarrow> bool) \<Rightarrow> (nat \<Rightarrow> governor \<Rightarrow> governor) \<Rightarrow> int \<Rightarrow> int \<Rightarrow>
    governor \<Rightarrow> (governor + int \<times> governor) option" where
  "Gate fuel slept late cancelled sampled n now g =
     (case loadPause fuel slept cancelled sampled 0 now g of
        None \<Rightarrow> None
      | Some (Inl g1) \<Rightarrow> Some (Inl g1)
      | Some (Inr (now1, g1)) \<Rightarrow>
          if gc_IOBytesPerSec (gv_cfg g1) \<le> 0 then Some (Inr (now1, g1))
          else ioPause fuel late cancelled 0 n now1 g1)"

section \<open>What the report says of it\<close>

record govStats =
  gs_PausedMS :: int
  gs_LoadAvg1 :: rat
  gs_Throttling :: bool
  gs_Workers :: int
  gs_IOBytesPerSec :: int
  gs_MaxLoadPerCore :: rat
  gs_UsingPSI :: bool
  gs_PressurePct :: rat
  gs_ThrottleGaveUp :: bool

definition governorStats :: "governor \<Rightarrow> govStats" where
  "governorStats g =
     \<lparr>gs_PausedMS = goQuot (gv_paused g) 1000000, gs_LoadAvg1 = of_int (gv_loadMilli g) / 1000,
      gs_Throttling = gv_throttled g, gs_Workers = gc_Workers (gv_cfg g),
      gs_IOBytesPerSec = gc_IOBytesPerSec (gv_cfg g), gs_MaxLoadPerCore = gc_MaxLoadPerCore (gv_cfg g),
      gs_UsingPSI = gv_usingPSI g, gs_PressurePct = of_int (gv_pressure g) / 100, gs_ThrottleGaveUp = gv_gaveUp g\<rparr>"

section \<open>Profiles are modest\<close>

lemma usableCPUs_bounds: "1 \<le> host \<Longrightarrow> 1 \<le> usableCPUs host q \<and> usableCPUs host q \<le> host"
  by (simp add: usableCPUs_def Let_def)

lemma ForProfile_workers:
  "n \<ge> 1 \<Longrightarrow> 1 \<le> gc_Workers (ForProfile n p) \<and> gc_Workers (ForProfile n p) \<le> n \<and>
   (p \<noteq> ''fast'' \<longrightarrow> gc_Workers (ForProfile n p) \<le> 4)"
  by (auto simp: ForProfile_def Let_def)

text \<open>The workers never outnumber a quota of at least one processor.\<close>

lemma workers_within_quota:
  assumes "1 \<le> host" "1 \<le> q"
  shows "of_int (gc_Workers (ForProfile (usableCPUs host q) p)) \<le> q"
proof -
  have "usableCPUs host q \<le> \<lfloor>q\<rfloor>" using assms(2) by (simp add: usableCPUs_def Let_def)
  moreover have "gc_Workers (ForProfile (usableCPUs host q) p) \<le> usableCPUs host q"
    using usableCPUs_bounds [OF assms(1), of q] ForProfile_workers by blast
  ultimately show ?thesis by (simp add: le_floor_iff [symmetric])
qed

section \<open>The rate\<close>

text \<open>A governor whose bucket can be used.\<close>

definition bucketOk :: "governor \<Rightarrow> bool" where
  "bucketOk g \<longleftrightarrow> 0 < gc_IOBytesPerSec (gv_cfg g) \<and> gv_capacity g = 2 * of_int (gc_IOBytesPerSec (gv_cfg g)) \<and>
     0 \<le> gv_tokens g \<and> gv_tokens g \<le> gv_capacity g"

text \<open>Passes over the bucket by any workers, in the order in which they get the mutex: the bytes charged.\<close>

fun passes :: "(int \<times> int) list \<Rightarrow> governor \<Rightarrow> rat \<times> governor" where
  "passes [] g = (0, g)"
| "passes ((now, n) # cs) g =
     (case takeTokens now n g of
        (None, g1) \<Rightarrow> (case passes cs g1 of (c, g2) \<Rightarrow> (wanted g n + c, g2))
      | (Some _, g1) \<Rightarrow> passes cs g1)"

lemma refill_simps [simp]:
  "gv_cfg (refill now g) = gv_cfg g" "gv_capacity (refill now g) = gv_capacity g" "gv_last (refill now g) = now"
  "wanted (refill now g) n = wanted g n"
  by (simp_all add: refill_def Let_def wanted_def)

lemma refill_tokens:
  assumes "bucketOk g" "gv_last g \<le> now"
  shows "bucketOk (refill now g)" "gv_tokens g \<le> gv_tokens (refill now g)"
    "gv_tokens (refill now g) \<le> gv_tokens g + of_int (now - gv_last g) / of_int second * of_int (gc_IOBytesPerSec (gv_cfg g))"
proof -
  let ?d = "of_int (now - gv_last g) / of_int second * of_int (gc_IOBytesPerSec (gv_cfg g)) :: rat"
  have d: "0 \<le> ?d" using assms by (simp add: bucketOk_def)
  have t: "gv_tokens (refill now g) = min (gv_capacity g) (gv_tokens g + ?d)"
    by (simp add: refill_def Let_def min_def)
  show "gv_tokens g \<le> gv_tokens (refill now g)" "gv_tokens (refill now g) \<le> gv_tokens g + ?d"
    unfolding t using d assms(1) by (simp_all add: bucketOk_def)
  then show "bucketOk (refill now g)" using assms(1) t by (simp add: bucketOk_def)
qed

lemma wanted_le: "bucketOk g \<Longrightarrow> wanted g n \<le> gv_capacity g"
  by (simp add: wanted_def)

lemma takeTokens_ok:
  assumes "bucketOk g" "gv_last g \<le> now" "0 \<le> n" "takeTokens now n g = (r, g1)"
  shows "bucketOk g1 \<and> gv_last g1 = now \<and> gv_cfg g1 = gv_cfg g \<and> gv_capacity g1 = gv_capacity g \<and>
    (if r = None then wanted g n else 0) + gv_tokens g1 \<le>
      gv_tokens g + of_int (now - gv_last g) / of_int second * of_int (gc_IOBytesPerSec (gv_cfg g))"
proof -
  note r = refill_tokens [OF assms(1,2)]
  have w: "0 \<le> wanted g n" using assms(1,3) by (auto simp: wanted_def bucketOk_def)
  show ?thesis
  proof (cases "gv_tokens (refill now g) \<ge> wanted g n")
    case True
    then have "r = None" "g1 = (refill now g)\<lparr>gv_tokens := gv_tokens (refill now g) - wanted g n\<rparr>"
      using assms(4) by (simp_all add: takeTokens_def Let_def)
    then show ?thesis using r w True by (simp add: bucketOk_def)
  next
    case False
    then have "r = Some (waitFor (refill now g) n)" "g1 = refill now g"
      using assms(4) by (auto simp: takeTokens_def Let_def)
    then show ?thesis using r by simp
  qed
qed

text \<open>The calls come in the order of their times, and read nothing negative.\<close>

fun callsFrom :: "int \<Rightarrow> (int \<times> int) list \<Rightarrow> bool" where
  "callsFrom t [] = True"
| "callsFrom t ((now, n) # cs) = (t \<le> now \<and> 0 \<le> n \<and> callsFrom now cs)"

lemma passes_bound:
  assumes "bucketOk g" "callsFrom (gv_last g) cs" "passes cs g = (c, g2)"
  shows "bucketOk g2 \<and> gv_cfg g2 = gv_cfg g \<and> gv_last g \<le> gv_last g2 \<and>
    c + gv_tokens g2 \<le>
      gv_tokens g + of_int (gv_last g2 - gv_last g) / of_int second * of_int (gc_IOBytesPerSec (gv_cfg g))"
  using assms
proof (induction cs arbitrary: g c g2)
  case Nil
  then show ?case by simp
next
  case (Cons x cs)
  obtain now n where x: "x = (now, n)" by (cases x)
  obtain r g1 where t: "takeTokens now n g = (r, g1)" by (cases "takeTokens now n g")
  obtain c' g' where p: "passes cs g1 = (c', g')" by (cases "passes cs g1")
  have ord: "gv_last g \<le> now" "0 \<le> n" "callsFrom now cs" using Cons.prems(2) x by simp_all
  note ok = takeTokens_ok [OF Cons.prems(1) ord(1,2) t]
  then have cfg: "gv_cfg g1 = gv_cfg g" and last: "gv_last g1 = now" and b1: "bucketOk g1" by simp_all
  have res: "g2 = g'" "c = (if r = None then wanted g n else 0) + c'"
    using Cons.prems(3) x t p by (auto split: option.splits)
  have ih: "bucketOk g' \<and> gv_cfg g' = gv_cfg g1 \<and> gv_last g1 \<le> gv_last g' \<and> c' + gv_tokens g' \<le>
      gv_tokens g1 + of_int (gv_last g' - gv_last g1) / of_int second * of_int (gc_IOBytesPerSec (gv_cfg g1))"
    by (rule Cons.IH [OF b1 _ p]) (simp add: last ord)
  define f where "f d = (of_int d / of_int second * of_int (gc_IOBytesPerSec (gv_cfg g)) :: rat)" for d :: int
  have "f (gv_last g' - gv_last g) = f (now - gv_last g) + f (gv_last g' - now)"
    by (simp add: f_def field_simps)
  moreover have "c' + gv_tokens g' \<le> gv_tokens g1 + f (gv_last g' - now)" using ih by (simp add: f_def cfg last)
  moreover have "(if r = None then wanted g n else 0) + gv_tokens g1 \<le> gv_tokens g + f (now - gv_last g)"
    using ok by (simp add: f_def)
  ultimately have "c + gv_tokens g2 \<le> gv_tokens g + f (gv_last g2 - gv_last g)" using res by simp
  then show ?case using ih res ord(1) cfg last by (simp add: f_def)
qed

section \<open>The pauses end\<close>

text \<open>The sampler touches neither the clock of the pauses nor the bucket.\<close>

definition samplerOk :: "(governor \<Rightarrow> governor) \<Rightarrow> bool" where
  "samplerOk f \<longleftrightarrow> (\<forall>g. gv_paused (f g) = gv_paused g \<and> gv_started (f g) = gv_started g \<and>
     gv_cfg (f g) = gv_cfg g \<and> gv_tokens (f g) = gv_tokens g \<and> gv_capacity (f g) = gv_capacity g \<and>
     gv_last (f g) = gv_last g)"

lemma samplerOk_sampleLoad: "samplerOk (sampleLoad ncpu psi load)"
  by (simp add: samplerOk_def sampleLoad_def split: option.splits)

lemma samplerOk_id: "samplerOk (\<lambda>g. g)"
  by (simp add: samplerOk_def)

text \<open>Pauses of 250 ms or more, however long the signal lasts: after enough of them the budget is exceeded.\<close>

lemma throttleBudgetExceeded_iff:
  "0 \<le> now - gv_started g \<Longrightarrow>
   throttleBudgetExceeded now g \<longleftrightarrow> 60 * second \<le> now - gv_started g \<and> (now - gv_started g) div 2 < gv_paused g"
  by (auto simp: throttleBudgetExceeded_def Let_def goQuot_def)

lemma loadPause_returns:
  assumes slept: "\<And>i. 250000000 \<le> slept i" and smp: "\<And>i. samplerOk (sampled i)"
  shows "\<lbrakk>0 \<le> now - gv_started g; 60 * second - (now - gv_started g) \<le> int n * 250000000;
      (now - gv_started g) - 2 * gv_paused g < int n * 250000000\<rbrakk> \<Longrightarrow>
    \<exists>r. loadPause (Suc n) slept cancelled sampled i now g = Some r"
proof (induction n arbitrary: i now g)
  case 0
  then have "throttleBudgetExceeded now g" by (subst throttleBudgetExceeded_iff) auto
  then show ?case by simp
next
  case (Suc n)
  define g' where "g' = pausedFor (slept i) (sampled i g)"
  have g': "gv_started g' = gv_started g" "gv_paused g' = gv_paused g + slept i"
    using smp [of i] by (simp_all add: g'_def pausedFor_def samplerOk_def)
  have "\<exists>r. loadPause (Suc n) slept cancelled sampled (i + 1) (now + slept i) g' = Some r"
    by (rule Suc.IH) (use Suc.prems slept [of i] g' in \<open>simp_all add: algebra_simps\<close>)
  then show ?case by (subst loadPause.simps) (simp add: g'_def del: loadPause.simps)
qed

lemma loadPause_keeps:
  assumes smp: "\<And>i. samplerOk (sampled i)" and slept: "\<And>i. 0 \<le> slept i"
  shows "loadPause n slept cancelled sampled i now g = Some (Inr (now1, g1)) \<Longrightarrow>
    now \<le> now1 \<and> gv_cfg g1 = gv_cfg g \<and> gv_tokens g1 = gv_tokens g \<and> gv_capacity g1 = gv_capacity g \<and> gv_last g1 = gv_last g"
proof (induction n arbitrary: i now g)
  case 0
  then show ?case by simp
next
  case (Suc n)
  define g' where "g' = pausedFor (slept i) (sampled i g)"
  have g': "gv_cfg g' = gv_cfg g" "gv_tokens g' = gv_tokens g" "gv_capacity g' = gv_capacity g" "gv_last g' = gv_last g"
    using smp [of i] by (simp_all add: g'_def pausedFor_def samplerOk_def)
  show ?case
    using Suc.prems Suc.IH [of "i + 1" "now + slept i" g'] g' slept [of i]
    by (auto simp: g'_def [symmetric] split: if_splits)
qed

lemma loadPause_uncancelled:
  "loadPause n slept cancelled sampled i now g = Some r \<Longrightarrow> (\<And>i. \<not> cancelled i) \<Longrightarrow> \<exists>now1 g1. r = Inr (now1, g1)"
  by (induction n slept cancelled sampled i now g rule: loadPause.induct) (auto split: if_splits)

text \<open>Two waits are enough for a worker alone: the first covers the deficit but for a nanosecond.\<close>

lemma takeTokens_waits:
  assumes ok: "bucketOk g" and t: "takeTokens now n g = (Some w, g1)" and o: "gv_last g \<le> now"
  shows "1000000 \<le> w" "gv_tokens g1 + of_int w / of_int second * of_int (gc_IOBytesPerSec (gv_cfg g)) \<ge>
     wanted g n - of_int (gc_IOBytesPerSec (gv_cfg g)) / of_int second"
proof -
  define R :: rat where "R = of_int (gc_IOBytesPerSec (gv_cfg g))"
  have g1: "g1 = refill now g" "w = waitFor (refill now g) n" and short: "gv_tokens g1 < wanted g n"
    using t by (auto simp: takeTokens_def Let_def split: if_splits)
  have ok1: "bucketOk g1" using refill_tokens [OF ok o] g1 by simp
  have R: "0 < R" using ok by (simp add: R_def bucketOk_def)
  define v where "v = (wanted g n - gv_tokens g1) / R * of_int second"
  have "wanted g n \<le> 2 * R" using wanted_le [OF ok] ok by (simp add: bucketOk_def R_def)
  then have "wanted g n - gv_tokens g1 \<le> 2 * R" using ok1 by (simp add: bucketOk_def)
  then have "(wanted g n - gv_tokens g1) / R \<le> 2" using R by (simp add: divide_le_eq)
  then have v2: "v \<le> of_int (2 * second)"
    using mult_right_mono [of "(wanted g n - gv_tokens g1) / R" 2 "of_int second"] by (simp add: v_def)
  have v0: "0 \<le> v" using R short by (simp add: v_def)
  have fl: "\<lfloor>v\<rfloor> \<le> 2 * second" using v2 by (simp add: floor_le_iff)
  have w: "w = (if \<lfloor>v\<rfloor> < 1000000 then 1000000 else \<lfloor>v\<rfloor>)"
    using fl v0 by (simp add: g1 waitFor_def Let_def truncRat_def v_def R_def)
  show "1000000 \<le> w" using w by simp
  have "\<lfloor>v\<rfloor> \<le> w" using w by simp
  then have "v - 1 \<le> of_int w" by linarith
  then have "(v - 1) / of_int second * R \<le> of_int w / of_int second * R" using R by (simp add: divide_right_mono)
  moreover have "(v - 1) / of_int second * R = wanted g n - gv_tokens g1 - R / of_int second"
    using R by (simp add: v_def field_simps)
  ultimately show "gv_tokens g1 + of_int w / of_int second * of_int (gc_IOBytesPerSec (gv_cfg g)) \<ge>
     wanted g n - of_int (gc_IOBytesPerSec (gv_cfg g)) / of_int second"
    by (simp add: R_def [symmetric])
qed

lemma pausedFor_simps [simp]:
  "gv_cfg (pausedFor d g) = gv_cfg g" "gv_tokens (pausedFor d g) = gv_tokens g"
  "gv_capacity (pausedFor d g) = gv_capacity g" "gv_last (pausedFor d g) = gv_last g"
  "wanted (pausedFor d g) n = wanted g n" "bucketOk (pausedFor d g) = bucketOk g"
  by (simp_all add: pausedFor_def wanted_def bucketOk_def)

text \<open>What the bucket holds \<open>d\<close> later, but for \<open>m\<close>.\<close>

lemma refill_gain:
  assumes "bucketOk g" "0 \<le> m" "gv_last g \<le> t"
    "wanted g n \<le> gv_tokens g + of_int (t - gv_last g) / of_int second * of_int (gc_IOBytesPerSec (gv_cfg g)) + m"
  shows "wanted g n \<le> gv_tokens (refill t g) + m"
  using assms wanted_le [OF assms(1), of n] by (simp add: refill_def Let_def)

lemma later_gains:
  assumes "bucketOk g" "0 \<le> l"
  shows "of_int w / of_int second * of_int (gc_IOBytesPerSec (gv_cfg g)) \<le>
    (of_int (w + l) / of_int second * of_int (gc_IOBytesPerSec (gv_cfg g)) :: rat)"
proof (rule mult_right_mono)
  show "of_int w / of_int second \<le> (of_int (w + l) / of_int second :: rat)"
    using assms(2) by (simp add: divide_right_mono)
  show "0 \<le> (of_int (gc_IOBytesPerSec (gv_cfg g)) :: rat)" using assms(1) by (simp add: bucketOk_def)
qed

lemma takeTokens_second:
  assumes ok: "bucketOk g" and o: "gv_last g \<le> now" and n: "0 \<le> n" and t1: "takeTokens now n g = (Some w, g1)"
    and l: "0 \<le> l" and t2: "takeTokens (now + w + l) n (pausedFor d g1) = (Some w', g2)" and l': "0 \<le> l'"
  shows "\<exists>g3. takeTokens (now + w + l + w' + l') n (pausedFor d' g2) = (None, g3)"
proof -
  define R :: rat where "R = of_int (gc_IOBytesPerSec (gv_cfg g))"
  note w1 = takeTokens_waits [OF ok t1 o]
  note k1 = takeTokens_ok [OF ok o n t1]
  have b1: "bucketOk (pausedFor d g1)" using k1 by simp
  have o1: "gv_last (pausedFor d g1) \<le> now + w + l" using k1 w1(1) l by simp
  note w2 = takeTokens_waits [OF b1 t2 o1]
  note k2 = takeTokens_ok [OF b1 o1 n t2]
  have R: "0 < R" using ok by (simp add: R_def bucketOk_def)
  have W: "wanted g1 n = wanted g n" "wanted g2 n = wanted g n" using k1 k2 by (simp_all add: wanted_def)
  have c: "gc_IOBytesPerSec (gv_cfg g1) = gc_IOBytesPerSec (gv_cfg g)"
    "gc_IOBytesPerSec (gv_cfg g2) = gc_IOBytesPerSec (gv_cfg g)" using k1 k2 by simp_all
  define f where "f t = (of_int t / of_int second * R :: rat)" for t :: int
  have "f w \<le> f (w + l)" using later_gains [OF ok l, of w] by (simp only: f_def R_def)
  moreover have "wanted g n - R / of_int second \<le> gv_tokens g1 + f w" using w1(2) by (simp only: f_def R_def)
  ultimately have need: "wanted g n \<le> gv_tokens g1 + f (w + l) + R / of_int second" by linarith
  have "gv_last g1 = now" using k1 by simp
  then have "f (w + l) = of_int (now + w + l - gv_last (pausedFor d g1)) / of_int second *
      of_int (gc_IOBytesPerSec (gv_cfg (pausedFor d g1)))" by (simp add: f_def R_def c)
  then have "wanted (pausedFor d g1) n \<le> gv_tokens (refill (now + w + l) (pausedFor d g1)) + R / of_int second"
    using refill_gain [OF b1 _ o1, of "R / of_int second" n] need R W by simp
  moreover have "g2 = refill (now + w + l) (pausedFor d g1)"
    using t2 by (auto simp: takeTokens_def Let_def split: if_splits)
  ultimately have g2: "wanted g n \<le> gv_tokens g2 + R / of_int second" using W by simp
  have "R / of_int second \<le> of_int (w' + l') / of_int second * R"
  proof -
    have "(1 :: rat) \<le> of_int (w' + l')" using w2(1) l' by (simp only: of_int_1_le_iff)
    then show ?thesis using R mult_right_mono [of 1 "of_int (w' + l')" "R / of_int second"] by simp
  qed
  then have need2: "wanted g n \<le> gv_tokens g2 + f (w' + l') + 0" using g2 by (simp only: f_def)
  have b2: "bucketOk (pausedFor d' g2)" and o2: "gv_last (pausedFor d' g2) \<le> now + w + l + w' + l'"
    using k2 w2(1) l' by simp_all
  have "gv_last g2 = now + w + l" using k2 by simp
  then have "f (w' + l') = of_int (now + w + l + w' + l' - gv_last (pausedFor d' g2)) / of_int second *
      of_int (gc_IOBytesPerSec (gv_cfg (pausedFor d' g2)))" by (simp add: f_def R_def c)
  then have "wanted g2 n \<le> gv_tokens (refill (now + w + l + w' + l') (pausedFor d' g2)) + 0"
    using refill_gain [OF b2 _ o2, of 0 n] need2 W by simp
  then show ?thesis by (simp add: takeTokens_def Let_def)
qed

lemma ioPause_returns:
  assumes ok: "bucketOk g" "gv_last g \<le> now" "0 \<le> n" and late: "\<And>i. 0 \<le> late i" and go: "\<And>i. \<not> cancelled i"
  shows "\<exists>now1 g1. ioPause (Suc (Suc (Suc k))) late cancelled 0 n now g = Some (Inr (now1, g1))"
proof (cases "takeTokens now n g")
  case 1: (Pair r1 g1)
  show ?thesis
  proof (cases r1)
    case None
    then show ?thesis using 1 by simp
  next
    case w: (Some w)
    obtain r2 g2 where 2: "takeTokens (now + w + late 0) n (pausedFor (w + late 0) g1) = (r2, g2)" by fastforce
    show ?thesis
    proof (cases r2)
      case None
      then show ?thesis using 1 2 w go by simp
    next
      case w': (Some w')
      obtain g3 where "takeTokens (now + w + late 0 + w' + late 1) n (pausedFor (w' + late 1) g2) = (None, g3)"
        using takeTokens_second [OF ok 1 [unfolded w] late [of 0] 2 [unfolded w'] late [of 1]] by blast
      then show ?thesis using 1 2 w w' go by simp
    qed
  qed
qed

section \<open>Properties\<close>

lemma newGovernor_bucket: "0 < gc_IOBytesPerSec cfg \<Longrightarrow> bucketOk (newGovernor now cfg)"
  by (simp add: newGovernor_def Let_def bucketOk_def)

text \<open>C19. The bytes charged by all the passes of all the workers, in whatever order they get the bucket, never
  exceed what a full bucket holds, two seconds' worth, plus the configured rate times the time that has passed since
  the governor was made.\<close>

theorem gate_rate:
  assumes "0 < gc_IOBytesPerSec cfg" "callsFrom start cs" "passes cs (newGovernor start cfg) = (c, g)"
  shows "c \<le> of_int (gc_IOBytesPerSec cfg) * (2 + of_int (gv_last g - start) / of_int second)"
proof -
  note b = newGovernor_bucket [OF assms(1), of start]
  have s: "gv_last (newGovernor start cfg) = start" "gv_tokens (newGovernor start cfg) = of_int (gc_IOBytesPerSec cfg) * 2"
    "gc_IOBytesPerSec (gv_cfg (newGovernor start cfg)) = gc_IOBytesPerSec cfg"
    by (simp_all add: newGovernor_def Let_def)
  have "c + gv_tokens g \<le> of_int (gc_IOBytesPerSec cfg) * 2 +
      of_int (gv_last g - start) / of_int second * of_int (gc_IOBytesPerSec cfg)"
    using passes_bound [OF b _ assms(3)] assms(2) unfolding s by simp
  moreover have "0 \<le> gv_tokens g" using passes_bound [OF b _ assms(3)] assms(2) s by (simp add: bucketOk_def)
  ultimately have "c \<le> of_int (gc_IOBytesPerSec cfg) * 2 +
      of_int (gv_last g - start) / of_int second * of_int (gc_IOBytesPerSec cfg)" by linarith
  then show ?thesis by (simp add: algebra_simps)
qed

lemma gate_rate_witness:
  "fst (passes [(0, 20000000), (second, 4000000)] (newGovernor 0 (ForProfile 4 ''safe''))) \<le> 8388608 * 3"
proof -
  have c: "gc_IOBytesPerSec (ForProfile 4 ''safe'') = 8388608" by (simp add: ForProfile_def)
  obtain c g where p: "passes [(0, 20000000), (second, 4000000)] (newGovernor 0 (ForProfile 4 ''safe'')) = (c, g)"
    by fastforce
  have "gv_last g = second"
    using p by (auto simp: takeTokens_def Let_def newGovernor_def ForProfile_def refill_def wanted_def split: if_splits)
  then show ?thesis
    using gate_rate [OF _ _ p] by (simp add: c p del: passes.simps)
qed



text \<open>
  The budget is said to be about load pauses. The counter it reads also holds the waits for the bucket, of every
  worker: a scan that was only ever limited by its own rate switches the load pause off at the first busy moment.
\<close>

lemma io_waits_end_load_pause:
  assumes "takeTokens now n g = (Some w, g1)" "takeTokens (now + w) n (pausedFor w g1) = (None, g2)"
    and "gv_started g = 0" "60 * second \<le> now + w" "(now + w) div 2 < gv_paused g + w"
    and "gv_throttled g" "\<not> gv_gaveUp g"
  shows "ioPause 2 (\<lambda>i. 0) (\<lambda>i. False) 0 n now g = Some (Inr (now + w, g2)) \<and>
    loadPause 1 slept cancelled sampled 0 (now + w) g2 = Some (Inr (now + w, g2\<lparr>gv_gaveUp := True\<rparr>))"
proof -
  have keep: "gv_started g' = gv_started h \<and> gv_paused g' = gv_paused h \<and> gv_throttled g' = gv_throttled h \<and> gv_gaveUp g' = gv_gaveUp h"
    if "takeTokens t n h = (r, g')" for t n h r g'
    using that by (auto simp: takeTokens_def refill_def Let_def split: if_splits)
  have "gv_started g2 = 0" "gv_paused g2 = gv_paused g + w" "gv_throttled g2" "\<not> gv_gaveUp g2"
    using keep [OF assms(1)] keep [OF assms(2)] assms(3,6,7) by (simp_all add: pausedFor_def)
  moreover have "throttleBudgetExceeded (now + w) g2"
    using calculation assms(4,5) by (subst throttleBudgetExceeded_iff) simp_all
  ultimately show ?thesis using assms(1,2) by (simp add: eval_nat_numeral)
qed

end
