(* ===== verification/GoScan.thy ===== *)
theory GoScan
  imports GoStd
begin

text \<open>
  Reading text line by line, as \<open>bufio.Scanner\<close> does, and the fields of a line (\<open>strings.Fields\<close>). The baseline
  file, the inventory of the controller and the output of a remote agent are read this way.
\<close>

section \<open>Lines\<close>

text \<open>\<open>bufio.ScanLines\<close>: a line ends before its newline, and a carriage return at its end is dropped. The text after
  the last newline is a line when it is not empty.\<close>

definition dropCR :: "bytes \<Rightarrow> bytes" where
  "dropCR s = (if s \<noteq> [] \<and> last s = CHR 0x0D then butlast s else s)"

fun rawLines :: "bytes \<Rightarrow> bytes \<Rightarrow> bytes list" where
  "rawLines cur [] = (if cur = [] then [] else [cur])"
| "rawLines cur (c # s) = (if c = CHR 0x0A then cur # rawLines [] s else rawLines (cur @ [c]) s)"

text \<open>The scanner stops with \<open>ErrTooLong\<close> at a line that does not fit its buffer with its newline.\<close>

definition errTooLong :: bytes where
  "errTooLong = ''bufio.Scanner: token too long''"

fun scanUpto :: "nat \<Rightarrow> bytes list \<Rightarrow> bytes list \<times> bytes option" where
  "scanUpto lim [] = ([], None)"
| "scanUpto lim (l # ls) =
     (if length l \<ge> lim then ([], Some errTooLong)
      else (case scanUpto lim ls of (out, e) \<Rightarrow> (dropCR l # out, e)))"

definition scanLines :: "nat \<Rightarrow> bytes \<Rightarrow> bytes list \<times> bytes option" where
  "scanLines lim s = scanUpto lim (rawLines [] s)"

text \<open>A line that reads back: no newline in it, no carriage return at its end.\<close>

definition isLine :: "bytes \<Rightarrow> bool" where
  "isLine l \<longleftrightarrow> CHR 0x0A \<notin> set l \<and> dropCR l = l"

lemma rawLines_line: "CHR 0x0A \<notin> set l \<Longrightarrow> rawLines cur (l @ CHR 0x0A # s) = (cur @ l) # rawLines [] s"
  by (induction l arbitrary: cur) auto

definition unlines :: "bytes list \<Rightarrow> bytes" where
  "unlines ls = concat (map (\<lambda>l. l @ [CHR 0x0A]) ls)"

lemma unlines_simps [simp]: "unlines [] = []" "unlines (l # ls) = l @ CHR 0x0A # unlines ls"
  by (simp_all add: unlines_def)

text \<open>Lines that were written are read again.\<close>

lemma scanLines_unlines:
  "list_all isLine ls \<Longrightarrow> list_all (\<lambda>l. length l < lim) ls \<Longrightarrow> scanLines lim (unlines ls) = (ls, None)"
proof (induction ls)
  case Nil
  then show ?case by (simp add: scanLines_def)
next
  case (Cons l ls)
  then show ?case by (simp add: scanLines_def isLine_def rawLines_line)
qed

section \<open>Fields\<close>

text \<open>\<open>strings.Fields\<close>: the maximal runs of what is not space, by bytes when the text is ASCII, else by runes.\<close>

fun runsOf :: "('a \<Rightarrow> bool) \<Rightarrow> 'a list \<Rightarrow> 'a list \<Rightarrow> 'a list list" where
  "runsOf P cur [] = (if cur = [] then [] else [cur])"
| "runsOf P cur (x # xs) =
     (if P x then (if cur = [] then [] else [cur]) @ runsOf P [] xs else runsOf P (cur @ [x]) xs)"

definition goFields :: "bytes \<Rightarrow> bytes list" where
  "goFields s =
     (if isASCII s then runsOf isSpaceByte [] s
      else map (\<lambda>cs. concat (map snd cs)) (runsOf (isSpaceRune \<circ> fst) [] (chunks s)))"

text \<open>\<open>strings.SplitN(s, c, n)\<close> at a single byte: at most \<open>n\<close> parts.\<close>

fun goSplitN :: "nat \<Rightarrow> byte \<Rightarrow> bytes \<Rightarrow> bytes list" where
  "goSplitN 0 c s = []"
| "goSplitN (Suc 0) c s = [s]"
| "goSplitN (Suc (Suc n)) c s =
     (case goIndex s [c] of None \<Rightarrow> [s] | Some i \<Rightarrow> take i s # goSplitN (Suc n) c (drop (Suc i) s))"

lemma goIndex_found: "c \<notin> set p \<Longrightarrow> goIndex (p @ c # s) [c] = Some (length p)"
  by (induction p) auto

lemma goSplitN_part: "c \<notin> set p \<Longrightarrow> goSplitN (Suc (Suc n)) c (p @ c # s) = p # goSplitN (Suc n) c s"
  by (simp add: goIndex_found)

text \<open>\<open>strings.LastIndex\<close> of a single byte.\<close>

fun goLastIndexByte :: "bytes \<Rightarrow> byte \<Rightarrow> nat option" where
  "goLastIndexByte [] c = None"
| "goLastIndexByte (x # s) c =
     (case goLastIndexByte s c of Some i \<Rightarrow> Some (Suc i) | None \<Rightarrow> if x = c then Some 0 else None)"

lemma goLastIndexByte_None: "goLastIndexByte s c = None \<longleftrightarrow> c \<notin> set s"
  by (induction s) (auto split: option.splits)

lemma goLastIndexByte_found: "c \<notin> set s \<Longrightarrow> goLastIndexByte (p @ c # s) c = Some (length p)"
  by (induction p) (auto simp: goLastIndexByte_None [THEN iffD2])

section \<open>Runes that are ASCII\<close>

lemma fst_ifI: "(c \<Longrightarrow> k \<le> fst x) \<Longrightarrow> (\<not> c \<Longrightarrow> k \<le> fst y) \<Longrightarrow> k \<le> fst (if c then x else y)"
  by simp

lemma decoded_high:
  fixes B :: "nat \<Rightarrow> nat" and C :: "nat \<Rightarrow> nat \<Rightarrow> nat \<Rightarrow> bool"
  assumes C: "\<And>i lo hi. C i lo hi \<Longrightarrow> lo \<le> B i" and high: "\<not> B 0 < 128"
  shows "128 \<le> fst (if B 0 < 0x80 then (B 0, 1)
         else if 0xC2 \<le> B 0 \<and> B 0 \<le> 0xDF then
           (if C 1 0x80 0xBF then ((B 0 - 0xC0) * 64 + (B 1 - 0x80), 2) else (runeError, 1))
         else if 0xE0 \<le> B 0 \<and> B 0 \<le> 0xEF then
           (if C 1 (if B 0 = 0xE0 then 0xA0 else 0x80) (if B 0 = 0xED then 0x9F else 0xBF) \<and> C 2 0x80 0xBF
            then ((B 0 - 0xE0) * 4096 + (B 1 - 0x80) * 64 + (B 2 - 0x80), 3) else (runeError, 1))
         else if 0xF0 \<le> B 0 \<and> B 0 \<le> 0xF4 then
           (if C 1 (if B 0 = 0xF0 then 0x90 else 0x80) (if B 0 = 0xF4 then 0x8F else 0xBF) \<and> C 2 0x80 0xBF \<and> C 3 0x80 0xBF
            then ((B 0 - 0xF0) * 262144 + (B 1 - 0x80) * 4096 + (B 2 - 0x80) * 64 + (B 3 - 0x80), 4)
            else (runeError, 1))
         else (runeError, 1 :: nat))"
proof -
  have err: "128 \<le> runeError" by (simp add: runeError_def)
  have two: "128 \<le> (B 0 - 0xC0) * 64 + (B 1 - 0x80)" if "0xC2 \<le> B 0 \<and> B 0 \<le> 0xDF"
    using that by linarith
  have three: "128 \<le> (B 0 - 0xE0) * 4096 + (B 1 - 0x80) * 64 + (B 2 - 0x80)"
    if "0xE0 \<le> B 0 \<and> B 0 \<le> 0xEF"
      "C 1 (if B 0 = 0xE0 then 0xA0 else 0x80) (if B 0 = 0xED then 0x9F else 0xBF) \<and> C 2 0x80 0xBF"
    using that C [OF that(2) [THEN conjunct1]] by (cases "B 0 = 224") auto
  have four: "128 \<le> (B 0 - 0xF0) * 262144 + (B 1 - 0x80) * 4096 + (B 2 - 0x80) * 64 + (B 3 - 0x80)"
    if "0xF0 \<le> B 0 \<and> B 0 \<le> 0xF4"
      "C 1 (if B 0 = 0xF0 then 0x90 else 0x80) (if B 0 = 0xF4 then 0x8F else 0xBF) \<and> C 2 0x80 0xBF \<and> C 3 0x80 0xBF"
    using that C [OF that(2) [THEN conjunct1]] by (cases "B 0 = 240") auto
  show ?thesis
    by (intro fst_ifI; simp only: fst_conv) (use err high two three four in \<open>assumption | linarith\<close>)+
qed

lemma decodeRune_high:
  assumes "s \<noteq> []" "128 \<le> (of_char (hd s) :: nat)"
  shows "128 \<le> fst (decodeRune s)"
  unfolding decodeRune_def Let_def
  by (rule decoded_high [where B = "\<lambda>i. if i < length s then of_char (s ! i) else 0" and
        C = "\<lambda>i lo hi. i < length s \<and> inRange lo hi (s ! i)"])
    (use assms in \<open>auto simp: inRange_def hd_conv_nth\<close>)

lemma decodeRune_ASCII:
  assumes "s \<noteq> []" "fst (decodeRune s) < 128"
  shows "snd (decodeRune s) = 1 \<and> of_char (hd s) = fst (decodeRune s)"
proof -
  have "(of_char (hd s) :: nat) < 128" using decodeRune_high [OF assms(1)] assms(2) by linarith
  then show ?thesis using assms(1) by (simp add: decodeRune_def Let_def hd_conv_nth)
qed

text \<open>A text all of whose runes are ASCII has those bytes.\<close>

lemma runes_ASCII: "list_all (\<lambda>r. r < 128) (runes s) \<Longrightarrow> runes s = map of_char s"
proof (induction s rule: runes.induct)
  case (1 s)
  show ?case
  proof (cases "s = []")
    case True
    then show ?thesis by (subst runes.simps) simp
  next
    case False
    have u: "runes s = fst (decodeRune s) # runes (drop (snd (decodeRune s)) s)"
      using False by (subst runes.simps) simp
    have d: "snd (decodeRune s) = 1" "of_char (hd s) = fst (decodeRune s)"
      using decodeRune_ASCII [OF False] 1(2) u by simp_all
    have "runes (drop 1 s) = map of_char (drop 1 s)" using 1 False u d by simp
    then show ?thesis using u d False by (cases s) simp_all
  qed
qed

end
