(* ===== verification/Controller.thy ===== *)
theory Controller
  imports GoScan GoPath Report
begin

text \<open>
  The controller of an estate without the console (\<open>internal/controller/inventory.go\<close>, \<open>run.go\<close>): the inventory of
  hosts, the command line sent to each, and the run of a host over ssh and scp. The two programs and the hosts
  behind them are a parameter: what a call answers depends on the calls made before it. The YAML reader, the JSON
  of a report, SHA-256 and the local files are parameters as well.
\<close>

section \<open>The inventory\<close>

record Host =
  ho_Host :: bytes
  ho_User :: bytes
  ho_Port :: int
  ho_Label :: bytes
  ho_Webroot :: bytes
  ho_AllSites :: bool
  ho_Packs :: "bytes list"
  ho_Extra :: "bytes list"
  ho_SSHOpts :: "bytes list"

definition zeroHost :: Host where
  "zeroHost = \<lparr>ho_Host = [], ho_User = [], ho_Port = 0, ho_Label = [], ho_Webroot = [], ho_AllSites = False,
     ho_Packs = [], ho_Extra = [], ho_SSHOpts = []\<rparr>"

definition Target :: "Host \<Rightarrow> bytes" where
  "Target h = (if ho_User h \<noteq> [] then ho_User h @ ''@'' @ ho_Host h else ho_Host h)"

definition hostName :: "Host \<Rightarrow> bytes" where
  "hostName h = (if ho_Label h \<noteq> [] then ho_Label h else ho_Host h)"

record Defaults =
  df_User :: bytes
  df_Port :: int
  df_Packs :: "bytes list"
  df_Profile :: bytes
  df_AllSites :: bool
  df_Extra :: "bytes list"
  df_SSHOpts :: "bytes list"

definition zeroDefaults :: Defaults where
  "zeroDefaults = \<lparr>df_User = [], df_Port = 0, df_Packs = [], df_Profile = [], df_AllSites = False, df_Extra = [],
     df_SSHOpts = []\<rparr>"

record Inventory =
  in_Defaults :: Defaults
  in_Hosts :: "Host list"

definition defaultHost :: "Defaults \<Rightarrow> Host \<Rightarrow> Host" where
  "defaultHost d h =
     (let h1 = (if ho_User h = [] then h\<lparr>ho_User := df_User d\<rparr> else h);
          h2 = (if ho_Port h1 = 0 then h1\<lparr>ho_Port := df_Port d\<rparr> else h1);
          h3 = (if length (ho_Packs h2) = 0 then h2\<lparr>ho_Packs := df_Packs d\<rparr> else h2);
          h4 = (if \<not> ho_AllSites h3 then h3\<lparr>ho_AllSites := df_AllSites d\<rparr> else h3);
          h5 = h4\<lparr>ho_Extra := df_Extra d @ ho_Extra h4\<rparr>
      in h5\<lparr>ho_SSHOpts := df_SSHOpts d @ ho_SSHOpts h5\<rparr>)"

definition applyDefaults :: "Inventory \<Rightarrow> Inventory" where
  "applyDefaults iv = iv\<lparr>in_Hosts := map (defaultHost (in_Defaults iv)) (in_Hosts iv)\<rparr>"

text \<open>\<open>quote\<close> is \<open>%q\<close>.\<close>

definition ParseTarget :: "(bytes \<Rightarrow> bytes) \<Rightarrow> bytes \<Rightarrow> bytes + Host" where
  "ParseTarget quote s =
     (let (h, rest) = (case goIndex s ''@'' of
            Some i \<Rightarrow> (zeroHost\<lparr>ho_User := take i s\<rparr>, drop (i + 1) s)
          | None \<Rightarrow> (zeroHost, s));
          finish = (\<lambda>h rest. if rest = [] then Inl (''empty host in '' @ quote s) else Inr (h\<lparr>ho_Host := rest\<rparr>))
      in case goLastIndexByte rest (CHR '':'') of
           None \<Rightarrow> finish h rest
         | Some i \<Rightarrow>
             (case parseInt10 (drop (i + 1) rest) of
                None \<Rightarrow> Inl (''bad port in '' @ quote s)
              | Some port \<Rightarrow> finish (h\<lparr>ho_Port := port\<rparr>) (take i rest)))"

fun targetLines :: "(bytes \<Rightarrow> bytes) \<Rightarrow> bytes \<Rightarrow> bytes list \<Rightarrow> Host list \<Rightarrow> bytes + Host list" where
  "targetLines quote path [] hs = Inr hs"
| "targetLines quote path (l # ls) hs =
     (let line = trimSpace l
      in if line = [] \<or> hasPrefix line ''#'' then targetLines quote path ls hs
         else (case ParseTarget quote line of
                 Inl e \<Rightarrow> Inl (path @ '': '' @ e)
               | Inr h \<Rightarrow> targetLines quote path ls (hs @ [h])))"

text \<open>A target that does not parse is met before the scanner's own error, which comes after the last line read.\<close>

definition LoadInventory :: "(bytes \<Rightarrow> bytes + bytes) \<Rightarrow> (bytes \<Rightarrow> bytes + Inventory) \<Rightarrow> (bytes \<Rightarrow> bytes) \<Rightarrow> bytes \<Rightarrow>
    bytes + Inventory" where
  "LoadInventory readFile yaml quote path =
     (case readFile path of
        Inl e \<Rightarrow> Inl e
      | Inr b \<Rightarrow>
          (let trimmed = trimSpace b
           in if hasPrefix trimmed ''hosts:'' \<or> hasPrefix trimmed ''defaults:''
              then (case yaml b of
                      Inl e \<Rightarrow> Inl (path @ '': '' @ e)
                    | Inr iv \<Rightarrow> Inr (applyDefaults iv))
              else (case scanLines 65536 trimmed of
                      (ls, err) \<Rightarrow>
                        (case targetLines quote path ls [] of
                           Inl e \<Rightarrow> Inl e
                         | Inr hs \<Rightarrow>
                             (case err of
                                Some e \<Rightarrow> Inl e
                              | None \<Rightarrow>
                                  if length hs = 0 then Inl (path @ '': no hosts'')
                                  else Inr (applyDefaults \<lparr>in_Defaults = zeroDefaults, in_Hosts = hs\<rparr>))))))"

section \<open>Options and results\<close>

record Options =
  op_AgentBinary :: bytes
  op_Packs :: "bytes list"
  op_Mode :: bytes
  op_Profile :: bytes
  op_Quick :: bool
  op_ContainDryRun :: bool
  op_Contain :: bool
  op_KeepAgent :: bool
  op_Extra :: "bytes list"

record HostResult =
  hr_Host :: Host
  hr_Reports :: "Report list"
  hr_Err :: bytes
  hr_Deployed :: bool

definition resultOK :: "HostResult \<Rightarrow> bool" where
  "resultOK r \<longleftrightarrow> hr_Err r = []"

fun worstFrom :: "bytes \<Rightarrow> Report list \<Rightarrow> bytes" where
  "worstFrom worst [] = worst"
| "worstFrom worst (r # rs) =
     (if rp_Verdict r = ''dirty'' then ''dirty''
      else if rp_Verdict r = ''partial'' then worstFrom ''partial'' rs
      else worstFrom worst rs)"

definition worstVerdict :: "Report list \<Rightarrow> bytes" where
  "worstVerdict rs = worstFrom ''clean'' rs"

section \<open>The remote command\<close>

definition shellSafe :: "nat \<Rightarrow> bool" where
  "shellSafe r \<longleftrightarrow> r = 45 \<or> r = 95 \<or> r = 46 \<or> r = 47 \<or> r = 126 \<or> (97 \<le> r \<and> r \<le> 122) \<or> (65 \<le> r \<and> r \<le> 90) \<or>
     (48 \<le> r \<and> r \<le> 57)"

abbreviation "quoteMark \<equiv> CHR 0x27"
abbreviation "backslash \<equiv> CHR 0x5C"

definition shellQuote :: "bytes \<Rightarrow> bytes" where
  "shellQuote s =
     (if s = [] then [quoteMark, quoteMark]
      else if list_all shellSafe (runes s) then s
      else [quoteMark] @ concat (map (\<lambda>c. if c = quoteMark then [quoteMark, backslash, quoteMark, quoteMark] else [c]) s) @
        [quoteMark])"

definition remoteDir :: bytes where "remoteDir = ''.wordeye''"

definition remoteArgs :: "Host \<Rightarrow> Options \<Rightarrow> bytes list \<Rightarrow> bytes list" where
  "remoteArgs h opt remotePacks =
     [''~/'' @ remoteDir @ ''/wordeye-agent''] @
     (if op_Mode opt \<noteq> [] \<and> op_Mode opt \<noteq> ''scan'' then [op_Mode opt] else []) @
     [''--json'', ''-'', ''--quiet''] @
     concat (map (\<lambda>p. [''--pack'', shellQuote p]) (if length (ho_Packs h) = 0 then [''core''] else ho_Packs h)) @
     concat (map (\<lambda>p. [''--pack'', p]) remotePacks) @
     (if op_Profile opt \<noteq> [] then [''--profile'', op_Profile opt] else []) @
     (if op_Quick opt then [''--quick''] else []) @
     (if ho_Webroot h \<noteq> [] then [''--webroot'', shellQuote (ho_Webroot h)] else []) @
     (if ho_AllSites h then [''--all-sites''] else []) @
     (if ho_Label h \<noteq> [] then [''--label'', shellQuote (ho_Label h)] else []) @
     (if op_ContainDryRun opt then [''--contain-dry-run''] else []) @
     (if op_Contain opt then [''--contain''] else []) @
     op_Extra opt @ ho_Extra h"

definition buildRemoteCommand :: "Host \<Rightarrow> Options \<Rightarrow> bytes list \<Rightarrow> bytes" where
  "buildRemoteCommand h opt remotePacks = goJoin (remoteArgs h opt remotePacks) '' ''"

section \<open>The output of an agent\<close>

text \<open>\<open>decode\<close> is the JSON of a report. Lines that are not objects, and objects without a schema, are passed over.\<close>

fun reportLines :: "(bytes \<Rightarrow> bytes + Report) \<Rightarrow> bytes list \<Rightarrow> Report list \<Rightarrow> bytes option \<Rightarrow> Report list \<times> bytes option" where
  "reportLines decode [] reports lastErr = (reports, lastErr)"
| "reportLines decode (l # ls) reports lastErr =
     (let line = trimSpace l
      in if line = [] \<or> hd line \<noteq> CHR ''{'' then reportLines decode ls reports lastErr
         else (case decode line of
                 Inl e \<Rightarrow> reportLines decode ls reports (Some e)
               | Inr r \<Rightarrow>
                   if rp_Schema r = [] then reportLines decode ls reports lastErr
                   else reportLines decode ls (reports @ [r]) lastErr))"

definition parseReports :: "(bytes \<Rightarrow> bytes + Report) \<Rightarrow> bytes \<Rightarrow> Report list \<times> bytes option" where
  "parseReports decode out =
     (case scanLines (64 * 1048576) out of
        (ls, err) \<Rightarrow>
          (case reportLines decode ls [] None of
             (reports, lastErr) \<Rightarrow> (case err of Some e \<Rightarrow> (reports, Some e) | None \<Rightarrow> (reports, lastErr))))"

definition ellipsis :: bytes where
  "ellipsis = [CHR 0xE2, CHR 0x80, CHR 0xA6]"

definition firstLine :: "bytes \<Rightarrow> bytes \<Rightarrow> bytes" where
  "firstLine a b =
     (let s = (if trimSpace a = [] then trimSpace b else trimSpace a);
          s1 = (case goIndex s [CHR 0x0A] of Some i \<Rightarrow> if i > 0 then take i s else s | None \<Rightarrow> s)
      in if length s1 > 300 then take 300 s1 @ ellipsis else s1)"

section \<open>ssh and scp\<close>

text \<open>One external program with its arguments, and what comes of it: standard output, standard error, and the error
  of the run, when there was one.\<close>

datatype call = CallSsh "bytes list" | CallScp "bytes list"

type_synonym net = "call list \<Rightarrow> call \<Rightarrow> bytes \<times> bytes \<times> bytes option"

definition sshArgs :: "Host \<Rightarrow> bytes list" where
  "sshArgs h =
     [''-o'', ''BatchMode=yes'', ''-o'', ''ConnectTimeout=10'', ''-o'', ''ServerAliveInterval=15'',
      ''-o'', ''ServerAliveCountMax=4'', ''-o'', ''LogLevel=ERROR''] @
     (if ho_Port h \<noteq> 0 then [''-p'', showInt (ho_Port h)] else []) @ ho_SSHOpts h"

text \<open>The error of a failed program: what it wrote to standard error, else how it failed.\<close>

definition failure :: "bytes \<Rightarrow> bytes option \<Rightarrow> bytes option" where
  "failure stderr err =
     (case err of
        None \<Rightarrow> None
      | Some e \<Rightarrow> (let msg = trimSpace stderr in Some (if msg = [] then e else msg)))"

definition sshRun :: "net \<Rightarrow> Host \<Rightarrow> bytes \<Rightarrow> call list \<Rightarrow> (bytes \<times> bytes option) \<times> call list" where
  "sshRun net h command log =
     (let c = CallSsh (sshArgs h @ [Target h, command])
      in case net log c of (out, stderr, err) \<Rightarrow> ((out, failure stderr err), log @ [c]))"

definition scpTo :: "net \<Rightarrow> Host \<Rightarrow> bytes \<Rightarrow> bytes \<Rightarrow> call list \<Rightarrow> bytes option \<times> call list" where
  "scpTo net h local remote log =
     (let c = CallScp ([''-o'', ''BatchMode=yes'', ''-o'', ''ConnectTimeout=10'', ''-o'', ''LogLevel=ERROR'', ''-q''] @
            (if ho_Port h \<noteq> 0 then [''-P'', showInt (ho_Port h)] else []) @ ho_SSHOpts h @
            [local, Target h @ '':'' @ remote])
      in case net log c of (out, stderr, err) \<Rightarrow> (failure stderr err, log @ [c]))"

section \<open>The run of a host\<close>

fun shipPacks :: "net \<Rightarrow> Host \<Rightarrow> bytes list \<Rightarrow> bytes list \<Rightarrow> call list \<Rightarrow> (bytes + bytes list) \<times> call list" where
  "shipPacks net h [] remotePacks log = (Inr remotePacks, log)"
| "shipPacks net h (p # ps) remotePacks log =
     (let name = pathBase p; remote = ''~/'' @ remoteDir @ ''/'' @ name
      in case scpTo net h p remote log of
           (Some e, log1) \<Rightarrow> (Inl (''pack upload failed ('' @ name @ ''): '' @ e), log1)
         | (None, log1) \<Rightarrow> shipPacks net h ps (remotePacks @ [remote]) log1)"

definition probeCommand :: bytes where
  "probeCommand = ''mkdir -p ~/'' @ remoteDir @ '' && (sha256sum ~/'' @ remoteDir @
     ''/wordeye-agent 2>/dev/null || echo none) && uname -m''"

definition installCommand :: bytes where
  "installCommand = ''chmod 700 ~/'' @ remoteDir @ ''/wordeye-agent.new && mv ~/'' @ remoteDir @
     ''/wordeye-agent.new ~/'' @ remoteDir @ ''/wordeye-agent''"

text \<open>Deploys the binary when the host's digest is another one: an error, or whether it was deployed.\<close>

definition deploy :: "net \<Rightarrow> Host \<Rightarrow> Options \<Rightarrow> bytes \<Rightarrow> bytes \<Rightarrow> call list \<Rightarrow> (bytes + bool) \<times> call list" where
  "deploy net h opt binSum remoteSum log =
     (if remoteSum = binSum then (Inr False, log)
      else (case scpTo net h (op_AgentBinary opt) (''~/'' @ remoteDir @ ''/wordeye-agent.new'') log of
              (Some e, log1) \<Rightarrow> (Inl (''upload failed: '' @ e), log1)
            | (None, log1) \<Rightarrow>
                (case sshRun net h installCommand log1 of
                   ((_, Some e), log2) \<Rightarrow> (Inl (''install failed: '' @ e), log2)
                 | ((_, None), log2) \<Rightarrow> (Inr True, log2))))"

definition failedHost :: "Host \<Rightarrow> bool \<Rightarrow> bytes \<Rightarrow> HostResult" where
  "failedHost h deployed e = \<lparr>hr_Host = h, hr_Reports = [], hr_Err = e, hr_Deployed = deployed\<rparr>"

text \<open>The agent's own run: its reports, or the error the result has without any.\<close>

definition collectReports :: "(bytes \<Rightarrow> bytes + Report) \<Rightarrow> bytes \<Rightarrow> bytes option \<Rightarrow> bytes + Report list" where
  "collectReports decode stdout runErr =
     (case parseReports decode stdout of
        (reports, perr) \<Rightarrow>
          if length reports > 0 then Inr reports
          else (case runErr of
                  Some e \<Rightarrow> Inl (''agent failed: '' @ firstLine e stdout)
                | None \<Rightarrow>
                    (case perr of
                       Some e \<Rightarrow> Inl (''unparseable agent output: '' @ e)
                     | None \<Rightarrow> Inl ''agent produced no report'')))"

definition runHost :: "net \<Rightarrow> (bytes \<Rightarrow> bytes + Report) \<Rightarrow> Host \<Rightarrow> Options \<Rightarrow> bytes \<Rightarrow> HostResult \<times> call list" where
  "runHost net decode h opt binSum =
     (case sshRun net h probeCommand [] of
        ((out, Some e), log1) \<Rightarrow> (failedHost h False (''ssh probe failed: '' @ firstLine e out), log1)
      | ((out, None), log1) \<Rightarrow>
          (let lines = goFields (trimSpace out);
               remoteSum = (if length lines > 0 \<and> hd lines \<noteq> ''none'' then hd lines else [])
           in case deploy net h opt binSum remoteSum log1 of
                (Inl e, log2) \<Rightarrow> (failedHost h False e, log2)
              | (Inr deployed, log2) \<Rightarrow>
                  (case shipPacks net h (op_Packs opt) [] log2 of
                     (Inl e, log3) \<Rightarrow> (failedHost h deployed e, log3)
                   | (Inr remotePacks, log3) \<Rightarrow>
                       (case sshRun net h (buildRemoteCommand h opt remotePacks) log3 of
                          ((stdout, runErr), log4) \<Rightarrow>
                            (case collectReports decode stdout runErr of
                               Inl e \<Rightarrow> (failedHost h deployed e, log4)
                             | Inr reports \<Rightarrow>
                                 (\<lparr>hr_Host = h, hr_Reports = reports, hr_Err = [], hr_Deployed = deployed\<rparr>,
                                  if \<not> op_KeepAgent opt
                                  then snd (sshRun net h (''rm -f ~/'' @ remoteDir @ ''/wordeye-agent'') log4)
                                  else log4))))))"

definition fileSHA256 :: "(bytes \<Rightarrow> bytes + bytes) \<Rightarrow> (bytes \<Rightarrow> bytes) \<Rightarrow> bytes \<Rightarrow> bytes + bytes" where
  "fileSHA256 readFile hexSum path =
     (case readFile path of Inl e \<Rightarrow> Inl e | Inr b \<Rightarrow> Inr (hexSum b))"

text \<open>\<open>nets i\<close> is the network of the i-th host, \<open>stopped i\<close> whether the sweep was cancelled before its turn. The hosts run
  side by side and share nothing.\<close>

definition Run :: "(bytes \<Rightarrow> bytes + bytes) \<Rightarrow> (nat \<Rightarrow> net) \<Rightarrow> (nat \<Rightarrow> bool) \<Rightarrow> (bytes \<Rightarrow> bytes + Report) \<Rightarrow> Inventory \<Rightarrow>
    Options \<Rightarrow> HostResult list" where
  "Run fileSum nets stopped decode iv opt =
     (case fileSum (op_AgentBinary opt) of
        Inl e \<Rightarrow> map (\<lambda>h. failedHost h False (''agent binary: '' @ e)) (in_Hosts iv)
      | Inr binSum \<Rightarrow>
          map (\<lambda>(i, h). if stopped i then failedHost h False ''cancelled before start''
              else fst (runHost (nets i) decode h opt binSum)) (enumerate 0 (in_Hosts iv)))"

section \<open>The shell at the other end\<close>

text \<open>
  What a POSIX shell makes of a command line, on the part of its grammar that needs no evaluation: words separated
  by blanks, single quotes, a backslash before a character, and characters that stand for themselves. \<open>None\<close> is any
  other line: an operator, an expansion, a quote that does not end. The words are those before tilde expansion.
\<close>

definition shellPlain :: "byte \<Rightarrow> bool" where
  "shellPlain c \<longleftrightarrow> shellSafe (of_char c) \<or> c = CHR '':'' \<or> c = CHR '','' \<or> c = CHR ''='' \<or> c = CHR ''@'' \<or> c = CHR ''+'' \<or> c = CHR ''%''"

definition spaceChar :: byte where "spaceChar = CHR '' ''"

fun shWords :: "bytes \<Rightarrow> bool \<Rightarrow> bytes \<Rightarrow> bytes list option" and shQuoted :: "bytes \<Rightarrow> bytes \<Rightarrow> bytes list option" where
  "shWords cur started [] = Some (if started then [cur] else [])"
| "shWords cur started (c # s) =
     (if c = spaceChar then
        (if started then map_option ((#) cur) (shWords [] False s) else shWords [] False s)
      else if c = quoteMark then shQuoted cur s
      else if c = backslash then
        (case s of [] \<Rightarrow> None | d # t \<Rightarrow> if d = CHR 0x0A then None else shWords (cur @ [d]) True t)
      else if shellPlain c then shWords (cur @ [c]) True s
      else None)"
| "shQuoted cur [] = None"
| "shQuoted cur (c # s) = (if c = quoteMark then shWords cur True s else shQuoted (cur @ [c]) s)"

definition shellWords :: "bytes \<Rightarrow> bytes list option" where
  "shellWords s = shWords [] False s"

text \<open>A piece of a command line that the shell reads as the word \<open>v\<close>.\<close>

definition readsWord :: "bytes \<Rightarrow> bytes \<Rightarrow> bool" where
  "readsWord w v \<longleftrightarrow> (\<forall>rest. shWords [] False (w @ rest) = shWords v True rest)"

lemma shellPlain_ordinary: "shellPlain c \<Longrightarrow> c \<noteq> spaceChar \<and> c \<noteq> quoteMark \<and> c \<noteq> backslash"
  by (auto simp: shellPlain_def shellSafe_def spaceChar_def)

lemma shWords_plain: "list_all shellPlain w \<Longrightarrow> started \<or> w \<noteq> [] \<Longrightarrow> shWords cur started (w @ rest) = shWords (cur @ w) True rest"
proof (induction w arbitrary: cur started)
  case Nil
  then show ?case by simp
next
  case (Cons c w)
  have "shWords (cur @ [c]) True (w @ rest) = shWords ((cur @ [c]) @ w) True rest" using Cons by simp
  then show ?case using Cons.prems shellPlain_ordinary [of c] by simp
qed

lemma readsWord_plain: "list_all shellPlain w \<Longrightarrow> w \<noteq> [] \<Longrightarrow> readsWord w w"
  by (simp add: readsWord_def shWords_plain)

lemma shQuoted_quoted:
  "shQuoted cur (concat (map (\<lambda>c. if c = quoteMark then [quoteMark, backslash, quoteMark, quoteMark] else [c]) s) @
     quoteMark # rest) = shWords (cur @ s) True rest"
proof (induction s arbitrary: cur)
  case Nil
  then show ?case by simp
next
  case (Cons c s)
  show ?case using Cons [of "cur @ [c]"] by (auto simp: spaceChar_def)
qed

lemma shellSafe_plain: "list_all shellSafe (runes s) \<Longrightarrow> list_all shellPlain s"
proof -
  assume a: "list_all shellSafe (runes s)"
  then have "list_all (\<lambda>r. r < 128) (runes s)" by (auto simp: list_all_iff shellSafe_def)
  then have "runes s = map of_char s" by (rule runes_ASCII)
  then show ?thesis using a by (auto simp: list_all_iff shellPlain_def)
qed

text \<open>Quoting is undone by the shell, whatever the value.\<close>

lemma readsWord_shellQuote: "readsWord (shellQuote v) v"
proof -
  consider "v = []" | "v \<noteq> []" "list_all shellSafe (runes v)" | "v \<noteq> []" "\<not> list_all shellSafe (runes v)" by blast
  then show ?thesis
  proof cases
    case 1
    then show ?thesis by (simp add: readsWord_def shellQuote_def spaceChar_def)
  next
    case 2
    then show ?thesis using readsWord_plain [OF shellSafe_plain] by (simp add: shellQuote_def)
  next
    case 3
    then show ?thesis using shQuoted_quoted [of "[]" v] by (simp add: readsWord_def shellQuote_def spaceChar_def)
  qed
qed

lemma shellWords_join:
  "list_all2 readsWord ws vs \<Longrightarrow> shellWords (goJoin ws '' '') = Some vs"
  unfolding shellWords_def
proof (induction ws vs rule: list_all2_induct)
  case Nil
  then show ?case by simp
next
  case (Cons w ws v vs)
  show ?case
  proof (cases ws)
    case Nil
    then show ?thesis using Cons readsWord_def [of w v] by (auto dest: spec [of _ "[]"])
  next
    case (Cons w' ws')
    have "shWords [] False (w @ '' '' @ goJoin ws '' '') = shWords v True ('' '' @ goJoin ws '' '')"
      using Cons.hyps(1) by (simp add: readsWord_def)
    then show ?thesis using Cons Cons.IH by (simp add: spaceChar_def)
  qed
qed

section \<open>What the remote shell is told\<close>

text \<open>The arguments the agent is meant to be started with.\<close>

definition agentArgv :: "Host \<Rightarrow> Options \<Rightarrow> bytes list \<Rightarrow> bytes list" where
  "agentArgv h opt remotePacks =
     [''~/.wordeye/wordeye-agent''] @
     (if op_Mode opt \<noteq> [] \<and> op_Mode opt \<noteq> ''scan'' then [op_Mode opt] else []) @
     [''--json'', ''-'', ''--quiet''] @
     concat (map (\<lambda>p. [''--pack'', p]) ((if ho_Packs h = [] then [''core''] else ho_Packs h) @ remotePacks)) @
     (if op_Profile opt \<noteq> [] then [''--profile'', op_Profile opt] else []) @
     (if op_Quick opt then [''--quick''] else []) @
     (if ho_Webroot h \<noteq> [] then [''--webroot'', ho_Webroot h] else []) @
     (if ho_AllSites h then [''--all-sites''] else []) @
     (if ho_Label h \<noteq> [] then [''--label'', ho_Label h] else []) @
     (if op_ContainDryRun opt then [''--contain-dry-run''] else []) @
     (if op_Contain opt then [''--contain''] else []) @
     op_Extra opt @ ho_Extra h"

definition plainWord :: "bytes \<Rightarrow> bool" where
  "plainWord w \<longleftrightarrow> w \<noteq> [] \<and> list_all shellPlain w"

lemma readsWord_plainWord: "plainWord w \<Longrightarrow> readsWord w w"
  by (simp add: plainWord_def readsWord_plain)

lemma readsWord_plains: "list_all plainWord ws \<Longrightarrow> list_all2 readsWord ws ws"
  by (induction ws) (auto intro: readsWord_plainWord)

lemma readsWord_packs:
  "list_all2 readsWord ws vs \<Longrightarrow>
   list_all2 readsWord (concat (map (\<lambda>p. [''--pack'', p]) ws)) (concat (map (\<lambda>p. [''--pack'', p]) vs))"
  by (induction ws vs rule: list_all2_induct)
    (auto intro!: readsWord_plainWord simp: plainWord_def shellPlain_def shellSafe_def)

lemma readsWord_quoted_packs:
  "list_all2 readsWord (concat (map (\<lambda>p. [''--pack'', shellQuote p]) vs)) (concat (map (\<lambda>p. [''--pack'', p]) vs))"
  using readsWord_packs [of "map shellQuote vs" vs] by (simp add: list_all2_map1 list_all2_same readsWord_shellQuote comp_def)

lemma readsWord_if:
  "(c \<Longrightarrow> list_all2 readsWord ws vs) \<Longrightarrow> list_all2 readsWord (if c then ws else []) (if c then vs else [])"
  by simp


definition sampleOptions :: Options where
  "sampleOptions = \<lparr>op_AgentBinary = ''agent'', op_Packs = [], op_Mode = ''scan'', op_Profile = ''safe'', op_Quick = False,
     op_ContainDryRun = True, op_Contain = False, op_KeepAgent = True, op_Extra = [''--quiet'']\<rparr>"


text \<open>A shipped pack is named as it is: a space in the name of the file makes two arguments of it.\<close>

lemma pack_name_splits:
  "shellWords (goJoin [''--pack'', ''~/'' @ remoteDir @ ''/'' @ pathBase ''packs/my rules.yar''] '' '') =
     Some [''--pack'', ''~/.wordeye/my'', ''rules.yar'']"
  by code_simp

section \<open>Results\<close>

text \<open>A host is well only when it sent a report.\<close>

definition resultSound :: "HostResult \<Rightarrow> bool" where
  "resultSound r \<longleftrightarrow> (hr_Err r = [] \<longleftrightarrow> hr_Reports r \<noteq> [])"

lemma failedHost_sound: "e \<noteq> [] \<Longrightarrow> resultSound (failedHost h d e)"
  by (simp add: resultSound_def failedHost_def)

lemma deploy_error: "deploy net h opt b r log = (Inl e, log') \<Longrightarrow> e \<noteq> []"
  by (auto simp: deploy_def split: if_splits prod.splits option.splits)

lemma shipPacks_error: "shipPacks net h ps rs log = (Inl e, log') \<Longrightarrow> e \<noteq> []"
  by (induction net h ps rs log rule: shipPacks.induct) (auto simp: Let_def split: prod.splits option.splits)

lemma collectReports_error: "collectReports decode out err = Inl e \<Longrightarrow> e \<noteq> []"
  by (auto simp: collectReports_def split: prod.splits option.splits if_splits)

lemma collectReports_some: "collectReports decode out err = Inr rs \<Longrightarrow> rs \<noteq> []"
  by (auto simp: collectReports_def split: prod.splits option.splits if_splits)

lemma runHost_sound: "resultSound (fst (runHost net decode h opt b))"
  unfolding runHost_def Let_def
  by (auto simp: resultSound_def failedHost_def dest: deploy_error shipPacks_error collectReports_error collectReports_some
      split: prod.splits option.splits sum.splits)

lemma Run_sound: "r \<in> set (Run fileSum nets stopped decode iv opt) \<Longrightarrow> resultSound r"
  by (auto simp: Run_def runHost_sound intro: failedHost_sound split: sum.splits if_splits)

lemma Run_hosts: "map hr_Host (Run fileSum nets stopped decode iv opt) = in_Hosts iv"
proof -
  have host: "hr_Host (fst (runHost net decode h opt b)) = h" for net h b
    unfolding runHost_def Let_def by (auto simp: failedHost_def split: prod.splits option.splits sum.splits)
  show ?thesis
    by (cases "fileSum (op_AgentBinary opt)") (auto simp: Run_def failedHost_def host comp_def case_prod_beta nth_enumerate_eq
        intro!: nth_equalityI)
qed

text \<open>
  How the agent's own run ended does not matter once it has sent one report. With several sites on a host, a run that
  is killed after the first leaves a result without an error that knows nothing of the others.
\<close>

lemma truncated_run_is_well:
  assumes "decode l = Inr r" "rp_Schema r \<noteq> []" "trimSpace l = l" "hd l = CHR ''{''" "l \<noteq> []" "isLine l" "length l < 64 * 1048576"
  shows "collectReports decode (unlines [l]) (Some ''signal: killed'') = Inr [r]"
proof -
  have "scanLines (64 * 1048576) (unlines [l]) = ([l], None)" using assms by (intro scanLines_unlines) simp_all
  then have "parseReports decode (unlines [l]) = ([r], None)" using assms by (simp add: parseReports_def del: unlines_simps)
  then show ?thesis by (simp add: collectReports_def)
qed

text \<open>The agent is started only where its binary was found, or was uploaded and put in place.\<close>

lemma deploy_before_run:
  assumes "deploy net h opt b r log = (Inr d, log')"
  shows "if d then (\<exists>up. log' = log @ [up, CallSsh (sshArgs h @ [Target h, installCommand])]) else r = b \<and> log' = log"
  using assms by (auto simp: deploy_def scpTo_def sshRun_def Let_def split: if_splits prod.splits option.splits)

section \<open>Targets\<close>

text \<open>What was written as user, host and port is read as that; the host may contain colons when the port is given.\<close>

lemma ParseTarget_full:
  assumes "CHR ''@'' \<notin> set user" "host \<noteq> []" "int port < 2 ^ 63"
  shows "ParseTarget quote (user @ ''@'' @ host @ '':'' @ showNat port) =
     Inr (zeroHost\<lparr>ho_User := user, ho_Port := int port, ho_Host := host\<rparr>)"
proof -
  have "CHR '':'' \<notin> set (showNat port)"
    using showNat_digits [of port] by (auto simp: list_all_iff isDigitByte_def)
  then show ?thesis
    using assms goIndex_found [OF assms(1), of "host @ '':'' @ showNat port"]
      goLastIndexByte_found [of "CHR '':''" "showNat port" host]
    by (simp add: ParseTarget_def parseInt10_showNat)
qed

text \<open>An IPv6 address without a port loses its last group to the port.\<close>

lemma ParseTarget_ipv6:
  "ParseTarget quote ''2001:db8::1'' = Inr (zeroHost\<lparr>ho_Port := 1, ho_Host := ''2001:db8:''\<rparr>)"
  by code_simp

end
