(* ===== verification/Estate.thy ===== *)
theory Estate
  imports Controller "HOL-Library.AList"
begin

text \<open>
  The view over an estate (\<open>internal/controller/aggregate.go\<close>): how many hosts are dirty, which detections recur,
  and which artefacts, by digest, are on several hosts; and its rendering as text. A Go map is an association list in
  the order of insertion, and a loop over it follows \<open>iter\<close>, any order of its keys. A panic is \<open>None\<close>,
  whatever was written before it.
\<close>

section \<open>The aggregate\<close>

record RuleCount =
  rc_RuleID :: bytes
  rc_Title :: bytes
  rc_Severity :: bytes
  rc_Count :: nat
  rc_Hosts :: nat

record Correlation =
  co_SHA256 :: bytes
  co_Title :: bytes
  co_RuleID :: bytes
  co_Severity :: bytes
  co_Hosts :: "bytes list"
  co_Paths :: "bytes list"

record RuleSpread =
  sp_RuleID :: bytes
  sp_Title :: bytes
  sp_Severity :: bytes
  sp_Hosts :: "bytes list"

record Aggregate =
  ag_Mode :: bytes
  ag_Hosts :: nat
  ag_Reachable :: nat
  ag_Failed :: nat
  ag_Dirty :: nat
  ag_Partial :: nat
  ag_Clean :: nat
  ag_TotalFindings :: nat
  ag_BySeverity :: "(bytes \<times> nat) list"
  ag_TopRules :: "RuleCount list"
  ag_Correlated :: "Correlation list"
  ag_SharedRules :: "RuleSpread list"
  ag_Results :: "HostResult list"

record ruleAcc =
  ra_title :: bytes
  ra_severity :: bytes
  ra_count :: nat
  ra_hosts :: "bytes list"

record hashAcc =
  ha_title :: bytes
  ha_ruleID :: bytes
  ha_severity :: bytes
  ha_hosts :: "bytes list"
  ha_paths :: "bytes list"

type_synonym maps = "(bytes \<times> ruleAcc) list \<times> (bytes \<times> hashAcc) list"

text \<open>\<open>out[k]++\<close>.\<close>

definition bump :: "bytes \<Rightarrow> (bytes \<times> nat) list \<Rightarrow> (bytes \<times> nat) list" where
  "bump k m = AList.update k ((case map_of m k of None \<Rightarrow> 0 | Some n \<Rightarrow> n) + 1) m"

definition countRule :: "bytes \<Rightarrow> Finding \<Rightarrow> (bytes \<times> ruleAcc) list \<Rightarrow> (bytes \<times> ruleAcc) list" where
  "countRule host f rules =
     (let acc = (case map_of rules (fi_RuleID f) of
            Some a \<Rightarrow> a
          | None \<Rightarrow> \<lparr>ra_title = fi_Title f, ra_severity = fi_Severity f, ra_count = 0, ra_hosts = []\<rparr>)
      in AList.update (fi_RuleID f) (acc\<lparr>ra_count := ra_count acc + 1, ra_hosts := List.insert host (ra_hosts acc)\<rparr>) rules)"

definition countHash :: "bytes \<Rightarrow> Finding \<Rightarrow> (bytes \<times> hashAcc) list \<Rightarrow> (bytes \<times> hashAcc) list" where
  "countHash host f hashes =
     (let h = (case map_of hashes (fi_SHA256 f) of
            Some h \<Rightarrow> h
          | None \<Rightarrow> \<lparr>ha_title = fi_Title f, ha_ruleID = fi_RuleID f, ha_severity = fi_Severity f, ha_hosts = [], ha_paths = []\<rparr>)
      in AList.update (fi_SHA256 f)
           (h\<lparr>ha_hosts := List.insert host (ha_hosts h), ha_paths := List.insert (fi_Path f) (ha_paths h)\<rparr>) hashes)"

definition countFinding :: "bytes \<Rightarrow> Aggregate \<times> maps \<Rightarrow> Finding \<Rightarrow> Aggregate \<times> maps" where
  "countFinding host st f =
     (case st of (agg, rules, hashes) \<Rightarrow>
        (let agg1 = agg\<lparr>ag_TotalFindings := ag_TotalFindings agg + 1, ag_BySeverity := bump (fi_Severity f) (ag_BySeverity agg)\<rparr>
         in if Rank (fi_Severity f) < Rank SevMedium then (agg1, rules, hashes)
            else (let rules1 = countRule host f rules
                  in if fi_SHA256 f = [] then (agg1, rules1, hashes)
                     else (agg1, rules1, countHash host f hashes))))"

definition countResult :: "Aggregate \<times> maps \<Rightarrow> HostResult \<Rightarrow> Aggregate \<times> maps" where
  "countResult st res =
     (case st of (agg, m) \<Rightarrow>
        (if \<not> resultOK res then (agg\<lparr>ag_Failed := ag_Failed agg + 1\<rparr>, m)
         else (let agg1 = agg\<lparr>ag_Reachable := ag_Reachable agg + 1\<rparr>;
                   v = worstVerdict (hr_Reports res);
                   agg2 = (if v = ''dirty'' then agg1\<lparr>ag_Dirty := ag_Dirty agg1 + 1\<rparr>
                           else if v = ''partial'' then agg1\<lparr>ag_Partial := ag_Partial agg1 + 1\<rparr>
                           else agg1\<lparr>ag_Clean := ag_Clean agg1 + 1\<rparr>)
               in foldl (\<lambda>st r. foldl (countFinding (hostName (hr_Host res))) st (rp_Findings r)) (agg2, m) (hr_Reports res))))"

definition newAggregate :: "HostResult list \<Rightarrow> bytes \<Rightarrow> Aggregate" where
  "newAggregate results mode =
     \<lparr>ag_Mode = mode, ag_Hosts = length results, ag_Reachable = 0, ag_Failed = 0, ag_Dirty = 0, ag_Partial = 0,
      ag_Clean = 0, ag_TotalFindings = 0, ag_BySeverity = [], ag_TopRules = [], ag_Correlated = [], ag_SharedRules = [],
      ag_Results = results\<rparr>"

definition sortedKeys :: "bytes list \<Rightarrow> bytes list" where
  "sortedKeys ks = sort ks"

definition topRule :: "bytes \<times> ruleAcc \<Rightarrow> RuleCount" where
  "topRule p = (case p of (i, a) \<Rightarrow> \<lparr>rc_RuleID = i, rc_Title = ra_title a, rc_Severity = ra_severity a,
     rc_Count = ra_count a, rc_Hosts = length (ra_hosts a)\<rparr>)"

definition sharedRule :: "bytes \<times> ruleAcc \<Rightarrow> RuleSpread" where
  "sharedRule p = (case p of (i, a) \<Rightarrow> \<lparr>sp_RuleID = i, sp_Title = ra_title a, sp_Severity = ra_severity a,
     sp_Hosts = sortedKeys (ra_hosts a)\<rparr>)"

definition correlation :: "bytes \<times> hashAcc \<Rightarrow> Correlation" where
  "correlation p = (case p of (d, h) \<Rightarrow> \<lparr>co_SHA256 = d, co_Title = ha_title h, co_RuleID = ha_ruleID h,
     co_Severity = ha_severity h, co_Hosts = sortedKeys (ha_hosts h), co_Paths = sortedKeys (ha_paths h)\<rparr>)"

text \<open>The entries of a map in the order \<open>iter\<close> takes its keys.\<close>

definition ranged :: "(bytes list \<Rightarrow> bytes list) \<Rightarrow> (bytes \<times> 'a) list \<Rightarrow> (bytes \<times> 'a) list" where
  "ranged iter m = map (\<lambda>k. (k, the (map_of m k))) (iter (map fst m))"

text \<open>\<open>sort.Slice\<close> does not keep the order of equals; as \<open>iter\<close> is any order, neither does a stable sort of it.\<close>

definition Aggregated :: "(bytes list \<Rightarrow> bytes list) \<Rightarrow> HostResult list \<Rightarrow> bytes \<Rightarrow> Aggregate" where
  "Aggregated iter results mode =
     (case foldl countResult (newAggregate results mode, [], []) results of
        (agg, rules, hashes) \<Rightarrow>
          (let rs = ranged iter rules;
               top = sort_key (\<lambda>r. (- int (rc_Count r), rc_RuleID r)) (map topRule rs);
               shared = sort_key (\<lambda>s. - int (length (sp_Hosts s)))
                 (map sharedRule (filter (\<lambda>(_, a). length (ra_hosts a) > 1) rs));
               corr = sort_key (\<lambda>c. - int (length (co_Hosts c)))
                 (map correlation (filter (\<lambda>(_, h). \<not> length (ha_hosts h) < 2) (ranged iter hashes)))
           in agg\<lparr>ag_TopRules := top, ag_SharedRules := shared, ag_Correlated := corr\<rparr>))"

section \<open>The text\<close>

definition trunc :: "bytes \<Rightarrow> nat \<Rightarrow> bytes" where
  "trunc s n = (if length s \<le> n then s else if n \<le> 1 then take n s else take (n - 1) s @ ellipsis)"

text \<open>\<open>strings.Repeat\<close> of a spaceChar; a negative count panics.\<close>

definition blanks :: "int \<Rightarrow> bytes option" where
  "blanks k = (if k < 0 then None else Some (replicate (nat k) spaceChar))"

definition truncPad :: "bytes \<Rightarrow> nat \<Rightarrow> bytes option" where
  "truncPad s n =
     (let s1 = trunc s n in map_option (\<lambda>b. s1 @ b) (blanks (int n - int (length (runes s1)))))"

text \<open>The widths of \<open>fmt\<close> count runes: \<open>%-9s\<close>, \<open>%-5d\<close> to the left, \<open>%4d\<close> to the right.\<close>

definition alignLeft :: "nat \<Rightarrow> bytes \<Rightarrow> bytes" where
  "alignLeft n s = s @ replicate (n - length (runes s)) spaceChar"

definition alignRight :: "nat \<Rightarrow> bytes \<Rightarrow> bytes" where
  "alignRight n s = replicate (n - length (runes s)) spaceChar @ s"

text \<open>\<open>strings.ToUpper\<close>; \<open>uup\<close> is \<open>unicode.ToUpper\<close> beyond ASCII.\<close>

definition ascii_upper :: "byte \<Rightarrow> byte" where
  "ascii_upper c = (if CHR ''a'' \<le> c \<and> c \<le> CHR ''z'' then char_of (of_char c - 32 :: nat) else c)"

definition goToUpper :: "(nat \<Rightarrow> nat) \<Rightarrow> bytes \<Rightarrow> bytes" where
  "goToUpper uup s =
     (if isASCII s then map ascii_upper s
      else concat (map (encodeRune \<circ> (\<lambda>r. if r < 128 then (if 97 \<le> r \<and> r \<le> 122 then r - 32 else r) else uup r)) (runes s)))"

definition newline :: bytes where "newline = [CHR 0x0A]"
definition doubleRule :: bytes where "doubleRule = [CHR 0xE2, CHR 0x95, CHR 0x90, CHR 0xE2, CHR 0x95, CHR 0x90]"
definition lineRule :: bytes where "lineRule = [CHR 0xE2, CHR 0x94, CHR 0x80]"

definition severityCount :: "(bytes \<times> nat) list \<Rightarrow> bytes \<Rightarrow> nat" where
  "severityCount m k = (case map_of m k of None \<Rightarrow> 0 | Some n \<Rightarrow> n)"

definition reportCount :: "bytes \<Rightarrow> Report \<Rightarrow> nat" where
  "reportCount sev r = (case Counts r sev of None \<Rightarrow> 0 | Some n \<Rightarrow> n)"

text \<open>One row of the table of hosts.\<close>

definition hostNotes :: "HostResult \<Rightarrow> bytes list" where
  "hostNotes res =
     (let notes = concat (map (\<lambda>r. map (\<lambda>ch. ck_ID ch @ '' failed'')
            (filter (\<lambda>ch. ck_State ch = CheckError) (rp_Checks r))) (hr_Reports res))
      in if length (hr_Reports res) > 1 then (showNat (length (hr_Reports res)) @ '' sites'') # notes else notes)"

definition hostRow :: "(nat \<Rightarrow> nat) \<Rightarrow> HostResult \<Rightarrow> bytes option" where
  "hostRow uup res =
     (case truncPad (hostName (hr_Host res)) 33 of
        None \<Rightarrow> None
      | Some name \<Rightarrow>
          Some (if \<not> resultOK res
            then name @ '' '' @ alignLeft 9 ''ERROR'' @ '' '' @ alignLeft 5 ''-'' @ '' '' @ alignLeft 5 ''-'' @ '' '' @
              trunc (hr_Err res) 28 @ newline
            else (let crit = sum_list (map (reportCount SevCritical) (hr_Reports res));
                      high = sum_list (map (reportCount SevHigh) (hr_Reports res))
                  in name @ '' '' @ alignLeft 9 (goToUpper uup (worstVerdict (hr_Reports res))) @ '' '' @
                    alignLeft 5 (showNat crit) @ '' '' @ alignLeft 5 (showNat high) @ '' '' @
                    trunc (goJoin (hostNotes res) '', '') 28 @ newline)))"

text \<open>Several lines, until one panics.\<close>

fun allLines :: "bytes option list \<Rightarrow> bytes option" where
  "allLines [] = Some []"
| "allLines (None # ls) = None"
| "allLines (Some l # ls) = map_option (\<lambda>r. l @ r) (allLines ls)"

text \<open>One artefact; \<open>c.SHA256[:16]\<close> panics on a shorter digest.\<close>

definition artefactLines :: "Correlation \<Rightarrow> bytes option" where
  "artefactLines c =
     (if length (co_SHA256 c) < 16 then None
      else Some (''  '' @ take 16 (co_SHA256 c) @ ''  '' @ co_Title c @ newline @
        ''    on '' @ showNat (length (co_Hosts c)) @ '' hosts: '' @ trunc (goJoin (co_Hosts c) '', '') 120 @ newline @
        ''    paths: '' @ trunc (goJoin (co_Paths c) '', '') 120 @ newline))"

definition correlatedText :: "Correlation list \<Rightarrow> bytes option" where
  "correlatedText cs =
     (if length cs = 0 then Some []
      else allLines
        ([Some (newline @ lineRule @ lineRule @ '' Identical artefacts across hosts '' @ lineRule @ lineRule @
            '' (same SHA-256 = one campaign, not '' @ showNat (length cs) @ '' coincidences)'' @ newline)] @
         map artefactLines (take 15 cs) @
         (if length cs > 15 then [Some (''  '' @ ellipsis @ '' and '' @ showNat (length cs - 15) @ '' more'' @ newline)] else [])))"

definition sharedText :: "(nat \<Rightarrow> nat) \<Rightarrow> RuleSpread list \<Rightarrow> bytes" where
  "sharedText uup ss =
     (if length ss = 0 then []
      else newline @ lineRule @ lineRule @ '' Techniques seen on multiple hosts '' @ lineRule @ lineRule @
        '' (repacked payloads, shared technique)'' @ newline @
        concat (map (\<lambda>s. ''  ['' @ alignLeft 8 (goToUpper uup (sp_Severity s)) @ ''] '' @ alignLeft 38 (trunc (sp_RuleID s) 38) @
          '' '' @ showNat (length (sp_Hosts s)) @ '' hosts'' @ newline) (take 12 ss)))"

definition topText :: "RuleCount list \<Rightarrow> bytes" where
  "topText rs =
     (if length rs = 0 then []
      else newline @ lineRule @ lineRule @ '' Most frequent detections '' @ lineRule @ lineRule @ newline @
        concat (map (\<lambda>r. ''  '' @ alignLeft 40 (trunc (rc_RuleID r) 40) @ '' '' @ alignRight 4 (showNat (rc_Count r)) @
          '' hits / '' @ showNat (rc_Hosts r) @ '' hosts  '' @ trunc (rc_Title r) 50 @ newline) (take 12 rs)))"

abbreviation "allClear \<equiv>
  ''RESULT: no findings across the estate. Confirm behaviourally before declaring the incident closed.''"

definition resultLine :: "Aggregate \<Rightarrow> bytes" where
  "resultLine a =
     (if ag_Failed a > 0 \<and> ag_Dirty a > 0 then
        ''RESULT: '' @ showNat (ag_Dirty a) @ '' host(s) compromised; '' @ showNat (ag_Failed a) @
        '' unreachable and therefore UNKNOWN, not clean.''
      else if ag_Dirty a > 0 then
        ''RESULT: '' @ showNat (ag_Dirty a) @ '' of '' @ showNat (ag_Reachable a) @ '' hosts have findings requiring action.''
      else if ag_Failed a > 0 then
        ''RESULT: no findings on reachable hosts, but '' @ showNat (ag_Failed a) @ '' host(s) could not be checked.''
      else if ag_Partial a > 0 then
        ''RESULT: no findings, but '' @ showNat (ag_Partial a) @ '' host(s) had checks that could not complete.''
      else allClear) @ newline"

text \<open>\<open>stamp\<close> is the time of the aggregate as RFC 3339.\<close>

definition Render :: "(nat \<Rightarrow> nat) \<Rightarrow> bytes \<Rightarrow> Aggregate \<Rightarrow> bytes option" where
  "Render uup stamp a =
     allLines
       ([Some (newline @ doubleRule @ '' WordEye estate summary '' @ doubleRule @ '' '' @ stamp @ newline @ newline @
          ''hosts: '' @ showNat (ag_Hosts a) @ ''   reachable: '' @ showNat (ag_Reachable a) @ ''   unreachable: '' @
          showNat (ag_Failed a) @ newline @
          ''verdicts: '' @ showNat (ag_Dirty a) @ '' dirty, '' @ showNat (ag_Partial a) @ '' partial, '' @
          showNat (ag_Clean a) @ '' clean'' @ newline @
          ''findings: '' @ showNat (ag_TotalFindings a) @ '' total '' @ emDash @ '' '' @
          showNat (severityCount (ag_BySeverity a) SevCritical) @ '' critical, '' @
          showNat (severityCount (ag_BySeverity a) SevHigh) @ '' high, '' @
          showNat (severityCount (ag_BySeverity a) SevMedium) @ '' medium'' @ newline @ newline @
          ''HOST                              VERDICT   CRIT  HIGH  NOTES'' @ newline @
          concat (replicate 78 lineRule) @ newline)] @
        map (hostRow uup) (ag_Results a) @
        [correlatedText (ag_Correlated a),
         Some (sharedText uup (ag_SharedRules a)), Some (topText (ag_TopRules a)),
         Some newline, Some (resultLine a)])"

section \<open>The counts\<close>

lemma countFinding_counts:
  "countFinding host (agg, m) f = (agg', m') \<Longrightarrow>
   ag_Failed agg' = ag_Failed agg \<and> ag_Reachable agg' = ag_Reachable agg \<and> ag_Dirty agg' = ag_Dirty agg \<and>
   ag_Partial agg' = ag_Partial agg \<and> ag_Clean agg' = ag_Clean agg \<and> ag_Hosts agg' = ag_Hosts agg \<and>
   ag_Results agg' = ag_Results agg \<and> ag_TotalFindings agg' = ag_TotalFindings agg + 1"
  by (cases m) (auto simp: countFinding_def Let_def split: if_splits)

text \<open>What the findings of a host leave as it was.\<close>

definition sameCounts :: "Aggregate \<Rightarrow> Aggregate \<Rightarrow> bool" where
  "sameCounts a b \<longleftrightarrow> ag_Failed b = ag_Failed a \<and> ag_Reachable b = ag_Reachable a \<and> ag_Dirty b = ag_Dirty a \<and>
     ag_Partial b = ag_Partial a \<and> ag_Clean b = ag_Clean a \<and> ag_Hosts b = ag_Hosts a \<and> ag_Results b = ag_Results a"

lemma sameCounts_fold: "sameCounts a (fst st) \<Longrightarrow> sameCounts a (fst (foldl (countFinding host) st fs))"
proof (induction fs arbitrary: st)
  case Nil
  then show ?case by simp
next
  case (Cons f fs)
  have "sameCounts a (fst (countFinding host st f))"
    using Cons.prems countFinding_counts [of host "fst st" "snd st" f] by (cases "countFinding host st f") (simp add: sameCounts_def)
  then show ?case using Cons.IH by simp
qed

lemma sameCounts_reports:
  "sameCounts a (fst st) \<Longrightarrow> sameCounts a (fst (foldl (\<lambda>st r. foldl (countFinding host) st (rp_Findings r)) st rs))"
proof (induction rs arbitrary: st)
  case Nil
  then show ?case by simp
next
  case (Cons r rs)
  show ?case using Cons.IH [OF sameCounts_fold [OF Cons.prems]] by simp
qed

text \<open>The verdict a result counts for.\<close>

definition countsAs :: "bytes \<Rightarrow> HostResult \<Rightarrow> bool" where
  "countsAs v r \<longleftrightarrow> resultOK r \<and> worstVerdict (hr_Reports r) = v"

lemma worstFrom_cases: "worst \<in> {''clean'', ''partial''} \<Longrightarrow> worstFrom worst rs \<in> {''clean'', ''partial'', ''dirty''}"
  by (induction worst rs rule: worstFrom.induct) auto

lemma worstVerdict_cases: "worstVerdict rs = ''clean'' \<or> worstVerdict rs = ''partial'' \<or> worstVerdict rs = ''dirty''"
  using worstFrom_cases [of "''clean''" rs] by (auto simp: worstVerdict_def)

lemma worstFrom_clean:
  "worstFrom worst rs = ''clean'' \<longleftrightarrow> worst = ''clean'' \<and> (\<forall>r\<in>set rs. rp_Verdict r \<noteq> ''dirty'' \<and> rp_Verdict r \<noteq> ''partial'')"
  by (induction worst rs rule: worstFrom.induct) auto

lemma countResult_counts:
  "ag_Failed (fst (countResult st r)) = ag_Failed (fst st) + (if resultOK r then 0 else 1) \<and>
   ag_Reachable (fst (countResult st r)) = ag_Reachable (fst st) + (if resultOK r then 1 else 0) \<and>
   ag_Dirty (fst (countResult st r)) = ag_Dirty (fst st) + (if countsAs ''dirty'' r then 1 else 0) \<and>
   ag_Partial (fst (countResult st r)) = ag_Partial (fst st) + (if countsAs ''partial'' r then 1 else 0) \<and>
   ag_Clean (fst (countResult st r)) = ag_Clean (fst st) + (if countsAs ''clean'' r then 1 else 0) \<and>
   ag_Hosts (fst (countResult st r)) = ag_Hosts (fst st) \<and> ag_Results (fst (countResult st r)) = ag_Results (fst st)"
proof (cases "resultOK r")
  case False
  then show ?thesis by (cases st) (simp add: countResult_def countsAs_def)
next
  case True
  obtain agg m where st: "st = (agg, m)" by (cases st)
  define agg1 where "agg1 = agg\<lparr>ag_Reachable := ag_Reachable agg + 1\<rparr>"
  define v where "v = worstVerdict (hr_Reports r)"
  define agg2 where "agg2 = (if v = ''dirty'' then agg1\<lparr>ag_Dirty := ag_Dirty agg1 + 1\<rparr>
    else if v = ''partial'' then agg1\<lparr>ag_Partial := ag_Partial agg1 + 1\<rparr> else agg1\<lparr>ag_Clean := ag_Clean agg1 + 1\<rparr>)"
  have "countResult st r =
      foldl (\<lambda>st r'. foldl (countFinding (hostName (hr_Host r))) st (rp_Findings r')) (agg2, m) (hr_Reports r)"
    using True by (simp add: countResult_def st Let_def agg1_def agg2_def v_def)
  moreover have "sameCounts agg2 (fst (agg2, m))" by (simp add: sameCounts_def)
  ultimately have s: "sameCounts agg2 (fst (countResult st r))" by (simp only: sameCounts_reports)
  have v: "v = ''clean'' \<or> v = ''partial'' \<or> v = ''dirty''" unfolding v_def by (rule worstVerdict_cases)
  have c: "countsAs x r \<longleftrightarrow> v = x" for x using True by (simp add: countsAs_def v_def)
  show ?thesis
    using v s True unfolding c st by (elim disjE) (simp_all add: sameCounts_def agg2_def agg1_def)
qed

lemma countResults:
  "ag_Failed (fst (foldl countResult st rs)) = ag_Failed (fst st) + length (filter (\<lambda>r. \<not> resultOK r) rs) \<and>
   ag_Reachable (fst (foldl countResult st rs)) = ag_Reachable (fst st) + length (filter resultOK rs) \<and>
   ag_Dirty (fst (foldl countResult st rs)) = ag_Dirty (fst st) + length (filter (countsAs ''dirty'') rs) \<and>
   ag_Partial (fst (foldl countResult st rs)) = ag_Partial (fst st) + length (filter (countsAs ''partial'') rs) \<and>
   ag_Clean (fst (foldl countResult st rs)) = ag_Clean (fst st) + length (filter (countsAs ''clean'') rs) \<and>
   ag_Hosts (fst (foldl countResult st rs)) = ag_Hosts (fst st) \<and> ag_Results (fst (foldl countResult st rs)) = ag_Results (fst st)"
proof (induction rs arbitrary: st)
  case Nil
  then show ?case by simp
next
  case (Cons r rs)
  show ?case using Cons [of "countResult st r"] countResult_counts [of st r] by simp
qed

lemma Aggregated_counts:
  "ag_Hosts (Aggregated iter rs mode) = length rs \<and>
   ag_Failed (Aggregated iter rs mode) = length (filter (\<lambda>r. \<not> resultOK r) rs) \<and>
   ag_Reachable (Aggregated iter rs mode) = length (filter resultOK rs) \<and>
   ag_Dirty (Aggregated iter rs mode) = length (filter (countsAs ''dirty'') rs) \<and>
   ag_Partial (Aggregated iter rs mode) = length (filter (countsAs ''partial'') rs) \<and>
   ag_Clean (Aggregated iter rs mode) = length (filter (countsAs ''clean'') rs) \<and>
   ag_Results (Aggregated iter rs mode) = rs"
proof -
  obtain agg rules hashes where f: "foldl countResult (newAggregate rs mode, [], []) rs = (agg, rules, hashes)"
    by (cases "foldl countResult (newAggregate rs mode, [], []) rs") auto
  have "ag_Failed (newAggregate rs mode) = 0" "ag_Reachable (newAggregate rs mode) = 0" "ag_Dirty (newAggregate rs mode) = 0"
    "ag_Partial (newAggregate rs mode) = 0" "ag_Clean (newAggregate rs mode) = 0" "ag_Hosts (newAggregate rs mode) = length rs"
    "ag_Results (newAggregate rs mode) = rs"
    by (simp_all add: newAggregate_def)
  then show ?thesis using countResults [of "(newAggregate rs mode, [], [])" rs] unfolding f
    by (simp add: Aggregated_def f Let_def)
qed

lemma showNat_first: "hd (showNat n) \<noteq> CHR ''n'' \<and> showNat n \<noteq> []"
proof -
  have "isDigitByte (hd (showNat n))" using showNat_digits [of n] by (auto simp: list_all_iff)
  then show ?thesis using showNat_digits [of n] by (auto simp: isDigitByte_def)
qed

lemma resultLine_allClear:
  "resultLine a = allClear @ newline \<longleftrightarrow> ag_Failed a = 0 \<and> ag_Dirty a = 0 \<and> ag_Partial a = 0"
proof -
  have other: "''RESULT: '' @ showNat n @ t \<noteq> allClear @ newline" for n t
  proof
    assume "''RESULT: '' @ showNat n @ t = allClear @ newline"
    then have "hd (showNat n @ t) = CHR ''n''" by simp
    then show False using showNat_first [of n] by (simp add: hd_append)
  qed
  have "ag_Dirty a > 0 \<Longrightarrow> resultLine a \<noteq> allClear @ newline"
    using other by (simp add: resultLine_def del: append.simps)
  moreover have "ag_Dirty a = 0 \<Longrightarrow> ag_Failed a > 0 \<Longrightarrow> resultLine a \<noteq> allClear @ newline"
    by (simp add: resultLine_def newline_def)
  moreover have "ag_Dirty a = 0 \<Longrightarrow> ag_Failed a = 0 \<Longrightarrow> ag_Partial a > 0 \<Longrightarrow> resultLine a \<noteq> allClear @ newline"
    by (simp add: resultLine_def newline_def)
  moreover have "ag_Dirty a = 0 \<Longrightarrow> ag_Failed a = 0 \<Longrightarrow> ag_Partial a = 0 \<Longrightarrow> resultLine a = allClear @ newline"
    by (simp add: resultLine_def)
  ultimately show ?thesis by blast
qed


definition goodReport :: Report where
  "goodReport = emptyReport\<lparr>rp_Schema := ''1'', rp_Verdict := ''clean''\<rparr>"

definition goodNet :: net where
  "goodNet log c = (unlines [''{}''], [], None)"

definition sampleRun :: "HostResult list" where
  "sampleRun = Run (\<lambda>_. Inr ''d'') (\<lambda>_. goodNet) (\<lambda>_. False) (\<lambda>_. Inr goodReport)
     \<lparr>in_Defaults = zeroDefaults, in_Hosts = [zeroHost\<lparr>ho_Host := ''a''\<rparr>]\<rparr> sampleOptions"

lemma goodNet_reports: "collectReports (\<lambda>_. Inr goodReport) (unlines [''{}'']) None = Inr [goodReport]"
proof -
  have "scanLines (64 * 1048576) (unlines [''{}'']) = ([''{}''], None)"
    by (rule scanLines_unlines) (simp_all add: isLine_def dropCR_def)
  moreover have "trimSpace ''{}'' = ''{}''" by code_simp
  ultimately have "parseReports (\<lambda>_. Inr goodReport) (unlines [''{}'']) = ([goodReport], None)"
    by (simp add: parseReports_def goodReport_def del: unlines_simps)
  then show ?thesis by (simp add: collectReports_def)
qed

lemma sampleRun_result: "\<exists>r. sampleRun = [r] \<and> hr_Err r = [] \<and> hr_Reports r = [goodReport]"
  by (simp add: sampleRun_def Run_def runHost_def sshRun_def scpTo_def deploy_def goodNet_def failure_def Let_def
      goodNet_reports sampleOptions_def del: unlines_simps)


section \<open>Correlated artefacts\<close>

text \<open>What the digests of the estate are meant to be taken from: findings of at least medium severity on hosts that were
  reached, with the host's name.\<close>

definition sighted :: "bytes \<Rightarrow> Finding list \<Rightarrow> (bytes \<times> Finding) set" where
  "sighted host fs = {(host, f) |f. f \<in> set fs \<and> \<not> Rank (fi_Severity f) < Rank SevMedium \<and> fi_SHA256 f \<noteq> []}"

definition estateSightings :: "HostResult list \<Rightarrow> (bytes \<times> Finding) set" where
  "estateSightings rs = (\<Union>r\<in>{r \<in> set rs. resultOK r}. \<Union>rep\<in>set (hr_Reports r). sighted (hostName (hr_Host r)) (rp_Findings rep))"

definition hostsWith :: "(bytes \<times> Finding) set \<Rightarrow> bytes \<Rightarrow> bytes set" where
  "hostsWith S d = {h. \<exists>f. (h, f) \<in> S \<and> fi_SHA256 f = d}"

definition pathsWith :: "(bytes \<times> Finding) set \<Rightarrow> bytes \<Rightarrow> bytes set" where
  "pathsWith S d = {fi_Path f |h f. (h, f) \<in> S \<and> fi_SHA256 f = d}"

definition hashesOK :: "(bytes \<times> hashAcc) list \<Rightarrow> (bytes \<times> Finding) set \<Rightarrow> bool" where
  "hashesOK H S \<longleftrightarrow> distinct (map fst H) \<and>
     (\<forall>d. case map_of H d of
            None \<Rightarrow> hostsWith S d = {} \<and> pathsWith S d = {}
          | Some a \<Rightarrow> distinct (ha_hosts a) \<and> set (ha_hosts a) = hostsWith S d \<and>
              distinct (ha_paths a) \<and> set (ha_paths a) = pathsWith S d)"

lemma hostsWith_insert:
  "hostsWith (insert (h, f) S) d = (if fi_SHA256 f = d then insert h (hostsWith S d) else hostsWith S d)"
  "pathsWith (insert (h, f) S) d = (if fi_SHA256 f = d then insert (fi_Path f) (pathsWith S d) else pathsWith S d)"
  by (auto simp: hostsWith_def pathsWith_def)

lemma countHash_OK:
  assumes "hashesOK H S"
  shows "hashesOK (countHash host f H) (insert (host, f) S)"
proof -
  have at: "case map_of H d of None \<Rightarrow> hostsWith S d = {} \<and> pathsWith S d = {}
      | Some a \<Rightarrow> distinct (ha_hosts a) \<and> set (ha_hosts a) = hostsWith S d \<and> distinct (ha_paths a) \<and> set (ha_paths a) = pathsWith S d"
    for d using assms by (simp add: hashesOK_def)
  have "distinct (map fst (countHash host f H))"
    using assms by (auto simp: hashesOK_def countHash_def Let_def intro: distinct_update)
  moreover have "case map_of (countHash host f H) d of
        None \<Rightarrow> hostsWith (insert (host, f) S) d = {} \<and> pathsWith (insert (host, f) S) d = {}
      | Some a \<Rightarrow> distinct (ha_hosts a) \<and> set (ha_hosts a) = hostsWith (insert (host, f) S) d \<and>
          distinct (ha_paths a) \<and> set (ha_paths a) = pathsWith (insert (host, f) S) d" for d
  proof (cases "d = fi_SHA256 f")
    case True
    then show ?thesis using at [of d] by (auto simp: countHash_def Let_def update_conv' hostsWith_insert split: option.splits)
  next
    case False
    then have "hostsWith (insert (host, f) S) d = hostsWith S d" "pathsWith (insert (host, f) S) d = pathsWith S d"
      by (auto simp: hostsWith_insert)
    then show ?thesis using at [of d] False by (cases "map_of H d") (simp_all add: countHash_def Let_def update_conv')
  qed
  ultimately show ?thesis by (simp add: hashesOK_def)
qed

lemma sighted_Cons:
  "sighted host (f # fs) =
     (if \<not> Rank (fi_Severity f) < Rank SevMedium \<and> fi_SHA256 f \<noteq> [] then insert (host, f) (sighted host fs) else sighted host fs)"
  by (auto simp: sighted_def)

lemma countFinding_OK:
  assumes "hashesOK (snd (snd st)) S"
  shows "hashesOK (snd (snd (countFinding host st f))) (S \<union> sighted host [f])"
proof -
  obtain agg rules hashes where st: "st = (agg, rules, hashes)" by (cases st) auto
  have "sighted host [] = {}" by (simp add: sighted_def)
  then show ?thesis
    using assms countHash_OK [of hashes S host f] by (simp add: st countFinding_def Let_def sighted_Cons)
qed

lemma findings_OK:
  "hashesOK (snd (snd st)) S \<Longrightarrow> hashesOK (snd (snd (foldl (countFinding host) st fs))) (S \<union> sighted host fs)"
proof (induction fs arbitrary: st S)
  case Nil
  then show ?case by (simp add: sighted_def)
next
  case (Cons f fs)
  have "S \<union> sighted host [f] \<union> sighted host fs = S \<union> sighted host (f # fs)" by (auto simp: sighted_def)
  then show ?case using Cons.IH [OF countFinding_OK [OF Cons.prems, of host f]] by simp
qed

lemma reports_OK:
  "hashesOK (snd (snd st)) S \<Longrightarrow>
   hashesOK (snd (snd (foldl (\<lambda>st r. foldl (countFinding host) st (rp_Findings r)) st reps)))
     (S \<union> (\<Union>rep\<in>set reps. sighted host (rp_Findings rep)))"
proof (induction reps arbitrary: st S)
  case Nil
  then show ?case by simp
next
  case (Cons r reps)
  show ?case using Cons.IH [OF findings_OK [OF Cons.prems, of host "rp_Findings r"]] by (simp add: Un_assoc)
qed

lemma estateSightings_single:
  "estateSightings [r] =
     (if resultOK r then (\<Union>rep\<in>set (hr_Reports r). sighted (hostName (hr_Host r)) (rp_Findings rep)) else {})"
  by (auto simp: estateSightings_def)

lemma countResult_OK:
  "hashesOK (snd (snd st)) S \<Longrightarrow> hashesOK (snd (snd (countResult st r))) (S \<union> estateSightings [r])"
proof -
  assume a: "hashesOK (snd (snd st)) S"
  obtain agg m where st: "st = (agg, m)" by (cases st)
  show ?thesis
  proof (cases "resultOK r")
    case True
    obtain agg2 where "countResult st r =
        foldl (\<lambda>st r'. foldl (countFinding (hostName (hr_Host r))) st (rp_Findings r')) (agg2, m) (hr_Reports r)"
      using True by (simp add: countResult_def st Let_def)
    then show ?thesis using reports_OK [of "(agg2, m)" S] a True by (simp add: st estateSightings_single)
  next
    case False
    then show ?thesis using a by (simp add: countResult_def st estateSightings_single)
  qed
qed

lemma results_OK:
  "hashesOK (snd (snd st)) S \<Longrightarrow> hashesOK (snd (snd (foldl countResult st rs))) (S \<union> estateSightings rs)"
proof (induction rs arbitrary: st S)
  case Nil
  then show ?case by (simp add: estateSightings_def)
next
  case (Cons r rs)
  have "S \<union> estateSightings [r] \<union> estateSightings rs = S \<union> estateSightings (r # rs)" by (auto simp: estateSightings_def)
  then show ?case using Cons.IH [OF countResult_OK [OF Cons.prems, of r]] by simp
qed

lemma ranged_mem:
  "(\<And>ks. mset (iter ks) = mset ks) \<Longrightarrow> (d, h) \<in> set (ranged iter H) \<longleftrightarrow> map_of H d = Some h"
proof -
  assume "\<And>ks. mset (iter ks) = mset ks"
  then have "set (iter (map fst H)) = set (map fst H)" by (rule mset_eq_setD)
  then have "(d, h) \<in> set (ranged iter H) \<longleftrightarrow> d \<in> set (map fst H) \<and> h = the (map_of H d)" by (auto simp: ranged_def)
  also have "d \<in> set (map fst H) \<longleftrightarrow> map_of H d \<noteq> None" by (simp add: map_of_eq_None_iff)
  finally show ?thesis by auto
qed

lemma distinct_sort_map: "distinct (map g (sort_key k xs)) \<longleftrightarrow> distinct (map g xs)"
  by (rule mset_eq_imp_distinct_iff) simp

lemma sort_distinct: "distinct xs \<Longrightarrow> sort xs = sorted_list_of_set (set xs)"
  by (simp add: sorted_list_of_set_sort_remdups distinct_remdups_id)

text \<open>C40. The artefacts shown as correlated are, whatever order the maps are walked in, exactly the digests that findings of
  medium severity or more carry on at least two differently named hosts that were reached, each once, with all those
  hosts and all the paths, most widespread first.\<close>

theorem Correlated_exact:
  assumes iter: "\<And>ks. mset (iter ks) = mset ks"
  shows "let C = ag_Correlated (Aggregated iter rs mode); S = estateSightings rs
    in distinct (map co_SHA256 C) \<and> co_SHA256 ` set C = {d. 2 \<le> card (hostsWith S d)} \<and>
       (\<forall>c\<in>set C. co_Hosts c = sorted_list_of_set (hostsWith S (co_SHA256 c)) \<and>
          co_Paths c = sorted_list_of_set (pathsWith S (co_SHA256 c))) \<and>
       sorted (map (\<lambda>c. - int (length (co_Hosts c))) C)"
proof -
  define S where "S = estateSightings rs"
  obtain agg rules H where f: "foldl countResult (newAggregate rs mode, [], []) rs = (agg, rules, H)"
    by (cases "foldl countResult (newAggregate rs mode, [], []) rs") auto
  define L where "L = filter (\<lambda>(_, h). \<not> length (ha_hosts h) < 2) (ranged iter H)"
  define C where "C = ag_Correlated (Aggregated iter rs mode)"
  have C: "C = sort_key (\<lambda>c. - int (length (co_Hosts c))) (map correlation L)"
    by (simp add: C_def Aggregated_def f Let_def L_def)
  have "hashesOK (snd (snd (newAggregate rs mode, [], []))) {}" by (simp add: hashesOK_def hostsWith_def pathsWith_def)
  from results_OK [OF this, of rs] have ok: "hashesOK H S" by (simp add: f S_def)
  have mem: "(d, h) \<in> set L \<longleftrightarrow> map_of H d = Some h \<and> 2 \<le> length (ha_hosts h)" for d h
    using ranged_mem [OF iter, of d h H] by (auto simp: L_def)
  have at: "set (ha_hosts h) = hostsWith S d \<and> distinct (ha_hosts h) \<and> set (ha_paths h) = pathsWith S d \<and> distinct (ha_paths h)"
    if "map_of H d = Some h" for d h
    using ok that by (auto simp: hashesOK_def dest: spec [of _ d])
  have len: "length (ha_hosts h) = card (hostsWith S d)" if "map_of H d = Some h" for d h
    using at [OF that] distinct_card [of "ha_hosts h"] by simp
  have none: "hostsWith S d = {}" if "map_of H d = None" for d
    using ok that by (auto simp: hashesOK_def dest: spec [of _ d])
  have keys: "map (co_SHA256 \<circ> correlation) L = map fst L" by (simp add: correlation_def case_prod_beta)
  have "distinct (iter (map fst H))"
    using ok mset_eq_imp_distinct_iff [OF iter [of "map fst H"]] by (simp add: hashesOK_def)
  then have "distinct (map fst (ranged iter H))" by (simp add: ranged_def comp_def)
  then have "distinct (map fst L)" unfolding L_def by (rule distinct_map_filter)
  then have 1: "distinct (map co_SHA256 C)" by (simp add: C distinct_sort_map keys)
  have "co_SHA256 ` set C = fst ` set L" using keys by (auto simp: C correlation_def case_prod_beta image_image)
  also have "\<dots> = {d. 2 \<le> card (hostsWith S d)}"
  proof (intro set_eqI iffI)
    fix d assume "d \<in> fst ` set L"
    then show "d \<in> {d. 2 \<le> card (hostsWith S d)}" using mem len by force
  next
    fix d assume "d \<in> {d. 2 \<le> card (hostsWith S d)}"
    then have c: "2 \<le> card (hostsWith S d)" by simp
    then obtain h where "map_of H d = Some h" using none [of d] by (cases "map_of H d") auto
    then have "(d, h) \<in> set L" using mem [of d h] len c by simp
    then show "d \<in> fst ` set L" by force
  qed
  finally have 2: "co_SHA256 ` set C = {d. 2 \<le> card (hostsWith S d)}" .
  have 3: "co_Hosts c = sorted_list_of_set (hostsWith S (co_SHA256 c)) \<and>
      co_Paths c = sorted_list_of_set (pathsWith S (co_SHA256 c))" if c: "c \<in> set C" for c
  proof -
    obtain d h where "(d, h) \<in> set L" "c = correlation (d, h)" using c unfolding C by auto
    then show ?thesis using mem [of d h] at [of d h]
      by (auto simp: correlation_def sortedKeys_def sort_distinct)
  qed
  show ?thesis using 1 2 3 by (simp add: C_def [symmetric] S_def [symmetric]) (simp add: C)
qed

definition sampleFinding :: Finding where
  "sampleFinding = zeroFinding\<lparr>fi_RuleID := ''shell'', fi_Severity := SevHigh, fi_SHA256 := ''ab'', fi_Path := ''x.php''\<rparr>"

definition hostWith :: "bytes \<Rightarrow> Finding \<Rightarrow> HostResult" where
  "hostWith name f = \<lparr>hr_Host = zeroHost\<lparr>ho_Host := name\<rparr>,
     hr_Reports = [emptyReport\<lparr>rp_Findings := [f], rp_Verdict := ''dirty''\<rparr>], hr_Err = [], hr_Deployed = False\<rparr>"

definition twoHosts :: "HostResult list" where
  "twoHosts = [hostWith ''a'' sampleFinding, hostWith ''b'' sampleFinding]"

lemma Correlated_exact_witness:
  "map (\<lambda>c. (co_SHA256 c, co_Hosts c)) (ag_Correlated (Aggregated rev twoHosts [])) = [(''ab'', [''a'', ''b''])] \<and>
   co_SHA256 ` set (ag_Correlated (Aggregated rev twoHosts [])) = {d. 2 \<le> card (hostsWith (estateSightings twoHosts) d)}"
proof
  show "map (\<lambda>c. (co_SHA256 c, co_Hosts c)) (ag_Correlated (Aggregated rev twoHosts [])) = [(''ab'', [''a'', ''b''])]"
    by code_simp
  show "co_SHA256 ` set (ag_Correlated (Aggregated rev twoHosts [])) = {d. 2 \<le> card (hostsWith (estateSightings twoHosts) d)}"
    using Correlated_exact [of rev twoHosts "[]"] by (simp add: Let_def)
qed

text \<open>The digests come from the reports as they are. Two hosts that send the same one, shorter than 16 bytes, end the
  controller before it has printed its result.\<close>

lemma short_digest_panics: "correlatedText (ag_Correlated (Aggregated rev twoHosts [])) = None"
  by code_simp

lemma allLines_None_iff: "allLines ls = None \<longleftrightarrow> None \<in> set ls"
  by (induction ls rule: allLines.induct) auto

lemma short_digest_no_summary: "Render uup stamp (Aggregated rev twoHosts []) = None"
  unfolding Render_def by (simp add: allLines_None_iff short_digest_panics)

text \<open>Hosts are told apart by their names: the same artefact on two hosts of one label is not correlated.\<close>

lemma same_label_not_correlated:
  "ag_Correlated (Aggregated rev (map (\<lambda>r. r\<lparr>hr_Host := hr_Host r\<lparr>ho_Label := ''shop''\<rparr>\<rparr>) twoHosts) []) = []"
proof -
  have "map co_SHA256 (ag_Correlated (Aggregated rev (map (\<lambda>r. r\<lparr>hr_Host := hr_Host r\<lparr>ho_Label := ''shop''\<rparr>\<rparr>) twoHosts) [])) = []"
    by code_simp
  then show ?thesis by simp
qed

text \<open>A row of the table never panics: the name, cut in the middle of a character, has at most 33 runes.\<close>

lemma length_runes: "length (runes s) \<le> length s"
proof (induction s rule: runes.induct)
  case (1 s)
  show ?case
  proof (cases "s = []")
    case True
    then show ?thesis by (subst runes.simps) simp
  next
    case False
    then have u: "runes s = fst (decodeRune s) # runes (drop (snd (decodeRune s)) s)" by (subst runes.simps) simp
    have "length (runes (drop (snd (decodeRune s)) s)) \<le> length s - snd (decodeRune s)" using 1 False by simp
    then show ?thesis using decodeRune_width [of s] False unfolding u by (cases s) auto
  qed
qed

lemma decodeRune_inside:
  "0 < i \<Longrightarrow> i < snd (decodeRune s) \<Longrightarrow> i < length s \<and> inRange 0 0xBF (s ! i)"
proof -
  have weaken: "inRange lo hi c \<Longrightarrow> hi \<le> 0xBF \<Longrightarrow> inRange 0 0xBF c" for lo hi c by (simp add: inRange_def)
  assume i: "0 < i" "i < snd (decodeRune s)"
  define cont where "cont j lo hi \<longleftrightarrow> j < length s \<and> inRange lo hi (s ! j)" for j lo hi
  have cont: "cont j lo hi \<Longrightarrow> hi \<le> 0xBF \<Longrightarrow> j < length s \<and> inRange 0 0xBF (s ! j)" for j lo hi
    using weaken by (auto simp: cont_def)
  define ok1 where "ok1 \<longleftrightarrow> 1 < length s \<and> inRange 0 0xBF (s ! 1)"
  have ok1: "cont (Suc 0) lo 191 \<Longrightarrow> ok1" "cont (Suc 0) lo 159 \<Longrightarrow> ok1" "cont (Suc 0) lo 143 \<Longrightarrow> ok1" for lo
    using cont [of "Suc 0" lo] by (simp_all add: ok1_def)
  have "(1 < snd (decodeRune s) \<longrightarrow> ok1) \<and> (2 < snd (decodeRune s) \<longrightarrow> cont 2 0x80 0xBF) \<and>
      (3 < snd (decodeRune s) \<longrightarrow> cont 3 0x80 0xBF) \<and> snd (decodeRune s) \<le> 4"
    unfolding decodeRune_def Let_def cont_def [symmetric] by (auto split: if_split dest: ok1)
  moreover have "i = 1 \<or> i = 2 \<or> i = 3" using i calculation by linarith
  ultimately show ?thesis using i cont [of 2 128 191] cont [of 3 128 191] by (auto simp: ok1_def)
qed

lemma runes_ellipsis: "length (runes (x @ ellipsis)) \<le> length x + 1"
proof (induction x rule: length_induct)
  case (1 x)
  show ?case
  proof (cases "x = []")
    case True
    have "length (runes ellipsis) = 1" by code_simp
    then show ?thesis using True by simp
  next
    case False
    let ?w = "snd (decodeRune (x @ ellipsis))"
    have u: "runes (x @ ellipsis) = fst (decodeRune (x @ ellipsis)) # runes (drop ?w (x @ ellipsis))"
      using False by (subst runes.simps) simp
    have "\<not> inRange 0 0xBF (CHR 0xE2)" by code_simp
    then have "\<not> inRange 0 0xBF ((x @ ellipsis) ! length x)" by (simp add: ellipsis_def)
    then have w: "?w \<le> length x" using decodeRune_inside [of "length x" "x @ ellipsis"] False by (meson length_greater_0_conv not_le)
    have "length (runes (drop ?w x @ ellipsis)) \<le> length (drop ?w x) + 1"
      using 1 [rule_format, of "drop ?w x"] decodeRune_width [of "x @ ellipsis"] False by simp
    then show ?thesis using w decodeRune_width [of "x @ ellipsis"] unfolding u by simp
  qed
qed

lemma truncPad_total:
  assumes "2 \<le> n"
  shows "truncPad s n \<noteq> None"
proof -
  have "length (take (n - 1) s) + 1 \<le> n" using assms by simp
  then have "length (runes (take (n - 1) s @ ellipsis)) \<le> n" using runes_ellipsis [of "take (n - 1) s"] by linarith
  then have "length (runes (trunc s n)) \<le> n" using length_runes [of s] assms by (simp add: trunc_def)
  then show ?thesis by (simp add: truncPad_def blanks_def Let_def)
qed

text \<open>So the summary is lost to a short digest only.\<close>

lemma hostRow_total: "hostRow uup r \<noteq> None"
  using truncPad_total [of 33 "hostName (hr_Host r)"] by (auto simp: hostRow_def split: option.splits)

lemma correlatedText_None: "correlatedText cs = None \<longleftrightarrow> (\<exists>c\<in>set (take 15 cs). length (co_SHA256 c) < 16)"
  by (auto simp: correlatedText_def allLines_None_iff artefactLines_def image_iff)

lemma Render_panics:
  "Render uup stamp a = None \<longleftrightarrow> (\<exists>c\<in>set (take 15 (ag_Correlated a)). length (co_SHA256 c) < 16)"
proof -
  have "None \<notin> hostRow uup ` set (ag_Results a)" by (auto dest: sym simp: hostRow_total)
  then show ?thesis
    unfolding Render_def allLines_None_iff by (simp add: correlatedText_None [symmetric] eq_commute [of None])
qed

end
