(* ===== verification/Spec2Isabelle.thy ===== *)
theory Spec2Isabelle
  imports AgentGate RulePacks YaraRoundtrip AhoCorasick Report Consensus Orders FleetTokens FleetFindings QuerySem
    Watchdog Decrypt ContainSafety Webhooks Governor Estate
begin

text \<open>
  WordEye is a malware scanner for estates of PHP hosts. An agent (\<open>src/internal/agent\<close>) walks the file
  system of a host, lexes what it reads, unwraps encoded and encrypted payloads and puts files and payloads
  through rule packs (\<open>src/internal/rules\<close>) and YARA rules (\<open>src/internal/yara\<close>); it collects findings in a
  report (\<open>src/internal/model\<close>). Agents enrol with a console (\<open>src/internal/console\<close>, tables in
  \<open>src/internal/store\<close>), send it heartbeats and reports and poll it for orders, which signed-in operators
  (\<open>src/internal/authn\<close>) and the scheduler create.

  Conventions. Go strings and byte slices are lists of bytes, a byte is a \<open>char\<close>; structs are records with a
  short prefix on the field names; the integers of the code are \<open>int\<close> with the wrap-around written out where
  a value can reach it, and \<open>nat\<close> for indices the code keeps in range. A table of the database is a list of
  rows in the order of insertion, an SQL statement the filter, update or fold over the rows it stands for;
  an operation of the store takes the tables and returns them updated. Errors and early returns are \<open>Inl\<close> or
  \<open>None\<close>; a panic of the Go runtime is the value \<open>None\<close> of an outer option. Loops are structural recursion,
  recursion on a measure, or carry fuel. Regular expressions, digests, AES, decompressors, the time zone
  database, Unicode tables for code points beyond ASCII, and the random source are parameters of the
  definitions that use them; what is relied on of them is a hypothesis of the theorem.

  Foundations. \<open>Prelude\<close>: byte strings, the loops shared by the components, the collections of simplification
  rules. \<open>GoStd\<close>: \<open>strconv\<close>, \<open>strings\<close> and \<open>bytes\<close> functions, wrap-around. \<open>Codec\<close>: base64 in its four
  alphabets, hexadecimal, with the encoders as the specification of the decoders.

  Matching engines.
  \<^item> \<open>AhoCorasick\<close> (\<open>rules/ahocorasick.go\<close>): construction of the automaton over the flat table of nodes and
    the scan. \<open>MatchSet_exact\<close> relates the scan to occurrence of the literals, \<open>BuildAC_index_correct\<close>
    shows that the breadth-first loop, a \<open>partial_function\<close>, returns.
  \<^item> \<open>YaraRule\<close>, \<open>YaraLexer\<close>, \<open>YaraParser\<close> (\<open>yara/rule.go\<close>, \<open>yara/parse.go\<close>): the syntax tree, the lexer
    with its line numbers, the parser of rule files and of conditions. The condition parser carries fuel; a
    parse of n tokens never needs more than 4 n + 3, so with the fuel given it is total. \<open>YaraRoundtrip\<close>
    prints conditions and reads them back.
  \<^item> \<open>YaraEval\<close> (\<open>yara/eval.go\<close>): compilation, text and hex matchers with the step budget, near(), the
    evaluation of conditions and \<open>Scan\<close>. \<open>YaraMatching\<close> proves the matchers against sets of occurrences,
    \<open>YaraGate\<close> says when the prefilter may skip a rule and where it goes wrong.
  \<^item> \<open>RulePacks\<close> (\<open>rules/rules.go\<close>): merging, gates, match policies with the proximity window, IOC strings.

  The agent.
  \<^item> \<open>PhpLexer\<close> (\<open>agent/phplex.go\<close>) and \<open>AgentGate\<close> (\<open>heuristic.go\<close>, \<open>agent.go\<close>, \<open>fsscan.go\<close>): the views of a file
    and the combination of prefilter and YARA engine, which loses no match of a rule that is safe to gate.
  \<^item> \<open>PhpConst\<close> (\<open>agent/phpconst.go\<close>): the constant folder. Its recursion through variables, calls and
    argument lists is cut by a budget that each step lowers; the budget plus one is the fuel, and
    \<open>folding_terminates\<close> removes the fuel again: the unfolded equation of the code holds. \<open>PhpFold\<close> gives
    expressions a denotation without cache, budget and order and proves the folder sound for it, through
    the locale \<open>const_evaluator\<close> interpreted on the folder.
  \<^item> \<open>Deobf\<close> (\<open>agent/deobf.go\<close>): which runs are tried, the decoders, and the walk over the layers. The walk
    carries three levels of fuel, the code's own bound on the depth. \<open>Decrypt\<close> (\<open>agent/decrypt.go\<close>): decrypt
    calls whose arguments fold, and keys guessed from the literals of the file.
  \<^item> \<open>Governor\<close> (\<open>govern/govern.go\<close>, \<open>cpuquota_linux.go\<close>): the gate every read passes. Over rationals, and with the
    length of every sleep a parameter, the bytes let through are bounded by the rate and the gate always opens:
    the fuel is the polls of one minute and of the time the scan has already run.
  \<^item> \<open>GoPath\<close>, \<open>Contain\<close>, \<open>ContainSafety\<close> (\<open>agent/contain.go\<close>, \<open>contain_linux.go\<close>): containment over an explicit host
    with its files, processes and a log of what was done. The order of the steps, the dry run, the roll-back
    of a file whose removal breaks the site, and the place of the evidence.
  \<^item> \<open>Report\<close> (\<open>model/report.go\<close>): the operations on a report and the verdict \<open>Finalize\<close> derives.

  The console.
  \<^item> \<open>Operators\<close> (\<open>authn/authn.go\<close>, \<open>store/auth.go\<close>), \<open>ConsoleAuth\<close> (\<open>console/api.go\<close>, \<open>server.go\<close>,
    \<open>permissions.go\<close>): accounts, second factor, lockout, sessions, the guards of the routes. A transition
    system over the requests carries the invariant that no write passes without both factors.
  \<^item> \<open>Fleet\<close>, \<open>FleetTokens\<close>, \<open>FleetFindings\<close> (\<open>store/store.go\<close>, \<open>estates.go\<close>, \<open>console/ingest.go\<close>):
    enrolment tokens, agents, heartbeats, findings and reports as the agents deliver them.
  \<^item> \<open>Commands\<close> (\<open>store/store.go\<close>, \<open>console/api.go\<close>, \<open>ingest.go\<close>): the orders and their handlers. \<open>Orders\<close>
    runs sign-in, ordering, approval, scheduling and polling in any interleaving: destructive orders are
    handed out only after approval, and the table refines the life cycle of an order.
  \<^item> \<open>Schedules\<close>, \<open>Scheduler\<close>, \<open>Watchdog\<close> (\<open>store/schedules.go\<close>, \<open>console/scheduler.go\<close>,
    \<open>console/watchdog.go\<close>): when a schedule fires, what a tick does, which hosts are reported silent.
  \<^item> \<open>Webhooks\<close> (\<open>store/webhooks.go\<close>, \<open>console/webhooks.go\<close>, \<open>integrations.go\<close>): which artefacts are ticketed, once
    each, under which link.
  \<^item> \<open>Consensus\<close> (\<open>store/consensus.go\<close>): what may be attested to agents because the estate agrees on it.
  \<^item> \<open>QueryLang\<close>, \<open>QuerySem\<close> (\<open>store/query.go\<close>): the query language for findings. The compiler carries fuel
    (6 n + 6 for n tokens left); the compiled text is given the three-valued semantics of SQL and agrees
    with the meaning of the query.

  Without a console.
  \<^item> \<open>GoScan\<close>, \<open>Controller\<close> (\<open>controller/inventory.go\<close>, \<open>run.go\<close>): the inventory and the run of a host over ssh, with the
    remote command line read back by a model of the shell. \<open>Estate\<close> (\<open>controller/aggregate.go\<close>): the summary over the
    hosts. Its counts add up, so its all-clear covers every host, and its correlations are exact.

  Not modelled. The walk over the file system, the checks of the operating system, /proc, the network tables
  and the databases: they are readings of the host with little logic of their own. The heuristic score is a
  table of weights over regular expressions, which are parameters here. Pages, installers, flag parsing
  and the transport of the agent are input and output. YAML and JSON decoding, the crypto
  primitives and the SQL engine belong to libraries. Concurrency is modelled where the code relies on it:
  each operation of the store is one statement or transaction and hence one step.
\<close>

end
